(* ===== verification/Prelude.thy ===== *)
theory Prelude
  imports Main "HOL-Library.Word" "HOL-Library.AList"
begin

text \<open>
  Shared vocabulary of the development: the widths of the Rust integers, the checked and
  saturating operations of the standard library on them, little-endian byte strings, results,
  and the two containers the code iterates over. A \<open>HashMap\<close> that is only looked up is a map
  \<open>'k \<rightharpoonup> 'v\<close>; a \<open>HashMap\<close> the code iterates over is an association list whose order stands for
  the (unspecified) iteration order; a \<open>BTreeMap\<close> is an association list sorted by key.
  Plain \<open>+\<close>, \<open>-\<close> and \<open>*\<close> on machine integers are word operations: they wrap, as a release
  build does.
\<close>

named_theorems u64_arith \<open>reading checked and saturating machine arithmetic in nat\<close>
named_theorems result_simps \<open>inversion of successful results\<close>

type_synonym u8 = "8 word"
type_synonym u32 = "32 word"
type_synonym u64 = "64 word"
type_synonym u128 = "128 word"
type_synonym bytes = "u8 list"

section \<open>Machine arithmetic\<close>

definition checked_add :: "'a::len word \<Rightarrow> 'a word \<Rightarrow> 'a word option" where
  "checked_add a b = (if unat a + unat b < 2 ^ LENGTH('a) then Some (a + b) else None)"

definition checked_sub :: "'a::len word \<Rightarrow> 'a word \<Rightarrow> 'a word option" where
  "checked_sub a b = (if b \<le> a then Some (a - b) else None)"

definition saturating_add :: "'a::len word \<Rightarrow> 'a word \<Rightarrow> 'a word" where
  "saturating_add a b = (if unat a + unat b < 2 ^ LENGTH('a) then a + b else - 1)"

definition saturating_sub :: "'a::len word \<Rightarrow> 'a word \<Rightarrow> 'a word" where
  "saturating_sub a b = (if b \<le> a then a - b else 0)"

lemma unat_add_no_overflow [u64_arith]:
  "unat a + unat b < 2 ^ LENGTH('a) \<Longrightarrow> unat (a + b) = unat a + unat (b :: 'a::len word)"
  by (simp add: unat_word_ariths)

lemma unat_sub_no_underflow [u64_arith]: "b \<le> a \<Longrightarrow> unat (a - b) = unat a - unat (b :: 'a::len word)"
  by (rule unat_sub)

lemma checked_add_Some [u64_arith]:
  "checked_add a b = Some c \<longleftrightarrow> unat a + unat b < 2 ^ LENGTH('a) \<and> c = a + (b :: 'a::len word)"
  by (auto simp: checked_add_def)

lemma checked_add_None [u64_arith]:
  "checked_add a b = None \<longleftrightarrow> 2 ^ LENGTH('a) \<le> unat a + unat (b :: 'a::len word)"
  by (auto simp: checked_add_def)

lemma checked_add_unat: "checked_add a b = Some c \<Longrightarrow> unat c = unat a + unat (b :: 'a::len word)"
  by (auto simp: u64_arith)

lemma checked_sub_unat: "checked_sub a b = Some c \<Longrightarrow> unat a = unat c + unat (b :: 'a::len word)"
  by (auto simp: checked_sub_def u64_arith word_le_nat_alt split: if_splits)

lemma unat_saturating_add [u64_arith]:
  "unat (saturating_add a b) = min (unat a + unat b) (2 ^ LENGTH('a) - 1)"
  for a b :: "'a::len word"
  by (auto simp: saturating_add_def u64_arith unsigned_minus_1_eq_mask mask_eq_exp_minus_1)

lemma unat_saturating_sub [u64_arith]:
  "unat (saturating_sub a b) = unat a - unat b" for a b :: "'a::len word"
  by (auto simp: saturating_sub_def u64_arith word_le_nat_alt)

lemma unat_u64_less [simp]: "unat (w :: u64) < 18446744073709551616"
  using unsigned_less [of w, where ?'a = nat] by simp

lemma of_nat_unat_u64 [simp]: "of_nat (unat (w :: u64)) = w"
  by simp

lemma unat_of_nat_u64: "n < 2 ^ 64 \<Longrightarrow> unat (of_nat n :: u64) = n"
  by (simp add: unat_of_nat)

lemma of_nat_u64_eq_0: "n < 2 ^ 64 \<Longrightarrow> (of_nat n :: u64) = 0 \<longleftrightarrow> n = 0"
  by (metis unat_of_nat_u64 unat_eq_zero)

lemma saturating_sub_le: "saturating_sub a b \<le> a" for a b :: "'a::len word"
  by (simp add: word_le_nat_alt unat_saturating_sub)

section \<open>Little-endian byte strings\<close>

text \<open>\<open>to_le_bytes\<close> and \<open>from_le_bytes\<close> of the fixed-width integers.\<close>

primrec nat_le_bytes :: "nat \<Rightarrow> nat \<Rightarrow> bytes" where
  "nat_le_bytes 0 k = []"
| "nat_le_bytes (Suc n) k = of_nat (k mod 256) # nat_le_bytes n (k div 256)"

fun le_bytes_nat :: "bytes \<Rightarrow> nat" where
  "le_bytes_nat [] = 0"
| "le_bytes_nat (b # bs) = unat b + 256 * le_bytes_nat bs"

definition to_le_bytes :: "u64 \<Rightarrow> bytes" where
  "to_le_bytes w = nat_le_bytes 8 (unat w)"

definition to_le_bytes_u32 :: "u32 \<Rightarrow> bytes" where
  "to_le_bytes_u32 w = nat_le_bytes 4 (unat w)"

definition from_le_bytes_u32 :: "bytes \<Rightarrow> u32" where
  "from_le_bytes_u32 bs = of_nat (le_bytes_nat bs)"

lemma length_nat_le_bytes [simp]: "length (nat_le_bytes n k) = n"
  by (induction n arbitrary: k) auto

lemma le_bytes_nat_bytes: "le_bytes_nat (nat_le_bytes n k) = k mod 256 ^ n"
proof (induction n arbitrary: k)
  case (Suc n)
  have "unat (of_nat (k mod 256) :: u8) = k mod 256"
    by (simp add: unat_of_nat)
  with Suc show ?case by (simp add: mod_mult2_eq)
qed simp

lemma length_to_le_bytes [simp]: "length (to_le_bytes w) = 8"
  by (simp add: to_le_bytes_def)

lemma length_to_le_bytes_u32 [simp]: "length (to_le_bytes_u32 w) = 4"
  by (simp add: to_le_bytes_u32_def)

lemma le_bytes_nat_to_le_bytes [simp]: "le_bytes_nat (to_le_bytes w) = unat w"
  using unsigned_less [of w, where ?'a = nat] by (simp add: to_le_bytes_def le_bytes_nat_bytes)

lemma le_bytes_nat_to_le_bytes_u32 [simp]: "le_bytes_nat (to_le_bytes_u32 w) = unat w"
  using unsigned_less [of w, where ?'a = nat] by (simp add: to_le_bytes_u32_def le_bytes_nat_bytes)

lemma to_le_bytes_inject [simp]: "to_le_bytes a = to_le_bytes b \<longleftrightarrow> a = b"
  by (metis le_bytes_nat_to_le_bytes word_unat_eq_iff)

lemma from_le_bytes_u32_to_le_bytes [simp]: "from_le_bytes_u32 (to_le_bytes_u32 w) = w"
  by (simp add: from_le_bytes_u32_def)

section \<open>Results\<close>

text \<open>\<open>Result<T, E>\<close> is \<open>'e + 'a\<close> with \<open>Inl\<close> the error; \<open>rbind\<close> is the \<open>?\<close> operator.\<close>

definition rbind :: "'e + 'a \<Rightarrow> ('a \<Rightarrow> 'e + 'b) \<Rightarrow> 'e + 'b" where
  "rbind m f = (case m of Inl e \<Rightarrow> Inl e | Inr a \<Rightarrow> f a)"

definition ok_or :: "'a option \<Rightarrow> 'e \<Rightarrow> 'e + 'a" where
  "ok_or x e = (case x of None \<Rightarrow> Inl e | Some a \<Rightarrow> Inr a)"

lemma rbind_simps [simp]: "rbind (Inl e) f = Inl e" "rbind (Inr a) f = f a"
  by (simp_all add: rbind_def)

lemma ok_or_simps [simp]: "ok_or None e = Inl e" "ok_or (Some a) e = Inr a"
  by (simp_all add: ok_or_def)

lemma rbind_Inr [result_simps]: "rbind m f = Inr r \<longleftrightarrow> (\<exists>a. m = Inr a \<and> f a = Inr r)"
  by (cases m) auto

lemma ok_or_Inr [result_simps]: "ok_or x e = Inr a \<longleftrightarrow> x = Some a"
  by (cases x) auto

lemma if_Inl_Inr [result_simps]: "(if b then Inl e else m) = Inr r \<longleftrightarrow> \<not> b \<and> m = Inr r"
  by simp

section \<open>Lists\<close>

text \<open>\<open>slice.get(i)\<close>, \<open>iter().find\<close> and \<open>iter().filter().count()\<close>.\<close>

definition nth_opt :: "'a list \<Rightarrow> nat \<Rightarrow> 'a option" where
  "nth_opt xs i = (if i < length xs then Some (xs ! i) else None)"

lemma nth_opt_simps [simp]:
  "nth_opt [] i = None"
  "nth_opt (x # xs) 0 = Some x"
  "nth_opt (x # xs) (Suc i) = nth_opt xs i"
  by (simp_all add: nth_opt_def)

lemma nth_opt_numeral [simp]:
  "nth_opt (x # xs) (numeral k) = nth_opt xs (pred_numeral k)"
  by (simp add: numeral_eq_Suc)

lemma nth_opt_Some: "nth_opt xs i = Some x \<longleftrightarrow> i < length xs \<and> xs ! i = x"
  by (simp add: nth_opt_def)

lemma nth_opt_Some_mem: "nth_opt xs i = Some x \<Longrightarrow> x \<in> set xs"
  by (auto simp: nth_opt_Some)

definition count_true :: "bool list \<Rightarrow> nat" where
  "count_true bs = length (filter id bs)"

lemma count_true_simps [simp]:
  "count_true [] = 0"
  "count_true (b # bs) = (if b then 1 else 0) + count_true bs"
  "count_true (bs @ cs) = count_true bs + count_true cs"
  "count_true (replicate n False) = 0"
  by (simp_all add: count_true_def filter_replicate)

lemma count_true_le_length: "count_true bs \<le> length bs"
  by (simp add: count_true_def)

lemma set_map_filter: "y \<in> set (List.map_filter f xs) \<longleftrightarrow> (\<exists>x \<in> set xs. f x = Some y)"
  by (force simp: List.map_filter_def)

section \<open>Ordered maps\<close>

text \<open>A \<open>BTreeMap\<close>: insertion keeps the keys sorted and replaces the value of a present key.\<close>

fun omap_insert :: "'k::linorder \<Rightarrow> 'v \<Rightarrow> ('k \<times> 'v) list \<Rightarrow> ('k \<times> 'v) list" where
  "omap_insert k v [] = [(k, v)]"
| "omap_insert k v ((k', v') # m) =
     (if k < k' then (k, v) # (k', v') # m
      else if k = k' then (k, v) # m
      else (k', v') # omap_insert k v m)"

abbreviation omap_sorted :: "('k::linorder \<times> 'v) list \<Rightarrow> bool" where
  "omap_sorted m \<equiv> sorted_wrt (<) (map fst m)"

lemma map_of_omap_insert [simp]: "map_of (omap_insert k v m) = (map_of m)(k \<mapsto> v)"
  by (induction k v m rule: omap_insert.induct) auto

lemma keys_omap_insert [simp]: "fst ` set (omap_insert k v m) = insert k (fst ` set m)"
  by (induction k v m rule: omap_insert.induct) auto

lemma omap_sorted_insert [intro]: "omap_sorted m \<Longrightarrow> omap_sorted (omap_insert k v m)"
proof (induction k v m rule: omap_insert.induct)
  case (2 k v k' v' m)
  have "fst ` set (omap_insert k v m) = insert k (fst ` set m)" by simp
  with 2 show ?case by (auto simp: image_iff)
qed simp

end
