(* ===== verification/Types.thy ===== *)
theory Types
  imports Prelude
begin

text \<open>
  The data of \<open>crates/hotmint-types\<close>: hashes, blocks, votes, certificates, evidence, epochs,
  contexts and the two message enums. Structs are records whose fields carry a short prefix
  (record fields share one name space), enums are datatypes with the source's constructors, the
  number newtypes \<open>ViewNumber\<close>, \<open>Height\<close>, \<open>EpochNumber\<close> and \<open>ValidatorId\<close> are \<open>u64\<close>.
\<close>

section \<open>Hashes\<close>

text \<open>\<open>[u8; 32]\<close>: the byte strings of length 32.\<close>

typedef hash32 = "{bs :: bytes. length bs = 32}" morphisms bytes_of Hash32
  by (rule exI [of _ "replicate 32 0"]) simp

lemma length_bytes_of [simp]: "length (bytes_of h) = 32"
  using bytes_of [of h] by simp

lemma bytes_of_Hash32 [simp]: "length bs = 32 \<Longrightarrow> bytes_of (Hash32 bs) = bs"
  by (simp add: Hash32_inverse)

lemma bytes_of_eq_iff [simp]: "bytes_of a = bytes_of b \<longleftrightarrow> a = b"
  by (rule bytes_of_inject)

text \<open>\<open>[b; 32]\<close>, the array with one byte repeated.\<close>

definition hash_rep :: "u8 \<Rightarrow> hash32" where
  "hash_rep b = Hash32 (replicate 32 b)"

lemma bytes_of_hash_rep [simp]: "bytes_of (hash_rep b) = replicate 32 b"
  by (simp add: hash_rep_def)

lemma hash_rep_inject [simp]: "hash_rep a = hash_rep b \<longleftrightarrow> a = b"
proof -
  have "hash_rep a = hash_rep b \<longleftrightarrow> bytes_of (hash_rep a) = bytes_of (hash_rep b)"
    by (simp only: bytes_of_eq_iff)
  then show ?thesis by (simp add: replicate_eq_replicate)
qed

text \<open>Arrays are compared lexicographically, as \<open>Ord\<close> for \<open>[u8; 32]\<close> does.\<close>

fun bytes_less :: "bytes \<Rightarrow> bytes \<Rightarrow> bool" where
  "bytes_less [] ys = (ys \<noteq> [])"
| "bytes_less (x # xs) [] = False"
| "bytes_less (x # xs) (y # ys) = (x < y \<or> x = y \<and> bytes_less xs ys)"

lemma bytes_less_irrefl [simp]: "\<not> bytes_less xs xs"
  by (induction xs) auto

lemma bytes_less_trans: "bytes_less xs ys \<Longrightarrow> bytes_less ys zs \<Longrightarrow> bytes_less xs zs"
proof (induction xs ys arbitrary: zs rule: bytes_less.induct)
  case (1 ys)
  then show ?case by (cases ys; cases zs) auto
next
  case (3 x xs y ys)
  then show ?case by (cases zs) auto
qed simp

lemma bytes_less_linear: "bytes_less xs ys \<or> xs = ys \<or> bytes_less ys xs"
  by (induction xs ys rule: bytes_less.induct) auto

instantiation hash32 :: linorder
begin

definition less_hash32 :: "hash32 \<Rightarrow> hash32 \<Rightarrow> bool" where
  "less_hash32 a b = bytes_less (bytes_of a) (bytes_of b)"

definition less_eq_hash32 :: "hash32 \<Rightarrow> hash32 \<Rightarrow> bool" where
  "less_eq_hash32 a b = (a = b \<or> bytes_less (bytes_of a) (bytes_of b))"

instance
proof
  fix a b c :: hash32
  show "a < b \<longleftrightarrow> a \<le> b \<and> \<not> b \<le> a"
    using bytes_less_trans [of "bytes_of a" "bytes_of b" "bytes_of a"]
    by (auto simp: less_hash32_def less_eq_hash32_def)
  show "a \<le> a" by (simp add: less_eq_hash32_def)
  show "a \<le> b \<Longrightarrow> b \<le> c \<Longrightarrow> a \<le> c"
    using bytes_less_trans by (auto simp: less_eq_hash32_def)
  show "a \<le> b \<Longrightarrow> b \<le> a \<Longrightarrow> a = b"
    using bytes_less_trans [of "bytes_of a" "bytes_of b" "bytes_of a"]
    by (auto simp: less_eq_hash32_def)
  show "a \<le> b \<or> b \<le> a"
    using bytes_less_linear [of "bytes_of a" "bytes_of b"]
    by (auto simp: less_eq_hash32_def)
qed

end

instantiation hash32 :: equal
begin

definition equal_hash32 :: "hash32 \<Rightarrow> hash32 \<Rightarrow> bool" where
  "equal_hash32 a b = (bytes_of a = bytes_of b)"

instance
  by standard (simp add: equal_hash32_def)

end

type_synonym BlockHash = hash32
type_synonym TxHash = hash32

definition GENESIS_HASH :: BlockHash where
  "GENESIS_HASH = hash_rep 0"

definition is_genesis :: "BlockHash \<Rightarrow> bool" where
  "is_genesis h = (bytes_of h = replicate 32 0)"

section \<open>Numbers\<close>

type_synonym ViewNumber = u64
type_synonym Height = u64
type_synonym EpochNumber = u64
type_synonym ValidatorId = u64

text \<open>\<open>next\<close> of the number newtypes: \<open>None\<close> is the panic of \<open>checked_add(1).expect(..)\<close>.\<close>

definition next_view :: "ViewNumber \<Rightarrow> ViewNumber option" where
  "next_view v = checked_add v 1"

definition next_height :: "Height \<Rightarrow> Height option" where
  "next_height h = checked_add h 1"

definition next_epoch :: "EpochNumber \<Rightarrow> EpochNumber option" where
  "next_epoch e = checked_add e 1"

lemma checked_add_1_Some:
  "checked_add a 1 = Some b \<longleftrightarrow> Suc (unat a) < 2 ^ LENGTH('a) \<and> b = a + 1"
  for a :: "'a::len word"
  by (cases "LENGTH('a) = 1") (auto simp: checked_add_def)

lemma next_strict: "checked_add a 1 = Some b \<Longrightarrow> unat b = Suc (unat a) \<and> a < b"
  for a :: u64
  using checked_add_unat [of a 1 b] by (auto simp: word_less_nat_alt)

section \<open>Keys, signatures and votes\<close>

type_synonym Signature = bytes
type_synonym PublicKey = bytes

record AggregateSignature =
  ag_signers :: "bool list"
  ag_signatures :: "Signature list"

datatype VoteType = Vote | Vote2

record Vote =
  v_epoch :: EpochNumber
  v_block_hash :: BlockHash
  v_view :: ViewNumber
  v_validator :: ValidatorId
  v_signature :: Signature
  v_vote_type :: VoteType
  v_extension :: "bytes option"

record EquivocationProof =
  ev_validator :: ValidatorId
  ev_view :: ViewNumber
  ev_vote_type :: VoteType
  ev_epoch :: EpochNumber
  ev_block_hash_a :: BlockHash
  ev_signature_a :: Signature
  ev_extension_a :: "bytes option"
  ev_block_hash_b :: BlockHash
  ev_signature_b :: Signature
  ev_extension_b :: "bytes option"

section \<open>Blocks\<close>

record Block =
  b_height :: Height
  b_parent_hash :: BlockHash
  b_view :: ViewNumber
  b_proposer :: ValidatorId
  b_timestamp :: u64
  b_payload :: bytes
  b_app_hash :: BlockHash
  b_evidence :: "EquivocationProof list"
  b_hash :: BlockHash

definition genesis_block :: Block where
  "genesis_block =
     \<lparr> b_height = 0, b_parent_hash = GENESIS_HASH, b_view = 0, b_proposer = 0,
       b_timestamp = 0, b_payload = [], b_app_hash = GENESIS_HASH, b_evidence = [],
       b_hash = GENESIS_HASH \<rparr>"

section \<open>Certificates\<close>

record QuorumCertificate =
  qc_block_hash :: BlockHash
  qc_view :: ViewNumber
  qc_aggregate_signature :: AggregateSignature
  qc_epoch :: EpochNumber

definition qc_rank :: "QuorumCertificate \<Rightarrow> ViewNumber" where
  "qc_rank qc = qc_view qc"

record DoubleCertificate =
  dc_inner_qc :: QuorumCertificate
  dc_outer_qc :: QuorumCertificate
  dc_vote_extensions :: "(ValidatorId \<times> bytes) list"

record TimeoutCertificate =
  tc_view :: ViewNumber
  tc_aggregate_signature :: AggregateSignature
  tc_highest_qcs :: "QuorumCertificate option list"

text \<open>
  \<open>TimeoutCertificate::highest_qc\<close>: among the QCs of the marked signers, the one of the highest
  view. \<open>Iterator::max_by_key\<close> keeps the last of several maximal elements.
\<close>

fun max_by_view :: "QuorumCertificate list \<Rightarrow> QuorumCertificate option" where
  "max_by_view [] = None"
| "max_by_view (q # qs) =
     (case max_by_view qs of None \<Rightarrow> Some q
      | Some r \<Rightarrow> Some (if qc_view q > qc_view r then q else r))"

definition highest_qc_of_tc :: "TimeoutCertificate \<Rightarrow> QuorumCertificate option" where
  "highest_qc_of_tc tc =
     max_by_view
       (List.map_filter
          (\<lambda>(idx, qc). case nth_opt (ag_signers (tc_aggregate_signature tc)) idx of
             Some True \<Rightarrow> qc | _ \<Rightarrow> None)
          (List.enumerate 0 (tc_highest_qcs tc)))"

lemma max_by_view_None [simp]: "max_by_view qs = None \<longleftrightarrow> qs = []"
  by (cases qs) (auto split: option.splits)

lemma max_by_view_Some:
  "max_by_view qs = Some q \<Longrightarrow> q \<in> set qs \<and> (\<forall>r \<in> set qs. qc_view r \<le> qc_view q)"
proof (induction qs arbitrary: q)
  case (Cons x qs)
  show ?case
  proof (cases "max_by_view qs")
    case None
    with Cons.prems show ?thesis by simp
  next
    case (Some r)
    from Cons.IH [OF Some] Cons.prems Some show ?thesis
      by (auto split: if_splits)
  qed
qed simp

section \<open>Validators and epochs\<close>

record ValidatorInfo =
  vi_id :: ValidatorId
  vi_public_key :: PublicKey
  vi_power :: u64

record ValidatorSet =
  vs_validators :: "ValidatorInfo list"
  vs_total_power :: u64
  vs_index_map :: "ValidatorId \<rightharpoonup> nat"

record ValidatorUpdate =
  vu_id :: ValidatorId
  vu_public_key :: PublicKey
  vu_power :: u64

record EventAttribute =
  ea_key :: string
  ea_value :: string

record Event =
  evt_type :: string
  evt_attributes :: "EventAttribute list"

record EndBlockResponse =
  ebr_validator_updates :: "ValidatorUpdate list"
  ebr_events :: "Event list"
  ebr_app_hash :: BlockHash

definition default_EndBlockResponse :: EndBlockResponse where
  "default_EndBlockResponse =
     \<lparr> ebr_validator_updates = [], ebr_events = [], ebr_app_hash = GENESIS_HASH \<rparr>"

record Epoch =
  ep_number :: EpochNumber
  ep_start_view :: ViewNumber
  ep_validator_set :: ValidatorSet

definition epoch_new :: "EpochNumber \<Rightarrow> ViewNumber \<Rightarrow> ValidatorSet \<Rightarrow> Epoch" where
  "epoch_new n v vs = \<lparr> ep_number = n, ep_start_view = v, ep_validator_set = vs \<rparr>"

definition epoch_genesis :: "ValidatorSet \<Rightarrow> Epoch" where
  "epoch_genesis vs = epoch_new 0 1 vs"

definition contains_view :: "Epoch \<Rightarrow> ViewNumber \<Rightarrow> bool" where
  "contains_view e v = (v \<ge> ep_start_view e)"

record BlockContext =
  ctx_height :: Height
  ctx_view :: ViewNumber
  ctx_proposer :: ValidatorId
  ctx_epoch :: EpochNumber
  ctx_epoch_start_view :: ViewNumber
  ctx_validator_set :: ValidatorSet
  ctx_timestamp :: u64
  ctx_vote_extensions :: "(ValidatorId \<times> bytes) list"

section \<open>Messages\<close>

datatype ConsensusMessage =
    Propose Block QuorumCertificate "DoubleCertificate option" Signature "Block list"
  | VoteMsg Vote
  | Prepare QuorumCertificate Signature
  | Vote2Msg Vote
  | Wish ViewNumber ValidatorId "QuorumCertificate option" Signature
  | TimeoutCert TimeoutCertificate
  | StatusCert "QuorumCertificate option" ValidatorId Signature
  | Evidence EquivocationProof

end
