(* ===== verification/Signing.thy ===== *)
theory Signing
  imports Types
begin

text \<open>
  The canonical byte strings the program hashes and signs: \<open>Block::compute_hash\<close>,
  \<open>QuorumCertificate::digest\<close>, \<open>Vote::signing_bytes\<close>, \<open>wish_signing_bytes\<close> and the status,
  proposal and prepare strings of \<open>view_protocol.rs\<close>. Blake3 is the parameter \<open>blake3\<close>. The
  locale \<open>prefix_code\<close> is the contract of a self-delimiting encoder; its interpretations on the
  encoders below give that no two different contents share a byte string.
\<close>

section \<open>Self-delimiting encoders\<close>

locale prefix_code =
  fixes enc :: "'a \<Rightarrow> 'b list"
    and sized :: "'a \<Rightarrow> bool"
  assumes cancel: "\<lbrakk> sized x; sized y; enc x @ r = enc y @ s \<rbrakk> \<Longrightarrow> x = y \<and> r = s"
begin

lemma append_eq_iff: "\<lbrakk> sized x; sized y \<rbrakk> \<Longrightarrow> enc x @ r = enc y @ s \<longleftrightarrow> x = y \<and> r = s"
  using cancel by blast

lemma enc_eq_iff: "\<lbrakk> sized x; sized y \<rbrakk> \<Longrightarrow> enc x = enc y \<longleftrightarrow> x = y"
  using append_eq_iff [of x y "[]" "[]"] by simp

lemma concat_eq_iff:
  "\<lbrakk> \<forall>x \<in> set xs. sized x; \<forall>y \<in> set ys. sized y; length xs = length ys \<rbrakk> \<Longrightarrow>
     concat (map enc xs) @ r = concat (map enc ys) @ s \<longleftrightarrow> xs = ys \<and> r = s"
proof (induction xs arbitrary: ys)
  case (Cons x xs)
  then obtain y ys' where "ys = y # ys'" by (cases ys) auto
  with Cons show ?case by (auto simp: append_eq_iff)
qed simp

end

definition fits :: "'a list \<Rightarrow> bool" where
  "fits bs \<longleftrightarrow> length bs < 2 ^ 64"

lemma of_nat_length_inject:
  "\<lbrakk> fits xs; fits ys \<rbrakk> \<Longrightarrow> (of_nat (length xs) :: u64) = of_nat (length ys) \<longleftrightarrow> length xs = length ys"
  unfolding fits_def by (metis unat_of_nat_u64)

interpretation u64_code: prefix_code to_le_bytes "\<lambda>_. True"
  by unfold_locales (simp add: append_eq_append_conv)

interpretation hash_code: prefix_code bytes_of "\<lambda>_. True"
  by unfold_locales (simp add: append_eq_append_conv bytes_of_inject)

section \<open>Block and certificate preimages\<close>

text \<open>\<open>update_len_prefixed\<close> and the encoding of an optional vote extension.\<close>

definition update_len_prefixed :: "bytes \<Rightarrow> bytes" where
  "update_len_prefixed bs = to_le_bytes (of_nat (length bs)) @ bs"

definition extension_bytes :: "bytes option \<Rightarrow> bytes" where
  "extension_bytes ext = (case ext of Some e \<Rightarrow> [1] @ update_len_prefixed e | None \<Rightarrow> [0])"

definition vote_type_byte :: "VoteType \<Rightarrow> u8" where
  "vote_type_byte t = (case t of Vote \<Rightarrow> 0 | Vote2 \<Rightarrow> 1)"

definition evidence_bytes :: "EquivocationProof \<Rightarrow> bytes" where
  "evidence_bytes ev =
     to_le_bytes (ev_validator ev) @ to_le_bytes (ev_view ev) @
     [vote_type_byte (ev_vote_type ev)] @ to_le_bytes (ev_epoch ev) @
     bytes_of (ev_block_hash_a ev) @ update_len_prefixed (ev_signature_a ev) @
     extension_bytes (ev_extension_a ev) @
     bytes_of (ev_block_hash_b ev) @ update_len_prefixed (ev_signature_b ev) @
     extension_bytes (ev_extension_b ev)"

definition block_preimage :: "Block \<Rightarrow> bytes" where
  "block_preimage b =
     to_le_bytes (b_height b) @ bytes_of (b_parent_hash b) @ to_le_bytes (b_view b) @
     to_le_bytes (b_proposer b) @ to_le_bytes (b_timestamp b) @ bytes_of (b_app_hash b) @
     to_le_bytes (of_nat (length (b_evidence b))) @ concat (map evidence_bytes (b_evidence b)) @
     update_len_prefixed (b_payload b)"

definition compute_hash :: "(bytes \<Rightarrow> hash32) \<Rightarrow> Block \<Rightarrow> BlockHash" where
  "compute_hash blake3 b = blake3 (block_preimage b)"

definition qc_preimage :: "QuorumCertificate \<Rightarrow> bytes" where
  "qc_preimage qc =
     to_le_bytes (qc_epoch qc) @ to_le_bytes (qc_view qc) @ bytes_of (qc_block_hash qc) @
     to_le_bytes (of_nat (length (ag_signers (qc_aggregate_signature qc)))) @
     map (\<lambda>signed. if signed then 1 else 0) (ag_signers (qc_aggregate_signature qc)) @
     to_le_bytes (of_nat (length (ag_signatures (qc_aggregate_signature qc)))) @
     concat (map update_len_prefixed (ag_signatures (qc_aggregate_signature qc)))"

definition qc_digest :: "(bytes \<Rightarrow> hash32) \<Rightarrow> QuorumCertificate \<Rightarrow> hash32" where
  "qc_digest blake3 qc = blake3 (qc_preimage qc)"

section \<open>Signing bytes\<close>

definition ascii :: "string \<Rightarrow> bytes" where
  "ascii s = map of_char s"

definition vote_signing_bytes ::
    "(bytes \<Rightarrow> hash32) \<Rightarrow> hash32 \<Rightarrow> EpochNumber \<Rightarrow> ViewNumber \<Rightarrow> ValidatorId \<Rightarrow> BlockHash \<Rightarrow>
     VoteType \<Rightarrow> bytes option \<Rightarrow> bytes" where
  "vote_signing_bytes blake3 chain_id_hash epoch view validator block_hash vote_type extension =
     ascii ''HOTMINT_VOTE_V3'' @ [0] @ bytes_of chain_id_hash @ to_le_bytes epoch @
     to_le_bytes view @ to_le_bytes validator @ bytes_of block_hash @ [vote_type_byte vote_type] @
     (case extension of
        Some ext \<Rightarrow> [1] @ to_le_bytes (of_nat (length ext)) @ bytes_of (blake3 ext)
      | None \<Rightarrow> [0] @ to_le_bytes 0 @ replicate 32 0)"

definition wish_signing_bytes ::
    "(bytes \<Rightarrow> hash32) \<Rightarrow> hash32 \<Rightarrow> EpochNumber \<Rightarrow> ViewNumber \<Rightarrow> QuorumCertificate option \<Rightarrow> bytes" where
  "wish_signing_bytes blake3 chain_id_hash epoch target_view highest_qc =
     ascii ''HOTMINT_WISH_V1'' @ [0] @ bytes_of chain_id_hash @ to_le_bytes epoch @
     to_le_bytes target_view @
     (case highest_qc of None \<Rightarrow> [0] | Some qc \<Rightarrow> [1] @ bytes_of (qc_digest blake3 qc))"

definition status_signing_bytes ::
    "hash32 \<Rightarrow> EpochNumber \<Rightarrow> ViewNumber \<Rightarrow> ValidatorId \<Rightarrow> QuorumCertificate option \<Rightarrow> bytes" where
  "status_signing_bytes chain_id_hash epoch view validator locked_qc =
     ascii ''HOTMINT_STATUS_V2'' @ [0] @ bytes_of chain_id_hash @ to_le_bytes epoch @
     to_le_bytes view @ to_le_bytes validator @
     (case locked_qc of
        Some qc \<Rightarrow> bytes_of (qc_block_hash qc) @ to_le_bytes (qc_view qc)
      | None \<Rightarrow> [])"

definition proposal_signing_bytes ::
    "hash32 \<Rightarrow> EpochNumber \<Rightarrow> Block \<Rightarrow> QuorumCertificate \<Rightarrow> bytes" where
  "proposal_signing_bytes chain_id_hash epoch block justify =
     ascii ''HOTMINT_PROPOSAL_V1'' @ [0] @ bytes_of chain_id_hash @ to_le_bytes epoch @
     bytes_of (b_hash block) @ bytes_of (qc_block_hash justify) @ to_le_bytes (qc_view justify)"

definition prepare_signing_bytes :: "hash32 \<Rightarrow> EpochNumber \<Rightarrow> QuorumCertificate \<Rightarrow> bytes" where
  "prepare_signing_bytes chain_id_hash epoch qc =
     ascii ''HOTMINT_PREPARE_V1'' @ [0] @ bytes_of chain_id_hash @ to_le_bytes epoch @
     bytes_of (qc_block_hash qc) @ to_le_bytes (qc_view qc)"

section \<open>The encoders are self-delimiting\<close>

lemma vote_type_byte_inject [simp]: "vote_type_byte a = vote_type_byte b \<longleftrightarrow> a = b"
  by (cases a; cases b) (simp_all add: vote_type_byte_def)

interpretation bytes_code: prefix_code update_len_prefixed fits
proof
  fix x y r s :: bytes
  assume f: "fits x" "fits y" and e: "update_len_prefixed x @ r = update_len_prefixed y @ s"
  then have l: "length x = length y" and a: "x @ r = y @ s"
    by (auto simp: update_len_prefixed_def u64_code.append_eq_iff of_nat_length_inject)
  from append_eq_append_conv [of x y r s] l a show "x = y \<and> r = s" by simp
qed

interpretation ext_code: prefix_code extension_bytes "\<lambda>e. \<forall>b. e = Some b \<longrightarrow> fits b"
  by unfold_locales (auto simp: extension_bytes_def bytes_code.append_eq_iff split: option.splits)

definition ev_sized :: "EquivocationProof \<Rightarrow> bool" where
  "ev_sized ev \<longleftrightarrow>
     fits (ev_signature_a ev) \<and> fits (ev_signature_b ev) \<and>
     (\<forall>b. ev_extension_a ev = Some b \<longrightarrow> fits b) \<and> (\<forall>b. ev_extension_b ev = Some b \<longrightarrow> fits b)"

interpretation ev_code: prefix_code evidence_bytes ev_sized
proof
  fix x y r s assume "ev_sized x" "ev_sized y" "evidence_bytes x @ r = evidence_bytes y @ s"
  then show "x = y \<and> r = s"
    unfolding ev_sized_def evidence_bytes_def
    by (simp add: u64_code.append_eq_iff hash_code.append_eq_iff bytes_code.append_eq_iff
        ext_code.append_eq_iff)
qed

definition block_sized :: "Block \<Rightarrow> bool" where
  "block_sized b \<longleftrightarrow>
     fits (b_evidence b) \<and> fits (b_payload b) \<and> (\<forall>ev \<in> set (b_evidence b). ev_sized ev)"

definition qc_sized :: "QuorumCertificate \<Rightarrow> bool" where
  "qc_sized qc \<longleftrightarrow>
     fits (ag_signers (qc_aggregate_signature qc)) \<and>
     fits (ag_signatures (qc_aggregate_signature qc)) \<and>
     (\<forall>s \<in> set (ag_signatures (qc_aggregate_signature qc)). fits s)"

lemma block_preimage_eq_iff:
  assumes "block_sized a" "block_sized b"
  shows "block_preimage a = block_preimage b \<longleftrightarrow> a\<lparr>b_hash := h\<rparr> = b\<lparr>b_hash := h\<rparr>"
proof -
  have l: "length (b_evidence a) = length (b_evidence b)"
    if "(of_nat (length (b_evidence a)) :: u64) = of_nat (length (b_evidence b))"
    using that assms by (simp add: block_sized_def of_nat_length_inject)
  have "block_preimage a = block_preimage b \<longleftrightarrow>
    b_height a = b_height b \<and> b_parent_hash a = b_parent_hash b \<and> b_view a = b_view b \<and>
    b_proposer a = b_proposer b \<and> b_timestamp a = b_timestamp b \<and> b_app_hash a = b_app_hash b \<and>
    b_evidence a = b_evidence b \<and> b_payload a = b_payload b"
    using assms l unfolding block_preimage_def block_sized_def
    by (auto simp: u64_code.append_eq_iff hash_code.append_eq_iff ev_code.concat_eq_iff
        bytes_code.enc_eq_iff)
  also have "\<dots> \<longleftrightarrow> a\<lparr>b_hash := h\<rparr> = b\<lparr>b_hash := h\<rparr>"
    by (cases a; cases b) auto
  finally show ?thesis .
qed

lemma qc_preimage_eq_iff:
  assumes "qc_sized a" "qc_sized b"
  shows "qc_preimage a = qc_preimage b \<longleftrightarrow> a = b"
proof
  let ?f = "\<lambda>signed. if signed then 1 else (0 :: u8)"
  have inj: "inj ?f" by (rule injI) (auto split: if_splits)
  assume e: "qc_preimage a = qc_preimage b"
  then have hd: "qc_epoch a = qc_epoch b" "qc_view a = qc_view b"
      "qc_block_hash a = qc_block_hash b"
    and ls: "length (ag_signers (qc_aggregate_signature a)) =
      length (ag_signers (qc_aggregate_signature b))"
    using assms unfolding qc_preimage_def qc_sized_def
    by (auto simp: u64_code.append_eq_iff hash_code.append_eq_iff of_nat_length_inject)
  from e hd ls have tl: "ag_signers (qc_aggregate_signature a) = ag_signers (qc_aggregate_signature b)"
      "length (ag_signatures (qc_aggregate_signature a)) =
       length (ag_signatures (qc_aggregate_signature b))"
      "concat (map update_len_prefixed (ag_signatures (qc_aggregate_signature a))) =
       concat (map update_len_prefixed (ag_signatures (qc_aggregate_signature b)))"
    using assms unfolding qc_preimage_def qc_sized_def
    by (auto simp: u64_code.append_eq_iff hash_code.append_eq_iff append_eq_append_conv
        inj_map_eq_map [OF inj] of_nat_length_inject)
  with assms have "ag_signatures (qc_aggregate_signature a) = ag_signatures (qc_aggregate_signature b)"
    using bytes_code.concat_eq_iff [of _ _ "[]" "[]"] unfolding qc_sized_def by simp
  with hd tl show "a = b" by (cases a; cases b) (auto intro: AggregateSignature.equality)
qed simp

section \<open>What a signature binds\<close>

text \<open>
  The five kinds of content a validator key signs, with their byte strings, and when two of
  them are the same up to the digests the strings carry.
\<close>

datatype signed_message =
    SVote hash32 EpochNumber ViewNumber ValidatorId BlockHash VoteType "bytes option"
  | SWish hash32 EpochNumber ViewNumber "QuorumCertificate option"
  | SStatus hash32 EpochNumber ViewNumber ValidatorId "QuorumCertificate option"
  | SProposal hash32 EpochNumber Block QuorumCertificate
  | SPrepare hash32 EpochNumber QuorumCertificate

fun signed_bytes :: "(bytes \<Rightarrow> hash32) \<Rightarrow> signed_message \<Rightarrow> bytes" where
  "signed_bytes H (SVote c e v i b t x) = vote_signing_bytes H c e v i b t x"
| "signed_bytes H (SWish c e v q) = wish_signing_bytes H c e v q"
| "signed_bytes H (SStatus c e v i q) = status_signing_bytes c e v i q"
| "signed_bytes H (SProposal c e b q) = proposal_signing_bytes c e b q"
| "signed_bytes H (SPrepare c e q) = prepare_signing_bytes c e q"

fun same_signed :: "(bytes \<Rightarrow> hash32) \<Rightarrow> signed_message \<Rightarrow> signed_message \<Rightarrow> bool" where
  "same_signed H (SVote c e v i b t x) (SVote c' e' v' i' b' t' x') \<longleftrightarrow>
     c = c' \<and> e = e' \<and> v = v' \<and> i = i' \<and> b = b' \<and> t = t' \<and>
     map_option (\<lambda>x. (of_nat (length x) :: u64, H x)) x =
     map_option (\<lambda>x. (of_nat (length x), H x)) x'"
| "same_signed H (SWish c e v q) (SWish c' e' v' q') \<longleftrightarrow>
     c = c' \<and> e = e' \<and> v = v' \<and> map_option (qc_digest H) q = map_option (qc_digest H) q'"
| "same_signed H (SStatus c e v i q) (SStatus c' e' v' i' q') \<longleftrightarrow>
     c = c' \<and> e = e' \<and> v = v' \<and> i = i' \<and>
     map_option (\<lambda>q. (qc_block_hash q, qc_view q)) q =
     map_option (\<lambda>q. (qc_block_hash q, qc_view q)) q'"
| "same_signed H (SProposal c e b q) (SProposal c' e' b' q') \<longleftrightarrow>
     c = c' \<and> e = e' \<and> b_hash b = b_hash b' \<and>
     qc_block_hash q = qc_block_hash q' \<and> qc_view q = qc_view q'"
| "same_signed H (SPrepare c e q) (SPrepare c' e' q') \<longleftrightarrow>
     c = c' \<and> e = e' \<and> qc_block_hash q = qc_block_hash q' \<and> qc_view q = qc_view q'"
| "same_signed H _ _ \<longleftrightarrow> False"

lemmas signing_bytes_defs =
  vote_signing_bytes_def wish_signing_bytes_def status_signing_bytes_def
  proposal_signing_bytes_def prepare_signing_bytes_def ascii_def

lemma bytes_of_not_Nil [simp]: "bytes_of h \<noteq> []"
proof
  assume "bytes_of h = []"
  then have "length (bytes_of h) = 0" by (simp only: list.size)
  then show False by simp
qed

lemma signed_bytes_eq_iff: "signed_bytes H m = signed_bytes H m' \<longleftrightarrow> same_signed H m m'"
  by (cases "(H, m, m')" rule: same_signed.cases)
     (simp_all add: signing_bytes_defs u64_code.append_eq_iff hash_code.append_eq_iff
        hash_code.enc_eq_iff u64_code.enc_eq_iff split: option.splits)

text \<open>
  C8. Domain separation: the strings that votes, wishes, status certificates, proposals and
  prepares sign coincide only for two messages of one kind, chain, epoch, view, signer (where
  the kind names it) and block, and equal digests of what the kind binds by digest. A signature
  can be replayed neither across message kinds nor across chains, epochs, views or blocks.
\<close>

theorem signing_bytes_bind:
  "signed_bytes H m = signed_bytes H m' \<longleftrightarrow> same_signed H m m'"
  by (rule signed_bytes_eq_iff)

text \<open>
  C9. The block hash commits to the whole content of a block: two blocks whose strings have
  lengths below \<open>2 ^ 64\<close>, and whose hashes agree under a function without a collision on the two
  strings, agree in every field but the stored hash itself.
\<close>

theorem compute_hash_binds_content:
  assumes "block_sized a" "block_sized b"
    and "inj_on blake3 {block_preimage a, block_preimage b}"
    and "compute_hash blake3 a = compute_hash blake3 b"
  shows "a\<lparr>b_hash := h\<rparr> = b\<lparr>b_hash := h\<rparr>"
proof -
  have "block_preimage a = block_preimage b"
    using assms(3,4) by (auto simp: compute_hash_def dest: inj_onD)
  with block_preimage_eq_iff [OF assms(1,2)] show ?thesis by blast
qed

theorem compute_hash_binds_content_witness:
  "genesis_block\<lparr>b_hash := hash_rep 2\<rparr> =
   (genesis_block\<lparr>b_hash := hash_rep 1\<rparr>)\<lparr>b_hash := hash_rep 2\<rparr>"
  by (rule compute_hash_binds_content [where ?blake3.0 = "\<lambda>_. hash_rep 0"])
     (simp_all add: block_sized_def genesis_block_def fits_def block_preimage_def compute_hash_def)

lemma qc_digest_inject:
  assumes "qc_sized a" "qc_sized b" "inj_on blake3 {qc_preimage a, qc_preimage b}"
  shows "qc_digest blake3 a = qc_digest blake3 b \<longleftrightarrow> a = b"
  using assms by (auto simp: qc_digest_def qc_preimage_eq_iff dest: inj_onD)

end
