(* ===== verification/Validator_Set.thy ===== *)
theory Validator_Set
  imports Types
begin

text \<open>
  \<open>crates/hotmint-types/src/validator.rs\<close> and \<open>crates/hotmint-consensus/src/leader.rs\<close>: the
  validator set, its checked construction, the quorum threshold, the power-weighted leader and
  the application of validator updates. The invariant \<open>vs_wf\<close> is what every constructor
  establishes; the lemmas read the 64-bit arithmetic back into \<open>nat\<close>.
\<close>

section \<open>Construction\<close>

datatype vs_error =
    TotalPowerOverflow ValidatorId
  | TotalPowerMismatch u64 u64
  | ZeroTotalPower
  | DuplicateId ValidatorId
  | InvalidKeyLength ValidatorId nat
  | DuplicatePublicKey ValidatorId

fun total_power_from :: "u64 \<Rightarrow> ValidatorInfo list \<Rightarrow> vs_error + u64" where
  "total_power_from acc [] = Inr acc"
| "total_power_from acc (v # vs) =
     (case checked_add acc (vi_power v) of
        None \<Rightarrow> Inl (TotalPowerOverflow (vi_id v))
      | Some acc' \<Rightarrow> total_power_from acc' vs)"

definition compute_total_power :: "ValidatorInfo list \<Rightarrow> vs_error + u64" where
  "compute_total_power vs = total_power_from 0 vs"

text \<open>The validation loop, with the \<open>HashSet\<close>s of the ids and keys seen so far.\<close>

fun check_validators ::
    "ValidatorId set \<Rightarrow> PublicKey set \<Rightarrow> ValidatorInfo list \<Rightarrow> vs_error option" where
  "check_validators ids keys [] = None"
| "check_validators ids keys (v # vs) =
     (if vi_id v \<in> ids then Some (DuplicateId (vi_id v))
      else if length (vi_public_key v) \<noteq> 32
        then Some (InvalidKeyLength (vi_id v) (length (vi_public_key v)))
      else if vi_public_key v \<in> keys then Some (DuplicatePublicKey (vi_id v))
      else check_validators (insert (vi_id v) ids) (insert (vi_public_key v) keys) vs)"

text \<open>\<open>enumerate().map(|(i, v)| (v.id, i)).collect()\<close>: a later entry of one id wins.\<close>

definition rebuild_index :: "ValidatorInfo list \<Rightarrow> ValidatorId \<rightharpoonup> nat" where
  "rebuild_index vs = map_of (rev (zip (map vi_id vs) [0..<length vs]))"

definition try_from_parts :: "ValidatorInfo list \<Rightarrow> u64 \<Rightarrow> vs_error + ValidatorSet" where
  "try_from_parts validators total_power =
     rbind (compute_total_power validators) (\<lambda>computed.
       if total_power \<noteq> computed then Inl (TotalPowerMismatch total_power computed)
       else if validators \<noteq> [] \<and> total_power = 0 then Inl ZeroTotalPower
       else case check_validators {} {} validators of
              Some e \<Rightarrow> Inl e
            | None \<Rightarrow> Inr \<lparr> vs_validators = validators, vs_total_power = total_power,
                            vs_index_map = rebuild_index validators \<rparr>)"

definition try_new :: "ValidatorInfo list \<Rightarrow> vs_error + ValidatorSet" where
  "try_new validators =
     rbind (compute_total_power validators) (\<lambda>total_power. try_from_parts validators total_power)"

section \<open>Queries\<close>

definition validator_count :: "ValidatorSet \<Rightarrow> nat" where
  "validator_count vs = length (vs_validators vs)"

definition quorum_threshold :: "ValidatorSet \<Rightarrow> u64" where
  "quorum_threshold vs = ucast ((ucast (vs_total_power vs) :: u128) * 2 div 3 + 1)"

definition max_faulty_power :: "ValidatorSet \<Rightarrow> u64" where
  "max_faulty_power vs = saturating_sub (vs_total_power vs) (quorum_threshold vs)"

fun leader_loop :: "u64 \<Rightarrow> u64 \<Rightarrow> ValidatorInfo list \<Rightarrow> ValidatorInfo option" where
  "leader_loop slot cumulative [] = None"
| "leader_loop slot cumulative (v # vs) =
     (let cumulative' = cumulative + vi_power v
      in if slot < cumulative' then Some v else leader_loop slot cumulative' vs)"

definition leader_for_view :: "ValidatorSet \<Rightarrow> ViewNumber \<Rightarrow> ValidatorInfo option" where
  "leader_for_view vs view =
     (if vs_validators vs = [] \<or> vs_total_power vs = 0 then None
      else case leader_loop (view mod vs_total_power vs) 0 (vs_validators vs) of
             Some v \<Rightarrow> Some v
           | None \<Rightarrow> Some (last (vs_validators vs)))"

definition index_of :: "ValidatorSet \<Rightarrow> ValidatorId \<Rightarrow> nat option" where
  "index_of vs i = vs_index_map vs i"

definition get_validator :: "ValidatorSet \<Rightarrow> ValidatorId \<Rightarrow> ValidatorInfo option" where
  "get_validator vs i = map_option (\<lambda>idx. vs_validators vs ! idx) (vs_index_map vs i)"

definition power_of :: "ValidatorSet \<Rightarrow> ValidatorId \<Rightarrow> u64" where
  "power_of vs i = (case get_validator vs i of None \<Rightarrow> 0 | Some v \<Rightarrow> vi_power v)"

definition is_leader :: "ValidatorSet \<Rightarrow> ViewNumber \<Rightarrow> ValidatorId \<Rightarrow> bool" where
  "is_leader vs view i =
     (case leader_for_view vs view of None \<Rightarrow> False | Some l \<Rightarrow> vi_id l = i)"

text \<open>\<open>None\<close> is the panic of \<open>view.next()\<close> or of \<open>expect("empty validator set ..")\<close>.\<close>

definition next_leader :: "ValidatorSet \<Rightarrow> ViewNumber \<Rightarrow> ValidatorId option" where
  "next_leader vs view =
     Option.bind (next_view view) (\<lambda>v. map_option vi_id (leader_for_view vs v))"

section \<open>Updates\<close>

fun update_first :: "ValidatorUpdate \<Rightarrow> ValidatorInfo list \<Rightarrow> ValidatorInfo list" where
  "update_first u [] = []"
| "update_first u (v # vs) =
     (if vi_id v = vu_id u
      then v\<lparr>vi_power := vu_power u, vi_public_key := vu_public_key u\<rparr> # vs
      else v # update_first u vs)"

definition apply_update :: "ValidatorInfo list \<Rightarrow> ValidatorUpdate \<Rightarrow> ValidatorInfo list" where
  "apply_update infos u =
     (if vu_power u = 0 then filter (\<lambda>v. vi_id v \<noteq> vu_id u) infos
      else if \<exists>v \<in> set infos. vi_id v = vu_id u then update_first u infos
      else infos @ [\<lparr> vi_id = vu_id u, vi_public_key = vu_public_key u, vi_power = vu_power u \<rparr>])"

definition try_apply_updates ::
    "ValidatorSet \<Rightarrow> ValidatorUpdate list \<Rightarrow> vs_error + ValidatorSet" where
  "try_apply_updates vs updates = try_new (foldl apply_update (vs_validators vs) updates)"

section \<open>The invariant\<close>

definition power_sum :: "ValidatorInfo list \<Rightarrow> nat" where
  "power_sum vs = (\<Sum>v\<leftarrow>vs. unat (vi_power v))"

definition valid_infos :: "ValidatorInfo list \<Rightarrow> bool" where
  "valid_infos vs \<longleftrightarrow>
     distinct (map vi_id vs) \<and> distinct (map vi_public_key vs) \<and>
     (\<forall>v \<in> set vs. length (vi_public_key v) = 32) \<and>
     power_sum vs < 2 ^ 64 \<and> (vs \<noteq> [] \<longrightarrow> 0 < power_sum vs)"

definition vs_wf :: "ValidatorSet \<Rightarrow> bool" where
  "vs_wf vs \<longleftrightarrow>
     valid_infos (vs_validators vs) \<and>
     unat (vs_total_power vs) = power_sum (vs_validators vs) \<and>
     vs_index_map vs = rebuild_index (vs_validators vs)"

lemma power_sum_simps [simp]:
  "power_sum [] = 0"
  "power_sum (v # vs) = unat (vi_power v) + power_sum vs"
  "power_sum (vs @ ws) = power_sum vs + power_sum ws"
  by (simp_all add: power_sum_def)

lemma total_power_from_Inr:
  "total_power_from acc vs = Inr t \<longleftrightarrow>
     unat acc + power_sum vs < 2 ^ 64 \<and> unat t = unat acc + power_sum vs"
proof (induction vs arbitrary: acc)
  case Nil
  show ?case using unat_u64_less [of t] by (auto simp: word_unat_eq_iff)
next
  case (Cons v vs)
  show ?case
  proof (cases "checked_add acc (vi_power v)")
    case None
    then have "2 ^ 64 \<le> unat acc + unat (vi_power v)" by (simp add: checked_add_None)
    with None show ?thesis by simp
  next
    case (Some acc')
    with checked_add_unat [OF Some] Cons.IH [of acc'] show ?thesis by (simp add: add.assoc)
  qed
qed

lemma compute_total_power_Inr:
  "compute_total_power vs = Inr t \<longleftrightarrow> power_sum vs < 2 ^ 64 \<and> unat t = power_sum vs"
  by (simp add: compute_total_power_def total_power_from_Inr)

lemma check_validators_None:
  "check_validators ids keys vs = None \<longleftrightarrow>
     distinct (map vi_id vs) \<and> distinct (map vi_public_key vs) \<and>
     (\<forall>v \<in> set vs. length (vi_public_key v) = 32 \<and> vi_id v \<notin> ids \<and> vi_public_key v \<notin> keys)"
proof (induction vs arbitrary: ids keys)
  case (Cons v vs)
  have "check_validators (insert (vi_id v) ids) (insert (vi_public_key v) keys) vs = None \<longleftrightarrow>
    distinct (map vi_id vs) \<and> distinct (map vi_public_key vs) \<and>
    vi_id v \<notin> vi_id ` set vs \<and> vi_public_key v \<notin> vi_public_key ` set vs \<and>
    (\<forall>v \<in> set vs. length (vi_public_key v) = 32 \<and> vi_id v \<notin> ids \<and> vi_public_key v \<notin> keys)"
    unfolding Cons.IH by (auto simp: image_iff)
  then show ?case by auto
qed simp

lemma try_new_Inr:
  "try_new infos = Inr vs \<longleftrightarrow>
     valid_infos infos \<and>
     vs = \<lparr> vs_validators = infos, vs_total_power = of_nat (power_sum infos),
            vs_index_map = rebuild_index infos \<rparr>"
proof (cases "power_sum infos < 2 ^ 64")
  case True
  then have "compute_total_power infos = Inr (of_nat (power_sum infos))"
    by (simp add: compute_total_power_Inr unat_of_nat_u64)
  with True check_validators_None [of "{}" "{}" infos] show ?thesis
    by (cases "check_validators {} {} infos")
       (auto simp: try_new_def try_from_parts_def valid_infos_def of_nat_u64_eq_0)
next
  case False
  then have "\<And>t. compute_total_power infos \<noteq> Inr t"
    by (simp add: compute_total_power_Inr)
  then obtain e where "compute_total_power infos = Inl e"
    by (metis sum.exhaust)
  with False show ?thesis
    by (simp add: try_new_def valid_infos_def)
qed

lemma try_new_wf: "try_new infos = Inr vs \<Longrightarrow> vs_wf vs \<and> vs_validators vs = infos"
  by (auto simp: try_new_Inr vs_wf_def valid_infos_def unat_of_nat_u64)

lemma vs_wf_try_new:
  assumes "vs_wf vs"
  shows "try_new (vs_validators vs) = Inr vs"
proof -
  have "vs_total_power vs = of_nat (power_sum (vs_validators vs))"
    using assms by (metis vs_wf_def of_nat_unat_u64)
  with assms show ?thesis
    by (simp add: try_new_Inr vs_wf_def)
qed

lemma try_apply_updates_wf: "try_apply_updates vs us = Inr vs' \<Longrightarrow> vs_wf vs'"
  unfolding try_apply_updates_def by (blast dest: try_new_wf)

section \<open>Quorum arithmetic\<close>

lemma unat_quorum_threshold:
  "unat (quorum_threshold vs) = 2 * unat (vs_total_power vs) div 3 + 1"
proof -
  let ?T = "vs_total_power vs"
  have T: "unat ?T < 2 ^ 64" by simp
  have x: "unat (ucast ?T :: u128) = unat ?T"
  proof -
    have "unat ?T < 2 ^ 128" using T by (rule less_trans) simp
    then show ?thesis by (simp add: unsigned_ucast_eq take_bit_nat_eq_self)
  qed
  have "unat ?T * 2 < 2 ^ 128"
  proof -
    have "unat ?T * 2 < 2 ^ 64 * 2" using T by (rule mult_strict_right_mono) simp
    also have "\<dots> \<le> (2 :: nat) ^ 128" by simp
    finally show ?thesis .
  qed
  then have m: "unat ((ucast ?T :: u128) * 2) = unat ?T * 2"
    using x by (simp add: unat_word_ariths)
  have d: "unat ((ucast ?T :: u128) * 2 div 3) = unat ?T * 2 div 3"
    using m by (simp add: unat_div)
  have a: "unat ((ucast ?T :: u128) * 2 div 3 + 1) = unat ?T * 2 div 3 + 1"
    using T d by (simp add: unat_word_ariths)
  have "unat ?T * 2 div 3 * 3 \<le> unat ?T * 2" by simp
  moreover have "(1 :: nat) < 2 ^ 64" by simp
  ultimately have "unat ?T * 2 div 3 + 1 < 2 ^ 64" using T by linarith
  with a show ?thesis
    by (simp add: quorum_threshold_def unsigned_ucast_eq take_bit_nat_eq_self mult.commute)
qed

lemma unat_max_faulty_power:
  "unat (max_faulty_power vs) = unat (vs_total_power vs) - (2 * unat (vs_total_power vs) div 3 + 1)"
  by (simp add: max_faulty_power_def unat_saturating_sub unat_quorum_threshold)

section \<open>Lookups\<close>

lemma rebuild_index_distinct:
  assumes "distinct (map vi_id infos)"
  shows "rebuild_index infos i = Some k \<longleftrightarrow> k < length infos \<and> vi_id (infos ! k) = i"
proof -
  let ?z = "zip (map vi_id infos) [0..<length infos]"
  have "distinct (map fst (rev ?z))" using assms by (simp flip: rev_map)
  then have "map_of (rev ?z) i = Some k \<longleftrightarrow> (i, k) \<in> set (rev ?z)"
    by (rule map_of_eq_Some_iff)
  also have "\<dots> \<longleftrightarrow> (i, k) \<in> set ?z" by simp
  also have "\<dots> \<longleftrightarrow> k < length infos \<and> vi_id (infos ! k) = i"
    by (auto simp: set_zip intro: exI [of _ k])
  finally show ?thesis by (simp add: rebuild_index_def)
qed

lemma vs_wf_distinct: "vs_wf vs \<Longrightarrow> distinct (map vi_id (vs_validators vs))"
  by (simp add: vs_wf_def valid_infos_def)

lemma index_of_Some:
  "vs_wf vs \<Longrightarrow> index_of vs i = Some k \<longleftrightarrow>
     k < length (vs_validators vs) \<and> vi_id (vs_validators vs ! k) = i"
  by (simp add: index_of_def vs_wf_def valid_infos_def rebuild_index_distinct)

lemma get_validator_Some:
  assumes "vs_wf vs"
  shows "get_validator vs i = Some v \<longleftrightarrow> v \<in> set (vs_validators vs) \<and> vi_id v = i"
proof
  assume "get_validator vs i = Some v"
  then obtain k where "index_of vs i = Some k" "v = vs_validators vs ! k"
    by (auto simp: get_validator_def index_of_def)
  with assms show "v \<in> set (vs_validators vs) \<and> vi_id v = i"
    by (auto simp: index_of_Some)
next
  assume v: "v \<in> set (vs_validators vs) \<and> vi_id v = i"
  then obtain k where "k < length (vs_validators vs)" "vs_validators vs ! k = v"
    by (auto simp: in_set_conv_nth)
  with assms v have "index_of vs i = Some k" by (simp add: index_of_Some)
  with \<open>vs_validators vs ! k = v\<close> show "get_validator vs i = Some v"
    by (simp add: get_validator_def index_of_def)
qed

lemma get_validator_None:
  "vs_wf vs \<Longrightarrow> get_validator vs i = None \<longleftrightarrow> i \<notin> vi_id ` set (vs_validators vs)"
  using get_validator_Some [of vs i] by (cases "get_validator vs i") (fastforce simp: image_iff)+

lemma get_validator_nth:
  "vs_wf vs \<Longrightarrow> k < length (vs_validators vs) \<Longrightarrow>
     get_validator vs (vi_id (vs_validators vs ! k)) = Some (vs_validators vs ! k)"
  by (simp add: get_validator_Some)

lemma power_of_nth:
  "vs_wf vs \<Longrightarrow> k < length (vs_validators vs) \<Longrightarrow>
     power_of vs (vi_id (vs_validators vs ! k)) = vi_power (vs_validators vs ! k)"
  by (simp add: power_of_def get_validator_nth)

section \<open>The weighted leader\<close>

lemma power_sum_take_Suc:
  "i < length vs \<Longrightarrow> power_sum (take (Suc i) vs) = power_sum (take i vs) + unat (vi_power (vs ! i))"
  by (simp add: take_Suc_conv_app_nth)

lemma leader_loop_mem: "leader_loop slot c vs = Some v \<Longrightarrow> v \<in> set vs"
  by (induction slot c vs rule: leader_loop.induct) (auto simp: Let_def split: if_splits)

lemma leader_loop_nth:
  assumes "distinct vs" "i < length vs" "unat c + power_sum vs < 2 ^ 64" "unat c \<le> unat slot"
  shows "leader_loop slot c vs = Some (vs ! i) \<longleftrightarrow>
    unat c + power_sum (take i vs) \<le> unat slot \<and> unat slot < unat c + power_sum (take (Suc i) vs)"
  using assms
proof (induction vs arbitrary: i c)
  case (Cons v vs)
  have c': "unat (c + vi_power v) = unat c + unat (vi_power v)"
    using Cons.prems(3) by (intro unat_add_no_overflow) simp
  show ?case
  proof (cases "slot < c + vi_power v")
    case True
    with c' have "unat slot < unat c + unat (vi_power v)" by (simp add: word_less_nat_alt)
    with True Cons.prems show ?thesis
      by (cases i) (auto simp: nth_Cons')
  next
    case False
    with c' have ge: "unat (c + vi_power v) \<le> unat slot" by (simp add: word_less_nat_alt)
    show ?thesis
    proof (cases i)
      case 0
      have "leader_loop slot (c + vi_power v) vs \<noteq> Some v"
        using Cons.prems(1) by (auto dest: leader_loop_mem)
      with 0 False ge c' show ?thesis by simp
    next
      case (Suc k)
      with Cons.prems have "leader_loop slot (c + vi_power v) vs = Some (vs ! k) \<longleftrightarrow>
        unat (c + vi_power v) + power_sum (take k vs) \<le> unat slot \<and>
        unat slot < unat (c + vi_power v) + power_sum (take (Suc k) vs)"
        using c' ge by (intro Cons.IH) auto
      with False Suc c' show ?thesis by (simp add: add.assoc)
    qed
  qed
qed simp

lemma leader_loop_total:
  assumes "unat c + power_sum vs < 2 ^ 64" "unat slot < unat c + power_sum vs" "unat c \<le> unat slot"
  shows "\<exists>v \<in> set vs. leader_loop slot c vs = Some v"
  using assms
proof (induction vs arbitrary: c)
  case (Cons v vs)
  have c': "unat (c + vi_power v) = unat c + unat (vi_power v)"
    using Cons.prems(1) by (intro unat_add_no_overflow) simp
  show ?case
  proof (cases "slot < c + vi_power v")
    case False
    with c' Cons.prems have "\<exists>w \<in> set vs. leader_loop slot (c + vi_power v) vs = Some w"
      by (intro Cons.IH) (auto simp: word_less_nat_alt)
    with False show ?thesis by auto
  qed simp
qed simp

lemma leader_for_view_nth:
  assumes wf: "vs_wf vs" and i: "i < length (vs_validators vs)"
  shows "leader_for_view vs view = Some (vs_validators vs ! i) \<longleftrightarrow>
    power_sum (take i (vs_validators vs)) \<le> unat view mod unat (vs_total_power vs) \<and>
    unat view mod unat (vs_total_power vs) < power_sum (take (Suc i) (vs_validators vs))"
proof -
  let ?vs = "vs_validators vs" and ?T = "vs_total_power vs"
  have ne: "?vs \<noteq> []" using i by auto
  with wf have T: "0 < unat ?T" "unat ?T = power_sum ?vs" "power_sum ?vs < 2 ^ 64"
    by (auto simp: vs_wf_def valid_infos_def)
  have slot: "unat (view mod ?T) = unat view mod unat ?T" by (simp add: unat_mod)
  have "unat (view mod ?T) < power_sum ?vs" using T slot by simp
  with T obtain v where l: "leader_loop (view mod ?T) 0 ?vs = Some v"
    using leader_loop_total [of 0 ?vs "view mod ?T"] by auto
  have "distinct ?vs" using wf by (auto simp: vs_wf_def valid_infos_def distinct_map)
  with i T have "leader_loop (view mod ?T) 0 ?vs = Some (?vs ! i) \<longleftrightarrow>
      power_sum (take i ?vs) \<le> unat (view mod ?T) \<and> unat (view mod ?T) < power_sum (take (Suc i) ?vs)"
    using leader_loop_nth [of ?vs i 0 "view mod ?T"] by simp
  moreover have "?T \<noteq> 0" using T by auto
  ultimately show ?thesis using ne l slot by (simp add: leader_for_view_def)
qed

lemma leader_for_view_total:
  assumes "vs_wf vs" "vs_validators vs \<noteq> []"
  shows "\<exists>l \<in> set (vs_validators vs). leader_for_view vs view = Some l \<and> 0 < vi_power l"
proof -
  let ?vs = "vs_validators vs" and ?T = "vs_total_power vs"
  have T: "0 < unat ?T" "unat ?T = power_sum ?vs" "power_sum ?vs < 2 ^ 64"
    using assms by (auto simp: vs_wf_def valid_infos_def)
  have "unat (view mod ?T) < power_sum ?vs" using T by (simp add: unat_mod)
  with T obtain l where l: "l \<in> set ?vs" "leader_loop (view mod ?T) 0 ?vs = Some l"
    using leader_loop_total [of 0 ?vs "view mod ?T"] by auto
  moreover have "?T \<noteq> 0" using T by auto
  ultimately have lv: "leader_for_view vs view = Some l"
    using assms by (simp add: leader_for_view_def)
  obtain i where i: "i < length ?vs" "?vs ! i = l" using l by (auto simp: in_set_conv_nth)
  with lv leader_for_view_nth [OF assms(1) i(1), of view] have "0 < unat (vi_power l)"
    using power_sum_take_Suc [OF i(1)] by simp
  then have "0 < vi_power l" by (simp add: word_less_nat_alt)
  with l lv show ?thesis by blast
qed

section \<open>Fair rotation\<close>

lemma card_mod_window:
  fixes k T :: nat
  assumes "0 < T"
  shows "card {j \<in> {k..<k + T}. P (j mod T)} = card {s. s < T \<and> P s}"
proof -
  let ?A = "{j \<in> {k..<k + T}. P (j mod T)}" and ?B = "{s. s < T \<and> P s}"
  have inj: "inj_on (\<lambda>j. j mod T) {k..<k + T}"
  proof (rule inj_onI)
    fix x y assume a: "x \<in> {k..<k + T}" "y \<in> {k..<k + T}" "x mod T = y mod T"
    then have "T dvd (max x y - min x y)"
      by (metis max_def min_def mod_eq_dvd_iff_nat nat_le_linear)
    moreover have "max x y - min x y < T" using a by auto
    ultimately have "max x y - min x y = 0" by (metis nat_dvd_not_less not_gr_zero)
    then show "x = y" by (auto simp: max_def min_def split: if_splits)
  qed
  have "(\<lambda>j. j mod T) ` {k..<k + T} = {..<T}"
  proof (rule card_subset_eq)
    show "(\<lambda>j. j mod T) ` {k..<k + T} \<subseteq> {..<T}" using assms by auto
    show "card ((\<lambda>j. j mod T) ` {k..<k + T}) = card {..<T}" using inj by (simp add: card_image)
  qed simp
  then have im: "s \<in> (\<lambda>j. j mod T) ` {k..<k + T}" if "s < T" for s using that by simp
  have "?B \<subseteq> (\<lambda>j. j mod T) ` ?A"
  proof
    fix s assume "s \<in> ?B"
    with im obtain j where "j \<in> {k..<k + T}" "s = j mod T" "P s" by blast
    then show "s \<in> (\<lambda>j. j mod T) ` ?A" by blast
  qed
  moreover have "(\<lambda>j. j mod T) ` ?A \<subseteq> ?B" using assms by auto
  ultimately have e: "(\<lambda>j. j mod T) ` ?A = ?B" by (rule subset_antisym [rotated])
  have "inj_on (\<lambda>j. j mod T) ?A" by (rule inj_on_subset [OF inj]) auto
  from card_image [OF this] show ?thesis unfolding e by (rule sym)
qed

lemma leader_slots:
  assumes wf: "vs_wf vs" and v: "v \<in> set (vs_validators vs)"
    and k: "k + unat (vs_total_power vs) \<le> 2 ^ 64"
  shows "card {j \<in> {k..<k + unat (vs_total_power vs)}. leader_for_view vs (of_nat j) = Some v}
         = unat (vi_power v)"
proof -
  let ?vs = "vs_validators vs" and ?T = "unat (vs_total_power vs)"
  obtain i where i: "i < length ?vs" "?vs ! i = v" using v by (auto simp: in_set_conv_nth)
  let ?P = "\<lambda>s. power_sum (take i ?vs) \<le> s \<and> s < power_sum (take (Suc i) ?vs)"
  have T: "0 < ?T" "?T = power_sum ?vs" using wf v by (auto simp: vs_wf_def valid_infos_def)
  have "leader_for_view vs (of_nat j) = Some v \<longleftrightarrow> ?P (j mod ?T)" if "j < k + ?T" for j
    using leader_for_view_nth [OF wf i(1), of "of_nat j"] that k i(2)
    by (simp add: unat_of_nat_u64)
  then have "{j \<in> {k..<k + ?T}. leader_for_view vs (of_nat j) = Some v} =
             {j \<in> {k..<k + ?T}. ?P (j mod ?T)}" by auto
  also have "card \<dots> = card {s. s < ?T \<and> ?P s}" by (rule card_mod_window [OF T(1)])
  also have "{s. s < ?T \<and> ?P s} = {power_sum (take i ?vs)..<power_sum (take (Suc i) ?vs)}"
  proof -
    have "power_sum (take (Suc i) ?vs) + power_sum (drop (Suc i) ?vs) = power_sum ?vs"
      by (metis append_take_drop_id power_sum_simps(3))
    then show ?thesis using T by auto
  qed
  also have "card \<dots> = unat (vi_power v)"
    using power_sum_take_Suc [OF i(1)] i(2) by simp
  finally show ?thesis .
qed

section \<open>Updates refine map updates\<close>

text \<open>What a set says of an id, and what one update does to it.\<close>

definition vs_lookup :: "ValidatorSet \<Rightarrow> ValidatorId \<rightharpoonup> PublicKey \<times> u64" where
  "vs_lookup vs i = map_option (\<lambda>v. (vi_public_key v, vi_power v)) (get_validator vs i)"

definition spec_update ::
    "(ValidatorId \<rightharpoonup> PublicKey \<times> u64) \<Rightarrow> ValidatorUpdate \<Rightarrow> (ValidatorId \<rightharpoonup> PublicKey \<times> u64)" where
  "spec_update m u =
     (if vu_power u = 0 then m(vu_id u := None)
      else m(vu_id u \<mapsto> (vu_public_key u, vu_power u)))"

definition infos_map :: "ValidatorInfo list \<Rightarrow> ValidatorId \<rightharpoonup> PublicKey \<times> u64" where
  "infos_map infos = map_of (map (\<lambda>v. (vi_id v, (vi_public_key v, vi_power v))) infos)"

lemma infos_map_simps [simp]:
  "infos_map [] = Map.empty"
  "infos_map (v # vs) = (infos_map vs)(vi_id v \<mapsto> (vi_public_key v, vi_power v))"
  by (simp_all add: infos_map_def)

lemma dom_infos_map: "dom (infos_map infos) = vi_id ` set infos"
  unfolding infos_map_def by (simp add: dom_map_of_conv_image_fst image_image)

lemma infos_map_None: "infos_map infos i = None \<longleftrightarrow> i \<notin> vi_id ` set infos"
  unfolding infos_map_def by (simp add: map_of_eq_None_iff image_image)

lemma infos_map_append: "infos_map (xs @ ys) = infos_map ys ++ infos_map xs"
  by (simp add: infos_map_def)

lemma ids_update_first [simp]: "map vi_id (update_first u infos) = map vi_id infos"
  by (induction infos) auto

lemma infos_map_update_first:
  "vu_id u \<in> vi_id ` set infos \<Longrightarrow>
     infos_map (update_first u infos) = (infos_map infos)(vu_id u \<mapsto> (vu_public_key u, vu_power u))"
  by (induction infos) (auto simp: fun_upd_twist)

lemma infos_map_filter:
  "infos_map (filter (\<lambda>v. vi_id v \<noteq> i) infos) = (infos_map infos)(i := None)"
  by (induction infos) (auto simp: fun_upd_twist fun_eq_iff)

lemma apply_update_cases:
  "apply_update infos u =
     (if vu_power u = 0 then filter (\<lambda>v. vi_id v \<noteq> vu_id u) infos
      else if vu_id u \<in> vi_id ` set infos then update_first u infos
      else infos @ [\<lparr> vi_id = vu_id u, vi_public_key = vu_public_key u, vi_power = vu_power u \<rparr>])"
proof -
  have "(\<exists>v\<in>set infos. vi_id v = vu_id u) \<longleftrightarrow> vu_id u \<in> vi_id ` set infos"
    by (auto intro: rev_image_eqI)
  then show ?thesis by (simp add: apply_update_def)
qed

lemma infos_map_apply_update: "infos_map (apply_update infos u) = spec_update (infos_map infos) u"
proof (cases "vu_power u = 0 \<or> vu_id u \<in> vi_id ` set infos")
  case True
  then show ?thesis
    by (auto simp: apply_update_cases spec_update_def infos_map_filter infos_map_update_first)
next
  case False
  then have "infos_map infos (vu_id u) = None" by (simp add: infos_map_None)
  with False show ?thesis
    by (auto simp: apply_update_cases spec_update_def infos_map_append fun_eq_iff map_add_def
          split: option.splits)
qed

lemma infos_map_foldl:
  "infos_map (foldl apply_update infos us) = foldl spec_update (infos_map infos) us"
  by (induction us arbitrary: infos) (simp_all add: infos_map_apply_update)

lemma vs_lookup_infos_map: "vs_wf vs \<Longrightarrow> vs_lookup vs = infos_map (vs_validators vs)"
proof
  fix i assume wf: "vs_wf vs"
  show "vs_lookup vs i = infos_map (vs_validators vs) i"
  proof (cases "get_validator vs i")
    case None
    with wf have "infos_map (vs_validators vs) i = None"
      by (simp add: get_validator_None infos_map_None)
    with None show ?thesis by (simp add: vs_lookup_def)
  next
    case (Some v)
    with wf have "v \<in> set (vs_validators vs)" "vi_id v = i" by (simp_all add: get_validator_Some)
    then have "infos_map (vs_validators vs) i = Some (vi_public_key v, vi_power v)"
      using vs_wf_distinct [OF wf] unfolding infos_map_def
      by (intro map_of_is_SomeI) (auto simp: comp_def)
    with Some show ?thesis by (simp add: vs_lookup_def)
  qed
qed

lemma try_apply_updates_lookup:
  assumes "vs_wf vs" "try_apply_updates vs us = Inr vs'"
  shows "vs_lookup vs' = foldl spec_update (vs_lookup vs) us"
proof -
  from assms(2) have "vs_wf vs'" "vs_validators vs' = foldl apply_update (vs_validators vs) us"
    unfolding try_apply_updates_def by (auto dest: try_new_wf)
  with assms(1) show ?thesis by (simp add: vs_lookup_infos_map infos_map_foldl)
qed

section \<open>A concrete set\<close>

text \<open>Four validators of powers 1, 1, 1 and 2, used to evaluate the statements below.\<close>

definition sample_infos :: "ValidatorInfo list" where
  "sample_infos =
     [\<lparr> vi_id = 1, vi_public_key = replicate 32 1, vi_power = 1 \<rparr>,
      \<lparr> vi_id = 2, vi_public_key = replicate 32 2, vi_power = 1 \<rparr>,
      \<lparr> vi_id = 3, vi_public_key = replicate 32 3, vi_power = 1 \<rparr>,
      \<lparr> vi_id = 4, vi_public_key = replicate 32 4, vi_power = 2 \<rparr>]"

definition sample_set :: ValidatorSet where
  "sample_set = \<lparr> vs_validators = sample_infos, vs_total_power = 5,
                  vs_index_map = rebuild_index sample_infos \<rparr>"

lemma replicate_32_inject [simp]: "replicate 32 a = replicate 32 b \<longleftrightarrow> a = b"
  by (metis replicate_eq_replicate zero_neq_numeral)

lemma sample_infos_valid: "valid_infos sample_infos \<and> power_sum sample_infos = 5"
  by (simp add: valid_infos_def sample_infos_def)

lemma sample_set_wf: "vs_wf sample_set"
  using sample_infos_valid by (simp add: vs_wf_def sample_set_def)

section \<open>Properties\<close>

text \<open>
  C6. Proportional fairness of \<open>leader_for_view\<close>: in every window of \<open>total_power\<close> consecutive
  views that does not cross the end of the view numbers, a validator of a well-formed set leads
  exactly as many views as it has power, so no one starves and no one leads more than its share.
\<close>

theorem leader_rotation_fair:
  assumes "vs_wf vs" "v \<in> set (vs_validators vs)"
    and "k + unat (vs_total_power vs) \<le> 2 ^ 64"
  shows "card {j \<in> {k..<k + unat (vs_total_power vs)}. leader_for_view vs (of_nat j) = Some v}
         = unat (vi_power v)"
  using assms by (rule leader_slots)

theorem leader_rotation_fair_witness:
  "card {j \<in> {7..<7 + unat (vs_total_power sample_set)}.
         leader_for_view sample_set (of_nat j) = Some (sample_infos ! 3)}
   = unat (vi_power (sample_infos ! 3)) \<and> vi_power (sample_infos ! 3) = 2"
proof -
  have "sample_infos ! 3 \<in> set (vs_validators sample_set)"
    by (simp add: sample_set_def sample_infos_def)
  moreover have "7 + unat (vs_total_power sample_set) \<le> 2 ^ 64" by (simp add: sample_set_def)
  ultimately show ?thesis
    using leader_rotation_fair [OF sample_set_wf] by (simp add: sample_infos_def)
qed

text \<open>
  C7. \<open>try_apply_updates\<close> implements its contract: on a well-formed set a successful call yields a
  well-formed set whose lookup function is the old one with the updates applied in order, power
  zero deleting the id and any other power setting key and power. Whatever is refused would have
  broken the invariant.
\<close>

theorem try_apply_updates_refines:
  assumes "vs_wf vs"
  shows "(case try_apply_updates vs us of
            Inr vs' \<Rightarrow> vs_wf vs' \<and> vs_lookup vs' = foldl spec_update (vs_lookup vs) us
          | Inl e \<Rightarrow> \<not> valid_infos (foldl apply_update (vs_validators vs) us))"
proof (cases "try_apply_updates vs us")
  case (Inl e)
  then show ?thesis
    using try_new_Inr [of "foldl apply_update (vs_validators vs) us"]
    by (auto simp: try_apply_updates_def)
next
  case (Inr vs')
  with assms show ?thesis by (simp add: try_apply_updates_lookup try_apply_updates_wf)
qed

theorem try_apply_updates_refines_witness:
  "(case try_apply_updates sample_set [\<lparr> vu_id = 4, vu_public_key = [], vu_power = 0 \<rparr>] of
      Inr vs' \<Rightarrow> vs_wf vs' \<and>
        vs_lookup vs' = foldl spec_update (vs_lookup sample_set)
          [\<lparr> vu_id = 4, vu_public_key = [], vu_power = 0 \<rparr>]
    | Inl e \<Rightarrow> \<not> valid_infos (foldl apply_update (vs_validators sample_set)
          [\<lparr> vu_id = 4, vu_public_key = [], vu_power = 0 \<rparr>]))"
  by (rule try_apply_updates_refines [OF sample_set_wf])

end
