(* ===== verification/Liveness.thy ===== *)
theory Liveness
  imports Validator_Set
begin

text \<open>
  \<open>hotmint-consensus/src/liveness.rs\<close>: counting missed commit signatures. The \<open>HashMap\<close> of missed
  counts is an association list, since \<open>offline_validators\<close> iterates over it.
\<close>

record LivenessTracker =
  lt_missed :: "(ValidatorId \<times> u64) list"
  lt_total_commits :: u64
  lt_threshold_num :: u64
  lt_threshold_den :: u64

record OfflineEvidence =
  oe_validator :: ValidatorId
  oe_missed_commits :: u64
  oe_total_commits :: u64
  oe_evidence_height :: Height

definition lt_new :: LivenessTracker where
  "lt_new = \<lparr> lt_missed = [], lt_total_commits = 0, lt_threshold_num = 50, lt_threshold_den = 100 \<rparr>"

definition lt_missed_of :: "LivenessTracker \<Rightarrow> ValidatorId \<Rightarrow> u64" where
  "lt_missed_of t i = (case map_of (lt_missed t) i of None \<Rightarrow> 0 | Some n \<Rightarrow> n)"

fun record_missed ::
    "bool list \<Rightarrow> nat \<Rightarrow> ValidatorInfo list \<Rightarrow> LivenessTracker \<Rightarrow> LivenessTracker" where
  "record_missed signers idx [] t = t"
| "record_missed signers idx (vi # vis) t =
     record_missed signers (Suc idx) vis
       (if nth_opt signers idx = Some True then t
        else t\<lparr>lt_missed := AList.update (vi_id vi) (lt_missed_of t (vi_id vi) + 1) (lt_missed t)\<rparr>)"

definition record_commit :: "ValidatorSet \<Rightarrow> bool list \<Rightarrow> LivenessTracker \<Rightarrow> LivenessTracker" where
  "record_commit vs signers t =
     record_missed signers 0 (vs_validators vs)
       (t\<lparr>lt_total_commits := lt_total_commits t + 1\<rparr>)"

definition offline_validators :: "LivenessTracker \<Rightarrow> (ValidatorId \<times> u64 \<times> u64) list" where
  "offline_validators t =
     (if lt_total_commits t = 0 then []
      else sort_key fst
        (map (\<lambda>(i, missed). (i, missed, lt_total_commits t))
          (filter (\<lambda>(i, missed). missed * lt_threshold_den t > lt_threshold_num t * lt_total_commits t)
            (lt_missed t))))"

definition lt_reset :: "LivenessTracker \<Rightarrow> LivenessTracker" where
  "lt_reset t = t\<lparr>lt_missed := [], lt_total_commits := 0\<rparr>"

definition lt_stats :: "LivenessTracker \<Rightarrow> ValidatorId \<Rightarrow> u64 \<times> u64" where
  "lt_stats t i = (lt_missed_of t i, lt_total_commits t)"

section \<open>Counting\<close>

lemma lt_missed_of_update [simp]:
  "lt_missed_of (t\<lparr>lt_missed := AList.update k n (lt_missed t)\<rparr>) i =
     (if i = k then n else lt_missed_of t i)"
  by (simp add: lt_missed_of_def update_conv')

lemma record_missed_fields [simp]:
  "lt_total_commits (record_missed signers idx vis t) = lt_total_commits t"
  "lt_threshold_num (record_missed signers idx vis t) = lt_threshold_num t"
  "lt_threshold_den (record_missed signers idx vis t) = lt_threshold_den t"
  by (induction signers idx vis t rule: record_missed.induct) auto

lemma record_missed_other:
  "i \<notin> vi_id ` set vis \<Longrightarrow> lt_missed_of (record_missed signers idx vis t) i = lt_missed_of t i"
  by (induction signers idx vis t rule: record_missed.induct) auto

lemma record_missed_nth:
  "\<lbrakk> distinct (map vi_id vis); k < length vis \<rbrakk> \<Longrightarrow>
     lt_missed_of (record_missed signers idx vis t) (vi_id (vis ! k)) =
     lt_missed_of t (vi_id (vis ! k)) + (if nth_opt signers (idx + k) = Some True then 0 else 1)"
proof (induction signers idx vis t arbitrary: k rule: record_missed.induct)
  case (2 signers idx vi vis t)
  show ?case
  proof (cases k)
    case 0
    with 2 show ?thesis by (simp add: record_missed_other)
  next
    case (Suc j)
    with 2(3) have "vis ! j \<in> set vis" by simp
    with 2(2) have "vi_id (vis ! j) \<noteq> vi_id vi" by (auto simp: image_iff)
    with 2 Suc show ?thesis by simp
  qed
qed simp

text \<open>A history of commits of one epoch, and how many of them the validator at an index missed.\<close>

definition record_all :: "ValidatorSet \<Rightarrow> bool list list \<Rightarrow> LivenessTracker \<Rightarrow> LivenessTracker" where
  "record_all vs history t = fold (record_commit vs) history t"

definition missed_in :: "bool list list \<Rightarrow> nat \<Rightarrow> nat" where
  "missed_in history k = length (filter (\<lambda>signers. nth_opt signers k \<noteq> Some True) history)"

lemma record_all_counts:
  assumes "vs_wf vs" "k < length (vs_validators vs)"
  shows "lt_missed_of (record_all vs history t) (vi_id (vs_validators vs ! k)) =
           lt_missed_of t (vi_id (vs_validators vs ! k)) + of_nat (missed_in history k) \<and>
         lt_total_commits (record_all vs history t) = lt_total_commits t + of_nat (length history)"
proof (induction history arbitrary: t)
  case (Cons signers history)
  have d: "distinct (map vi_id (vs_validators vs))"
    using assms(1) by (simp add: vs_wf_def valid_infos_def)
  let ?t = "record_commit vs signers t" and ?i = "vi_id (vs_validators vs ! k)"
  have "lt_missed_of ?t ?i = lt_missed_of t ?i + (if nth_opt signers k = Some True then 0 else 1)"
    unfolding record_commit_def record_missed_nth [OF d assms(2)] by (simp add: lt_missed_of_def)
  moreover have "lt_total_commits ?t = lt_total_commits t + 1" by (simp add: record_commit_def)
  ultimately show ?case
    using Cons.IH [of ?t] by (simp add: record_all_def missed_in_def)
qed (simp add: record_all_def missed_in_def)

lemma record_missed_keys:
  "distinct (map fst (lt_missed t)) \<Longrightarrow> distinct (map fst (lt_missed (record_missed s i vis t)))"
  by (induction s i vis t rule: record_missed.induct) (auto simp: distinct_update)

lemma record_all_keys:
  "distinct (map fst (lt_missed t)) \<Longrightarrow> distinct (map fst (lt_missed (record_all vs history t)))"
  unfolding record_all_def
  by (induction history arbitrary: t) (auto simp: record_commit_def record_missed_keys)

lemma record_all_thresholds [simp]:
  "lt_threshold_num (record_all vs history t) = lt_threshold_num t"
  "lt_threshold_den (record_all vs history t) = lt_threshold_den t"
  unfolding record_all_def
  by (induction history arbitrary: t) (auto simp: record_commit_def)

text \<open>
  A fresh tracker fed the signer bitfields of up to \<open>2 ^ 56\<close> commits reports a validator of the
  set as offline exactly if it signed fewer than half of them, with its exact count of misses;
  no product of the threshold test wraps around below that bound.
\<close>

lemma offline_exactly_minority_signers:
  assumes "vs_wf vs" "k < length (vs_validators vs)" "length history < 2 ^ 56" "history \<noteq> []"
  shows "(vi_id (vs_validators vs ! k), m, n) \<in> set (offline_validators (record_all vs history lt_new))
     \<longleftrightarrow> m = of_nat (missed_in history k) \<and> n = of_nat (length history) \<and>
         length history < 2 * missed_in history k"
proof -
  let ?t = "record_all vs history lt_new" and ?i = "vi_id (vs_validators vs ! k)"
  let ?L = "length history" and ?M = "missed_in history k"
  have M: "?M \<le> ?L" by (simp add: missed_in_def)
  have c: "lt_missed_of ?t ?i = of_nat ?M" "lt_total_commits ?t = of_nat ?L"
    using record_all_counts [OF assms(1,2), of history lt_new] by (simp_all add: lt_new_def lt_missed_of_def)
  have th: "lt_threshold_num ?t = 50" "lt_threshold_den ?t = 100" by (simp_all add: lt_new_def)
  have ne: "(of_nat ?L :: u64) \<noteq> 0" using assms(3,4) by (subst of_nat_u64_eq_0) simp_all
  have u: "unat (of_nat ?M :: u64) = ?M" "unat (of_nat ?L :: u64) = ?L"
    using M assms(3) by (simp_all add: unat_of_nat_u64)
  have "unat (of_nat ?M * 100 :: u64) = ?M * 100" "unat (50 * of_nat ?L :: u64) = 50 * ?L"
    using M assms(3) by (simp_all add: unat_word_ariths u)
  then have cmp: "50 * of_nat ?L < (of_nat ?M * 100 :: u64) \<longleftrightarrow> ?L < 2 * ?M"
    by (simp add: word_less_nat_alt)
  have d: "distinct (map fst (lt_missed ?t))" by (rule record_all_keys) (simp add: lt_new_def)
  have mem: "(?i, x) \<in> set (lt_missed ?t) \<longleftrightarrow> map_of (lt_missed ?t) ?i = Some x" for x
    using d by simp
  have "(?i, m, n) \<in> set (offline_validators ?t) \<longleftrightarrow>
      (?i, m) \<in> set (lt_missed ?t) \<and> n = of_nat ?L \<and> 50 * of_nat ?L < m * 100"
    using ne c th by (auto simp: offline_validators_def)
  also have "\<dots> \<longleftrightarrow> m = of_nat ?M \<and> n = of_nat ?L \<and> ?L < 2 * ?M"
    using c(1) cmp unfolding mem by (auto simp: lt_missed_of_def split: option.splits)
  finally show ?thesis .
qed

end
