(* ===== verification/Block_Store.thy ===== *)
theory Block_Store
  imports Types
begin

text \<open>
  The block stores: \<open>MemoryBlockStore\<close> of \<open>hotmint-consensus/src/store.rs\<close> and \<open>VsdbBlockStore\<close> of
  \<open>hotmint-storage/src/block_store.rs\<close>. A \<open>BTreeMap\<close> or \<open>MapxOrd\<close> the code walks in key order is
  a sorted association list, one that is only looked up is a map. The locale \<open>block_store\<close> is the
  contract of the trait \<open>BlockStore\<close>; both stores interpret it.
\<close>

section \<open>The in-memory store\<close>

record MemoryBlockStore =
  mb_by_hash :: "BlockHash \<rightharpoonup> Block"
  mb_by_height :: "(Height \<times> BlockHash) list"
  mb_commit_qcs :: "Height \<rightharpoonup> QuorumCertificate"

definition mb_put_block :: "Block \<Rightarrow> MemoryBlockStore \<Rightarrow> MemoryBlockStore" where
  "mb_put_block block s =
     (let hash = b_hash block;
          height = b_height block;
          s' = (case mb_commit_qcs s height of
                  Some commit_qc \<Rightarrow>
                    if qc_block_hash commit_qc = hash
                    then s\<lparr>mb_by_height := omap_insert height hash (mb_by_height s)\<rparr> else s
                | None \<Rightarrow> s\<lparr>mb_by_height := omap_insert height hash (mb_by_height s)\<rparr>)
      in s'\<lparr>mb_by_hash := (mb_by_hash s')(hash \<mapsto> block)\<rparr>)"

definition mb_new :: MemoryBlockStore where
  "mb_new = mb_put_block genesis_block
     \<lparr> mb_by_hash = Map.empty, mb_by_height = [], mb_commit_qcs = Map.empty \<rparr>"

definition mb_get_block :: "MemoryBlockStore \<Rightarrow> BlockHash \<Rightarrow> Block option" where
  "mb_get_block s hash = mb_by_hash s hash"

definition mb_get_block_by_height :: "MemoryBlockStore \<Rightarrow> Height \<Rightarrow> Block option" where
  "mb_get_block_by_height s h = Option.bind (map_of (mb_by_height s) h) (mb_by_hash s)"

definition mb_get_blocks_in_range :: "MemoryBlockStore \<Rightarrow> Height \<Rightarrow> Height \<Rightarrow> Block list" where
  "mb_get_blocks_in_range s from to =
     (if from > to then []
      else List.map_filter (\<lambda>(_, hash). mb_by_hash s hash)
             (filter (\<lambda>(h, _). from \<le> h \<and> h \<le> to) (mb_by_height s)))"

definition mb_tip_height :: "MemoryBlockStore \<Rightarrow> Height" where
  "mb_tip_height s = (if mb_by_height s = [] then 0 else fst (last (mb_by_height s)))"

definition mb_put_commit_qc :: "Height \<Rightarrow> QuorumCertificate \<Rightarrow> MemoryBlockStore \<Rightarrow> MemoryBlockStore" where
  "mb_put_commit_qc height qc s =
     (let s' = (case mb_by_hash s (qc_block_hash qc) of
                  Some block \<Rightarrow>
                    if b_height block = height
                    then s\<lparr>mb_by_height := omap_insert height (qc_block_hash qc) (mb_by_height s)\<rparr>
                    else s
                | None \<Rightarrow> s)
      in s'\<lparr>mb_commit_qcs := (mb_commit_qcs s')(height \<mapsto> qc)\<rparr>)"

definition mb_get_commit_qc :: "MemoryBlockStore \<Rightarrow> Height \<Rightarrow> QuorumCertificate option" where
  "mb_get_commit_qc s height = mb_commit_qcs s height"

text \<open>The in-memory store keeps the trait's defaults for the transaction index and the block results.\<close>

definition default_put_tx_index :: "hash32 \<Rightarrow> Height \<Rightarrow> u32 \<Rightarrow> 's \<Rightarrow> 's" where
  "default_put_tx_index tx_hash height index s = s"

definition default_get_tx_location :: "'s \<Rightarrow> hash32 \<Rightarrow> (Height \<times> u32) option" where
  "default_get_tx_location s tx_hash = None"

definition default_put_block_results :: "Height \<Rightarrow> EndBlockResponse \<Rightarrow> 's \<Rightarrow> 's" where
  "default_put_block_results height results s = s"

definition default_get_block_results :: "'s \<Rightarrow> Height \<Rightarrow> EndBlockResponse option" where
  "default_get_block_results s height = None"

section \<open>The persistent store\<close>

record VsdbBlockStore =
  vb_by_hash :: "BlockHash \<rightharpoonup> Block"
  vb_by_height :: "(Height \<times> BlockHash) list"
  vb_commit_qcs :: "Height \<rightharpoonup> QuorumCertificate"
  vb_tx_index :: "hash32 \<rightharpoonup> Height \<times> u32"
  vb_block_results :: "Height \<rightharpoonup> EndBlockResponse"

definition put_block :: "Block \<Rightarrow> VsdbBlockStore \<Rightarrow> VsdbBlockStore" where
  "put_block block s =
     (let s' = s\<lparr>vb_by_hash := (vb_by_hash s)(b_hash block \<mapsto> block)\<rparr>;
          height = b_height block
      in case vb_commit_qcs s' height of
           Some commit_qc \<Rightarrow>
             if qc_block_hash commit_qc = b_hash block
             then s'\<lparr>vb_by_height := omap_insert height (b_hash block) (vb_by_height s')\<rparr> else s'
         | None \<Rightarrow> s'\<lparr>vb_by_height := omap_insert height (b_hash block) (vb_by_height s')\<rparr>)"

definition vb_new :: VsdbBlockStore where
  "vb_new = put_block genesis_block
     \<lparr> vb_by_hash = Map.empty, vb_by_height = [], vb_commit_qcs = Map.empty,
       vb_tx_index = Map.empty, vb_block_results = Map.empty \<rparr>"

definition get_block :: "VsdbBlockStore \<Rightarrow> BlockHash \<Rightarrow> Block option" where
  "get_block s hash = vb_by_hash s hash"

definition get_block_by_height :: "VsdbBlockStore \<Rightarrow> Height \<Rightarrow> Block option" where
  "get_block_by_height s h = Option.bind (map_of (vb_by_height s) h) (vb_by_hash s)"

definition get_blocks_in_range :: "VsdbBlockStore \<Rightarrow> Height \<Rightarrow> Height \<Rightarrow> Block list" where
  "get_blocks_in_range s from to =
     (if from > to then []
      else List.map_filter (\<lambda>(_, hash). vb_by_hash s hash)
             (filter (\<lambda>(h, _). from \<le> h \<and> h \<le> to) (vb_by_height s)))"

definition tip_height :: "VsdbBlockStore \<Rightarrow> Height" where
  "tip_height s = (if vb_by_height s = [] then 0 else fst (last (vb_by_height s)))"

definition put_commit_qc :: "Height \<Rightarrow> QuorumCertificate \<Rightarrow> VsdbBlockStore \<Rightarrow> VsdbBlockStore" where
  "put_commit_qc height qc s =
     (let s' = s\<lparr>vb_commit_qcs := (vb_commit_qcs s)(height \<mapsto> qc)\<rparr>
      in case vb_by_hash s' (qc_block_hash qc) of
           Some block \<Rightarrow>
             if b_height block = height
             then s'\<lparr>vb_by_height := omap_insert height (qc_block_hash qc) (vb_by_height s')\<rparr>
             else s'
         | None \<Rightarrow> s')"

definition get_commit_qc :: "VsdbBlockStore \<Rightarrow> Height \<Rightarrow> QuorumCertificate option" where
  "get_commit_qc s height = vb_commit_qcs s height"

definition put_tx_index :: "hash32 \<Rightarrow> Height \<Rightarrow> u32 \<Rightarrow> VsdbBlockStore \<Rightarrow> VsdbBlockStore" where
  "put_tx_index tx_hash height index s = s\<lparr>vb_tx_index := (vb_tx_index s)(tx_hash \<mapsto> (height, index))\<rparr>"

definition get_tx_location :: "VsdbBlockStore \<Rightarrow> hash32 \<Rightarrow> (Height \<times> u32) option" where
  "get_tx_location s tx_hash = vb_tx_index s tx_hash"

definition put_block_results :: "Height \<Rightarrow> EndBlockResponse \<Rightarrow> VsdbBlockStore \<Rightarrow> VsdbBlockStore" where
  "put_block_results height results s =
     s\<lparr>vb_block_results := (vb_block_results s)(height \<mapsto> results)\<rparr>"

definition get_block_results :: "VsdbBlockStore \<Rightarrow> Height \<Rightarrow> EndBlockResponse option" where
  "get_block_results s height = vb_block_results s height"

text \<open>
  Reopening a store whose collections were recovered: the genesis block is re-inserted if it is
  missing.
\<close>

definition reopen :: "VsdbBlockStore \<Rightarrow> VsdbBlockStore" where
  "reopen s = (if get_block s (b_hash genesis_block) = None then put_block genesis_block s else s)"

section \<open>The default range query\<close>

text \<open>
  The default \<open>get_blocks_in_range\<close> of the trait. Its counter wraps at the end of the heights, so
  it does not return for \<open>to = u64::MAX\<close>.
\<close>

partial_function (option) range_loop ::
    "(Height \<Rightarrow> Block option) \<Rightarrow> Height \<Rightarrow> Height \<Rightarrow> Block list \<Rightarrow> Block list option" where
  "range_loop by_height h to blocks =
     (if h \<le> to
      then range_loop by_height (h + 1) to
             (case by_height h of Some block \<Rightarrow> blocks @ [block] | None \<Rightarrow> blocks)
      else Some blocks)"

definition default_range :: "(Height \<Rightarrow> Block option) \<Rightarrow> Height \<Rightarrow> Height \<Rightarrow> Block list option" where
  "default_range by_height from to = range_loop by_height from to []"

lemma range_loop_total:
  assumes "unat to < 2 ^ 64 - 1" "unat h + n = Suc (unat to)"
  shows "range_loop by_height h to blocks =
    Some (blocks @ List.map_filter (\<lambda>k. by_height (of_nat k)) [unat h..<Suc (unat to)])"
  using assms
proof (induction n arbitrary: h blocks)
  case 0
  then have "\<not> h \<le> to" by (simp add: word_le_nat_alt)
  with 0 show ?case by (simp add: range_loop.simps List.map_filter_def)
next
  case (Suc n)
  then have h: "h \<le> to" by (simp add: word_le_nat_alt)
  have u: "unat (h + 1) = Suc (unat h)"
    using Suc.prems by (subst unat_add_no_overflow) simp_all
  let ?b = "case by_height h of Some block \<Rightarrow> blocks @ [block] | None \<Rightarrow> blocks"
  have "range_loop by_height h to blocks = range_loop by_height (h + 1) to ?b"
    using h by (subst range_loop.simps) simp
  also have "\<dots> = Some (?b @ List.map_filter (\<lambda>k. by_height (of_nat k)) [Suc (unat h)..<Suc (unat to)])"
    using Suc.IH [of "h + 1" ?b] Suc.prems u by simp
  also have "[unat h..<Suc (unat to)] = unat h # [Suc (unat h)..<Suc (unat to)]"
    using h by (simp add: upt_conv_Cons word_le_nat_alt)
  then have "?b @ List.map_filter (\<lambda>k. by_height (of_nat k)) [Suc (unat h)..<Suc (unat to)] =
    blocks @ List.map_filter (\<lambda>k. by_height (of_nat k)) [unat h..<Suc (unat to)]"
    by (simp add: List.map_filter_simps split: option.splits)
  finally show ?case .
qed

section \<open>The contract of the trait\<close>

text \<open>
  What a client observes of a store (blocks by hash, blocks by height, commit certificates) and
  what the two mutations promise: a height answers with the last block stored for it until a
  commit certificate pins it to the certified block.
\<close>

type_synonym store_view =
  "(BlockHash \<rightharpoonup> Block) \<times> (Height \<rightharpoonup> Block) \<times> (Height \<rightharpoonup> QuorumCertificate)"

datatype store_op = PutBlock Block | PutCommitQc Height QuorumCertificate

fun spec_op :: "store_op \<Rightarrow> store_view \<Rightarrow> store_view" where
  "spec_op (PutBlock b) (bs, hs, qs) =
     (bs(b_hash b \<mapsto> b),
      (if (case qs (b_height b) of Some qc \<Rightarrow> qc_block_hash qc = b_hash b | None \<Rightarrow> True)
       then hs(b_height b \<mapsto> b) else hs), qs)"
| "spec_op (PutCommitQc h qc) (bs, hs, qs) =
     (bs, (case bs (qc_block_hash qc) of
             Some b \<Rightarrow> if b_height b = h then hs(h \<mapsto> b) else hs | None \<Rightarrow> hs), qs(h \<mapsto> qc))"

text \<open>
  \<open>blk\<close> is the block a hash stands for: the callers store a block under its own hash only after
  recomputing it, so one hash names one block.
\<close>

fun op_ok :: "(BlockHash \<Rightarrow> Block) \<Rightarrow> store_op \<Rightarrow> bool" where
  "op_ok blk (PutBlock b) \<longleftrightarrow> blk (b_hash b) = b"
| "op_ok blk (PutCommitQc h qc) \<longleftrightarrow> True"

fun run_op :: "(Block \<Rightarrow> 's \<Rightarrow> 's) \<Rightarrow> (Height \<Rightarrow> QuorumCertificate \<Rightarrow> 's \<Rightarrow> 's) \<Rightarrow> store_op \<Rightarrow> 's \<Rightarrow> 's" where
  "run_op put put_qc (PutBlock b) s = put b s"
| "run_op put put_qc (PutCommitQc h qc) s = put_qc h qc s"

locale block_store =
  fixes put :: "Block \<Rightarrow> 's \<Rightarrow> 's"
    and get :: "'s \<Rightarrow> BlockHash \<Rightarrow> Block option"
    and by_height :: "'s \<Rightarrow> Height \<Rightarrow> Block option"
    and put_qc :: "Height \<Rightarrow> QuorumCertificate \<Rightarrow> 's \<Rightarrow> 's"
    and get_qc :: "'s \<Rightarrow> Height \<Rightarrow> QuorumCertificate option"
    and inv :: "(BlockHash \<Rightarrow> Block) \<Rightarrow> 's \<Rightarrow> bool"
  assumes put_view: "\<lbrakk> inv blk s; blk (b_hash b) = b \<rbrakk> \<Longrightarrow>
      (get (put b s), by_height (put b s), get_qc (put b s)) =
      spec_op (PutBlock b) (get s, by_height s, get_qc s)"
    and put_qc_view: "inv blk s \<Longrightarrow>
      (get (put_qc h qc s), by_height (put_qc h qc s), get_qc (put_qc h qc s)) =
      spec_op (PutCommitQc h qc) (get s, by_height s, get_qc s)"
    and put_inv: "\<lbrakk> inv blk s; blk (b_hash b) = b \<rbrakk> \<Longrightarrow> inv blk (put b s)"
    and put_qc_inv: "inv blk s \<Longrightarrow> inv blk (put_qc h qc s)"
    and get_inv: "\<lbrakk> inv blk s; get s k = Some b \<rbrakk> \<Longrightarrow> b_hash b = k \<and> blk k = b"
    and by_height_inv:
      "\<lbrakk> inv blk s; by_height s h = Some b \<rbrakk> \<Longrightarrow> b_height b = h \<and> get s (b_hash b) = Some b"
begin

lemma run_op_view:
  "\<lbrakk> inv blk s; op_ok blk p \<rbrakk> \<Longrightarrow>
     inv blk (run_op put put_qc p s) \<and>
     (get (run_op put put_qc p s), by_height (run_op put put_qc p s), get_qc (run_op put put_qc p s)) =
     spec_op p (get s, by_height s, get_qc s)"
  by (cases p) (simp_all add: put_inv put_qc_inv put_view put_qc_view)

lemma run_view:
  "\<lbrakk> inv blk s; \<forall>p \<in> set ops. op_ok blk p \<rbrakk> \<Longrightarrow>
     inv blk (fold (run_op put put_qc) ops s) \<and>
     (get (fold (run_op put put_qc) ops s), by_height (fold (run_op put put_qc) ops s),
      get_qc (fold (run_op put put_qc) ops s)) =
     fold spec_op ops (get s, by_height s, get_qc s)"
proof (induction ops arbitrary: s)
  case (Cons p ops)
  from run_op_view [OF Cons.prems(1), of p] Cons show ?case by simp
qed simp

text \<open>A height with a commit certificate keeps answering with the certified block.\<close>

lemma pinned_step:
  assumes "inv blk s" "op_ok blk p"
    and p: "get_qc s h = Some qc" "by_height s h = Some b" "b_hash b = qc_block_hash qc"
    and no: "\<And>qc'. p = PutCommitQc h qc' \<Longrightarrow> qc_block_hash qc' = qc_block_hash qc"
  defines "s' \<equiv> run_op put put_qc p s"
  shows "by_height s' h = Some b \<and> (\<exists>qc'. get_qc s' h = Some qc' \<and> qc_block_hash qc' = qc_block_hash qc)"
proof -
  have g: "get s (b_hash b) = Some b" "b_height b = h" using by_height_inv [OF assms(1) p(2)] by auto
  note v = run_op_view [OF assms(1,2), folded s'_def]
  show ?thesis
  proof (cases p)
    case (PutBlock c)
    show ?thesis
    proof (cases "b_hash c = b_hash b")
      case True
      with PutBlock assms(2) get_inv [OF assms(1) g(1)] have "c = b" by (metis op_ok.simps(1))
      with v PutBlock p show ?thesis by simp
    next
      case False
      with v PutBlock p show ?thesis by (cases "b_height c = h") auto
    qed
  next
    case (PutCommitQc h' qc')
    show ?thesis
    proof (cases "h' = h")
      case True
      with no PutCommitQc p(3) have "qc_block_hash qc' = b_hash b" by simp
      with v PutCommitQc True g p show ?thesis by auto
    next
      case False
      with v PutCommitQc p show ?thesis by (auto split: option.splits if_splits)
    qed
  qed
qed

lemma pinned_run:
  "\<lbrakk> inv blk s; \<forall>p \<in> set ops. op_ok blk p;
     get_qc s h = Some qc; by_height s h = Some b; b_hash b = qc_block_hash qc;
     \<forall>qc'. PutCommitQc h qc' \<in> set ops \<longrightarrow> qc_block_hash qc' = qc_block_hash qc \<rbrakk> \<Longrightarrow>
     by_height (fold (run_op put put_qc) ops s) h = Some b"
proof (induction ops arbitrary: s qc)
  case (Cons p ops)
  let ?s = "run_op put put_qc p s"
  have o: "op_ok blk p" using Cons.prems(2) by simp
  have n: "\<And>qc'. p = PutCommitQc h qc' \<Longrightarrow> qc_block_hash qc' = qc_block_hash qc"
    using Cons.prems(6) by simp
  have "by_height ?s h = Some b"
    and "\<exists>qc'. get_qc ?s h = Some qc' \<and> qc_block_hash qc' = qc_block_hash qc"
    using pinned_step [OF Cons.prems(1) o Cons.prems(3-5) n] by blast+
  moreover have "inv blk ?s" using run_op_view [OF Cons.prems(1), of p] Cons.prems(2) by simp
  moreover have "\<forall>q \<in> set ops. op_ok blk q" using Cons.prems(2) by simp
  moreover have "\<forall>qc'. PutCommitQc h qc' \<in> set ops \<longrightarrow> qc_block_hash qc' = qc_block_hash qc"
    using Cons.prems(6) by simp
  ultimately have "by_height (fold (run_op put put_qc) ops ?s) h = Some b"
    using Cons.IH Cons.prems(5) by metis
  then show ?case by simp
qed simp

end

section \<open>Both stores fulfil it\<close>

definition index_ok ::
    "(BlockHash \<Rightarrow> Block) \<Rightarrow> (BlockHash \<rightharpoonup> Block) \<Rightarrow> (Height \<times> BlockHash) list \<Rightarrow> bool" where
  "index_ok blk bs ix \<longleftrightarrow>
     (\<forall>h b. bs h = Some b \<longrightarrow> b_hash b = h \<and> blk h = b) \<and> omap_sorted ix \<and>
     (\<forall>h hash. map_of ix h = Some hash \<longrightarrow> (\<exists>b. bs hash = Some b \<and> b_height b = h))"

abbreviation mb_inv :: "(BlockHash \<Rightarrow> Block) \<Rightarrow> MemoryBlockStore \<Rightarrow> bool" where
  "mb_inv blk s \<equiv> index_ok blk (mb_by_hash s) (mb_by_height s)"

abbreviation vb_inv :: "(BlockHash \<Rightarrow> Block) \<Rightarrow> VsdbBlockStore \<Rightarrow> bool" where
  "vb_inv blk s \<equiv> index_ok blk (vb_by_hash s) (vb_by_height s)"

lemma index_ok_hash:
  "\<lbrakk> index_ok blk bs ix; blk (b_hash b) = b \<rbrakk> \<Longrightarrow> index_ok blk (bs(b_hash b \<mapsto> b)) ix"
  unfolding index_ok_def by (auto split: if_splits) (metis option.inject)+

lemma index_ok_insert:
  "\<lbrakk> index_ok blk bs ix; bs hash = Some b; b_height b = h \<rbrakk> \<Longrightarrow> index_ok blk bs (omap_insert h hash ix)"
  unfolding index_ok_def by (auto split: if_splits)

lemma index_ok_stored:
  "\<lbrakk> index_ok blk bs ix; blk (b_hash b) = b; bs (b_hash b) = Some c \<rbrakk> \<Longrightarrow> c = b"
  unfolding index_ok_def by auto

lemma index_ok_indexed:
  "\<lbrakk> index_ok blk bs ix; map_of ix h = Some k \<rbrakk> \<Longrightarrow> \<exists>b. bs k = Some b \<and> b_height b = h"
  unfolding index_ok_def by blast

lemma index_ok_get: "\<lbrakk> index_ok blk bs ix; bs k = Some b \<rbrakk> \<Longrightarrow> b_hash b = k \<and> blk k = b"
  unfolding index_ok_def by blast

lemma index_ok_by_height:
  assumes "index_ok blk bs ix" "Option.bind (map_of ix h) bs = Some b"
  shows "b_height b = h \<and> bs (b_hash b) = Some b"
proof -
  from assms(2) obtain k where k: "map_of ix h = Some k" "bs k = Some b"
    by (auto simp: bind_eq_Some_conv)
  from index_ok_indexed [OF assms(1) k(1)] index_ok_get [OF assms(1) k(2)] k(2) show ?thesis by simp
qed

lemma by_height_hash_upd:
  assumes "index_ok blk bs ix" "blk (b_hash b) = b"
  shows "Option.bind (map_of ix h) (bs(b_hash b \<mapsto> b)) = Option.bind (map_of ix h) bs"
proof (cases "map_of ix h")
  case (Some k)
  with index_ok_indexed [OF assms(1)] obtain c where c: "bs k = Some c" by blast
  show ?thesis
  proof (cases "k = b_hash b")
    case True
    with c index_ok_stored [OF assms] have "c = b" by simp
    with Some c True show ?thesis by simp
  qed (use Some in simp)
qed simp

interpretation mb: block_store mb_put_block mb_get_block mb_get_block_by_height
    mb_put_commit_qc mb_get_commit_qc mb_inv
proof
  fix blk s b assume i: "mb_inv blk s" and b: "blk (b_hash b) = b"
  show "(mb_get_block (mb_put_block b s), mb_get_block_by_height (mb_put_block b s),
      mb_get_commit_qc (mb_put_block b s)) =
      spec_op (PutBlock b) (mb_get_block s, mb_get_block_by_height s, mb_get_commit_qc s)"
    using by_height_hash_upd [OF i b]
    by (auto simp: mb_put_block_def mb_get_block_def mb_get_block_by_height_def mb_get_commit_qc_def
        Let_def fun_eq_iff split: option.splits)
  show "mb_inv blk (mb_put_block b s)"
    using i b by (auto simp: mb_put_block_def Let_def split: option.splits
        intro: index_ok_insert [OF index_ok_hash] index_ok_hash)
next
  fix blk s h qc assume i: "mb_inv blk s"
  show "(mb_get_block (mb_put_commit_qc h qc s), mb_get_block_by_height (mb_put_commit_qc h qc s),
      mb_get_commit_qc (mb_put_commit_qc h qc s)) =
      spec_op (PutCommitQc h qc) (mb_get_block s, mb_get_block_by_height s, mb_get_commit_qc s)"
    by (auto simp: mb_put_commit_qc_def mb_get_block_def mb_get_block_by_height_def
        mb_get_commit_qc_def Let_def fun_eq_iff split: option.splits)
  show "mb_inv blk (mb_put_commit_qc h qc s)"
    using i by (auto simp: mb_put_commit_qc_def Let_def split: option.splits intro!: index_ok_insert)
qed (auto simp: mb_get_block_def mb_get_block_by_height_def dest: index_ok_get index_ok_by_height)

interpretation vb: block_store put_block get_block get_block_by_height put_commit_qc get_commit_qc vb_inv
proof
  fix blk s b assume i: "vb_inv blk s" and b: "blk (b_hash b) = b"
  show "(get_block (put_block b s), get_block_by_height (put_block b s), get_commit_qc (put_block b s)) =
      spec_op (PutBlock b) (get_block s, get_block_by_height s, get_commit_qc s)"
    using by_height_hash_upd [OF i b]
    by (auto simp: put_block_def get_block_def get_block_by_height_def get_commit_qc_def
        Let_def fun_eq_iff split: option.splits)
  show "vb_inv blk (put_block b s)"
    using i b by (auto simp: put_block_def Let_def split: option.splits
        intro: index_ok_insert [OF index_ok_hash] index_ok_hash)
next
  fix blk s h qc assume i: "vb_inv blk s"
  show "(get_block (put_commit_qc h qc s), get_block_by_height (put_commit_qc h qc s),
      get_commit_qc (put_commit_qc h qc s)) =
      spec_op (PutCommitQc h qc) (get_block s, get_block_by_height s, get_commit_qc s)"
    by (auto simp: put_commit_qc_def get_block_def get_block_by_height_def
        get_commit_qc_def Let_def fun_eq_iff split: option.splits)
  show "vb_inv blk (put_commit_qc h qc s)"
    using i by (auto simp: put_commit_qc_def Let_def split: option.splits intro!: index_ok_insert)
qed (auto simp: get_block_def get_block_by_height_def dest: index_ok_get index_ok_by_height)

section \<open>Range queries\<close>

lemma map_filter_conv: "List.map_filter f xs = map (the \<circ> f) (filter (\<lambda>x. f x \<noteq> None) xs)"
  by (simp add: List.map_filter_def comp_def)

text \<open>The heights of a range, counted up or read off the sorted index.\<close>

lemma index_range_keys:
  assumes ix: "omap_sorted ix"
  shows "filter (\<lambda>h. from \<le> h \<and> h \<le> to) (map fst ix) =
    filter (\<lambda>h. map_of ix h \<noteq> None) (map of_nat [unat from..<Suc (unat (to :: Height))])"
proof (rule sorted_distinct_set_unique)
  have u: "unat (of_nat n :: Height) = n" if "n \<le> unat to" for n
    using that unat_u64_less [of to] by (intro unat_of_nat_u64) (simp del: unat_u64_less)
  have "sorted (map of_nat [unat from..<Suc (unat to)] :: Height list)"
    by (rule sorted_map [THEN iffD2], rule sorted_wrt_mono_rel [OF _ sorted_upt])
       (auto simp: word_le_nat_alt u)
  then show "sorted (filter (\<lambda>h. map_of ix h \<noteq> None) (map of_nat [unat from..<Suc (unat to)]))"
    by (rule sorted_wrt_filter)
  have "inj_on (of_nat :: nat \<Rightarrow> Height) {unat from..<Suc (unat to)}"
    by (rule inj_on_inverseI [of _ unat]) (simp add: u)
  then show "distinct (filter (\<lambda>h. map_of ix h \<noteq> None) (map of_nat [unat from..<Suc (unat to)]))"
    by (intro distinct_filter) (simp add: distinct_map del: upt_Suc)
  have strict: "sorted_wrt (<) (map fst ix)" using ix .
  then show "sorted (filter (\<lambda>h. from \<le> h \<and> h \<le> to) (map fst ix))"
    by (intro sorted_wrt_filter) (simp add: strict_sorted_imp_sorted)
  from strict show "distinct (filter (\<lambda>h. from \<le> h \<and> h \<le> to) (map fst ix))"
    by (simp add: strict_sorted_iff)
  have "h \<in> of_nat ` {unat from..<Suc (unat to)} \<longleftrightarrow> from \<le> h \<and> h \<le> to" for h :: Height
  proof
    assume "from \<le> h \<and> h \<le> to"
    then have "unat h \<in> {unat from..<Suc (unat to)}" by (simp add: word_le_nat_alt)
    then show "h \<in> of_nat ` {unat from..<Suc (unat to)}" by (metis imageI of_nat_unat_u64)
  qed (auto simp: word_le_nat_alt u)
  moreover have "map_of ix h \<noteq> None \<longleftrightarrow> h \<in> fst ` set ix" for h by (simp add: map_of_eq_None_iff)
  ultimately show "set (filter (\<lambda>h. from \<le> h \<and> h \<le> to) (map fst ix)) =
      set (filter (\<lambda>h. map_of ix h \<noteq> None) (map of_nat [unat from..<Suc (unat to)]))"
    unfolding set_filter set_map set_upt by blast
qed

lemma index_range:
  assumes "index_ok blk bs ix"
  shows "List.map_filter (\<lambda>(_, k). bs k) (filter (\<lambda>(h, _). from \<le> h \<and> h \<le> to) ix) =
    List.map_filter (\<lambda>n. Option.bind (map_of ix (of_nat n)) bs) [unat from..<Suc (unat to)]"
proof -
  let ?f = "\<lambda>h. Option.bind (map_of ix h) bs"
  have so: "omap_sorted ix" using assms by (simp add: index_ok_def)
  then have d: "distinct (map fst ix)" by (simp add: strict_sorted_iff)
  have def: "?f h \<noteq> None \<longleftrightarrow> map_of ix h \<noteq> None" for h
    using index_ok_indexed [OF assms, of h] by (cases "map_of ix h") auto
  have f: "?f h = bs k" if "(h, k) \<in> set ix" for h k using that d by simp
  have all: "filter (\<lambda>(_, k). bs k \<noteq> None) (filter (\<lambda>(h, _). from \<le> h \<and> h \<le> to) ix) =
      filter (\<lambda>(h, _). from \<le> h \<and> h \<le> to) ix"
  proof (rule filter_True, rule ballI)
    fix p assume "p \<in> set (filter (\<lambda>(h, _). from \<le> h \<and> h \<le> to) ix)"
    then have "map_of ix (fst p) = Some (snd p)" using d by simp
    from index_ok_indexed [OF assms this] show "case p of (_, k) \<Rightarrow> bs k \<noteq> None" by (cases p) auto
  qed
  have "List.map_filter (\<lambda>(_, k). bs k) (filter (\<lambda>(h, _). from \<le> h \<and> h \<le> to) ix) =
      map (\<lambda>(_, k). the (bs k)) (filter (\<lambda>(h, _). from \<le> h \<and> h \<le> to) ix)"
    using all by (simp add: map_filter_conv case_prod_unfold comp_def)
  also have "\<dots> = map (\<lambda>p. the (?f (fst p))) (filter (\<lambda>(h, _). from \<le> h \<and> h \<le> to) ix)"
    using f by (intro map_cong) auto
  also have "\<dots> = map (the \<circ> ?f) (filter (\<lambda>h. from \<le> h \<and> h \<le> to) (map fst ix))"
    by (simp add: filter_map comp_def case_prod_unfold)
  also have "\<dots> = map (the \<circ> ?f) (filter (\<lambda>h. ?f h \<noteq> None) (map of_nat [unat from..<Suc (unat to)]))"
    unfolding index_range_keys [OF so] def by (rule refl)
  also have "\<dots> = List.map_filter (\<lambda>n. ?f (of_nat n)) [unat from..<Suc (unat to)]"
    by (simp add: map_filter_conv filter_map comp_def del: upt_Suc)
  finally show ?thesis .
qed

section \<open>Fresh stores\<close>

definition genesis_blk :: "BlockHash \<Rightarrow> Block" where
  "genesis_blk h = genesis_block\<lparr>b_hash := h\<rparr>"

lemma genesis_blk [simp]: "genesis_blk GENESIS_HASH = genesis_block"
  by (simp add: genesis_blk_def genesis_block_def)

lemma new_stores_ok:
  assumes "blk GENESIS_HASH = genesis_block"
  shows "mb_inv blk mb_new" "vb_inv blk vb_new"
    "(mb_get_block mb_new, mb_get_block_by_height mb_new, mb_get_commit_qc mb_new) =
     (get_block vb_new, get_block_by_height vb_new, get_commit_qc vb_new)"
  using assms
  by (auto simp: index_ok_def mb_new_def vb_new_def mb_put_block_def put_block_def Let_def
      genesis_block_def mb_get_block_def get_block_def mb_get_block_by_height_def
      get_block_by_height_def mb_get_commit_qc_def get_commit_qc_def split: if_splits)

section \<open>All writes of the trait\<close>

text \<open>
  A write of the trait \<open>BlockStore\<close>, as each store performs it. The fields the two stores share stay
  equal under every write: the stores differ only in the order of their inserts and in the index
  and the results, which the in-memory store drops.
\<close>

datatype store_write =
    WriteBlock Block
  | WriteCommitQc Height QuorumCertificate
  | WriteTxIndex hash32 Height u32
  | WriteBlockResults Height EndBlockResponse

fun mb_write :: "store_write \<Rightarrow> MemoryBlockStore \<Rightarrow> MemoryBlockStore" where
  "mb_write (WriteBlock b) s = mb_put_block b s"
| "mb_write (WriteCommitQc h qc) s = mb_put_commit_qc h qc s"
| "mb_write (WriteTxIndex t h i) s = default_put_tx_index t h i s"
| "mb_write (WriteBlockResults h r) s = default_put_block_results h r s"

fun vb_write :: "store_write \<Rightarrow> VsdbBlockStore \<Rightarrow> VsdbBlockStore" where
  "vb_write (WriteBlock b) s = put_block b s"
| "vb_write (WriteCommitQc h qc) s = put_commit_qc h qc s"
| "vb_write (WriteTxIndex t h i) s = put_tx_index t h i s"
| "vb_write (WriteBlockResults h r) s = put_block_results h r s"

definition same_blocks :: "MemoryBlockStore \<Rightarrow> VsdbBlockStore \<Rightarrow> bool" where
  "same_blocks m v \<longleftrightarrow> mb_by_hash m = vb_by_hash v \<and> mb_by_height m = vb_by_height v \<and>
     mb_commit_qcs m = vb_commit_qcs v"

lemmas store_write_defs = mb_put_block_def put_block_def mb_put_commit_qc_def put_commit_qc_def
  default_put_tx_index_def put_tx_index_def default_put_block_results_def put_block_results_def Let_def

lemma same_blocks_new: "same_blocks mb_new vb_new"
  by (simp add: same_blocks_def mb_new_def vb_new_def store_write_defs)

lemma same_blocks_write: "same_blocks m v \<Longrightarrow> same_blocks (mb_write w m) (vb_write w v)"
  by (cases w) (auto simp: same_blocks_def store_write_defs split: option.splits)

lemma same_blocks_run: "same_blocks m v \<Longrightarrow> same_blocks (fold mb_write ws m) (fold vb_write ws v)"
  by (induction ws arbitrary: m v) (simp_all add: same_blocks_write)

fun tx_entries :: "store_write \<Rightarrow> (hash32 \<times> Height \<times> u32) list" where
  "tx_entries (WriteTxIndex t h i) = [(t, h, i)]"
| "tx_entries _ = []"

fun result_entries :: "store_write \<Rightarrow> (Height \<times> EndBlockResponse) list" where
  "result_entries (WriteBlockResults h r) = [(h, r)]"
| "result_entries _ = []"

lemma vb_write_entries:
  "vb_tx_index (vb_write w s) = vb_tx_index s ++ map_of (rev (tx_entries w))"
  "vb_block_results (vb_write w s) = vb_block_results s ++ map_of (rev (result_entries w))"
  by (cases w; simp add: store_write_defs split: option.splits)+

lemma vb_run_entries:
  "vb_tx_index (fold vb_write ws s) = vb_tx_index s ++ map_of (rev (concat (map tx_entries ws)))"
  "vb_block_results (fold vb_write ws s) =
     vb_block_results s ++ map_of (rev (concat (map result_entries ws)))"
  by (induction ws arbitrary: s) (simp_all add: vb_write_entries map_add_assoc del: vb_write.simps)

lemma vb_new_entries: "vb_tx_index vb_new = Map.empty" "vb_block_results vb_new = Map.empty"
  by (simp_all add: vb_new_def store_write_defs)

section \<open>Properties\<close>

text \<open>
  C17. The persistent and the in-memory store keep the same chain: after any sequence of writes of
  the trait (blocks, commit certificates, transaction index entries, block results), with no
  condition on them, both answer every lookup by hash, by height, of a commit certificate, of a
  range of heights and of the tip alike, although they order their inserts differently. They do not
  agree on the transaction index and the block results: the persistent store answers with the last
  entry written for a key, the in-memory store, which keeps the defaults of the trait, with none.
\<close>

theorem stores_agree:
  fixes ws :: "store_write list"
  defines "m \<equiv> fold mb_write ws mb_new"
    and "v \<equiv> fold vb_write ws vb_new"
  shows "mb_get_block m = get_block v \<and> mb_get_block_by_height m = get_block_by_height v \<and>
         mb_get_commit_qc m = get_commit_qc v \<and>
         mb_get_blocks_in_range m = get_blocks_in_range v \<and> mb_tip_height m = tip_height v \<and>
         get_tx_location v = map_of (rev (concat (map tx_entries ws))) \<and>
         default_get_tx_location m = Map.empty \<and>
         get_block_results v = map_of (rev (concat (map result_entries ws))) \<and>
         default_get_block_results m = Map.empty"
  using same_blocks_run [OF same_blocks_new, of ws, folded m_def v_def]
    vb_run_entries [of ws vb_new, folded v_def]
  unfolding same_blocks_def
  by (intro conjI ext) (simp_all add: vb_new_entries
      mb_get_block_def get_block_def mb_get_block_by_height_def get_block_by_height_def
      mb_get_commit_qc_def get_commit_qc_def mb_get_blocks_in_range_def get_blocks_in_range_def
      mb_tip_height_def tip_height_def get_tx_location_def get_block_results_def
      default_get_tx_location_def default_get_block_results_def)

definition sample_block :: "Height \<Rightarrow> u8 \<Rightarrow> Block" where
  "sample_block h k = genesis_block\<lparr>b_height := h, b_hash := hash_rep k\<rparr>"

definition sample_commit :: "u8 \<Rightarrow> QuorumCertificate" where
  "sample_commit k = \<lparr> qc_block_hash = hash_rep k, qc_view = 1,
     qc_aggregate_signature = \<lparr> ag_signers = [], ag_signatures = [] \<rparr>, qc_epoch = 0 \<rparr>"

definition sample_blk :: "BlockHash \<Rightarrow> Block" where
  "sample_blk h = (if h = hash_rep 1 then sample_block 1 1
                   else if h = hash_rep 2 then sample_block 1 2 else genesis_blk h)"

lemma sample_blk_genesis: "sample_blk GENESIS_HASH = genesis_block"
  by (simp add: sample_blk_def GENESIS_HASH_def flip: genesis_blk)

lemma sample_blk_ok: "op_ok sample_blk (PutBlock (sample_block 1 1))"
  "op_ok sample_blk (PutBlock (sample_block 1 2))"
  by (simp_all add: sample_blk_def sample_block_def)

text \<open>
  C18. What pins a height of the persistent store. Once the certificate of a stored block is recorded
  for its height, the height answers with that block after any later blocks, competing ones for the
  same height included, and after any later certificates but one of another block recorded for that
  very height. Such a certificate is not refused: if its block is stored at the height, the height
  answers with the other block from then on. One hash stands for one block throughout.
\<close>

theorem committed_height_pinned:
  assumes "vb_inv blk s" "get_block s (qc_block_hash qc) = Some b" "b_height b = h"
  defines "pinned \<equiv> put_commit_qc h qc s"
  shows "(\<forall>ops. (\<forall>p \<in> set ops. op_ok blk p) \<longrightarrow>
            (\<forall>qc'. PutCommitQc h qc' \<in> set ops \<longrightarrow> qc_block_hash qc' = qc_block_hash qc) \<longrightarrow>
            get_block_by_height (fold (run_op put_block put_commit_qc) ops pinned) h = Some b) \<and>
         (\<forall>qc' c. get_block s (qc_block_hash qc') = Some c \<longrightarrow> b_height c = h \<longrightarrow>
            get_block_by_height (put_commit_qc h qc' pinned) h = Some c)"
proof -
  note v = vb.put_qc_view [OF assms(1), of h qc, folded pinned_def]
  have i: "vb_inv blk pinned" using vb.put_qc_inv [OF assms(1)] by (simp add: pinned_def)
  have "b_hash b = qc_block_hash qc" using vb.get_inv [OF assms(1,2)] by simp
  moreover have "get_commit_qc pinned h = Some qc" "get_block_by_height pinned h = Some b"
    using v assms(2,3) by auto
  moreover have "get_block_by_height (put_commit_qc h qc' pinned) h = Some c"
    if "get_block s (qc_block_hash qc') = Some c" "b_height c = h" for qc' c
    using vb.put_qc_view [OF i, of h qc'] v that by auto
  ultimately show ?thesis using vb.pinned_run [OF i] by blast
qed

theorem committed_height_pinned_witness:
  "let s = put_block (sample_block 1 2) (put_block (sample_block 1 1) vb_new) in
   get_block_by_height (fold (run_op put_block put_commit_qc)
     [PutBlock (sample_block 1 2), PutCommitQc 2 (sample_commit 2)]
     (put_commit_qc 1 (sample_commit 1) s)) 1 = Some (sample_block 1 1) \<and>
   get_block_by_height (put_commit_qc 1 (sample_commit 2) (put_commit_qc 1 (sample_commit 1) s)) 1 =
     Some (sample_block 1 2)"
proof -
  let ?s1 = "put_block (sample_block 1 1) vb_new"
  let ?s2 = "put_block (sample_block 1 2) ?s1"
  have v: "vb_inv sample_blk vb_new" by (rule new_stores_ok(2) [of sample_blk, OF sample_blk_genesis])
  have b: "sample_blk (b_hash (sample_block 1 1)) = sample_block 1 1"
    "sample_blk (b_hash (sample_block 1 2)) = sample_block 1 2"
    using sample_blk_ok by simp_all
  have v1: "vb_inv sample_blk ?s1" by (rule vb.put_inv [OF v b(1)])
  have v2: "vb_inv sample_blk ?s2" by (rule vb.put_inv [OF v1 b(2)])
  have g: "get_block ?s2 (hash_rep 1) = Some (sample_block 1 1)"
    "get_block ?s2 (hash_rep 2) = Some (sample_block 1 2)"
    using vb.put_view [OF v b(1)] vb.put_view [OF v1 b(2)] by (simp_all add: sample_block_def)
  have c: "qc_block_hash (sample_commit 1) = hash_rep 1" "qc_block_hash (sample_commit 2) = hash_rep 2"
    "b_height (sample_block 1 1) = 1" "b_height (sample_block 1 2) = 1"
    by (simp_all add: sample_commit_def sample_block_def)
  note p = committed_height_pinned [OF v2, of "sample_commit 1" "sample_block 1 1" 1, unfolded c, OF g(1) refl]
  show ?thesis
    using conjunct1 [OF p, THEN spec, of "[PutBlock (sample_block 1 2), PutCommitQc 2 (sample_commit 2)]"]
      conjunct2 [OF p, THEN spec, of "sample_commit 2"] g(2) c sample_blk_ok
    by (simp add: Let_def)
qed

text \<open>
  The indexed range query equals the default one of the trait, which counts heights one by one:
  on a well-formed store and for every upper end but \<open>u64::MAX\<close>, where the default does not
  return, the default returns and gives the same blocks in the same order.
\<close>

lemma range_query_equals_default:
  assumes "vb_inv blk s" "to \<noteq> - 1"
  shows "default_range (get_block_by_height s) from to = Some (get_blocks_in_range s from to)"
proof (cases "from \<le> to")
  case True
  have t: "unat to < 2 ^ 64 - 1"
  proof -
    have "unat to \<noteq> unat (- 1 :: Height)" using assms(2) by (simp add: word_unat_eq_iff)
    then have "unat to \<noteq> 2 ^ 64 - 1" by (simp add: unsigned_minus_1_eq_mask mask_eq_exp_minus_1)
    with unat_u64_less [of to] show ?thesis by (simp del: unat_u64_less)
  qed
  have "unat from + (Suc (unat to) - unat from) = Suc (unat to)" using True by (simp add: word_le_nat_alt)
  from range_loop_total [OF t this] True index_range [OF assms(1), of "from" to] show ?thesis
    by (simp add: default_range_def get_blocks_in_range_def get_block_by_height_def not_less del: upt_Suc)
next
  case False
  then have "range_loop (get_block_by_height s) from to [] = Some []"
    by (subst range_loop.simps) simp
  with False show ?thesis by (simp add: default_range_def get_blocks_in_range_def not_le)
qed

end
