(* ===== verification/Commit.thy ===== *)
theory Commit
  imports Signing Validator_Set Liveness Block_Store
begin

text \<open>
  \<open>hotmint-consensus/src/commit.rs\<close>: decoding of payloads, the commit of a certified chain with the
  application callbacks and the epoch bookkeeping, and the check of embedded evidence. The
  application is a record of callbacks over its own state (\<open>application.rs\<close>); \<open>None\<close> is an error
  a callback returns. The store is the two lookups the code uses.
\<close>

section \<open>The application interface\<close>

record 'a Application =
  app_create_payload :: "BlockContext \<Rightarrow> 'a \<Rightarrow> bytes \<times> 'a"
  app_validate_block :: "Block \<Rightarrow> BlockContext \<Rightarrow> 'a \<Rightarrow> bool"
  app_execute_block :: "bytes list \<Rightarrow> BlockContext \<Rightarrow> 'a \<Rightarrow> (EndBlockResponse \<times> 'a) option"
  app_on_commit :: "Block \<Rightarrow> BlockContext \<Rightarrow> 'a \<Rightarrow> 'a option"
  app_on_evidence :: "EquivocationProof \<Rightarrow> 'a \<Rightarrow> 'a option"
  app_on_offline_validators :: "OfflineEvidence list \<Rightarrow> 'a \<Rightarrow> 'a"
  app_extend_vote :: "Block \<Rightarrow> BlockContext \<Rightarrow> 'a \<Rightarrow> bytes option"
  app_verify_vote_extension :: "bytes \<Rightarrow> BlockHash \<Rightarrow> ValidatorId \<Rightarrow> 'a \<Rightarrow> bool"
  app_tracks_app_hash :: bool

section \<open>Payloads\<close>

function decode_from :: "bytes \<Rightarrow> nat \<Rightarrow> bytes list" where
  "decode_from payload offset =
     (if offset + 4 \<le> length payload
      then let len = unat (from_le_bytes_u32 (take 4 (drop offset payload)));
               offset' = offset + 4
           in if offset' + len > length payload then []
              else take len (drop offset' payload) # decode_from payload (offset' + len)
      else [])"
  by pat_completeness auto
termination
  by (relation "measure (\<lambda>(payload, offset). length payload - offset)") auto

declare decode_from.simps [simp del]

definition decode_payload :: "bytes \<Rightarrow> bytes list" where
  "decode_payload payload = decode_from payload 0"

section \<open>Epoch transitions\<close>

datatype commit_error =
    BlockToCommitNotFound
  | ChainHeightZero
  | MissingAncestor BlockHash
  | HeightDiscontinuity Height Height
  | LastCommittedMissing
  | ConflictsWithCommitted
  | SkipsLastCommitted
  | InvalidUpdates Height vs_error
  | EpochOverflowPanic
  | EvidencePanic Height
  | ExecutePanic Height
  | OnCommitPanic Height

definition chained_pending_epoch ::
    "Height \<Rightarrow> Epoch \<Rightarrow> Epoch option \<Rightarrow> ViewNumber \<Rightarrow> ValidatorUpdate list \<Rightarrow> commit_error + Epoch" where
  "chained_pending_epoch height current_epoch pending block_view updates =
     (let (base_number, base_vs) =
            (case pending of
               Some ep \<Rightarrow> (ep_number ep, ep_validator_set ep)
             | None \<Rightarrow> (ep_number current_epoch, ep_validator_set current_epoch))
      in case try_apply_updates base_vs updates of
           Inl e \<Rightarrow> Inl (InvalidUpdates height e)
         | Inr new_vs \<Rightarrow>
             let epoch_start = block_view + 2
             in rbind (ok_or (next_epoch base_number) EpochOverflowPanic)
                  (\<lambda>n. Inr (epoch_new n epoch_start new_vs)))"

section \<open>Executing one block\<close>

fun apply_evidence :: "'a Application \<Rightarrow> EquivocationProof list \<Rightarrow> 'a \<Rightarrow> 'a option" where
  "apply_evidence app [] a = Some a"
| "apply_evidence app (p # ps) a = Option.bind (app_on_evidence app p a) (apply_evidence app ps)"

definition execute_committed_block ::
    "'a Application \<Rightarrow> Block \<Rightarrow> BlockContext \<Rightarrow> 'a \<Rightarrow> commit_error + (EndBlockResponse \<times> 'a)" where
  "execute_committed_block app block ctx a =
     rbind (ok_or (apply_evidence app (b_evidence block) a) (EvidencePanic (b_height block))) (\<lambda>a1.
     rbind (ok_or (app_execute_block app (decode_payload (b_payload block)) ctx a1)
              (ExecutePanic (b_height block))) (\<lambda>(response, a2).
     rbind (ok_or (app_on_commit app block ctx a2) (OnCommitPanic (b_height block))) (\<lambda>a3.
       Inr (response, a3))))"

section \<open>Committing a chain\<close>

record CommitResult =
  cr_committed_blocks :: "Block list"
  cr_commit_qc :: QuorumCertificate
  cr_pending_epoch :: "Epoch option"
  cr_activated_epoch :: "Epoch option"
  cr_last_app_hash :: BlockHash
  cr_block_responses :: "EndBlockResponse list"

text \<open>
  The walk from the certified block down to the last committed one. Every step checks that the
  parent is one height lower, which bounds the walk whatever the store holds.
\<close>

function chain_walk ::
    "(BlockHash \<Rightarrow> Block option) \<Rightarrow> (Height \<Rightarrow> Block option) \<Rightarrow> Height \<Rightarrow> Block \<Rightarrow> Block list \<Rightarrow>
     commit_error + Block list" where
  "chain_walk get by_height last_committed current to_commit =
     (case checked_sub (b_height current) 1 of
        None \<Rightarrow> Inl ChainHeightZero
      | Some expected_parent_height \<Rightarrow>
         (case get (b_parent_hash current) of
            None \<Rightarrow> Inl (MissingAncestor (b_parent_hash current))
          | Some parent \<Rightarrow>
              if b_height parent \<noteq> expected_parent_height
              then Inl (HeightDiscontinuity (b_height current) (b_height parent))
              else
                let to_commit' = to_commit @ [current]
                in if b_height parent = last_committed
                   then (case by_height last_committed of
                           None \<Rightarrow> Inl LastCommittedMissing
                         | Some committed \<Rightarrow>
                             if b_hash parent \<noteq> b_hash committed then Inl ConflictsWithCommitted
                             else Inr to_commit')
                   else if b_height parent < last_committed then Inl SkipsLastCommitted
                   else chain_walk get by_height last_committed parent to_commit'))"
  by pat_completeness auto
termination
proof (relation "measure (\<lambda>(get, by_height, last, current, acc). unat (b_height current))", goal_cases)
  case (2 get by_height last current acc h parent acc')
  from 2(1) have "unat (b_height current) = unat h + 1" using checked_sub_unat [OF 2(1)] by simp
  with 2 show ?case by simp
qed simp

declare chain_walk.simps [simp del]

text \<open>The local variables of the execution loop, the application state included.\<close>

record 'a commit_acc =
  ca_pending :: "Epoch option"
  ca_activated :: "Epoch option"
  ca_active :: Epoch
  ca_previous :: "Epoch option"
  ca_last_app_hash :: BlockHash
  ca_responses :: "EndBlockResponse list"
  ca_height :: Height
  ca_app :: 'a

definition activate_pending :: "Block \<Rightarrow> 'a commit_acc \<Rightarrow> 'a commit_acc" where
  "activate_pending block acc =
     (case ca_pending acc of
        Some p \<Rightarrow>
          if b_view block \<ge> ep_start_view p
          then acc\<lparr>ca_previous := Some (ca_active acc), ca_active := p, ca_pending := None,
                   ca_activated := Some p\<rparr>
          else acc
      | None \<Rightarrow> acc)"

definition context_epoch :: "Block \<Rightarrow> 'a commit_acc \<Rightarrow> Epoch" where
  "context_epoch block acc =
     (if b_view block < ep_start_view (ca_active acc)
      then (case ca_previous acc of Some p \<Rightarrow> p | None \<Rightarrow> ca_active acc)
      else ca_active acc)"

definition block_context :: "Block \<Rightarrow> Epoch \<Rightarrow> BlockContext" where
  "block_context block e =
     \<lparr> ctx_height = b_height block, ctx_view = b_view block, ctx_proposer = b_proposer block,
       ctx_epoch = ep_number e, ctx_epoch_start_view = ep_start_view e,
       ctx_validator_set = ep_validator_set e, ctx_timestamp = b_timestamp block,
       ctx_vote_extensions = [] \<rparr>"

definition pending_after ::
    "Block \<Rightarrow> EndBlockResponse \<Rightarrow> Epoch \<Rightarrow> Epoch option \<Rightarrow> commit_error + Epoch option" where
  "pending_after block response active pending =
     (if ebr_validator_updates response = [] then Inr pending
      else case chained_pending_epoch (b_height block) active pending (b_view block)
                  (ebr_validator_updates response) of
             Inl e \<Rightarrow> Inl e
           | Inr ep \<Rightarrow> Inr (Some ep))"

text \<open>
  One iteration. An error returns the accumulator as the callbacks left it, since the caller's
  \<open>last_committed_height\<close> and the application keep what happened before it.
\<close>

definition commit_one ::
    "'a Application \<Rightarrow> Block \<Rightarrow> 'a commit_acc \<Rightarrow> (commit_error \<times> 'a commit_acc) + 'a commit_acc" where
  "commit_one app block acc0 =
     (let acc = activate_pending block acc0;
          ctx = block_context block (context_epoch block acc)
      in case execute_committed_block app block ctx (ca_app acc) of
           Inl e \<Rightarrow> Inl (e, acc)
         | Inr (response, a) \<Rightarrow>
             let acc1 = acc\<lparr>ca_app := a,
                            ca_last_app_hash := (if app_tracks_app_hash app
                              then ebr_app_hash response else b_app_hash block)\<rparr>
             in case pending_after block response (ca_active acc1) (ca_pending acc1) of
                  Inl e \<Rightarrow> Inl (e, acc1)
                | Inr pending \<Rightarrow>
                    Inr (acc1\<lparr>ca_pending := pending,
                              ca_responses := ca_responses acc1 @ [response],
                              ca_height := b_height block\<rparr>))"

fun commit_blocks ::
    "'a Application \<Rightarrow> Block list \<Rightarrow> 'a commit_acc \<Rightarrow> (commit_error \<times> 'a commit_acc) + 'a commit_acc" where
  "commit_blocks app [] acc = Inr acc"
| "commit_blocks app (b # bs) acc = rbind (commit_one app b acc) (commit_blocks app bs)"

definition try_commit ::
    "'a Application \<Rightarrow> (BlockHash \<Rightarrow> Block option) \<Rightarrow> (Height \<Rightarrow> Block option) \<Rightarrow> DoubleCertificate \<Rightarrow>
     Epoch \<Rightarrow> Epoch option \<Rightarrow> Epoch option \<Rightarrow> Height \<Rightarrow> 'a \<Rightarrow>
     Height \<times> 'a \<times> (commit_error + CommitResult)" where
  "try_commit app get by_height double_cert current_epoch previous_epoch in_flight_pending last_committed a =
     (case get (qc_block_hash (dc_inner_qc double_cert)) of
        None \<Rightarrow> (last_committed, a, Inl BlockToCommitNotFound)
      | Some commit_block \<Rightarrow>
          if b_height commit_block \<le> last_committed
          then (last_committed, a,
                Inr \<lparr> cr_committed_blocks = [], cr_commit_qc = dc_inner_qc double_cert,
                      cr_pending_epoch = None, cr_activated_epoch = None,
                      cr_last_app_hash = GENESIS_HASH, cr_block_responses = [] \<rparr>)
          else
            case chain_walk get by_height last_committed commit_block [] of
              Inl e \<Rightarrow> (last_committed, a, Inl e)
            | Inr walked \<Rightarrow>
                let to_commit = rev walked
                in case commit_blocks app to_commit
                          \<lparr> ca_pending = in_flight_pending, ca_activated = None,
                            ca_active = current_epoch, ca_previous = previous_epoch,
                            ca_last_app_hash = GENESIS_HASH, ca_responses = [],
                            ca_height = last_committed, ca_app = a \<rparr> of
                     Inl (e, acc) \<Rightarrow> (ca_height acc, ca_app acc, Inl e)
                   | Inr acc \<Rightarrow>
                       (ca_height acc, ca_app acc,
                        Inr \<lparr> cr_committed_blocks = to_commit, cr_commit_qc = dc_inner_qc double_cert,
                              cr_pending_epoch = ca_pending acc,
                              cr_activated_epoch = ca_activated acc,
                              cr_last_app_hash = ca_last_app_hash acc,
                              cr_block_responses = ca_responses acc \<rparr>))"

section \<open>Embedded evidence\<close>

datatype evidence_error = UnknownEvidenceValidator | InvalidEvidence | InvalidEvidenceSignature

definition evidence_half_valid ::
    "(PublicKey \<Rightarrow> bytes \<Rightarrow> Signature \<Rightarrow> bool) \<Rightarrow> (bytes \<Rightarrow> hash32) \<Rightarrow> hash32 \<Rightarrow> PublicKey \<Rightarrow>
     EquivocationProof \<Rightarrow> BlockHash \<Rightarrow> Signature \<Rightarrow> bytes option \<Rightarrow> bool" where
  "evidence_half_valid verify blake3 chain_id_hash pk p hash sg extension =
     verify pk (vote_signing_bytes blake3 chain_id_hash (ev_epoch p) (ev_view p) (ev_validator p)
                  hash (ev_vote_type p) extension) sg"

definition validate_evidence ::
    "(PublicKey \<Rightarrow> bytes \<Rightarrow> Signature \<Rightarrow> bool) \<Rightarrow> (bytes \<Rightarrow> hash32) \<Rightarrow> hash32 \<Rightarrow> EquivocationProof \<Rightarrow>
     ViewNumber \<Rightarrow> Epoch \<Rightarrow> Epoch option \<Rightarrow> evidence_error + unit" where
  "validate_evidence verify blake3 chain_id_hash p block_view epoch previous_epoch =
     (case (case get_validator (ep_validator_set epoch) (ev_validator p) of
              Some v \<Rightarrow> Some v
            | None \<Rightarrow> Option.bind previous_epoch
                (\<lambda>e. get_validator (ep_validator_set e) (ev_validator p))) of
        None \<Rightarrow> Inl UnknownEvidenceValidator
      | Some v \<Rightarrow>
          if ev_block_hash_a p = ev_block_hash_b p \<or> ev_epoch p > ep_number epoch \<or>
             ev_view p > block_view \<or>
             (ev_vote_type p = Vote \<and> (ev_extension_a p \<noteq> None \<or> ev_extension_b p \<noteq> None))
          then Inl InvalidEvidence
          else if \<not> evidence_half_valid verify blake3 chain_id_hash (vi_public_key v) p
                      (ev_block_hash_a p) (ev_signature_a p) (ev_extension_a p)
          then Inl InvalidEvidenceSignature
          else if \<not> evidence_half_valid verify blake3 chain_id_hash (vi_public_key v) p
                      (ev_block_hash_b p) (ev_signature_b p) (ev_extension_b p)
          then Inl InvalidEvidenceSignature
          else Inr ())"

fun validate_evidence_list ::
    "(PublicKey \<Rightarrow> bytes \<Rightarrow> Signature \<Rightarrow> bool) \<Rightarrow> (bytes \<Rightarrow> hash32) \<Rightarrow> hash32 \<Rightarrow>
     EquivocationProof list \<Rightarrow> ViewNumber \<Rightarrow> Epoch \<Rightarrow> Epoch option \<Rightarrow> evidence_error + unit" where
  "validate_evidence_list verify blake3 chain_id_hash [] view epoch previous = Inr ()"
| "validate_evidence_list verify blake3 chain_id_hash (p # ps) view epoch previous =
     rbind (validate_evidence verify blake3 chain_id_hash p view epoch previous)
       (\<lambda>_. validate_evidence_list verify blake3 chain_id_hash ps view epoch previous)"

definition validate_block_evidence ::
    "(PublicKey \<Rightarrow> bytes \<Rightarrow> Signature \<Rightarrow> bool) \<Rightarrow> (bytes \<Rightarrow> hash32) \<Rightarrow> hash32 \<Rightarrow> Block \<Rightarrow>
     Epoch \<Rightarrow> Epoch option \<Rightarrow> evidence_error + unit" where
  "validate_block_evidence verify blake3 chain_id_hash block epoch previous_epoch =
     validate_evidence_list verify blake3 chain_id_hash (b_evidence block) (b_view block) epoch previous_epoch"

section \<open>Payload round trip\<close>

definition encode_payload :: "bytes list \<Rightarrow> bytes" where
  "encode_payload txs = concat (map (\<lambda>t. to_le_bytes_u32 (of_nat (length t)) @ t) txs)"

lemma decode_from_shift: "decode_from (pre @ p) (length pre + k) = decode_from p k"
proof (induction p k rule: decode_from.induct)
  case (1 p k)
  let ?len = "unat (from_le_bytes_u32 (take 4 (drop k p)))"
  show ?case
  proof (cases "k + 4 \<le> length p \<and> \<not> k + 4 + ?len > length p")
    case True
    then have "decode_from (pre @ p) (length pre + (k + 4 + ?len)) = decode_from p (k + 4 + ?len)"
      using 1 by (simp add: Let_def)
    with True show ?thesis
      by (subst (1 2) decode_from.simps) (simp add: Let_def add.assoc)
  next
    case False
    then show ?thesis by (subst (1 2) decode_from.simps) (auto simp: Let_def)
  qed
qed

lemma decode_payload_Cons:
  assumes "length t < 2 ^ 32"
  shows "decode_payload (to_le_bytes_u32 (of_nat (length t)) @ t @ rest) = t # decode_payload rest"
proof -
  let ?h = "to_le_bytes_u32 (of_nat (length t))"
  have l: "unat (of_nat (length t) :: u32) = length t"
    using assms by (simp add: unat_of_nat)
  have "decode_from (?h @ t @ rest) (4 + length t) = decode_from rest 0"
    using decode_from_shift [of "?h @ t" rest 0] by simp
  then show ?thesis
    unfolding decode_payload_def
    by (subst decode_from.simps) (simp add: Let_def l)
qed

lemma decode_encode_payload:
  "\<forall>t \<in> set txs. length t < 2 ^ 32 \<Longrightarrow> decode_payload (encode_payload txs) = txs"
proof (induction txs)
  case Nil
  show ?case by (simp add: encode_payload_def decode_payload_def decode_from.simps)
next
  case (Cons t txs)
  then show ?case
    using decode_payload_Cons [of t "encode_payload txs"] by (simp add: encode_payload_def)
qed

section \<open>The chain walked\<close>

text \<open>An ascending chain above a block: each parent link resolves and heights count up by one.\<close>

fun links :: "(BlockHash \<Rightarrow> Block option) \<Rightarrow> Block \<Rightarrow> Block list \<Rightarrow> bool" where
  "links get p [] \<longleftrightarrow> True"
| "links get p (b # bs) \<longleftrightarrow>
     get (b_parent_hash b) = Some p \<and> unat (b_height b) = Suc (unat (b_height p)) \<and> links get b bs"

lemma links_append:
  "links get p (xs @ ys) \<longleftrightarrow> links get p xs \<and> links get (if xs = [] then p else last xs) ys"
  by (induction xs arbitrary: p) auto

lemma links_height:
  "links get p bs \<Longrightarrow> i < length bs \<Longrightarrow> unat (b_height (bs ! i)) = unat (b_height p) + Suc i"
  by (induction bs arbitrary: p i) (auto simp: nth_Cons split: nat.splits)

lemma links_last_height:
  "links get p bs \<Longrightarrow> bs \<noteq> [] \<Longrightarrow> unat (b_height (last bs)) = unat (b_height p) + length bs"
  using links_height [of get p bs "length bs - 1"] by (simp add: last_conv_nth)

definition committed_at :: "(Height \<Rightarrow> Block option) \<Rightarrow> Height \<Rightarrow> Block \<Rightarrow> bool" where
  "committed_at by_height h p \<longleftrightarrow>
     b_height p = h \<and> (\<exists>c. by_height h = Some c \<and> b_hash c = b_hash p)"

lemma chain_walk_sound:
  assumes "chain_walk get by_height last_c current acc = Inr r"
  shows "\<exists>p bs. r = acc @ rev bs \<and> bs \<noteq> [] \<and> last bs = current \<and> links get p bs \<and>
    committed_at by_height last_c p"
  using assms
proof (induction get by_height last_c current acc arbitrary: r rule: chain_walk.induct)
  case (1 get by_height last_c current acc)
  from "1.prems" obtain h parent where h: "checked_sub (b_height current) 1 = Some h"
      "get (b_parent_hash current) = Some parent" "b_height parent = h"
    by (subst (asm) chain_walk.simps) (auto split: option.splits if_splits)
  have up: "unat (b_height current) = Suc (unat (b_height parent))"
    using checked_sub_unat [OF h(1)] h(3) by simp
  show ?case
  proof (cases "b_height parent = last_c")
    case True
    with "1.prems" h have "r = acc @ [current]" "committed_at by_height last_c parent"
      by (subst (asm) chain_walk.simps; auto simp: committed_at_def Let_def split: option.splits if_splits)+
    with h up show ?thesis by (intro exI [of _ parent] exI [of _ "[current]"]) simp
  next
    case False
    with "1.prems" h have n: "\<not> b_height parent < last_c"
      "chain_walk get by_height last_c parent (acc @ [current]) = Inr r"
      by (subst (asm) chain_walk.simps; auto simp: Let_def split: option.splits if_splits)+
    have "\<not> b_height parent \<noteq> h" using h(3) by simp
    from "1.IH" [OF h(1,2) this refl False n] obtain p bs where
      "r = (acc @ [current]) @ rev bs" "bs \<noteq> []" "last bs = parent" "links get p bs"
      "committed_at by_height last_c p" by blast
    with h up show ?thesis
      by (intro exI [of _ p] exI [of _ "bs @ [current]"]) (simp add: links_append)
  qed
qed

lemma chain_walk_complete:
  assumes "links get p bs" "bs \<noteq> []" "committed_at by_height last_c p"
  shows "chain_walk get by_height last_c (last bs) acc = Inr (acc @ rev bs)"
  using assms
proof (induction bs arbitrary: acc rule: rev_induct)
  case (snoc b bs)
  let ?q = "if bs = [] then p else last bs"
  from snoc.prems(1) have l: "links get p bs" and g: "get (b_parent_hash b) = Some ?q"
    and h: "unat (b_height b) = Suc (unat (b_height ?q))" by (auto simp: links_append)
  have c: "checked_sub (b_height b) 1 = Some (b_height ?q)"
  proof -
    have "1 \<le> b_height b" using h by (simp add: word_le_nat_alt)
    moreover have "b_height b - 1 = b_height ?q"
      using h \<open>1 \<le> b_height b\<close> by (simp add: word_unat_eq_iff unat_sub)
    ultimately show ?thesis by (simp add: checked_sub_def)
  qed
  show ?case
  proof (cases "bs = []")
    case True
    with snoc.prems(3) c g show ?thesis
      by (subst chain_walk.simps) (auto simp: committed_at_def)
  next
    case False
    have "unat (b_height p) < unat (b_height (last bs))"
      using links_last_height [OF l False] False by simp
    then have "last_c < b_height (last bs)"
      using snoc.prems(3) by (simp add: committed_at_def word_less_nat_alt)
    with snoc.IH [OF l False snoc.prems(3), of "acc @ [b]"] c g False show ?thesis
      by (subst chain_walk.simps) (auto simp: Let_def)
  qed
qed simp

section \<open>Executing the chain\<close>

lemma commit_blocks_append:
  "commit_blocks app (xs @ ys) acc = rbind (commit_blocks app xs acc) (commit_blocks app ys)"
proof (induction xs arbitrary: acc)
  case (Cons x xs)
  show ?case by (cases "commit_one app x acc") (simp_all add: Cons.IH)
qed simp

definition initial_acc :: "Epoch \<Rightarrow> Epoch option \<Rightarrow> Epoch option \<Rightarrow> Height \<Rightarrow> 'a \<Rightarrow> 'a commit_acc" where
  "initial_acc current previous pending h a =
     \<lparr> ca_pending = pending, ca_activated = None, ca_active = current, ca_previous = previous,
       ca_last_app_hash = GENESIS_HASH, ca_responses = [], ca_height = h, ca_app = a \<rparr>"

definition result_of :: "DoubleCertificate \<Rightarrow> Block list \<Rightarrow> 'a commit_acc \<Rightarrow> CommitResult" where
  "result_of dc bs acc =
     \<lparr> cr_committed_blocks = bs, cr_commit_qc = dc_inner_qc dc, cr_pending_epoch = ca_pending acc,
       cr_activated_epoch = ca_activated acc, cr_last_app_hash = ca_last_app_hash acc,
       cr_block_responses = ca_responses acc \<rparr>"

text \<open>\<open>try_commit\<close> on a chain that reaches the last committed block.\<close>

lemma try_commit_chain:
  assumes "get (qc_block_hash (dc_inner_qc dc)) = Some (last bs)" "links get p bs" "bs \<noteq> []"
    and "committed_at by_height h p"
  shows "try_commit app get by_height dc cur prev pend h a =
    (case commit_blocks app bs (initial_acc cur prev pend h a) of
       Inl (e, acc) \<Rightarrow> (ca_height acc, ca_app acc, Inl e)
     | Inr acc \<Rightarrow> (ca_height acc, ca_app acc, Inr (result_of dc bs acc)))"
proof -
  have "unat (b_height p) < unat (b_height (last bs))"
    using links_last_height [OF assms(2,3)] assms(3) by simp
  then have "\<not> b_height (last bs) \<le> h"
    using assms(4) by (simp add: committed_at_def word_le_nat_alt)
  moreover have "chain_walk get by_height h (last bs) [] = Inr (rev bs)"
    using chain_walk_complete [OF assms(2,3,4), of "[]"] by simp
  ultimately show ?thesis
    using assms(1)
    by (auto simp: try_commit_def initial_acc_def result_of_def split: sum.splits prod.splits)
qed

lemma try_commit_cases:
  obtains (missing) "get (qc_block_hash (dc_inner_qc dc)) = None"
      "try_commit app get by_height dc cur prev pend h a = (h, a, Inl BlockToCommitNotFound)"
  | (old) b r where "get (qc_block_hash (dc_inner_qc dc)) = Some b" "b_height b \<le> h"
      "try_commit app get by_height dc cur prev pend h a = (h, a, Inr r)" "cr_committed_blocks r = []"
  | (broken) b e where "get (qc_block_hash (dc_inner_qc dc)) = Some b" "h < b_height b"
      "chain_walk get by_height h b [] = Inl e"
      "try_commit app get by_height dc cur prev pend h a = (h, a, Inl e)"
  | (chain) p bs where "get (qc_block_hash (dc_inner_qc dc)) = Some (last bs)" "links get p bs" "bs \<noteq> []"
      "committed_at by_height h p"
proof (cases "get (qc_block_hash (dc_inner_qc dc))")
  case None
  then show thesis by (intro missing) (simp_all add: try_commit_def)
next
  case (Some b)
  show thesis
  proof (cases "b_height b \<le> h")
    case True
    with Some show thesis by (intro old) (auto simp: try_commit_def)
  next
    case False
    show thesis
    proof (cases "chain_walk get by_height h b []")
      case (Inl e)
      with Some False show thesis by (intro broken) (auto simp: try_commit_def)
    next
      case (Inr r)
      from chain_walk_sound [OF this] Some show thesis by (auto intro: chain)
    qed
  qed
qed

lemma commit_one_Inr:
  assumes "commit_one app b acc = Inr acc'"
  shows "ca_height acc' = b_height b"
    "\<exists>r. ca_responses acc' = ca_responses acc @ [r]"
    "ca_active acc' = ca_active (activate_pending b acc)"
    "ca_activated acc' = ca_activated (activate_pending b acc)"
    "ca_previous acc' = ca_previous (activate_pending b acc)"
  using assms
  by (auto simp: commit_one_def Let_def activate_pending_def
      split: sum.splits prod.splits if_splits option.splits)

lemma commit_blocks_Inr:
  "commit_blocks app bs acc = Inr acc' \<Longrightarrow>
     ca_height acc' = (if bs = [] then ca_height acc else b_height (last bs)) \<and>
     length (ca_responses acc') = length (ca_responses acc) + length bs"
proof (induction bs arbitrary: acc)
  case (Cons b bs)
  then obtain acc1 where a: "commit_one app b acc = Inr acc1" "commit_blocks app bs acc1 = Inr acc'"
    by (auto simp: rbind_Inr)
  from commit_one_Inr(1,2) [OF a(1)] Cons.IH [OF a(2)] show ?case by auto
qed simp

text \<open>The active epoch at the end is what the caller adopts.\<close>

lemma commit_blocks_active:
  "commit_blocks app bs acc = Inr acc' \<Longrightarrow>
     ca_activated acc' = Some (ca_active acc') \<or>
     ca_activated acc' = ca_activated acc \<and> ca_active acc' = ca_active acc \<and> ca_previous acc' = ca_previous acc"
proof (induction bs arbitrary: acc)
  case (Cons b bs)
  then obtain acc1 where a: "commit_one app b acc = Inr acc1" "commit_blocks app bs acc1 = Inr acc'"
    by (auto simp: rbind_Inr)
  have "ca_activated acc1 = Some (ca_active acc1) \<or>
     ca_activated acc1 = ca_activated acc \<and> ca_active acc1 = ca_active acc \<and> ca_previous acc1 = ca_previous acc"
    using commit_one_Inr(3-5) [OF a(1)]
    by (auto simp: activate_pending_def split: option.splits if_splits)
  with Cons.IH [OF a(2)] show ?case by metis
qed simp

text \<open>An epoch activated on the way has started by the end of the chain.\<close>

lemma commit_blocks_started:
  "commit_blocks app bs acc = Inr acc' \<Longrightarrow> sorted (map b_view bs) \<Longrightarrow>
     (ca_active acc' = ca_active acc \<and> ca_previous acc' = ca_previous acc \<and> ca_activated acc' = ca_activated acc) \<or>
     (bs \<noteq> [] \<and> ep_start_view (ca_active acc') \<le> b_view (last bs))"
proof (induction bs arbitrary: acc)
  case (Cons b bs)
  then obtain acc1 where a: "commit_one app b acc = Inr acc1" "commit_blocks app bs acc1 = Inr acc'"
    by (auto simp: rbind_Inr)
  have b: "(ca_active acc1 = ca_active acc \<and> ca_previous acc1 = ca_previous acc \<and>
      ca_activated acc1 = ca_activated acc) \<or> ep_start_view (ca_active acc1) \<le> b_view b"
    using commit_one_Inr(3-5) [OF a(1)]
    by (auto simp: activate_pending_def split: option.splits if_splits)
  have l: "b_view b \<le> b_view (last (b # bs))" using Cons.prems(2) by auto
  have "sorted (map b_view bs)" using Cons.prems(2) by simp
  from Cons.IH [OF a(2) this] show ?case
  proof
    assume "ca_active acc' = ca_active acc1 \<and> ca_previous acc' = ca_previous acc1 \<and>
      ca_activated acc' = ca_activated acc1"
    with b l show ?thesis by (metis list.distinct(1) order_trans)
  next
    assume "bs \<noteq> [] \<and> ep_start_view (ca_active acc') \<le> b_view (last bs)"
    then show ?thesis by simp
  qed
qed simp

text \<open>Two loops in step: they differ at most in an epoch no remaining block looks at.\<close>

definition acc_sim :: "Block list \<Rightarrow> 'a commit_acc \<Rightarrow> 'a commit_acc \<Rightarrow> bool" where
  "acc_sim rest x y \<longleftrightarrow>
     ca_pending x = ca_pending y \<and> ca_active x = ca_active y \<and> ca_app x = ca_app y \<and>
     ca_height x = ca_height y \<and>
     (ca_previous x = ca_previous y \<or> (\<forall>b \<in> set rest. ep_start_view (ca_active x) \<le> b_view b))"

lemma acc_sim_context:
  "acc_sim (b # rest) x y \<Longrightarrow>
     context_epoch b (activate_pending b x) = context_epoch b (activate_pending b y) \<and>
     acc_sim rest (activate_pending b x) (activate_pending b y)"
  by (auto simp: acc_sim_def context_epoch_def activate_pending_def split: option.splits)

lemma commit_one_sim:
  assumes "acc_sim (b # rest) x y"
  shows "case commit_one app b x of
    Inl (e, x') \<Rightarrow> \<exists>y'. commit_one app b y = Inl (e, y') \<and> ca_height x' = ca_height y' \<and> ca_app x' = ca_app y'
  | Inr x' \<Rightarrow> \<exists>y' r. commit_one app b y = Inr y' \<and> acc_sim rest x' y' \<and>
      ca_last_app_hash x' = ca_last_app_hash y' \<and>
      ca_responses x' = ca_responses x @ [r] \<and> ca_responses y' = ca_responses y @ [r]"
proof -
  let ?x = "activate_pending b x" and ?y = "activate_pending b y"
  have c: "context_epoch b ?x = context_epoch b ?y" and s: "acc_sim rest ?x ?y"
    using acc_sim_context [OF assms] by auto
  have r: "ca_responses ?x = ca_responses x" "ca_responses ?y = ca_responses y"
    by (auto simp: activate_pending_def split: option.splits)
  have e: "ca_app ?x = ca_app ?y" "ca_pending ?x = ca_pending ?y" "ca_active ?x = ca_active ?y"
    "ca_height ?x = ca_height ?y" using s by (simp_all add: acc_sim_def)
  show ?thesis
  proof (cases "execute_committed_block app b (block_context b (context_epoch b ?y)) (ca_app ?y)")
    case (Inl err)
    with c e show ?thesis by (simp add: commit_one_def Let_def)
  next
    case (Inr ra)
    obtain resp a' where ra: "ra = (resp, a')" by (cases ra)
    show ?thesis
    proof (cases "pending_after b resp (ca_active ?y) (ca_pending ?y)")
      case i: (Inl err)
      with Inr c e ra show ?thesis by (simp add: commit_one_def Let_def)
    next
      case i: (Inr pe)
      with Inr c e ra r s show ?thesis by (simp add: commit_one_def Let_def acc_sim_def)
    qed
  qed
qed

lemma commit_blocks_sim:
  "acc_sim bs x y \<Longrightarrow>
   case commit_blocks app bs x of
    Inl (e, x') \<Rightarrow> \<exists>y'. commit_blocks app bs y = Inl (e, y') \<and> ca_height x' = ca_height y' \<and> ca_app x' = ca_app y'
  | Inr x' \<Rightarrow> \<exists>y' rs. commit_blocks app bs y = Inr y' \<and> acc_sim [] x' y' \<and>
      (bs \<noteq> [] \<longrightarrow> ca_last_app_hash x' = ca_last_app_hash y') \<and>
      ca_responses x' = ca_responses x @ rs \<and> ca_responses y' = ca_responses y @ rs"
proof (induction bs arbitrary: x y)
  case (Cons b bs)
  show ?case
  proof (cases "commit_one app b x")
    case (Inl ex)
    with commit_one_sim [OF Cons.prems, of app] show ?thesis by auto
  next
    case (Inr x1)
    with commit_one_sim [OF Cons.prems, of app] obtain y1 r where y1:
      "commit_one app b y = Inr y1" "acc_sim bs x1 y1" "ca_last_app_hash x1 = ca_last_app_hash y1"
      "ca_responses x1 = ca_responses x @ [r]" "ca_responses y1 = ca_responses y @ [r]"
      by auto
    from Cons.IH [OF y1(2)] Inr y1 show ?thesis
      by (cases "commit_blocks app bs x1"; cases "bs = []") auto
  qed
qed (simp add: acc_sim_def)

fun structural :: "commit_error \<Rightarrow> bool" where
  "structural BlockToCommitNotFound \<longleftrightarrow> True"
| "structural ChainHeightZero \<longleftrightarrow> True"
| "structural (MissingAncestor _) \<longleftrightarrow> True"
| "structural (HeightDiscontinuity _ _) \<longleftrightarrow> True"
| "structural LastCommittedMissing \<longleftrightarrow> True"
| "structural ConflictsWithCommitted \<longleftrightarrow> True"
| "structural SkipsLastCommitted \<longleftrightarrow> True"
| "structural _ \<longleftrightarrow> False"

lemma chain_walk_structural:
  "chain_walk get by_height last_c current acc = Inl e \<Longrightarrow> structural e"
proof (induction get by_height last_c current acc rule: chain_walk.induct)
  case (1 get by_height last_c current acc)
  from "1.prems" show ?case
    by (subst (asm) chain_walk.simps)
       (auto simp: Let_def split: option.splits if_splits dest: "1.IH" [rotated -1])
qed

lemma commit_one_not_structural: "commit_one app b acc = Inl (e, acc') \<Longrightarrow> \<not> structural e"
  by (auto simp: commit_one_def Let_def pending_after_def chained_pending_epoch_def
      execute_committed_block_def rbind_def ok_or_def
      split: sum.splits prod.splits if_splits option.splits)

lemma commit_blocks_not_structural: "commit_blocks app bs acc = Inl (e, acc') \<Longrightarrow> \<not> structural e"
proof (induction bs arbitrary: acc)
  case (Cons b bs)
  show ?case
  proof (cases "commit_one app b acc")
    case (Inl x)
    with Cons.prems show ?thesis by (cases x) (auto dest: commit_one_not_structural)
  next
    case (Inr y)
    with Cons show ?thesis by simp
  qed
qed simp

definition adopted_epoch :: "Epoch \<Rightarrow> CommitResult \<Rightarrow> Epoch" where
  "adopted_epoch cur r = (case cr_activated_epoch r of Some e \<Rightarrow> e | None \<Rightarrow> cur)"

definition retained_epoch :: "Epoch \<Rightarrow> Epoch option \<Rightarrow> CommitResult \<Rightarrow> Epoch option" where
  "retained_epoch cur prev r = (case cr_activated_epoch r of Some e \<Rightarrow> Some cur | None \<Rightarrow> prev)"

text \<open>
  The caller's epochs after a batch stand in the simulation to the loop that runs on, for the
  blocks still to come.
\<close>

lemma adopted_acc_sim:
  fixes dc :: DoubleCertificate
  assumes "commit_blocks app xs (initial_acc cur prev pend h a) = Inr acc" "xs \<noteq> []"
    and "sorted (map b_view (xs @ ys))"
  defines "r \<equiv> result_of dc xs acc"
  shows "acc_sim ys acc (initial_acc (adopted_epoch cur r) (retained_epoch cur prev r)
           (cr_pending_epoch r) (ca_height acc) (ca_app acc))"
    "ca_active acc = adopted_epoch cur r"
proof -
  have sx: "sorted (map b_view xs)" using assms(3) by (simp add: sorted_append)
  have later: "b_view (last xs) \<le> b_view b" if "b \<in> set ys" for b
    using assms(2,3) that by (auto simp: sorted_append)
  note act = commit_blocks_active [OF assms(1)] and st = commit_blocks_started [OF assms(1) sx]
  show active: "ca_active acc = adopted_epoch cur r"
    using act by (auto simp: adopted_epoch_def r_def result_of_def initial_acc_def)
  have "ca_previous acc = retained_epoch cur prev r \<or>
      (\<forall>b \<in> set ys. ep_start_view (ca_active acc) \<le> b_view b)"
  proof (cases "ca_activated acc = None")
    case True
    with act have "ca_previous acc = prev" by (simp add: initial_acc_def)
    with True show ?thesis by (simp add: retained_epoch_def r_def result_of_def)
  next
    case False
    with st have "ep_start_view (ca_active acc) \<le> b_view (last xs)" by (simp add: initial_acc_def)
    with later show ?thesis by (meson order_trans)
  qed
  with active show "acc_sim ys acc (initial_acc (adopted_epoch cur r) (retained_epoch cur prev r)
           (cr_pending_epoch r) (ca_height acc) (ca_app acc))"
    by (auto simp: acc_sim_def initial_acc_def r_def result_of_def)
qed

section \<open>A concrete chain\<close>

definition sample_app :: "nat Application" where
  "sample_app =
     \<lparr> app_create_payload = (\<lambda>_ a. ([], a)), app_validate_block = (\<lambda>_ _ _. True),
       app_execute_block = (\<lambda>txs ctx a. Some (default_EndBlockResponse, Suc a)),
       app_on_commit = (\<lambda>_ _ a. Some a), app_on_evidence = (\<lambda>_ a. Some a),
       app_on_offline_validators = (\<lambda>_ a. a), app_extend_vote = (\<lambda>_ _ _. None),
       app_verify_vote_extension = (\<lambda>_ _ _ _. True), app_tracks_app_hash = False \<rparr>"

definition chain_block :: "u8 \<Rightarrow> Block" where
  "chain_block k = genesis_block\<lparr>b_height := ucast k, b_view := ucast k, b_hash := hash_rep k,
     b_parent_hash := hash_rep (k - 1)\<rparr>"

definition chain_get :: "BlockHash \<Rightarrow> Block option" where
  "chain_get h = (if h = hash_rep 0 then Some genesis_block
                  else if h = hash_rep 1 then Some (chain_block 1)
                  else if h = hash_rep 2 then Some (chain_block 2) else None)"

definition chain_by_height :: "Height \<Rightarrow> Block option" where
  "chain_by_height h = (if h = 0 then Some genesis_block
                        else if h = 1 then Some (chain_block 1)
                        else if h = 2 then Some (chain_block 2) else None)"

definition chain_cert :: "u8 \<Rightarrow> DoubleCertificate" where
  "chain_cert k = \<lparr> dc_inner_qc = sample_commit k, dc_outer_qc = sample_commit k, dc_vote_extensions = [] \<rparr>"

lemma chain_links: "links chain_get genesis_block [chain_block 1, chain_block 2]"
  "committed_at chain_by_height 0 genesis_block"
  "committed_at chain_by_height 1 (chain_block 1)"
  by (simp_all add: chain_get_def chain_block_def genesis_block_def committed_at_def chain_by_height_def)

section \<open>Properties\<close>

text \<open>
  C19. Commit safety: when \<open>try_commit\<close> succeeds, it either found the certified block at or below
  the last committed height and did nothing, or it committed exactly a hash-linked chain with
  consecutive heights that starts above the block recorded at the last committed height and ends
  with the certified block, one execution response per block, and the new last committed height is
  the height of that block.
\<close>

theorem try_commit_commits_chain:
  assumes "try_commit app get by_height dc cur prev pend h a = (h', a', Inr r)"
  shows "(\<exists>b. get (qc_block_hash (dc_inner_qc dc)) = Some b \<and> b_height b \<le> h \<and>
              cr_committed_blocks r = [] \<and> h' = h \<and> a' = a) \<or>
         (\<exists>p. committed_at by_height h p \<and> links get p (cr_committed_blocks r) \<and>
              cr_committed_blocks r \<noteq> [] \<and>
              get (qc_block_hash (dc_inner_qc dc)) = Some (last (cr_committed_blocks r)) \<and>
              length (cr_block_responses r) = length (cr_committed_blocks r) \<and>
              h' = b_height (last (cr_committed_blocks r)) \<and>
              unat h' = unat h + length (cr_committed_blocks r))"
proof (rule try_commit_cases [of get dc app by_height cur prev pend h a], goal_cases)
  case (4 p bs)
  then obtain acc where acc: "commit_blocks app bs (initial_acc cur prev pend h a) = Inr acc"
    "h' = ca_height acc" "r = result_of dc bs acc"
    using assms try_commit_chain [of get dc bs p by_height h app cur prev pend a]
    by (auto split: sum.splits)
  from commit_blocks_Inr [OF acc(1)] acc 4 links_last_height [of get p bs] show ?case
    by (intro disjI2 exI [of _ p]) (simp add: result_of_def initial_acc_def committed_at_def)
qed (use assms in auto)

theorem try_commit_commits_chain_witness:
  "\<exists>h' a' r. try_commit sample_app chain_get chain_by_height (chain_cert 2)
      (epoch_genesis sample_set) None None 0 (0 :: nat) = (h', a', Inr r) \<and>
      cr_committed_blocks r \<noteq> [] \<and> unat h' = length (cr_committed_blocks r) \<and> a' = 2"
proof -
  have g: "chain_get (qc_block_hash (dc_inner_qc (chain_cert 2))) = Some (last [chain_block 1, chain_block 2])"
    by (simp add: chain_cert_def sample_commit_def chain_get_def)
  have "\<exists>h' r. try_commit sample_app chain_get chain_by_height (chain_cert 2)
      (epoch_genesis sample_set) None None 0 (0 :: nat) = (h', 2, Inr r)"
    unfolding try_commit_chain [OF g chain_links(1) _ chain_links(2), simplified]
    by (simp add: commit_one_def initial_acc_def activate_pending_def execute_committed_block_def
        sample_app_def chain_block_def genesis_block_def pending_after_def default_EndBlockResponse_def)
  then obtain h' r where r: "try_commit sample_app chain_get chain_by_height (chain_cert 2)
      (epoch_genesis sample_set) None None 0 (0 :: nat) = (h', 2, Inr r)" by blast
  from try_commit_commits_chain [OF r] g show ?thesis
    by (intro exI [of _ h'] exI [of _ 2] exI [of _ r]) (auto simp: r chain_block_def)
qed

text \<open>
  C20. The chain is checked before anything is executed. Let a chain be intact when consecutive
  blocks of the store lead from the block recorded at the last committed height to the certified
  one. \<open>try_commit\<close> reports a structural error (a missing block, a missing or non-adjacent ancestor, a
  conflict with the committed block, a skipped height) exactly when the certified block is not at
  or below the last committed height and no chain is intact; such an error leaves the application
  state and the last committed height as they were, and any other error comes from executing an
  intact chain.
\<close>

theorem try_commit_validates_first:
  defines "certified \<equiv> \<lambda>get dc. get (qc_block_hash (dc_inner_qc dc))"
  defines "committed \<equiv> \<lambda>get dc h. \<exists>b. certified get dc = Some b \<and> b_height b \<le> h"
    and "intact \<equiv> \<lambda>get by_height dc h.
      \<exists>p bs. committed_at by_height h p \<and> links get p bs \<and> bs \<noteq> [] \<and> certified get dc = Some (last bs)"
  assumes "try_commit app get by_height dc cur prev pend h a = (h', a', r)"
  shows "((\<exists>e. r = Inl e \<and> structural e) \<longleftrightarrow> \<not> committed get dc h \<and> \<not> intact get by_height dc h) \<and>
         (\<forall>e. r = Inl e \<longrightarrow> (if structural e then h' = h \<and> a' = a else intact get by_height dc h))"
proof (rule try_commit_cases [of get dc app by_height cur prev pend h a], goal_cases)
  case 1
  with assms(4) show ?case by (auto simp: committed_def intact_def certified_def)
next
  case (2 b r')
  with assms(4) show ?case by (auto simp: committed_def certified_def)
next
  case (3 b e')
  have "\<not> intact get by_height dc h"
    using 3 chain_walk_complete [of get _ _ by_height h "[]"] by (fastforce simp: intact_def certified_def)
  with 3 assms(4) chain_walk_structural [OF 3(3)] show ?case
    by (auto simp: committed_def certified_def)
next
  case (4 p bs)
  then have "intact get by_height dc h" by (auto simp: intact_def certified_def)
  moreover have "\<not> structural e" if "r = Inl e" for e
    using that assms(4) 4 try_commit_chain [of get dc bs p by_height h app cur prev pend a]
    by (auto split: sum.splits prod.splits dest: commit_blocks_not_structural)
  ultimately show ?case by auto
qed

theorem try_commit_validates_first_witness:
  "try_commit sample_app chain_get chain_by_height (chain_cert 9)
      (epoch_genesis sample_set) None None 0 (0 :: nat) = (0, 0, Inl BlockToCommitNotFound) \<and>
   (\<exists>h' a' r. try_commit sample_app chain_get chain_by_height (chain_cert 2)
      (epoch_genesis sample_set) None None 0 (0 :: nat) = (h', a', r) \<and> (\<forall>e. r = Inl e \<longrightarrow> \<not> structural e))"
proof
  have r: "snd (snd (try_commit sample_app chain_get chain_by_height (chain_cert 9)
      (epoch_genesis sample_set) None None 0 (0 :: nat))) = Inl BlockToCommitNotFound"
    by (simp add: try_commit_def chain_cert_def sample_commit_def chain_get_def)
  obtain h' a' where t: "try_commit sample_app chain_get chain_by_height (chain_cert 9)
      (epoch_genesis sample_set) None None 0 (0 :: nat) = (h', a', Inl BlockToCommitNotFound)"
    using r by (metis prod.collapse)
  from try_commit_validates_first [OF t] t show "try_commit sample_app chain_get chain_by_height (chain_cert 9)
      (epoch_genesis sample_set) None None 0 (0 :: nat) = (0, 0, Inl BlockToCommitNotFound)" by simp
next
  have g: "chain_get (qc_block_hash (dc_inner_qc (chain_cert 2))) = Some (last [chain_block 1, chain_block 2])"
    by (simp add: chain_cert_def sample_commit_def chain_get_def)
  obtain h' a' r where t: "try_commit sample_app chain_get chain_by_height (chain_cert 2)
      (epoch_genesis sample_set) None None 0 (0 :: nat) = (h', a', r)" by (metis prod.collapse)
  have "\<not> (\<exists>e. r = Inl e \<and> structural e)"
    using try_commit_validates_first [OF t] chain_links(1,2) g by blast
  with t show "\<exists>h' a' r. try_commit sample_app chain_get chain_by_height (chain_cert 2)
      (epoch_genesis sample_set) None None 0 (0 :: nat) = (h', a', r) \<and> (\<forall>e. r = Inl e \<longrightarrow> \<not> structural e)"
    by blast
qed

text \<open>
  C21. Batching does not matter: on a chain whose views do not decrease, committing a prefix under
  one certificate, adopting the epochs it derived and then committing the rest under a second one
  gives the same last committed height, application state, error or final epochs, application hash
  and responses as committing everything under the second certificate. A node that falls behind and
  fast-forwards derives what a node that followed live derived.
\<close>

theorem commit_batching_irrelevant:
  assumes chain: "links get p (xs @ ys)" "xs \<noteq> []" "ys \<noteq> []" "sorted (map b_view (xs @ ys))"
    and base: "committed_at by_height h p" "committed_at by_height' (b_height (last xs)) (last xs)"
    and certs: "get (qc_block_hash (dc_inner_qc dc1)) = Some (last xs)"
      "get (qc_block_hash (dc_inner_qc dc2)) = Some (last ys)"
    and first: "try_commit app get by_height dc1 cur prev pend h a = (h1, a1, Inr r1)"
  shows "case (try_commit app get by_height dc2 cur prev pend h a,
               try_commit app get by_height' dc2 (adopted_epoch cur r1) (retained_epoch cur prev r1)
                 (cr_pending_epoch r1) h1 a1) of
           ((hb, ab, Inr rb), (h2, a2, Inr r2)) \<Rightarrow>
             hb = h2 \<and> ab = a2 \<and> cr_pending_epoch rb = cr_pending_epoch r2 \<and>
             adopted_epoch cur rb = adopted_epoch (adopted_epoch cur r1) r2 \<and>
             cr_last_app_hash rb = cr_last_app_hash r2 \<and>
             cr_committed_blocks rb = cr_committed_blocks r1 @ cr_committed_blocks r2 \<and>
             cr_block_responses rb = cr_block_responses r1 @ cr_block_responses r2
         | ((hb, ab, Inl eb), (h2, a2, Inl e2)) \<Rightarrow> hb = h2 \<and> ab = a2 \<and> eb = e2
         | _ \<Rightarrow> False"
proof -
  have lx: "links get p xs" and ly: "links get (last xs) ys"
    using chain(1,2) by (simp_all add: links_append)
  from first try_commit_chain [OF certs(1) lx chain(2) base(1), of app cur prev pend a] obtain acc where
    acc: "commit_blocks app xs (initial_acc cur prev pend h a) = Inr acc"
    "h1 = ca_height acc" "a1 = ca_app acc" "r1 = result_of dc1 xs acc"
    by (auto split: sum.splits)
  have h1: "h1 = b_height (last xs)" using commit_blocks_Inr [OF acc(1)] acc chain(2) by simp
  let ?i = "initial_acc (adopted_epoch cur r1) (retained_epoch cur prev r1) (cr_pending_epoch r1) h1 a1"
  have sim: "acc_sim ys acc ?i" and active: "ca_active acc = adopted_epoch cur r1"
    using adopted_acc_sim [OF acc(1) chain(2,4)] acc by simp_all
  have whole: "get (qc_block_hash (dc_inner_qc dc2)) = Some (last (xs @ ys))" "xs @ ys \<noteq> []"
    using certs chain by simp_all
  note B = try_commit_chain [OF whole(1) chain(1) whole(2) base(1), of app cur prev pend a]
  note S = try_commit_chain [OF certs(2) ly chain(3) base(2) [folded h1],
      of app "adopted_epoch cur r1" "retained_epoch cur prev r1" "cr_pending_epoch r1" a1]
  show ?thesis
  proof (cases "commit_blocks app ys acc")
    case (Inl ex)
    obtain e x where ex: "ex = (e, x)" by (cases ex)
    with commit_blocks_sim [OF sim, of app] Inl obtain y where
      "commit_blocks app ys ?i = Inl (e, y)" "ca_height x = ca_height y" "ca_app x = ca_app y" by auto
    with Inl ex B S acc(1) show ?thesis by (simp add: commit_blocks_append)
  next
    case (Inr x)
    with commit_blocks_sim [OF sim, of app] chain(3) obtain y rs where
      y: "commit_blocks app ys ?i = Inr y" "acc_sim [] x y" "ca_last_app_hash x = ca_last_app_hash y"
      "ca_responses x = ca_responses acc @ rs" "ca_responses y = rs"
      by (auto simp: initial_acc_def)
    have "adopted_epoch cur (result_of dc2 (xs @ ys) x) = ca_active x"
      using commit_blocks_active [of app "xs @ ys" "initial_acc cur prev pend h a" x] acc(1) Inr
      by (auto simp: commit_blocks_append adopted_epoch_def result_of_def initial_acc_def)
    moreover have "adopted_epoch (adopted_epoch cur r1) (result_of dc2 ys y) = ca_active y"
      using commit_blocks_active [OF y(1)] by (auto simp: adopted_epoch_def result_of_def initial_acc_def)
    ultimately show ?thesis
      using Inr y B S acc by (simp add: commit_blocks_append result_of_def acc_sim_def)
  qed
qed

theorem commit_batching_irrelevant_witness:
  "\<exists>h1 a1 r1. try_commit sample_app chain_get chain_by_height (chain_cert 1)
      (epoch_genesis sample_set) None None 0 (0 :: nat) = (h1, a1, Inr r1) \<and>
    fst (try_commit sample_app chain_get chain_by_height (chain_cert 2)
      (epoch_genesis sample_set) None None 0 (0 :: nat)) =
    fst (try_commit sample_app chain_get chain_by_height (chain_cert 2)
      (adopted_epoch (epoch_genesis sample_set) r1) (retained_epoch (epoch_genesis sample_set) None r1)
      (cr_pending_epoch r1) h1 a1)"
proof -
  let ?e = "epoch_genesis sample_set"
  have g1: "chain_get (qc_block_hash (dc_inner_qc (chain_cert 1))) = Some (last [chain_block 1])"
    and g2: "chain_get (qc_block_hash (dc_inner_qc (chain_cert 2))) = Some (last [chain_block 2])"
    by (simp_all add: chain_cert_def sample_commit_def chain_get_def)
  have l: "links chain_get genesis_block ([chain_block 1] @ [chain_block 2])"
    using chain_links(1) by simp
  have l1: "links chain_get genesis_block [chain_block 1]" using chain_links(1) by simp
  have "\<exists>h1 a1 r1. try_commit sample_app chain_get chain_by_height (chain_cert 1) ?e None None 0 (0 :: nat) =
      (h1, a1, Inr r1)"
    unfolding try_commit_chain [OF g1 l1 _ chain_links(2), simplified]
    by (simp add: commit_one_def initial_acc_def activate_pending_def execute_committed_block_def
        sample_app_def chain_block_def genesis_block_def pending_after_def default_EndBlockResponse_def)
  then obtain h1 a1 r1 where r: "try_commit sample_app chain_get chain_by_height (chain_cert 1)
      ?e None None 0 (0 :: nat) = (h1, a1, Inr r1)" by blast
  have b: "committed_at chain_by_height (b_height (last [chain_block 1])) (last [chain_block 1])"
    using chain_links(3) by (simp add: chain_block_def)
  have "sorted (map b_view ([chain_block 1] @ [chain_block 2]))" by (simp add: chain_block_def)
  note main = commit_batching_irrelevant [OF l _ _ this chain_links(2) b g1 g2 r, simplified]
  obtain hb ab rb where B: "try_commit sample_app chain_get chain_by_height (chain_cert 2)
      ?e None None 0 (0 :: nat) = (hb, ab, rb)" by (metis prod.collapse)
  obtain h2 a2 r2 where S: "try_commit sample_app chain_get chain_by_height (chain_cert 2)
      (adopted_epoch ?e r1) (retained_epoch ?e None r1) (cr_pending_epoch r1) h1 a1 = (h2, a2, r2)"
    by (metis prod.collapse)
  have "hb = h2" using main unfolding B S by (cases rb; cases r2) auto
  with r B S show ?thesis by (intro exI [of _ h1] exI [of _ a1] exI [of _ r1]) simp
qed

section \<open>Evidence\<close>

lemma validate_evidence_Inr:
  "validate_evidence verify blake3 chain p block_view epoch previous = Inr u \<longleftrightarrow>
     (\<exists>v. (case get_validator (ep_validator_set epoch) (ev_validator p) of
            Some w \<Rightarrow> Some w
          | None \<Rightarrow> Option.bind previous (\<lambda>e. get_validator (ep_validator_set e) (ev_validator p))) = Some v \<and>
        ev_block_hash_a p \<noteq> ev_block_hash_b p \<and> ev_epoch p \<le> ep_number epoch \<and> ev_view p \<le> block_view \<and>
        (ev_vote_type p = Vote \<longrightarrow> ev_extension_a p = None \<and> ev_extension_b p = None) \<and>
        evidence_half_valid verify blake3 chain (vi_public_key v) p
          (ev_block_hash_a p) (ev_signature_a p) (ev_extension_a p) \<and>
        evidence_half_valid verify blake3 chain (vi_public_key v) p
          (ev_block_hash_b p) (ev_signature_b p) (ev_extension_b p))"
  unfolding validate_evidence_def
  by (cases "case get_validator (ep_validator_set epoch) (ev_validator p) of
            Some w \<Rightarrow> Some w
          | None \<Rightarrow> Option.bind previous (\<lambda>e. get_validator (ep_validator_set e) (ev_validator p))")
     (auto simp: not_less split: if_splits)

lemma validate_evidence_list_Inr:
  "validate_evidence_list verify blake3 chain ps view epoch prev = Inr u \<longleftrightarrow>
     (\<forall>p \<in> set ps. validate_evidence verify blake3 chain p view epoch prev = Inr ())"
  by (induction ps) (auto simp: rbind_Inr)

end
