(* ===== verification/Consensus_State.thy ===== *)
theory Consensus_State
  imports Validator_Set
begin

text \<open>
  \<open>hotmint-consensus/src/state.rs\<close>: the mutable state of one validator, the double-sign guard
  \<open>check_and_record_vote\<close> and the two monotone certificate slots.
\<close>

datatype ViewRole = Leader | Replica

datatype ViewStep =
    Entered | WaitingForStatus | Proposed | WaitingForProposal | Voted | CollectingVotes
  | Prepared | SentVote2 | Done

record ConsensusState =
  cs_validator_id :: ValidatorId
  cs_validator_set :: ValidatorSet
  cs_chain_id_hash :: hash32
  cs_current_view :: ViewNumber
  cs_role :: ViewRole
  cs_step :: ViewStep
  cs_locked_qc :: "QuorumCertificate option"
  cs_highest_double_cert :: "DoubleCertificate option"
  cs_highest_qc :: "QuorumCertificate option"
  cs_last_committed_height :: Height
  cs_last_app_hash :: BlockHash
  cs_current_epoch :: Epoch
  cs_pending_vote_extensions :: "(ValidatorId \<times> bytes) list"
  cs_last_vote1 :: "(ViewNumber \<times> BlockHash) option"
  cs_last_vote2 :: "(ViewNumber \<times> BlockHash) option"

definition with_chain_id ::
    "(bytes \<Rightarrow> hash32) \<Rightarrow> ValidatorId \<Rightarrow> ValidatorSet \<Rightarrow> bytes \<Rightarrow> ConsensusState" where
  "with_chain_id blake3 validator_id validator_set chain_id =
     \<lparr> cs_validator_id = validator_id, cs_validator_set = validator_set,
       cs_chain_id_hash = blake3 chain_id, cs_current_view = 0, cs_role = Replica,
       cs_step = Entered, cs_locked_qc = None, cs_highest_double_cert = None,
       cs_highest_qc = None, cs_last_committed_height = 0, cs_last_app_hash = GENESIS_HASH,
       cs_current_epoch = epoch_genesis validator_set, cs_pending_vote_extensions = [],
       cs_last_vote1 = None, cs_last_vote2 = None \<rparr>"

definition vote_slot :: "VoteType \<Rightarrow> ConsensusState \<Rightarrow> (ViewNumber \<times> BlockHash) option" where
  "vote_slot t s = (case t of Vote \<Rightarrow> cs_last_vote1 s | Vote2 \<Rightarrow> cs_last_vote2 s)"

definition set_vote_slot ::
    "VoteType \<Rightarrow> (ViewNumber \<times> BlockHash) option \<Rightarrow> ConsensusState \<Rightarrow> ConsensusState" where
  "set_vote_slot t x s =
     (case t of Vote \<Rightarrow> s\<lparr>cs_last_vote1 := x\<rparr> | Vote2 \<Rightarrow> s\<lparr>cs_last_vote2 := x\<rparr>)"

definition check_and_record_vote ::
    "VoteType \<Rightarrow> ViewNumber \<Rightarrow> BlockHash \<Rightarrow> ConsensusState \<Rightarrow> ConsensusState \<times> bool" where
  "check_and_record_vote vote_type view block_hash s =
     (case vote_slot vote_type s of
        Some (v, h) \<Rightarrow>
          if v > view then (s, False)
          else if v = view then (s, h = block_hash)
          else (set_vote_slot vote_type (Some (view, block_hash)) s, True)
      | None \<Rightarrow> (set_vote_slot vote_type (Some (view, block_hash)) s, True))"

definition cs_is_leader :: "ConsensusState \<Rightarrow> bool" where
  "cs_is_leader s = (cs_role s = Leader)"

definition update_highest_qc :: "QuorumCertificate \<Rightarrow> ConsensusState \<Rightarrow> ConsensusState" where
  "update_highest_qc qc s =
     (if (case cs_highest_qc s of None \<Rightarrow> True | Some h \<Rightarrow> qc_view qc > qc_view h)
      then s\<lparr>cs_highest_qc := Some qc\<rparr> else s)"

definition update_locked_qc :: "QuorumCertificate \<Rightarrow> ConsensusState \<Rightarrow> ConsensusState" where
  "update_locked_qc qc s =
     (if (case cs_locked_qc s of None \<Rightarrow> True | Some h \<Rightarrow> qc_view qc > qc_view h)
      then s\<lparr>cs_locked_qc := Some qc\<rparr> else s)"

section \<open>The double-sign guard\<close>

lemma vote_slot_set [simp]:
  "vote_slot t (set_vote_slot t' x s) = (if t = t' then x else vote_slot t s)"
  by (auto simp: vote_slot_def set_vote_slot_def split: VoteType.splits)

text \<open>A slot admits a vote: it would not contradict what the slot records.\<close>

definition slot_admits :: "(ViewNumber \<times> BlockHash) option \<Rightarrow> ViewNumber \<Rightarrow> BlockHash \<Rightarrow> bool" where
  "slot_admits x view h \<longleftrightarrow> (case x of None \<Rightarrow> True | Some (v, h') \<Rightarrow> v < view \<or> v = view \<and> h' = h)"

lemma check_and_record_vote_spec:
  "check_and_record_vote t view h s =
     (if slot_admits (vote_slot t s) view h
      then (set_vote_slot t (Some (view, h)) s, True) else (s, False))"
proof -
  have same: "set_vote_slot t (vote_slot t s) s = s"
    by (cases t) (simp_all add: vote_slot_def set_vote_slot_def)
  show ?thesis
  proof (cases "vote_slot t s")
    case (Some x)
    then obtain v h' where "vote_slot t s = Some (v, h')" by (cases x) auto
    with same show ?thesis
      by (cases "v < view"; cases "v = view")
         (auto simp: check_and_record_vote_def slot_admits_def)
  qed (simp add: check_and_record_vote_def slot_admits_def)
qed

text \<open>
  A run of signing requests, with any other change of the state in between that keeps the two
  slots (a restart restores them from disk). The result lists the granted requests.
\<close>

type_synonym sign_request = "VoteType \<times> ViewNumber \<times> BlockHash"

inductive signing_run :: "ConsensusState \<Rightarrow> sign_request list \<Rightarrow> ConsensusState \<Rightarrow> bool" where
  run_start: "signing_run s [] s"
| run_other: "\<lbrakk> signing_run s0 acc s; \<And>t. vote_slot t s' = vote_slot t s \<rbrakk> \<Longrightarrow> signing_run s0 acc s'"
| run_grant: "\<lbrakk> signing_run s0 acc s; check_and_record_vote t v h s = (s', True) \<rbrakk>
                \<Longrightarrow> signing_run s0 (acc @ [(t, v, h)]) s'"
| run_refuse: "\<lbrakk> signing_run s0 acc s; check_and_record_vote t v h s = (s', False) \<rbrakk>
                \<Longrightarrow> signing_run s0 acc s'"

lemma signing_run_slot:
  "signing_run s0 acc s \<Longrightarrow> (t, v, h) \<in> set acc \<Longrightarrow>
     \<exists>v' h'. vote_slot t s = Some (v', h') \<and> (v < v' \<or> v = v' \<and> h = h')"
proof (induction rule: signing_run.induct)
  case (run_grant s0 acc s t' w k s')
  from run_grant.hyps(2) have a: "slot_admits (vote_slot t' s) w k"
    and s': "s' = set_vote_slot t' (Some (w, k)) s"
    by (auto simp: check_and_record_vote_spec split: if_splits)
  show ?case
  proof (cases "(t, v, h) = (t', w, k)")
    case True
    with s' show ?thesis by simp
  next
    case False
    with run_grant.prems have "(t, v, h) \<in> set acc" by auto
    with run_grant.IH obtain v' h' where
      "vote_slot t s = Some (v', h')" "v < v' \<or> v = v' \<and> h = h'" by blast
    with a s' show ?thesis by (cases "t = t'") (auto simp: slot_admits_def)
  qed
qed (auto simp: check_and_record_vote_spec split: if_splits)

lemma signing_run_consistent:
  assumes "signing_run s0 acc s" "(t, v, h) \<in> set acc" "(t, v, h') \<in> set acc"
  shows "h = h'"
  using assms
proof (induction rule: signing_run.induct)
  case (run_grant s0 acc s t' w k s')
  from run_grant.hyps(2) have a: "slot_admits (vote_slot t' s) w k"
    by (auto simp: check_and_record_vote_spec split: if_splits)
  have "k = x" if "(t', w, x) \<in> set acc" for x
    using signing_run_slot [OF run_grant.hyps(1) that] a by (auto simp: slot_admits_def)
  with run_grant show ?case by auto
qed auto

section \<open>Certificate slots\<close>

definition view_le :: "QuorumCertificate option \<Rightarrow> QuorumCertificate option \<Rightarrow> bool" where
  "view_le a b \<longleftrightarrow>
     (case a of None \<Rightarrow> True | Some x \<Rightarrow> (case b of None \<Rightarrow> False | Some y \<Rightarrow> qc_view x \<le> qc_view y))"

lemma view_le_refl [simp]: "view_le a a"
  by (simp add: view_le_def split: option.splits)

lemma view_le_None [simp]: "view_le None b"
  by (simp add: view_le_def)

lemma view_le_Some [simp]: "view_le (Some x) (Some y) \<longleftrightarrow> qc_view x \<le> qc_view y"
  by (simp add: view_le_def)

lemma view_le_trans: "view_le a b \<Longrightarrow> view_le b c \<Longrightarrow> view_le a c"
  by (auto simp: view_le_def split: option.splits)

lemma update_locked_qc_slot:
  "cs_locked_qc (update_locked_qc qc s) =
     (if view_le (Some qc) (cs_locked_qc s) then cs_locked_qc s else Some qc)"
  by (auto simp: update_locked_qc_def view_le_def split: option.splits)

lemma update_highest_qc_slot:
  "cs_highest_qc (update_highest_qc qc s) =
     (if view_le (Some qc) (cs_highest_qc s) then cs_highest_qc s else Some qc)"
  by (auto simp: update_highest_qc_def view_le_def split: option.splits)

lemma update_locked_qc_mono:
  "view_le (cs_locked_qc s) (cs_locked_qc (update_locked_qc qc s))"
  "view_le (Some qc) (cs_locked_qc (update_locked_qc qc s))"
  by (auto simp: update_locked_qc_def view_le_def split: option.splits)

lemma update_highest_qc_mono:
  "view_le (cs_highest_qc s) (cs_highest_qc (update_highest_qc qc s))"
  "view_le (Some qc) (cs_highest_qc (update_highest_qc qc s))"
  by (auto simp: update_highest_qc_def view_le_def split: option.splits)

text \<open>
  C15. No double signing: along any run of signing requests, interleaved with any changes that
  leave the two vote slots alone, restarts included, the guard never grants two votes of one phase
  and view for different blocks.
\<close>

theorem no_double_sign:
  assumes "signing_run s0 granted s" "(t, v, h) \<in> set granted" "(t, v, h') \<in> set granted"
  shows "h = h'"
  using assms by (rule signing_run_consistent)

theorem no_double_sign_witness:
  "\<exists>s. signing_run (with_chain_id (\<lambda>_. hash_rep 0) 1 sample_set []) [(Vote, 3, hash_rep 7), (Vote, 3, hash_rep 7)] s
     \<and> (hash_rep 7 = hash_rep 7)"
proof -
  let ?s0 = "with_chain_id (\<lambda>_. hash_rep 0) 1 sample_set []"
  let ?s1 = "set_vote_slot Vote (Some (3, hash_rep 7)) ?s0"
  have "signing_run ?s0 ([] @ [(Vote, 3, hash_rep 7)]) ?s1"
    by (rule run_grant [OF run_start])
       (simp add: check_and_record_vote_spec slot_admits_def vote_slot_def with_chain_id_def)
  then have "signing_run ?s0 (([] @ [(Vote, 3, hash_rep 7)]) @ [(Vote, 3, hash_rep 7)])
      (set_vote_slot Vote (Some (3, hash_rep 7)) ?s1)"
    by (rule run_grant) (simp add: check_and_record_vote_spec slot_admits_def)
  then have run: "signing_run ?s0 [(Vote, 3, hash_rep 7), (Vote, 3, hash_rep 7)]
      (set_vote_slot Vote (Some (3, hash_rep 7)) ?s1)" by simp
  have "hash_rep 7 = hash_rep 7" by (rule no_double_sign [OF run, of Vote 3]) simp_all
  with run show ?thesis by blast
qed

end
