(* ===== verification/View_Protocol.thy ===== *)
theory View_Protocol
  imports Commit Consensus_State
begin

text \<open>
  \<open>hotmint-consensus/src/view_protocol.rs\<close>: entering a view, proposing, voting on a proposal,
  certificate broadcast and the second vote. What a step hands to the network, the vote file or the
  signer is its list of effects, in order; \<open>SaveLastVote\<close> is the save and flush of a vote record,
  which does nothing when the engine has no persistence, and \<open>SignVote\<close> the vote whose bytes the
  signer was given. \<open>now_ms\<close> is the local clock.
\<close>

section \<open>Types\<close>

datatype ViewEntryTrigger =
    TriggerDoubleCert DoubleCertificate
  | TriggerTimeoutCert TimeoutCertificate
  | TriggerGenesis

datatype effect =
    SendTo ValidatorId ConsensusMessage
  | Broadcast ConsensusMessage
  | SaveLastVote VoteType ViewNumber BlockHash
  | SignVote Vote
  | BroadcastEvidence EquivocationProof
  | EpochChange EpochNumber ValidatorSet

datatype vp_error =
    NoQcToJustify
  | ParentNotFound BlockHash
  | HeightPanic
  | JustifyNotDominating
  | NoLeader
  | WrongProposer ValidatorId ValidatorId
  | HashMismatch BlockHash BlockHash
  | ParentHashMismatch BlockHash BlockHash
  | WrongHeight Height Height
  | TimestampZero
  | TimestampBeforeParent u64 u64
  | TimestampInFuture u64 u64
  | EvidenceRejected evidence_error
  | ApplicationRejected
  | FastForwardFailed commit_error
  | AncestorLoop

record 'a ViewDeps =
  vd_app :: "'a Application"
  vd_sign :: "bytes \<Rightarrow> Signature"
  vd_verify :: "PublicKey \<Rightarrow> bytes \<Rightarrow> Signature \<Rightarrow> bool"
  vd_blake3 :: "bytes \<Rightarrow> hash32"

record EpochContext =
  ec_previous_epoch :: "Epoch option"
  ec_in_flight_pending :: "Epoch option"

record ProposalData =
  pd_block :: Block
  pd_justify :: QuorumCertificate
  pd_double_cert :: "DoubleCertificate option"

record ProposalResult =
  pr_pending_epoch :: "Epoch option"
  pr_commit_result :: "CommitResult option"

section \<open>Entering a view\<close>

text \<open>The status certificate a replica with power sends to the leader of the view.\<close>

definition send_status ::
    "'a ViewDeps \<Rightarrow> ViewNumber \<Rightarrow> ConsensusState \<Rightarrow> vp_error + effect list" where
  "send_status deps view s =
     (if power_of (cs_validator_set s) (cs_validator_id s) > 0
      then rbind (ok_or (leader_for_view (cs_validator_set s) view) NoLeader) (\<lambda>leader.
             Inr [SendTo (vi_id leader)
                    (StatusCert (cs_locked_qc s) (cs_validator_id s)
                       (vd_sign deps (status_signing_bytes (cs_chain_id_hash s)
                          (ep_number (cs_current_epoch s)) view (cs_validator_id s) (cs_locked_qc s))))])
      else Inr [])"

definition enter_view ::
    "'a ViewDeps \<Rightarrow> ViewNumber \<Rightarrow> ViewEntryTrigger \<Rightarrow> ConsensusState \<Rightarrow>
     vp_error + (ConsensusState \<times> effect list)" where
  "enter_view deps view trigger s0 =
     (if trigger \<noteq> TriggerGenesis \<and> view \<le> cs_current_view s0 then Inr (s0, [])
      else
        let am_leader = is_leader (cs_validator_set s0) view (cs_validator_id s0);
            s = s0\<lparr>cs_current_view := view, cs_step := Entered,
                   cs_role := (if am_leader then Leader else Replica)\<rparr>
        in case trigger of
             TriggerGenesis \<Rightarrow>
               Inr (s\<lparr>cs_step := (if am_leader then WaitingForStatus else WaitingForProposal)\<rparr>, [])
           | TriggerDoubleCert dc \<Rightarrow>
               let s1 = (update_highest_qc (dc_inner_qc dc) s)\<lparr>cs_highest_double_cert := Some dc\<rparr>
               in if am_leader then Inr (s1\<lparr>cs_step := WaitingForStatus\<rparr>, [])
                  else rbind (send_status deps view s1) (\<lambda>out.
                         Inr (s1\<lparr>cs_step := WaitingForProposal\<rparr>, out))
           | TriggerTimeoutCert tc \<Rightarrow>
               let s1 = (case highest_qc_of_tc tc of Some hqc \<Rightarrow> update_highest_qc hqc s | None \<Rightarrow> s)
               in if am_leader then Inr (s1\<lparr>cs_step := WaitingForStatus\<rparr>, [])
                  else rbind (send_status deps view s1) (\<lambda>out.
                         Inr (s1\<lparr>cs_step := WaitingForProposal\<rparr>, out)))"

section \<open>Proposing\<close>

text \<open>
  The ancestors a leader attaches, from the parent down to just below its last committed height.
  Nothing in the loop itself bounds it: it ends because stored parents are lower.
\<close>

partial_function (option) ancestor_walk ::
    "VsdbBlockStore \<Rightarrow> Height \<Rightarrow> BlockHash \<Rightarrow> Block list \<Rightarrow> Block list option" where
  "ancestor_walk store depth_limit hash ancestors =
     (if hash = GENESIS_HASH then Some ancestors
      else case get_block store hash of
             None \<Rightarrow> Some ancestors
           | Some b \<Rightarrow>
               if b_height b < depth_limit then Some ancestors
               else ancestor_walk store depth_limit (b_parent_hash b) (ancestors @ [b]))"

text \<open>The block a leader builds on its parent, and the application state after its payload.\<close>

definition build_block ::
    "'a ViewDeps \<Rightarrow> u64 \<Rightarrow> EquivocationProof list \<Rightarrow> EpochContext \<Rightarrow> ConsensusState \<Rightarrow>
     BlockHash \<Rightarrow> Block \<Rightarrow> Height \<Rightarrow> 'a \<Rightarrow> Block \<times> 'a" where
  "build_block deps now_ms evidence epochs s parent_hash parent height a =
     (let timestamp = max now_ms (saturating_add (b_timestamp parent) 1);
          ctx = \<lparr> ctx_height = height, ctx_view = cs_current_view s,
                  ctx_proposer = cs_validator_id s,
                  ctx_epoch = ep_number (cs_current_epoch s),
                  ctx_epoch_start_view = ep_start_view (cs_current_epoch s),
                  ctx_validator_set = cs_validator_set s, ctx_timestamp = timestamp,
                  ctx_vote_extensions = cs_pending_vote_extensions s \<rparr>;
          (payload, a1) = app_create_payload (vd_app deps) ctx a;
          evidence' = filter (\<lambda>p. validate_evidence (vd_verify deps) (vd_blake3 deps)
                         (cs_chain_id_hash s) p (cs_current_view s)
                         (cs_current_epoch s) (ec_previous_epoch epochs) = Inr ()) evidence;
          block = \<lparr> b_height = height, b_parent_hash = parent_hash,
                    b_view = cs_current_view s, b_proposer = cs_validator_id s,
                    b_timestamp = timestamp, b_payload = payload,
                    b_app_hash = cs_last_app_hash s, b_evidence = evidence',
                    b_hash = GENESIS_HASH \<rparr>
      in (block\<lparr>b_hash := compute_hash (vd_blake3 deps) block\<rparr>, a1))"

definition propose ::
    "'a ViewDeps \<Rightarrow> u64 \<Rightarrow> EquivocationProof list \<Rightarrow> EpochContext \<Rightarrow> ConsensusState \<Rightarrow>
     VsdbBlockStore \<Rightarrow> 'a \<Rightarrow>
     ConsensusState \<times> VsdbBlockStore \<times> 'a \<times> effect list \<times> (vp_error + Block)" where
  "propose deps now_ms evidence epochs s store a =
     (case cs_highest_qc s of
        None \<Rightarrow> (s, store, a, [], Inl NoQcToJustify)
      | Some justify \<Rightarrow>
         (let parent_hash = qc_block_hash justify
          in case get_block store parent_hash of
             None \<Rightarrow> (s, store, a, [], Inl (ParentNotFound parent_hash))
           | Some parent \<Rightarrow>
              (case next_height (b_height parent) of
                 None \<Rightarrow> (s, store, a, [], Inl HeightPanic)
               | Some height \<Rightarrow>
                  (let (block, a1) = build_block deps now_ms evidence epochs s parent_hash parent height a;
                       s1 = s\<lparr>cs_pending_vote_extensions := []\<rparr>;
                       store1 = put_block block store;
                       signature = vd_sign deps (proposal_signing_bytes (cs_chain_id_hash s1)
                                      (ep_number (cs_current_epoch s1)) block justify);
                       depth_limit = saturating_sub (cs_last_committed_height s1) 1
                   in case ancestor_walk store1 depth_limit parent_hash [] of
                        None \<Rightarrow> (s1, store1, a1, [], Inl AncestorLoop)
                      | Some ancestors \<Rightarrow>
                          (s1\<lparr>cs_step := CollectingVotes\<rparr>, store1, a1,
                           [Broadcast (Propose block justify (cs_highest_double_cert s1) signature ancestors)],
                           Inr block)))))"

section \<open>Voting on a proposal\<close>

definition justify_dominates :: "QuorumCertificate \<Rightarrow> ConsensusState \<Rightarrow> bool" where
  "justify_dominates justify s =
     (case cs_locked_qc s of
        None \<Rightarrow> True
      | Some locked \<Rightarrow>
          \<not> (qc_rank justify < qc_rank locked \<or>
             (qc_rank justify = qc_rank locked \<and> qc_block_hash justify \<noteq> qc_block_hash locked)))"

definition MAX_FUTURE_DRIFT_MS :: u64 where
  "MAX_FUTURE_DRIFT_MS = 15000"

definition check_timestamp :: "u64 \<Rightarrow> Block \<Rightarrow> Block \<Rightarrow> vp_error + unit" where
  "check_timestamp now_ms block parent =
     (if b_height block > 0
      then if b_timestamp block = 0 then Inl TimestampZero
           else if b_timestamp block < b_timestamp parent
                then Inl (TimestampBeforeParent (b_timestamp block) (b_timestamp parent))
           else if b_timestamp block > now_ms + MAX_FUTURE_DRIFT_MS
                then Inl (TimestampInFuture (b_timestamp block) now_ms)
           else Inr ()
      else Inr ())"

text \<open>
  The checks of \<open>on_proposal\<close> up to the point where it stores the block. The check of the application
  hash comes after the fast-forward commit and is part of \<open>on_proposal\<close> below.
\<close>

definition check_proposal ::
    "'a ViewDeps \<Rightarrow> u64 \<Rightarrow> Block \<Rightarrow> QuorumCertificate \<Rightarrow> EpochContext \<Rightarrow> ConsensusState \<Rightarrow>
     VsdbBlockStore \<Rightarrow> 'a \<Rightarrow> vp_error + unit" where
  "check_proposal deps now_ms block justify epochs s store a =
     (if \<not> justify_dominates justify s then Inl JustifyNotDominating
      else
        rbind (ok_or (leader_for_view (cs_validator_set s) (b_view block)) NoLeader) (\<lambda>leader.
        if b_proposer block \<noteq> vi_id leader then Inl (WrongProposer (b_proposer block) (vi_id leader))
        else if b_hash block \<noteq> compute_hash (vd_blake3 deps) block
        then Inl (HashMismatch (b_hash block) (compute_hash (vd_blake3 deps) block))
        else if b_parent_hash block \<noteq> qc_block_hash justify
        then Inl (ParentHashMismatch (b_parent_hash block) (qc_block_hash justify))
        else
          rbind (ok_or (get_block store (b_parent_hash block)) (ParentNotFound (b_parent_hash block))) (\<lambda>parent.
          rbind (ok_or (next_height (b_height parent)) HeightPanic) (\<lambda>expected.
          if b_height block \<noteq> expected then Inl (WrongHeight (b_height block) (b_height parent))
          else
            rbind (check_timestamp now_ms block parent) (\<lambda>_.
            case validate_block_evidence (vd_verify deps) (vd_blake3 deps) (cs_chain_id_hash s) block
                   (cs_current_epoch s) (ec_previous_epoch epochs) of
              Inl e \<Rightarrow> Inl (EvidenceRejected e)
            | Inr _ \<Rightarrow>
                if \<not> app_validate_block (vd_app deps) block
                      \<lparr> ctx_height = b_height block, ctx_view = b_view block,
                        ctx_proposer = b_proposer block, ctx_epoch = ep_number (cs_current_epoch s),
                        ctx_epoch_start_view = ep_start_view (cs_current_epoch s),
                        ctx_validator_set = cs_validator_set s, ctx_timestamp = b_timestamp block,
                        ctx_vote_extensions = [] \<rparr> a
                then Inl ApplicationRejected
                else Inr ())))))"

definition make_vote ::
    "'a ViewDeps \<Rightarrow> ConsensusState \<Rightarrow> BlockHash \<Rightarrow> VoteType \<Rightarrow> bytes option \<Rightarrow> Vote" where
  "make_vote deps s block_hash vote_type extension =
     \<lparr> v_epoch = ep_number (cs_current_epoch s), v_block_hash = block_hash,
       v_view = cs_current_view s, v_validator = cs_validator_id s,
       v_signature = vd_sign deps (vote_signing_bytes (vd_blake3 deps) (cs_chain_id_hash s)
         (ep_number (cs_current_epoch s)) (cs_current_view s) (cs_validator_id s) block_hash
         vote_type extension),
       v_vote_type = vote_type, v_extension = extension \<rparr>"

text \<open>
  The first-phase vote: the power check and the guard, then save, then send. \<open>&&\<close> consults the
  guard only for a node with power.
\<close>

definition cast_vote1 ::
    "'a ViewDeps \<Rightarrow> Block \<Rightarrow> ConsensusState \<Rightarrow> vp_error + (ConsensusState \<times> effect list)" where
  "cast_vote1 deps block s =
     (let (s1, may_sign) =
            (if power_of (cs_validator_set s) (cs_validator_id s) > 0
             then check_and_record_vote Vote (cs_current_view s) (b_hash block) s
             else (s, False))
      in if may_sign
         then rbind (ok_or (leader_for_view (cs_validator_set s1) (cs_current_view s1)) NoLeader) (\<lambda>leader.
                let vote = make_vote deps s1 (b_hash block) Vote None
                in Inr (s1, [SaveLastVote Vote (cs_current_view s1) (b_hash block), SignVote vote,
                             SendTo (vi_id leader) (VoteMsg vote)]))
         else Inr (s1, []))"

text \<open>The commit through the certificate a proposal carries.\<close>

definition fast_forward ::
    "'a ViewDeps \<Rightarrow> DoubleCertificate option \<Rightarrow> EpochContext \<Rightarrow> VsdbBlockStore \<Rightarrow> ConsensusState \<Rightarrow> 'a \<Rightarrow>
     ConsensusState \<times> 'a \<times> (vp_error + CommitResult option)" where
  "fast_forward deps double_cert epochs store s a =
     (case double_cert of
        None \<Rightarrow> (s, a, Inr None)
      | Some dc \<Rightarrow>
         (case try_commit (vd_app deps) (get_block store) (get_block_by_height store) dc
                 (cs_current_epoch s) (ec_previous_epoch epochs)
                 (ec_in_flight_pending epochs) (cs_last_committed_height s) a of
            (h, a', Inl e) \<Rightarrow> (s\<lparr>cs_last_committed_height := h\<rparr>, a', Inl (FastForwardFailed e))
          | (h, a', Inr result) \<Rightarrow>
              ((if cr_committed_blocks result \<noteq> []
                then s\<lparr>cs_last_committed_height := h, cs_last_app_hash := cr_last_app_hash result\<rparr>
                else s\<lparr>cs_last_committed_height := h\<rparr>), a', Inr (Some result))))"

definition on_proposal ::
    "'a ViewDeps \<Rightarrow> u64 \<Rightarrow> ProposalData \<Rightarrow> EpochContext \<Rightarrow> ConsensusState \<Rightarrow> VsdbBlockStore \<Rightarrow> 'a \<Rightarrow>
     ConsensusState \<times> VsdbBlockStore \<times> 'a \<times> effect list \<times> (vp_error + ProposalResult)" where
  "on_proposal deps now_ms proposal epochs s store a =
     (let block = pd_block proposal; justify = pd_justify proposal
      in if cs_step s \<noteq> WaitingForProposal
         then (s, store, a, [], Inr \<lparr> pr_pending_epoch = None, pr_commit_result = None \<rparr>)
         else case check_proposal deps now_ms block justify epochs s store a of
           Inl e \<Rightarrow> (s, store, a, [], Inl e)
         | Inr _ \<Rightarrow>
            (let store1 = put_block block store;
                 s1 = update_highest_qc justify s;
                 (s2, a2, ff) = fast_forward deps (pd_double_cert proposal) epochs store1 s1 a
             in case ff of
                  Inl e \<Rightarrow> (s2, store1, a2, [], Inl e)
                | Inr commit_result \<Rightarrow>
                    let result = \<lparr> pr_pending_epoch = Option.bind commit_result cr_pending_epoch,
                                   pr_commit_result = commit_result \<rparr>
                    in if app_tracks_app_hash (vd_app deps) \<and> b_app_hash block \<noteq> cs_last_app_hash s2
                       then (s2, store1, a2, [], Inr result)
                       else case cast_vote1 deps block s2 of
                              Inl e \<Rightarrow> (s2, store1, a2, [], Inl e)
                            | Inr (s3, out) \<Rightarrow> (s3\<lparr>cs_step := Voted\<rparr>, store1, a2, out, Inr result)))"

section \<open>Certificates and the second vote\<close>

definition on_votes_collected ::
    "'a ViewDeps \<Rightarrow> QuorumCertificate \<Rightarrow> ConsensusState \<Rightarrow> ConsensusState \<times> effect list" where
  "on_votes_collected deps qc s =
     (let s1 = update_highest_qc qc s;
          signature = vd_sign deps (prepare_signing_bytes (cs_chain_id_hash s1)
                        (ep_number (cs_current_epoch s1)) qc)
      in (s1\<lparr>cs_step := Prepared\<rparr>, [Broadcast (Prepare qc signature)]))"

text \<open>
  \<open>on_prepare\<close> hands the second vote back to the engine, which sends it. \<open>Inl\<close> is the panic of
  \<open>next_leader\<close>.
\<close>

definition on_prepare ::
    "'a ViewDeps \<Rightarrow> QuorumCertificate \<Rightarrow> bytes option \<Rightarrow> ConsensusState \<Rightarrow>
     vp_error + (ConsensusState \<times> effect list \<times> (ValidatorId \<times> Vote) option)" where
  "on_prepare deps qc vote_extension s =
     (if cs_step s \<noteq> Voted then Inr (s, [], None)
      else
        let s1 = update_highest_qc qc (update_locked_qc qc s);
            (s2, may_sign) =
              (if power_of (cs_validator_set s1) (cs_validator_id s1) > 0
               then check_and_record_vote Vote2 (cs_current_view s1) (qc_block_hash qc) s1
               else (s1, False))
        in if may_sign
           then rbind (ok_or (next_leader (cs_validator_set s2) (cs_current_view s2)) NoLeader) (\<lambda>next_leader_id.
                  let vote = make_vote deps s2 (qc_block_hash qc) Vote2 vote_extension
                  in Inr (s2\<lparr>cs_step := SentVote2\<rparr>,
                          [SaveLastVote Vote2 (cs_current_view s2) (qc_block_hash qc), SignVote vote],
                          Some (next_leader_id, vote)))
           else Inr (s2\<lparr>cs_step := SentVote2\<rparr>, [], None))"

section \<open>The lock stays below the highest certificate\<close>

text \<open>
  The invariant a leader relies on when it proposes on its highest certificate without consulting
  its own lock.
\<close>

definition lock_le_highest :: "ConsensusState \<Rightarrow> bool" where
  "lock_le_highest s \<longleftrightarrow> view_le (cs_locked_qc s) (cs_highest_qc s)"

lemma update_highest_qc_keeps [simp]:
  "cs_locked_qc (update_highest_qc qc s) = cs_locked_qc s"
  "cs_validator_set (update_highest_qc qc s) = cs_validator_set s"
  "cs_validator_id (update_highest_qc qc s) = cs_validator_id s"
  "cs_current_view (update_highest_qc qc s) = cs_current_view s"
  "cs_current_epoch (update_highest_qc qc s) = cs_current_epoch s"
  "cs_chain_id_hash (update_highest_qc qc s) = cs_chain_id_hash s"
  "cs_last_vote1 (update_highest_qc qc s) = cs_last_vote1 s"
  "cs_last_vote2 (update_highest_qc qc s) = cs_last_vote2 s"
  "cs_step (update_highest_qc qc s) = cs_step s"
  by (simp_all add: update_highest_qc_def)

lemma update_locked_qc_keeps [simp]:
  "cs_highest_qc (update_locked_qc qc s) = cs_highest_qc s"
  "cs_validator_set (update_locked_qc qc s) = cs_validator_set s"
  "cs_validator_id (update_locked_qc qc s) = cs_validator_id s"
  "cs_current_view (update_locked_qc qc s) = cs_current_view s"
  "cs_current_epoch (update_locked_qc qc s) = cs_current_epoch s"
  "cs_chain_id_hash (update_locked_qc qc s) = cs_chain_id_hash s"
  "cs_last_vote1 (update_locked_qc qc s) = cs_last_vote1 s"
  "cs_last_vote2 (update_locked_qc qc s) = cs_last_vote2 s"
  "cs_step (update_locked_qc qc s) = cs_step s"
  by (simp_all add: update_locked_qc_def)

lemma set_vote_slot_keeps [simp]:
  "cs_locked_qc (set_vote_slot t x s) = cs_locked_qc s"
  "cs_highest_qc (set_vote_slot t x s) = cs_highest_qc s"
  "cs_validator_set (set_vote_slot t x s) = cs_validator_set s"
  "cs_validator_id (set_vote_slot t x s) = cs_validator_id s"
  "cs_current_view (set_vote_slot t x s) = cs_current_view s"
  "cs_current_epoch (set_vote_slot t x s) = cs_current_epoch s"
  "cs_chain_id_hash (set_vote_slot t x s) = cs_chain_id_hash s"
  "cs_step (set_vote_slot t x s) = cs_step s"
  by (cases t; simp add: set_vote_slot_def)+

text \<open>What neither a commit nor a highest certificate changes.\<close>

definition same_voter :: "ConsensusState \<Rightarrow> ConsensusState \<Rightarrow> bool" where
  "same_voter s s' \<longleftrightarrow>
     cs_validator_set s' = cs_validator_set s \<and> cs_validator_id s' = cs_validator_id s \<and>
     cs_chain_id_hash s' = cs_chain_id_hash s \<and> cs_current_view s' = cs_current_view s \<and>
     cs_current_epoch s' = cs_current_epoch s \<and> cs_locked_qc s' = cs_locked_qc s \<and>
     cs_last_vote1 s' = cs_last_vote1 s \<and> cs_last_vote2 s' = cs_last_vote2 s \<and>
     view_le (cs_highest_qc s) (cs_highest_qc s')"

lemma fast_forward_same_voter:
  "fast_forward deps dc epochs store s a = (s', a', r) \<Longrightarrow>
     same_voter s s' \<and> cs_highest_qc s' = cs_highest_qc s \<and> cs_step s' = cs_step s"
  by (auto simp: fast_forward_def same_voter_def split: option.splits prod.splits sum.splits if_splits)

lemma update_highest_qc_same_voter: "same_voter s (update_highest_qc qc s)"
  using update_highest_qc_mono(1) [of s qc] by (simp add: same_voter_def)

section \<open>The vote rules\<close>

text \<open>The checks of \<open>check_proposal\<close> as one condition.\<close>

definition proposal_valid ::
    "'a ViewDeps \<Rightarrow> u64 \<Rightarrow> Block \<Rightarrow> QuorumCertificate \<Rightarrow> EpochContext \<Rightarrow> ConsensusState \<Rightarrow>
     VsdbBlockStore \<Rightarrow> 'a \<Rightarrow> bool" where
  "proposal_valid deps now_ms block justify epochs s store a \<longleftrightarrow>
     justify_dominates justify s \<and>
     map_option vi_id (leader_for_view (cs_validator_set s) (b_view block)) = Some (b_proposer block) \<and>
     b_hash block = compute_hash (vd_blake3 deps) block \<and>
     b_parent_hash block = qc_block_hash justify \<and>
     (\<exists>parent. get_block store (qc_block_hash justify) = Some parent \<and>
        next_height (b_height parent) = Some (b_height block) \<and>
        b_timestamp parent \<le> b_timestamp block) \<and>
     b_timestamp block \<noteq> 0 \<and> b_timestamp block \<le> now_ms + MAX_FUTURE_DRIFT_MS \<and>
     validate_block_evidence (vd_verify deps) (vd_blake3 deps) (cs_chain_id_hash s) block
       (cs_current_epoch s) (ec_previous_epoch epochs) = Inr () \<and>
     app_validate_block (vd_app deps) block
       ((block_context block (cs_current_epoch s))\<lparr>ctx_validator_set := cs_validator_set s\<rparr>) a"

lemma next_height_pos: "next_height h = Some h' \<Longrightarrow> h' > 0"
  by (auto simp: next_height_def checked_add_def word_less_nat_alt unat_word_ariths split: if_splits)

lemma check_timestamp_Inr:
  "b_height block > 0 \<Longrightarrow> check_timestamp now_ms block parent = Inr u \<longleftrightarrow>
     b_timestamp block \<noteq> 0 \<and> b_timestamp parent \<le> b_timestamp block \<and>
     b_timestamp block \<le> now_ms + MAX_FUTURE_DRIFT_MS"
  by (auto simp: check_timestamp_def not_less)

lemma check_proposal_Inr:
  "check_proposal deps now_ms block justify epochs s store a = Inr u \<longleftrightarrow>
     proposal_valid deps now_ms block justify epochs s store a"
  unfolding check_proposal_def proposal_valid_def
  by (auto simp: result_simps check_timestamp_Inr next_height_pos block_context_def map_option_case
      split: option.splits sum.splits if_splits)

lemma leader_for_view_exists:
  "leader_for_view vs v = Some l \<Longrightarrow> \<exists>l'. leader_for_view vs v' = Some l'"
  by (auto simp: leader_for_view_def split: if_splits option.splits)

lemma cast_vote1_spec:
  assumes "leader_for_view (cs_validator_set s) (cs_current_view s) = Some leader"
  shows "cast_vote1 deps block s =
    (if power_of (cs_validator_set s) (cs_validator_id s) > 0 \<and>
        slot_admits (cs_last_vote1 s) (cs_current_view s) (b_hash block)
     then Inr (set_vote_slot Vote (Some (cs_current_view s, b_hash block)) s,
               [SaveLastVote Vote (cs_current_view s) (b_hash block),
                SignVote (make_vote deps s (b_hash block) Vote None),
                SendTo (vi_id leader) (VoteMsg (make_vote deps s (b_hash block) Vote None))])
     else Inr (s, []))"
  using assms by (simp add: cast_vote1_def check_and_record_vote_spec vote_slot_def make_vote_def Let_def)

text \<open>The first vote of \<open>on_proposal\<close>, given its outcome: who may cast it, and when.\<close>

definition votes_for :: "'a ViewDeps \<Rightarrow> u64 \<Rightarrow> ProposalData \<Rightarrow> EpochContext \<Rightarrow> ConsensusState \<Rightarrow>
     VsdbBlockStore \<Rightarrow> 'a \<Rightarrow> ConsensusState \<Rightarrow> vp_error + ProposalResult \<Rightarrow> bool" where
  "votes_for deps now_ms p epochs s store a s' r \<longleftrightarrow>
     cs_step s = WaitingForProposal \<and>
     proposal_valid deps now_ms (pd_block p) (pd_justify p) epochs s store a \<and> isl r = False \<and>
     \<not> (app_tracks_app_hash (vd_app deps) \<and> b_app_hash (pd_block p) \<noteq> cs_last_app_hash s') \<and>
     power_of (cs_validator_set s) (cs_validator_id s) > 0 \<and>
     slot_admits (cs_last_vote1 s) (cs_current_view s) (b_hash (pd_block p))"

lemma on_proposal_votes:
  assumes "on_proposal deps now_ms p epochs s store a = (s', store', a', out, r)"
  shows "out = (if votes_for deps now_ms p epochs s store a s' r
                then [SaveLastVote Vote (cs_current_view s) (b_hash (pd_block p)),
                      SignVote (make_vote deps s (b_hash (pd_block p)) Vote None),
                      SendTo (vi_id (the (leader_for_view (cs_validator_set s) (cs_current_view s))))
                        (VoteMsg (make_vote deps s (b_hash (pd_block p)) Vote None))]
                else []) \<and>
         cs_last_vote1 s' = (if votes_for deps now_ms p epochs s store a s' r
                             then Some (cs_current_view s, b_hash (pd_block p)) else cs_last_vote1 s)"
proof (cases "cs_step s = WaitingForProposal \<and>
    proposal_valid deps now_ms (pd_block p) (pd_justify p) epochs s store a")
  case False
  with assms show ?thesis
    using check_proposal_Inr [of deps now_ms "pd_block p" "pd_justify p" epochs s store a]
    by (auto simp: on_proposal_def Let_def votes_for_def split: sum.splits if_splits)
next
  case valid: True
  let ?b = "pd_block p" and ?store = "put_block (pd_block p) store"
    and ?s1 = "update_highest_qc (pd_justify p) s"
  obtain s2 a2 ff where ff: "fast_forward deps (pd_double_cert p) epochs ?store ?s1 a = (s2, a2, ff)"
    using prod_cases3 by blast
  have same: "same_voter s s2"
    using fast_forward_same_voter [OF ff] update_highest_qc_same_voter [of s "pd_justify p"]
    by (auto simp: same_voter_def)
  from valid obtain leader where "leader_for_view (cs_validator_set s) (cs_current_view s) = Some leader"
    using leader_for_view_exists [of "cs_validator_set s" "b_view (pd_block p)" _ "cs_current_view s"]
    by (auto simp: proposal_valid_def)
  with same have leader: "leader_for_view (cs_validator_set s2) (cs_current_view s2) = Some leader"
    by (simp add: same_voter_def)
  have check: "check_proposal deps now_ms ?b (pd_justify p) epochs s store a = Inr ()"
    using valid by (simp add: check_proposal_Inr)
  have vote: "make_vote deps s2 (b_hash ?b) Vote None = make_vote deps s (b_hash ?b) Vote None"
    using same by (simp add: same_voter_def make_vote_def)
  note eq = assms [unfolded on_proposal_def Let_def, simplified valid check ff, simplified]
  show ?thesis
  proof (cases ff)
    case (Inl e)
    with eq same show ?thesis by (auto simp: votes_for_def same_voter_def)
  next
    case (Inr cr)
    show ?thesis
    proof (cases "app_tracks_app_hash (vd_app deps) \<and> b_app_hash ?b \<noteq> cs_last_app_hash s2")
      case True
      with eq Inr same show ?thesis by (auto simp: votes_for_def same_voter_def)
    next
      case tracks: False
      have hash: "cs_last_app_hash (set_vote_slot t x s2) = cs_last_app_hash s2" for t x
        by (cases t) (simp_all add: set_vote_slot_def)
      let ?may = "power_of (cs_validator_set s) (cs_validator_id s) > 0 \<and>
        slot_admits (cs_last_vote1 s) (cs_current_view s) (b_hash ?b)"
      have cast: "cast_vote1 deps ?b s2 =
          (if ?may then Inr (set_vote_slot Vote (Some (cs_current_view s, b_hash ?b)) s2,
              [SaveLastVote Vote (cs_current_view s) (b_hash ?b), SignVote (make_vote deps s (b_hash ?b) Vote None),
               SendTo (vi_id leader) (VoteMsg (make_vote deps s (b_hash ?b) Vote None))])
           else Inr (s2, []))"
        using cast_vote1_spec [OF leader, of deps ?b] same vote by (simp add: same_voter_def)
      have the_leader: "the (leader_for_view (cs_validator_set s) (cs_current_view s)) = leader"
        using leader same by (simp add: same_voter_def)
      show ?thesis
      proof (cases ?may)
        case True
        with eq Inr tracks cast have *: "s' = set_vote_slot Vote (Some (cs_current_view s, b_hash ?b)) s2\<lparr>cs_step := Voted\<rparr>"
          "out = [SaveLastVote Vote (cs_current_view s) (b_hash ?b), SignVote (make_vote deps s (b_hash ?b) Vote None),
               SendTo (vi_id leader) (VoteMsg (make_vote deps s (b_hash ?b) Vote None))]" "\<not> isl r"
          by (auto simp: set_vote_slot_def)
        with True valid tracks hash have "votes_for deps now_ms p epochs s store a s' r"
          by (auto simp: votes_for_def set_vote_slot_def)
        with * the_leader show ?thesis by (simp add: set_vote_slot_def)
      next
        case False
        with eq Inr tracks cast have "cs_last_vote1 s' = cs_last_vote1 s2" "out = []" by auto
        moreover from False have "\<not> votes_for deps now_ms p epochs s store a s' r"
          by (auto simp: votes_for_def)
        ultimately show ?thesis using same by (simp add: same_voter_def)
      qed
    qed
  qed
qed

lemma on_proposal_keeps:
  assumes "on_proposal deps now_ms p epochs s store a = (s', store', a', out, r)"
  shows "cs_locked_qc s' = cs_locked_qc s \<and> cs_last_vote2 s' = cs_last_vote2 s \<and>
         cs_current_view s' = cs_current_view s \<and> view_le (cs_highest_qc s) (cs_highest_qc s')"
proof -
  let ?store = "put_block (pd_block p) store" and ?s1 = "update_highest_qc (pd_justify p) s"
  obtain s2 a2 ff where ff: "fast_forward deps (pd_double_cert p) epochs ?store ?s1 a = (s2, a2, ff)"
    using prod_cases3 by blast
  have same: "same_voter s s2"
    using fast_forward_same_voter [OF ff] update_highest_qc_same_voter [of s "pd_justify p"]
    by (auto simp: same_voter_def)
  have cast: "same_voter s (s3\<lparr>cs_last_vote1 := cs_last_vote1 s\<rparr>)"
    if "cast_vote1 deps (pd_block p) s2 = Inr (s3, out')" for s3 out'
    using that same
    by (auto simp: cast_vote1_def check_and_record_vote_spec same_voter_def set_vote_slot_def result_simps
        Let_def split: if_splits)
  show ?thesis
    using assms same cast
    by (auto simp: on_proposal_def Let_def ff same_voter_def split: sum.splits if_splits)
qed

text \<open>
  C29. The first-phase vote rule. Whatever a replica does with a proposal, it sends a vote exactly if
  it was waiting for one, every check holds (the justifying certificate dominates its lock and
  certifies the parent, the proposer leads the view, hash, height, timestamp and evidence are
  right, the application accepts), the carried commit succeeded and leaves the application hash the
  block names, it has power, and its vote record admits the block in this view. The vote goes to the
  leader of its view, the record is saved before the vote is signed and sent,
  and the lock does not move.
\<close>

theorem on_proposal_vote_rule:
  assumes "on_proposal deps now_ms p epochs s store a = (s', store', a', out, r)"
  shows "out = (if votes_for deps now_ms p epochs s store a s' r
                then [SaveLastVote Vote (cs_current_view s) (b_hash (pd_block p)),
                      SignVote (make_vote deps s (b_hash (pd_block p)) Vote None),
                      SendTo (vi_id (the (leader_for_view (cs_validator_set s) (cs_current_view s))))
                        (VoteMsg (make_vote deps s (b_hash (pd_block p)) Vote None))]
                else []) \<and>
         cs_last_vote1 s' = (if votes_for deps now_ms p epochs s store a s' r
                             then Some (cs_current_view s, b_hash (pd_block p)) else cs_last_vote1 s) \<and>
         cs_locked_qc s' = cs_locked_qc s \<and> cs_last_vote2 s' = cs_last_vote2 s \<and>
         cs_current_view s' = cs_current_view s"
  using on_proposal_votes [OF assms] on_proposal_keeps [OF assms] by blast

definition sample_deps :: "nat ViewDeps" where
  "sample_deps = \<lparr> vd_app = sample_app, vd_sign = (\<lambda>m. [1]), vd_verify = (\<lambda>pk m sg. True),
     vd_blake3 = (\<lambda>m. hash_rep 7) \<rparr>"

definition sample_state :: "ValidatorId \<Rightarrow> ConsensusState" where
  "sample_state i = (with_chain_id (\<lambda>m. hash_rep 9) i sample_set [])
     \<lparr>cs_current_view := 1, cs_step := WaitingForProposal\<rparr>"

definition sample_proposal :: ProposalData where
  "sample_proposal =
     \<lparr> pd_block = genesis_block\<lparr>b_height := 1, b_view := 1, b_proposer := 2, b_timestamp := 5,
                    b_hash := hash_rep 7\<rparr>,
       pd_justify = sample_commit 0, pd_double_cert = None \<rparr>"

definition no_epochs :: EpochContext where
  "no_epochs = \<lparr> ec_previous_epoch = None, ec_in_flight_pending = None \<rparr>"

lemmas sample_defs = sample_deps_def sample_state_def sample_proposal_def no_epochs_def sample_app_def
  with_chain_id_def sample_commit_def genesis_block_def sample_set_def sample_infos_def epoch_genesis_def
  epoch_new_def

lemma on_proposal_vote_rule_witness:
  "\<exists>s' store' r. on_proposal sample_deps 0 sample_proposal no_epochs (sample_state 1) vb_new 0 =
     (s', store', 0, [SaveLastVote Vote 1 (hash_rep 7),
        SignVote (make_vote sample_deps (sample_state 1) (hash_rep 7) Vote None),
        SendTo 2 (VoteMsg (make_vote sample_deps (sample_state 1) (hash_rep 7) Vote None))], r) \<and>
     cs_last_vote1 s' = Some (1, hash_rep 7)"
proof -
  obtain s' store' a' out r where on: "on_proposal sample_deps 0 sample_proposal no_epochs (sample_state 1) vb_new 0 =
      (s', store', a', out, r)" by (metis prod_cases5)
  have leader: "leader_for_view (cs_validator_set (sample_state 1)) 1 = Some (sample_infos ! 1)"
    by (simp add: sample_defs leader_for_view_def)
  have valid: "proposal_valid sample_deps 0 (pd_block sample_proposal) (pd_justify sample_proposal) no_epochs
      (sample_state 1) vb_new (0 :: nat)"
    by (simp add: proposal_valid_def sample_defs leader_for_view_def justify_dominates_def vb_new_def put_block_def
        get_block_def GENESIS_HASH_def next_height_def checked_add_def MAX_FUTURE_DRIFT_MS_def compute_hash_def
        validate_block_evidence_def)
  then have check: "check_proposal sample_deps 0 (pd_block sample_proposal) (pd_justify sample_proposal) no_epochs
      (sample_state 1) vb_new (0 :: nat) = Inr ()"
    by (simp add: check_proposal_Inr)
  have sample: "cs_step (sample_state 1) = WaitingForProposal" "pd_double_cert sample_proposal = None"
      "\<not> app_tracks_app_hash (vd_app sample_deps)" "cs_current_view (sample_state 1) = 1"
      "b_hash (pd_block sample_proposal) = hash_rep 7" "vi_id (sample_infos ! 1) = 2"
      "power_of (cs_validator_set (sample_state 1)) (cs_validator_id (sample_state 1)) > 0"
      "cs_last_vote1 (sample_state 1) = None"
    by (simp_all add: sample_defs power_of_def get_validator_def rebuild_index_def)
  then have "\<not> isl r" "a' = 0"
    using on leader cast_vote1_spec [of "update_highest_qc (pd_justify sample_proposal) (sample_state 1)"
        "sample_infos ! 1" sample_deps "pd_block sample_proposal"]
    by (simp_all add: on_proposal_def Let_def check fast_forward_def slot_admits_def, auto)
  with valid sample have "votes_for sample_deps 0 sample_proposal no_epochs (sample_state 1) vb_new (0 :: nat) s' r"
    by (simp add: votes_for_def slot_admits_def)
  with on_proposal_vote_rule [OF on] on \<open>a' = 0\<close> leader sample show ?thesis by simp
qed

section \<open>The second vote\<close>

lemma on_prepare_spec:
  "on_prepare deps qc ext s =
    (if cs_step s \<noteq> Voted then Inr (s, [], None)
     else
       let s1 = update_highest_qc qc (update_locked_qc qc s)
       in if power_of (cs_validator_set s) (cs_validator_id s) > 0 \<and>
             slot_admits (cs_last_vote2 s) (cs_current_view s) (qc_block_hash qc)
          then rbind (ok_or (next_leader (cs_validator_set s) (cs_current_view s)) NoLeader) (\<lambda>l.
            Inr ((set_vote_slot Vote2 (Some (cs_current_view s, qc_block_hash qc)) s1)\<lparr>cs_step := SentVote2\<rparr>,
                 [SaveLastVote Vote2 (cs_current_view s) (qc_block_hash qc),
                  SignVote (make_vote deps s (qc_block_hash qc) Vote2 ext)],
                 Some (l, make_vote deps s (qc_block_hash qc) Vote2 ext)))
          else Inr (s1\<lparr>cs_step := SentVote2\<rparr>, [], None))"
  by (simp add: on_prepare_def check_and_record_vote_spec vote_slot_def make_vote_def Let_def)

text \<open>
  C30. The second-phase vote rule and the lock. A replica answers a prepare certificate with a second
  vote exactly if it is past its first vote in this view, has power and its record admits the block;
  the record is saved first. Whenever it leaves the step of the first vote, its lock is the newer of
  the old lock and the certificate, so a second vote is never cast without a lock at least as high;
  its highest certificate is then no lower than its lock if it was so before.
\<close>

theorem on_prepare_vote_rule:
  assumes "on_prepare deps qc ext s = Inr (s', out, vote2)"
  defines "votes2 \<equiv> cs_step s = Voted \<and> power_of (cs_validator_set s) (cs_validator_id s) > 0 \<and>
                    slot_admits (cs_last_vote2 s) (cs_current_view s) (qc_block_hash qc)"
  shows "out = (if votes2 then [SaveLastVote Vote2 (cs_current_view s) (qc_block_hash qc),
                               SignVote (make_vote deps s (qc_block_hash qc) Vote2 ext)] else []) \<and>
         vote2 = (if votes2 then map_option (\<lambda>l. (l, make_vote deps s (qc_block_hash qc) Vote2 ext))
                                  (next_leader (cs_validator_set s) (cs_current_view s)) else None) \<and>
         cs_last_vote2 s' = (if votes2 then Some (cs_current_view s, qc_block_hash qc) else cs_last_vote2 s) \<and>
         cs_locked_qc s' = (if cs_step s = Voted \<and> \<not> view_le (Some qc) (cs_locked_qc s)
                            then Some qc else cs_locked_qc s) \<and>
         cs_last_vote1 s' = cs_last_vote1 s \<and> cs_current_view s' = cs_current_view s \<and>
         (lock_le_highest s \<longrightarrow> lock_le_highest s')"
proof -
  have le: "lock_le_highest s \<Longrightarrow> view_le (cs_locked_qc (update_locked_qc qc s)) (cs_highest_qc (update_highest_qc qc (update_locked_qc qc s)))"
    by (auto simp: lock_le_highest_def update_locked_qc_def update_highest_qc_def view_le_def
        split: option.splits if_splits)
  show ?thesis
    using assms(1) le unfolding on_prepare_spec votes2_def Let_def
    by (auto simp: result_simps update_locked_qc_slot lock_le_highest_def set_vote_slot_def split: if_splits)
qed

lemma on_prepare_vote_rule_witness:
  "\<exists>s'. on_prepare sample_deps (sample_commit 7) None ((sample_state 1)\<lparr>cs_step := Voted\<rparr>) =
     Inr (s', [SaveLastVote Vote2 1 (hash_rep 7),
               SignVote (make_vote sample_deps (sample_state 1) (hash_rep 7) Vote2 None)],
          Some (3, make_vote sample_deps (sample_state 1) (hash_rep 7) Vote2 None)) \<and>
     cs_locked_qc s' = Some (sample_commit 7)"
proof -
  let ?s = "(sample_state 1)\<lparr>cs_step := Voted\<rparr>"
  have sample: "cs_last_vote2 ?s = None" "cs_current_view ?s = 1" "cs_locked_qc ?s = None"
      "power_of (cs_validator_set ?s) (cs_validator_id ?s) > 0" "qc_block_hash (sample_commit 7) = hash_rep 7"
      "next_leader (cs_validator_set ?s) 1 = Some 3"
    by (simp_all add: sample_defs power_of_def get_validator_def rebuild_index_def next_leader_def next_view_def
        checked_add_def leader_for_view_def)
  have vote: "make_vote sample_deps ?s h t e = make_vote sample_deps (sample_state 1) h t e" for h t e
    by (simp add: make_vote_def)
  obtain s' out v2 where on: "on_prepare sample_deps (sample_commit 7) None ?s = Inr (s', out, v2)"
    using sample by (simp add: on_prepare_spec slot_admits_def Let_def)
  show ?thesis
    using on_prepare_vote_rule [OF on] on sample vote by (simp add: slot_admits_def view_le_def)
qed

section \<open>Proposals\<close>

lemma compute_hash_ignores_hash [simp]: "compute_hash blake3 (b\<lparr>b_hash := h\<rparr>) = compute_hash blake3 b"
  by (simp add: compute_hash_def block_preimage_def)

lemma validate_evidence_list_filter:
  "validate_evidence_list verify blake3 chain
     (filter (\<lambda>p. validate_evidence verify blake3 chain p view epoch prev = Inr ()) ps) view epoch prev = Inr ()"
  by (induction ps) auto

text \<open>
  A store whose hash chains are well-founded, as hashes that are computed from their parents' are:
  \<open>rank\<close> is the order in which the hashes came into being. Heights would not do, since ancestors that
  come with a proposal are stored without a check of their height. And the chain of blocks below a
  hash.
\<close>

definition hash_ranked :: "(BlockHash \<Rightarrow> nat) \<Rightarrow> VsdbBlockStore \<Rightarrow> bool" where
  "hash_ranked rank store \<longleftrightarrow>
     (\<forall>h b. h \<noteq> GENESIS_HASH \<longrightarrow> get_block store h = Some b \<longrightarrow> rank (b_parent_hash b) < rank h)"

fun descends :: "VsdbBlockStore \<Rightarrow> BlockHash \<Rightarrow> Block list \<Rightarrow> bool" where
  "descends store h [] \<longleftrightarrow> True"
| "descends store h (b # bs) \<longleftrightarrow> get_block store h = Some b \<and> descends store (b_parent_hash b) bs"

lemma ancestor_walk_step:
  "h \<noteq> GENESIS_HASH \<Longrightarrow> get_block store h = Some b \<Longrightarrow> \<not> b_height b < lim \<Longrightarrow>
     ancestor_walk store lim h acc = ancestor_walk store lim (b_parent_hash b) (acc @ [b])"
  by (subst ancestor_walk.simps) simp

lemma ancestor_walk_stop:
  "h = GENESIS_HASH \<or> get_block store h = None \<or> (\<exists>b. get_block store h = Some b \<and> b_height b < lim) \<Longrightarrow>
     ancestor_walk store lim h acc = Some acc"
  by (subst ancestor_walk.simps) (auto split: option.splits)

lemma ancestor_walk_total:
  assumes "hash_ranked rank store"
  shows "\<exists>bs. ancestor_walk store lim h acc = Some (acc @ bs) \<and> descends store h bs \<and>
             (\<forall>b \<in> set bs. lim \<le> b_height b)"
proof (induction "rank h" arbitrary: h acc rule: less_induct)
  case less
  show ?case
  proof (cases "h = GENESIS_HASH \<or> get_block store h = None \<or> (\<exists>b. get_block store h = Some b \<and> b_height b < lim)")
    case True
    then show ?thesis using ancestor_walk_stop [OF True, of acc] by (intro exI [of _ "[]"]) simp
  next
    case False
    then obtain b where b: "get_block store h = Some b" "\<not> b_height b < lim" "h \<noteq> GENESIS_HASH" by auto
    with assms have "rank (b_parent_hash b) < rank h" by (simp add: hash_ranked_def)
    from less [OF this, of "acc @ [b]"] obtain bs where
      "ancestor_walk store lim (b_parent_hash b) (acc @ [b]) = Some (acc @ b # bs)"
      "descends store (b_parent_hash b) bs" "\<forall>b \<in> set bs. lim \<le> b_height b" by auto
    with b show ?thesis by (intro exI [of _ "b # bs"]) (simp add: ancestor_walk_step not_less)
  qed
qed

text \<open>
  A block that is already stored, or whose hash is new to the store, as a key and as a parent. Storing
  such a block on a stored parent keeps the chains well-founded, so the leader's walk returns.
\<close>

definition hash_fresh :: "VsdbBlockStore \<Rightarrow> Block \<Rightarrow> bool" where
  "hash_fresh store b \<longleftrightarrow> get_block store (b_hash b) = Some b \<or>
     get_block store (b_hash b) = None \<and> (\<forall>h c. get_block store h = Some c \<longrightarrow> b_parent_hash c \<noteq> b_hash b)"

lemma get_put_block: "get_block (put_block b store) = (get_block store)(b_hash b \<mapsto> b)"
  by (auto simp: get_block_def put_block_def Let_def fun_eq_iff split: option.splits)

lemma hash_ranked_put:
  assumes "hash_ranked rank store" "hash_fresh store b" "get_block store (b_parent_hash b) = Some p"
  shows "\<exists>rank'. hash_ranked rank' (put_block b store)"
proof (cases "get_block store (b_hash b)")
  case None
  with assms(2) have n: "get_block store h = Some c \<Longrightarrow> b_parent_hash c \<noteq> b_hash b" for h c
    by (auto simp: hash_fresh_def)
  from None assms(3) have "b_parent_hash b \<noteq> b_hash b" by auto
  with assms(1) n have "hash_ranked (rank(b_hash b := Suc (rank (b_parent_hash b)))) (put_block b store)"
    by (auto simp: hash_ranked_def get_put_block)
  then show ?thesis by blast
next
  case (Some c)
  with assms(2) have "get_block (put_block b store) = get_block store"
    by (auto simp: hash_fresh_def get_put_block)
  with assms(1) show ?thesis by (auto simp: hash_ranked_def)
qed

text \<open>The block \<open>propose\<close> builds, if it comes to building one.\<close>

definition next_proposal ::
    "'a ViewDeps \<Rightarrow> u64 \<Rightarrow> EquivocationProof list \<Rightarrow> EpochContext \<Rightarrow> ConsensusState \<Rightarrow>
     VsdbBlockStore \<Rightarrow> 'a \<Rightarrow> Block option" where
  "next_proposal deps now_ms evidence epochs s store a =
     Option.bind (cs_highest_qc s) (\<lambda>justify.
     Option.bind (get_block store (qc_block_hash justify)) (\<lambda>parent.
     Option.bind (next_height (b_height parent)) (\<lambda>height.
       Some (fst (build_block deps now_ms evidence epochs s (qc_block_hash justify) parent height a)))))"

lemma build_block_parent [simp]:
  "b_parent_hash (fst (build_block deps now_ms evidence epochs s h p k a)) = h"
  by (simp add: build_block_def Let_def case_prod_unfold)

lemma propose_returns:
  assumes "propose deps now_ms evidence epochs s store a = (s', store', a', out, r)"
    and "hash_ranked rank store"
    and "\<And>b. next_proposal deps now_ms evidence epochs s store a = Some b \<Longrightarrow> hash_fresh store b"
  shows "r \<noteq> Inl AncestorLoop"
proof
  assume "r = Inl AncestorLoop"
  with assms(1) obtain b p where
    "next_proposal deps now_ms evidence epochs s store a = Some b"
    "get_block store (b_parent_hash b) = Some p"
    "ancestor_walk (put_block b store) (saturating_sub (cs_last_committed_height s) 1) (b_parent_hash b) [] = None"
    by (auto simp: propose_def next_proposal_def Let_def case_prod_unfold split: option.splits)
  with hash_ranked_put [OF assms(2)] assms(3) ancestor_walk_total show False
    by (metis option.distinct(1))
qed

lemma propose_block:
  assumes "propose deps now_ms evidence epochs s store a = (s', store', a', out, Inr block)"
  obtains justify parent signature ancestors where
    "cs_highest_qc s = Some justify" "get_block store (qc_block_hash justify) = Some parent"
    "next_height (b_height parent) = Some (b_height block)"
    "b_parent_hash block = qc_block_hash justify" "b_view block = cs_current_view s"
    "b_proposer block = cs_validator_id s" "b_app_hash block = cs_last_app_hash s"
    "b_timestamp block = max now_ms (saturating_add (b_timestamp parent) 1)"
    "b_hash block = compute_hash (vd_blake3 deps) block"
    "b_evidence block = filter (\<lambda>p. validate_evidence (vd_verify deps) (vd_blake3 deps) (cs_chain_id_hash s) p
        (cs_current_view s) (cs_current_epoch s) (ec_previous_epoch epochs) = Inr ()) evidence"
    "store' = put_block block store"
    "signature = vd_sign deps (proposal_signing_bytes (cs_chain_id_hash s) (ep_number (cs_current_epoch s)) block justify)"
    "out = [Broadcast (Propose block justify (cs_highest_double_cert s) signature ancestors)]"
    "ancestor_walk store' (saturating_sub (cs_last_committed_height s) 1) (qc_block_hash justify) [] = Some ancestors"
    "s' = s\<lparr>cs_pending_vote_extensions := [], cs_step := CollectingVotes\<rparr>"
  using assms
  by (auto simp: propose_def build_block_def Let_def case_prod_unfold compute_hash_def block_preimage_def
      split: option.splits prod.splits)

lemma next_timestamp:
  assumes "t = max now (saturating_add t' 1)"
  shows "t' \<le> t" "t \<noteq> (0 :: u64)"
proof -
  have "unat (saturating_add t' 1) = min (unat t' + 1) (2 ^ 64 - 1)"
    using unat_saturating_add [of t' 1] by simp
  moreover have "unat t' \<le> 18446744073709551615" using unat_u64_less [of t'] by linarith
  ultimately have "t' \<le> saturating_add t' 1" "1 \<le> saturating_add t' 1"
    by (simp_all add: word_le_nat_alt min_def)
  then show "t' \<le> t" "t \<noteq> 0" by (auto simp: assms le_max_iff_disj max_def split: if_splits)
qed

text \<open>A proposal that passes the checks gets the vote of a replica whose guards allow one.\<close>

lemma on_proposal_casts:
  assumes "check_proposal deps now_ms (pd_block p) (pd_justify p) epochs s store a = Inr ()"
    and "cs_step s = WaitingForProposal"
    and ff: "fast_forward deps (pd_double_cert p) epochs (put_block (pd_block p) store)
          (update_highest_qc (pd_justify p) s) a = (s2, a2, Inr cr)"
    and "app_tracks_app_hash (vd_app deps) \<Longrightarrow> b_app_hash (pd_block p) = cs_last_app_hash s2"
    and "power_of (cs_validator_set s) (cs_validator_id s) > 0"
        "slot_admits (cs_last_vote1 s) (cs_current_view s) (b_hash (pd_block p))"
    and "leader_for_view (cs_validator_set s) (cs_current_view s) = Some leader"
  shows "\<exists>s'. on_proposal deps now_ms p epochs s store a =
      (s', put_block (pd_block p) store, a2,
       [SaveLastVote Vote (cs_current_view s) (b_hash (pd_block p)),
        SignVote (make_vote deps s (b_hash (pd_block p)) Vote None),
        SendTo (vi_id leader) (VoteMsg (make_vote deps s (b_hash (pd_block p)) Vote None))],
       Inr \<lparr> pr_pending_epoch = Option.bind cr cr_pending_epoch, pr_commit_result = cr \<rparr>) \<and>
     cs_step s' = Voted \<and> cs_last_vote1 s' = Some (cs_current_view s, b_hash (pd_block p))"
proof -
  have same: "same_voter s s2"
    using fast_forward_same_voter [OF ff] update_highest_qc_same_voter [of s "pd_justify p"]
    by (auto simp: same_voter_def)
  have "make_vote deps s2 (b_hash (pd_block p)) Vote None = make_vote deps s (b_hash (pd_block p)) Vote None"
    using same by (simp add: same_voter_def make_vote_def)
  moreover have "leader_for_view (cs_validator_set s2) (cs_current_view s2) = Some leader"
    using same assms(7) by (simp add: same_voter_def)
  ultimately show ?thesis
    using assms same cast_vote1_spec [of s2 leader deps "pd_block p"]
    by (auto simp: on_proposal_def Let_def same_voter_def set_vote_slot_def)
qed

text \<open>
  C31. What a leader proposes, replicas vote for. Take a block that \<open>propose\<close> returns to the leader of
  the view and a replica in the same view, epoch and validator set, with the same evidence rules, that
  waits for a proposal, has power and has not voted for another block in this view, holds the parent,
  is not locked above the leader's certificate, has a clock at most 15 seconds behind the block and an
  application that accepts the block. The leader broadcasts the block with its highest certificate and
  its double certificate, and the block passes the checks before storing. If the fast-forward commit of
  that double certificate succeeds at the replica and, where its application tracks the application
  hash, leaves the leader's application hash, the replica stores the block, saves its vote record and
  sends its vote for the block to the leader. The evidence filter of the leader is exactly what replicas
  check.
\<close>

theorem proposal_accepted:
  assumes "propose deps now_ms evidence epochs s store a = (s', store', a', out, Inr block)"
    and "is_leader (cs_validator_set s) (cs_current_view s) (cs_validator_id s)"
    and "cs_validator_set r = cs_validator_set s" "cs_current_epoch r = cs_current_epoch s"
        "cs_chain_id_hash r = cs_chain_id_hash s" "cs_current_view r = cs_current_view s"
    and "vd_blake3 deps' = vd_blake3 deps" "vd_verify deps' = vd_verify deps"
        "ec_previous_epoch epochs' = ec_previous_epoch epochs"
    and "cs_step r = WaitingForProposal" "power_of (cs_validator_set r) (cs_validator_id r) > 0"
        "slot_admits (cs_last_vote1 r) (cs_current_view r) (b_hash block)"
    and "cs_highest_qc s = Some justify" "justify_dominates justify r"
    and "get_block r_store (qc_block_hash justify) = get_block store (qc_block_hash justify)"
    and "b_timestamp block \<le> r_now + MAX_FUTURE_DRIFT_MS"
    and "\<And>ctx. app_validate_block (vd_app deps') block ctx r_app"
    and "fast_forward deps' (cs_highest_double_cert s) epochs' (put_block block r_store)
           (update_highest_qc justify r) r_app = (r_after, r_app_after, Inr cr)"
    and "app_tracks_app_hash (vd_app deps') \<Longrightarrow> cs_last_app_hash r_after = cs_last_app_hash s"
  defines "vote \<equiv> make_vote deps' r (b_hash block) Vote None"
  shows "check_proposal deps' r_now block justify epochs' r r_store r_app = Inr () \<and>
         (\<exists>signature ancestors.
            out = [Broadcast (Propose block justify (cs_highest_double_cert s) signature ancestors)]) \<and>
         (\<exists>r'. on_proposal deps' r_now
              \<lparr> pd_block = block, pd_justify = justify, pd_double_cert = cs_highest_double_cert s \<rparr>
              epochs' r r_store r_app =
            (r', put_block block r_store, r_app_after,
             [SaveLastVote Vote (cs_current_view r) (b_hash block), SignVote vote,
              SendTo (cs_validator_id s) (VoteMsg vote)],
             Inr \<lparr> pr_pending_epoch = Option.bind cr cr_pending_epoch, pr_commit_result = cr \<rparr>) \<and>
            cs_step r' = Voted \<and> cs_last_vote1 r' = Some (cs_current_view r, b_hash block))"
proof -
  from assms(1) obtain j parent signature ancestors where p:
    "cs_highest_qc s = Some j" "get_block store (qc_block_hash j) = Some parent"
    "next_height (b_height parent) = Some (b_height block)"
    "b_parent_hash block = qc_block_hash j" "b_view block = cs_current_view s"
    "b_proposer block = cs_validator_id s"
    "b_timestamp block = max now_ms (saturating_add (b_timestamp parent) 1)"
    "b_hash block = compute_hash (vd_blake3 deps) block"
    "b_evidence block = filter (\<lambda>p. validate_evidence (vd_verify deps) (vd_blake3 deps) (cs_chain_id_hash s) p
        (cs_current_view s) (cs_current_epoch s) (ec_previous_epoch epochs) = Inr ()) evidence"
    "out = [Broadcast (Propose block j (cs_highest_double_cert s) signature ancestors)]"
    "b_app_hash block = cs_last_app_hash s"
    by (rule propose_block)
  note time = next_timestamp [OF p(7)]
  have "validate_block_evidence (vd_verify deps) (vd_blake3 deps) (cs_chain_id_hash s) block (cs_current_epoch s)
      (ec_previous_epoch epochs) = Inr ()"
    by (simp add: validate_block_evidence_def p(5, 9) validate_evidence_list_filter)
  with p time assms(2-17) have check: "check_proposal deps' r_now block justify epochs' r r_store r_app = Inr ()"
    by (auto simp: check_proposal_Inr proposal_valid_def is_leader_def split: option.splits)
  obtain leader where l: "leader_for_view (cs_validator_set r) (cs_current_view r) = Some leader"
    "vi_id leader = cs_validator_id s"
    using assms(2,3,6) by (auto simp: is_leader_def split: option.splits)
  let ?p = "\<lparr> pd_block = block, pd_justify = justify, pd_double_cert = cs_highest_double_cert s \<rparr>"
  have "\<exists>r'. on_proposal deps' r_now ?p epochs' r r_store r_app =
            (r', put_block block r_store, r_app_after,
             [SaveLastVote Vote (cs_current_view r) (b_hash block), SignVote vote,
              SendTo (cs_validator_id s) (VoteMsg vote)],
             Inr \<lparr> pr_pending_epoch = Option.bind cr cr_pending_epoch, pr_commit_result = cr \<rparr>) \<and>
            cs_step r' = Voted \<and> cs_last_vote1 r' = Some (cs_current_view r, b_hash block)"
    using on_proposal_casts [of deps' r_now ?p epochs' r r_store r_app r_after r_app_after cr leader]
      check assms(10-12,18,19) l p(11) by (simp add: vote_def)
  with check p(1,10) assms(13) show ?thesis by simp
qed

text \<open>A replica and a leader whose application tracks the application hash.\<close>

definition tracking_deps :: "nat ViewDeps" where
  "tracking_deps = sample_deps\<lparr>vd_app := sample_app\<lparr>app_tracks_app_hash := True\<rparr>\<rparr>"

definition tracking_state :: "ValidatorId \<Rightarrow> ConsensusState" where
  "tracking_state i = (sample_state i)\<lparr>cs_highest_qc := Some (sample_commit 0), cs_last_app_hash := hash_rep 4\<rparr>"

definition tracking_block :: Block where
  "tracking_block = (pd_block sample_proposal)\<lparr>b_app_hash := hash_rep 4\<rparr>"

lemma tracking_proposed:
  "propose tracking_deps 5 [] no_epochs (tracking_state 2) vb_new 0 =
     ((tracking_state 2)\<lparr>cs_step := CollectingVotes\<rparr>, put_block tracking_block vb_new, 0,
      [Broadcast (Propose tracking_block (sample_commit 0) None [1] [])], Inr tracking_block)"
proof -
  have stop: "ancestor_walk store lim GENESIS_HASH [] = Some []" for store lim
    by (rule ancestor_walk_stop) simp
  have five: "max 5 (1 :: u64) = 5" by (simp add: max_def word_le_nat_alt)
  show ?thesis
    by (simp add: propose_def build_block_def tracking_deps_def tracking_state_def tracking_block_def sample_defs vb_new_def
        get_block_def Let_def next_height_def checked_add_def
        compute_hash_def five put_block_def stop [unfolded GENESIS_HASH_def] GENESIS_HASH_def saturating_add_def)
qed

lemma proposal_accepted_witness:
  "\<exists>r' result. on_proposal tracking_deps 0
     \<lparr> pd_block = tracking_block, pd_justify = sample_commit 0, pd_double_cert = None \<rparr> no_epochs
     (tracking_state 1) vb_new 0 =
     (r', put_block tracking_block vb_new, 0,
      [SaveLastVote Vote 1 (hash_rep 7), SignVote (make_vote tracking_deps (tracking_state 1) (hash_rep 7) Vote None),
       SendTo 2 (VoteMsg (make_vote tracking_deps (tracking_state 1) (hash_rep 7) Vote None))], Inr result) \<and>
     cs_step r' = Voted"
proof -
  have v: "cs_highest_double_cert (tracking_state 2) = None" "cs_current_view (tracking_state 1) = 1"
    "b_hash tracking_block = hash_rep 7" "cs_validator_id (tracking_state 2) = 2"
    by (simp_all add: tracking_state_def tracking_block_def sample_defs)
  have "\<exists>r'. on_proposal tracking_deps 0
     \<lparr> pd_block = tracking_block, pd_justify = sample_commit 0,
       pd_double_cert = cs_highest_double_cert (tracking_state 2) \<rparr> no_epochs
     (tracking_state 1) vb_new 0 =
     (r', put_block tracking_block vb_new, 0,
      [SaveLastVote Vote (cs_current_view (tracking_state 1)) (b_hash tracking_block),
       SignVote (make_vote tracking_deps (tracking_state 1) (b_hash tracking_block) Vote None),
       SendTo (cs_validator_id (tracking_state 2))
         (VoteMsg (make_vote tracking_deps (tracking_state 1) (b_hash tracking_block) Vote None))],
      Inr \<lparr> pr_pending_epoch = Option.bind (None :: CommitResult option) cr_pending_epoch, pr_commit_result = None \<rparr>) \<and>
     cs_step r' = Voted \<and> cs_last_vote1 r' = Some (cs_current_view (tracking_state 1), b_hash tracking_block)"
    by (rule conjunct2, rule conjunct2, rule proposal_accepted [OF tracking_proposed, where r_after = "tracking_state 1"])
       (simp_all add: tracking_deps_def tracking_state_def tracking_block_def sample_defs is_leader_def
          leader_for_view_def justify_dominates_def MAX_FUTURE_DRIFT_MS_def power_of_def get_validator_def
          rebuild_index_def slot_admits_def fast_forward_def update_highest_qc_def)
  then show ?thesis unfolding v by auto
qed

end
