(* ===== verification/Aggregate.thy ===== *)
theory Aggregate
  imports Validator_Set Signing
begin

text \<open>
  Aggregate signatures and quorums: \<open>AggregateSignature\<close> of \<open>hotmint-types/src/crypto.rs\<close>,
  \<open>hotmint-crypto/src/aggregate.rs\<close>, the Ed25519 verifier of \<open>hotmint-crypto/src/signer.rs\<close> and
  \<open>verify_vote_aggregate\<close> and \<open>canonical_vote_extensions\<close> of the engine. \<open>agg_lookup\<close> is the
  abstract view of an aggregate, a map from signer index to signature.
\<close>

section \<open>Aggregates\<close>

datatype agg_error =
    SignerOutOfBounds
  | DuplicateSigner nat
  | InsertPanic
  | UnknownValidatorInVote ValidatorId

definition agg_new :: "nat \<Rightarrow> AggregateSignature" where
  "agg_new n = \<lparr> ag_signers = replicate n False, ag_signatures = [] \<rparr>"

text \<open>\<open>Vec::insert\<close>, which panics past the end.\<close>

definition vec_insert :: "nat \<Rightarrow> 'a \<Rightarrow> 'a list \<Rightarrow> 'a list option" where
  "vec_insert pos x xs = (if pos \<le> length xs then Some (take pos xs @ x # drop pos xs) else None)"

definition agg_add :: "AggregateSignature \<Rightarrow> nat \<Rightarrow> Signature \<Rightarrow> agg_error + AggregateSignature" where
  "agg_add agg index sig =
     (if index \<ge> length (ag_signers agg) then Inl SignerOutOfBounds
      else if ag_signers agg ! index then Inl (DuplicateSigner index)
      else let signers = (ag_signers agg)[index := True];
               pos = count_true (take index signers)
           in case vec_insert pos sig (ag_signatures agg) of
                None \<Rightarrow> Inl InsertPanic
              | Some sigs \<Rightarrow> Inr \<lparr> ag_signers = signers, ag_signatures = sigs \<rparr>)"

definition agg_count :: "AggregateSignature \<Rightarrow> nat" where
  "agg_count agg = count_true (ag_signers agg)"

fun aggregate_from ::
    "ValidatorSet \<Rightarrow> AggregateSignature \<Rightarrow> Vote list \<Rightarrow> agg_error + AggregateSignature" where
  "aggregate_from vs agg [] = Inr agg"
| "aggregate_from vs agg (vote # votes) =
     rbind (ok_or (index_of vs (v_validator vote)) (UnknownValidatorInVote (v_validator vote)))
       (\<lambda>idx. rbind (agg_add agg idx (v_signature vote)) (\<lambda>agg'. aggregate_from vs agg' votes))"

definition aggregate_votes :: "ValidatorSet \<Rightarrow> Vote list \<Rightarrow> agg_error + AggregateSignature" where
  "aggregate_votes vs votes = aggregate_from vs (agg_new (validator_count vs)) votes"

text \<open>The loop of \<open>has_quorum\<close>; \<open>None\<close> is its early \<open>return false\<close> on overflow.\<close>

fun quorum_loop :: "ValidatorInfo list \<Rightarrow> nat \<Rightarrow> u64 \<Rightarrow> bool list \<Rightarrow> u64 option" where
  "quorum_loop validators i pow [] = Some pow"
| "quorum_loop validators i pow (signs # rest) =
     (if signs then
        (case nth_opt validators i of
           Some vi \<Rightarrow> (case checked_add pow (vi_power vi) of
                        None \<Rightarrow> None
                      | Some new_power \<Rightarrow> quorum_loop validators (Suc i) new_power rest)
         | None \<Rightarrow> quorum_loop validators (Suc i) pow rest)
      else quorum_loop validators (Suc i) pow rest)"

definition has_quorum :: "ValidatorSet \<Rightarrow> AggregateSignature \<Rightarrow> bool" where
  "has_quorum vs agg =
     (case quorum_loop (vs_validators vs) 0 0 (ag_signers agg) of
        None \<Rightarrow> False | Some pow \<Rightarrow> pow \<ge> quorum_threshold vs)"

section \<open>Ed25519 verification\<close>

text \<open>
  The dalek library: whether 32 bytes parse as a key, strict verification of one signature, and
  batch verification of (message, signature, key) triples.
\<close>

record Ed25519 =
  vk_from_bytes :: "bytes \<Rightarrow> bool"
  verify_strict :: "bytes \<Rightarrow> bytes \<Rightarrow> bytes \<Rightarrow> bool"
  verify_batch :: "(bytes \<times> bytes \<times> bytes) list \<Rightarrow> bool"

definition ed_verify :: "Ed25519 \<Rightarrow> PublicKey \<Rightarrow> bytes \<Rightarrow> Signature \<Rightarrow> bool" where
  "ed_verify ed pk msg sig =
     (length pk = 32 \<and> vk_from_bytes ed pk \<and> length sig = 64 \<and> verify_strict ed pk msg sig)"

text \<open>
  The walk over the signer bitfield that \<open>verify_aggregate\<close> and \<open>verify_vote_aggregate\<close> share: it
  pairs the set bits with the signatures left to right and stops at the first failure. It returns
  the number of signatures used.
\<close>

fun signer_walk ::
    "(nat \<Rightarrow> ValidatorInfo \<Rightarrow> Signature \<Rightarrow> bool) \<Rightarrow> ValidatorInfo list \<Rightarrow> Signature list \<Rightarrow>
     nat \<Rightarrow> nat \<Rightarrow> bool list \<Rightarrow> nat option" where
  "signer_walk ok validators sigs idx sig_idx [] = Some sig_idx"
| "signer_walk ok validators sigs idx sig_idx (signs # rest) =
     (if \<not> signs then signer_walk ok validators sigs (Suc idx) sig_idx rest
      else case nth_opt validators idx of
             None \<Rightarrow> None
           | Some v \<Rightarrow>
               (case nth_opt sigs sig_idx of
                  None \<Rightarrow> None
                | Some s \<Rightarrow> if ok idx v s
                    then signer_walk ok validators sigs (Suc idx) (Suc sig_idx) rest
                    else None))"

fun batch_of ::
    "ValidatorInfo list \<Rightarrow> bytes \<Rightarrow> Signature list \<Rightarrow> nat \<Rightarrow> nat \<Rightarrow> bool list \<Rightarrow>
     (bytes \<times> bytes \<times> bytes) list" where
  "batch_of validators msg sigs idx sig_idx [] = []"
| "batch_of validators msg sigs idx sig_idx (signs # rest) =
     (if \<not> signs then batch_of validators msg sigs (Suc idx) sig_idx rest
      else (msg, sigs ! sig_idx, vi_public_key (validators ! idx)) #
             batch_of validators msg sigs (Suc idx) (Suc sig_idx) rest)"

definition verify_aggregate :: "Ed25519 \<Rightarrow> ValidatorSet \<Rightarrow> bytes \<Rightarrow> AggregateSignature \<Rightarrow> bool" where
  "verify_aggregate ed vs msg agg =
     (case signer_walk (\<lambda>_ vi s. length (vi_public_key vi) = 32 \<and> vk_from_bytes ed (vi_public_key vi)
                                 \<and> length s = 64)
             (vs_validators vs) (ag_signatures agg) 0 0 (ag_signers agg) of
        None \<Rightarrow> False
      | Some sig_idx \<Rightarrow>
          sig_idx = length (ag_signatures agg) \<and>
          verify_batch ed (batch_of (vs_validators vs) msg (ag_signatures agg) 0 0 (ag_signers agg)))"

section \<open>Vote aggregates\<close>

record VoteAggregateRef =
  va_validator_set :: ValidatorSet
  va_epoch :: EpochNumber
  va_view :: ViewNumber
  va_block_hash :: BlockHash
  va_vote_type :: VoteType
  va_aggregate_signature :: AggregateSignature
  va_extensions :: "(ValidatorId \<times> bytes) list"

text \<open>
  \<open>verify\<close> is the \<open>Verifier\<close> of the engine. Collecting the extensions into a \<open>HashMap\<close> keeps the
  last one of an id.
\<close>

definition verify_vote_aggregate ::
    "(PublicKey \<Rightarrow> bytes \<Rightarrow> Signature \<Rightarrow> bool) \<Rightarrow> (bytes \<Rightarrow> hash32) \<Rightarrow> hash32 \<Rightarrow>
     VoteAggregateRef \<Rightarrow> bool" where
  "verify_vote_aggregate verify blake3 chain_id_hash a =
     (let vs = va_validator_set a;
          agg = va_aggregate_signature a;
          extension_map = map_of (rev (va_extensions a))
      in if length (ag_signers agg) \<noteq> validator_count vs then False
         else if va_vote_type a = Vote \<and> va_extensions a \<noteq> [] then False
         else case signer_walk
                     (\<lambda>_ v s. verify (vi_public_key v)
                        (vote_signing_bytes blake3 chain_id_hash (va_epoch a) (va_view a) (vi_id v)
                           (va_block_hash a) (va_vote_type a) (extension_map (vi_id v))) s)
                     (vs_validators vs) (ag_signatures agg) 0 0 (ag_signers agg) of
                None \<Rightarrow> False
              | Some sig_idx \<Rightarrow> sig_idx = length (ag_signatures agg) \<and> has_quorum vs agg)"

text \<open>
  \<open>canonical_vote_extensions\<close>: the extensions of the double certificate, at most one per id, all of
  them of signers, in the order of the validator set.
\<close>

fun canonical_loop ::
    "ValidatorInfo list \<Rightarrow> nat \<Rightarrow> bool list \<Rightarrow> (ValidatorId \<times> bytes) list \<Rightarrow>
     (ValidatorId \<times> bytes) list \<Rightarrow>
     ((ValidatorId \<times> bytes) list \<times> (ValidatorId \<times> bytes) list) option" where
  "canonical_loop validators idx [] by_validator canonical = Some (by_validator, canonical)"
| "canonical_loop validators idx (signs # rest) by_validator canonical =
     (case nth_opt validators idx of
        None \<Rightarrow> None
      | Some v \<Rightarrow>
          (case (if signs then map_of by_validator (vi_id v) else None) of
             Some extension \<Rightarrow>
               canonical_loop validators (Suc idx) rest (AList.delete (vi_id v) by_validator)
                 (canonical @ [(vi_id v, extension)])
           | None \<Rightarrow> canonical_loop validators (Suc idx) rest by_validator canonical))"

definition canonical_vote_extensions ::
    "DoubleCertificate \<Rightarrow> ValidatorSet \<Rightarrow> (ValidatorId \<times> bytes) list option" where
  "canonical_vote_extensions dc vs =
     (let signers = ag_signers (qc_aggregate_signature (dc_outer_qc dc))
      in if length signers \<noteq> validator_count vs then None
         else if \<not> distinct (map fst (dc_vote_extensions dc)) then None
         else case canonical_loop (vs_validators vs) 0 signers (dc_vote_extensions dc) [] of
                None \<Rightarrow> None
              | Some (by_validator, canonical) \<Rightarrow>
                  if by_validator = [] then Some canonical else None)"

section \<open>The abstract view of an aggregate\<close>

definition agg_wf :: "nat \<Rightarrow> AggregateSignature \<Rightarrow> bool" where
  "agg_wf n agg \<longleftrightarrow>
     length (ag_signers agg) = n \<and> length (ag_signatures agg) = count_true (ag_signers agg)"

definition agg_lookup :: "AggregateSignature \<Rightarrow> nat \<rightharpoonup> Signature" where
  "agg_lookup agg i =
     (if i < length (ag_signers agg) \<and> ag_signers agg ! i
      then Some (ag_signatures agg ! count_true (take i (ag_signers agg))) else None)"

lemma agg_new_wf [simp]: "agg_wf n (agg_new n)"
  by (simp add: agg_wf_def agg_new_def)

lemma agg_lookup_new [simp]: "agg_lookup (agg_new n) = Map.empty"
  by (auto simp: agg_lookup_def agg_new_def)

lemma count_true_take_Suc:
  "i < length bs \<Longrightarrow> count_true (take (Suc i) bs) = count_true (take i bs) + (if bs ! i then 1 else 0)"
  by (simp add: take_Suc_conv_app_nth)

lemma count_true_split:
  "i < length bs \<Longrightarrow>
     count_true bs = count_true (take i bs) + (if bs ! i then 1 else 0) + count_true (drop (Suc i) bs)"
  by (subst id_take_nth_drop [of i bs]) simp_all

lemma count_true_take_mono: "i \<le> j \<Longrightarrow> count_true (take i bs) \<le> count_true (take j bs)"
proof (induction j)
  case (Suc j)
  show ?case
  proof (cases "i = Suc j")
    case False
    with Suc have "count_true (take i bs) \<le> count_true (take j bs)" by simp
    also have "\<dots> \<le> count_true (take (Suc j) bs)"
      by (cases "j < length bs") (simp_all add: count_true_take_Suc)
    finally show ?thesis .
  qed simp
qed simp

lemma count_true_take_less:
  assumes "i < length bs" "bs ! i" "i < j"
  shows "count_true (take i bs) < count_true (take j bs)"
  using count_true_take_mono [of "Suc i" j bs] assms by (simp add: count_true_take_Suc)

lemma count_true_take_le: "count_true (take i bs) \<le> count_true bs"
  using count_true_take_mono [of i "max i (length bs)" bs] by simp

lemma count_true_take_update:
  assumes "k < length bs" "\<not> bs ! k"
  shows "count_true (take i (bs[k := True])) = count_true (take i bs) + (if k < i then 1 else 0)"
proof (cases "k < i")
  case True
  have "count_true (take i (bs[k := True])) = count_true ((take i bs)[k := True])"
    by (simp add: take_update_swap)
  moreover have "count_true (xs[k := True]) = count_true xs + 1" if "k < length xs" "\<not> xs ! k" for xs
    using that by (induction xs arbitrary: k) (auto split: nat.splits simp: nth_Cons')
  ultimately show ?thesis using True assms by simp
qed (simp add: take_update_cancel)

lemma agg_lookup_insert:
  assumes wf: "agg_wf n agg" and i: "i < n" "\<not> ag_signers agg ! i"
    and sigs: "sigs = take (count_true (take i (ag_signers agg))) (ag_signatures agg) @ sg #
                 drop (count_true (take i (ag_signers agg))) (ag_signatures agg)"
  shows "agg_lookup \<lparr> ag_signers = (ag_signers agg)[i := True], ag_signatures = sigs \<rparr> =
         (agg_lookup agg)(i \<mapsto> sg)"
proof
  fix j
  let ?b = "ag_signers agg" and ?s = "ag_signatures agg"
  let ?p = "count_true (take i ?b)" and ?c = "count_true (take j ?b)"
  have n: "length ?b = n" "length ?s = count_true ?b" using wf by (simp_all add: agg_wf_def)
  have p: "?p \<le> length ?s" using n count_true_take_le by metis
  have t: "count_true (take j (?b[i := True])) = ?c + (if i < j then 1 else 0)"
    using i n by (simp add: count_true_take_update)
  have "sigs ! (?c + (if i < j then 1 else 0)) = ?s ! ?c" if "j < n" "?b ! j" "j \<noteq> i"
  proof (cases "i < j")
    case True
    then have "?p \<le> ?c" by (simp add: count_true_take_mono)
    with True p show ?thesis by (simp add: sigs nth_append)
  next
    case False
    with that n have "?c < ?p" by (simp add: count_true_take_less)
    with False p show ?thesis by (simp add: sigs nth_append)
  qed
  moreover have "sigs ! ?p = sg" using p by (simp add: sigs nth_append)
  ultimately show "agg_lookup \<lparr> ag_signers = ?b[i := True], ag_signatures = sigs \<rparr> j =
      ((agg_lookup agg)(i \<mapsto> sg)) j"
    using i n t by (auto simp: agg_lookup_def nth_list_update)
qed

lemma agg_add_spec:
  assumes wf: "agg_wf n agg"
  shows "case agg_add agg i sg of
           Inr agg' \<Rightarrow> i < n \<and> agg_lookup agg i = None \<and> agg_wf n agg' \<and>
                      agg_lookup agg' = (agg_lookup agg)(i \<mapsto> sg)
         | Inl e \<Rightarrow> (if i < n then e = DuplicateSigner i \<and> agg_lookup agg i \<noteq> None
                    else e = SignerOutOfBounds)"
proof (cases "i < n \<and> \<not> ag_signers agg ! i")
  case True
  let ?b = "ag_signers agg" and ?s = "ag_signatures agg"
  let ?p = "count_true (take i ?b)"
  let ?sigs = "take ?p ?s @ sg # drop ?p ?s"
  have n: "length ?b = n" "length ?s = count_true ?b" using wf by (simp_all add: agg_wf_def)
  have p: "?p \<le> length ?s" using n count_true_take_le by metis
  have "agg_add agg i sg = Inr \<lparr> ag_signers = ?b[i := True], ag_signatures = ?sigs \<rparr>"
    using True n p by (simp add: agg_add_def vec_insert_def Let_def take_update_cancel)
  moreover have "count_true (?b[i := True]) = count_true ?b + 1"
    using count_true_take_update [of i ?b n] True n by simp
  ultimately show ?thesis
    using True n agg_lookup_insert [OF wf, of i ?sigs sg]
    by (simp add: agg_lookup_def [of agg] agg_wf_def)
next
  case False
  with wf show ?thesis by (auto simp: agg_add_def agg_lookup_def agg_wf_def)
qed

lemma agg_add_fresh:
  assumes "agg_wf n agg" "i < n" "agg_lookup agg i = None"
  obtains agg' where "agg_add agg i sg = Inr agg'" "agg_wf n agg'"
    "agg_lookup agg' = (agg_lookup agg)(i \<mapsto> sg)"
  using agg_add_spec [OF assms(1), of i sg] assms(2,3) that
  by (cases "agg_add agg i sg") auto

lemma aggregate_from_spec:
  assumes "vs_wf vs" "agg_wf (validator_count vs) agg"
    and "distinct (map v_validator votes)"
    and "\<forall>vote \<in> set votes. \<exists>i. index_of vs (v_validator vote) = Some i \<and> agg_lookup agg i = None"
  shows "\<exists>agg'. aggregate_from vs agg votes = Inr agg' \<and> agg_wf (validator_count vs) agg' \<and>
    (\<forall>i sg. agg_lookup agg' i = Some sg \<longleftrightarrow> agg_lookup agg i = Some sg \<or>
       (\<exists>vote \<in> set votes. index_of vs (v_validator vote) = Some i \<and> v_signature vote = sg))"
  using assms(2-)
proof (induction votes arbitrary: agg)
  case (Cons vote votes)
  then obtain i where i: "index_of vs (v_validator vote) = Some i" "agg_lookup agg i = None" by auto
  with assms(1) have "i < validator_count vs" by (simp add: index_of_Some validator_count_def)
  with Cons.prems(1) i obtain agg' where a: "agg_add agg i (v_signature vote) = Inr agg'"
      "agg_wf (validator_count vs) agg'" "agg_lookup agg' = (agg_lookup agg)(i \<mapsto> v_signature vote)"
    by (blast intro: agg_add_fresh)
  have "\<forall>w \<in> set votes. \<exists>j. index_of vs (v_validator w) = Some j \<and> agg_lookup agg' j = None"
  proof
    fix w assume w: "w \<in> set votes"
    with Cons.prems(3) obtain j where j: "index_of vs (v_validator w) = Some j" "agg_lookup agg j = None"
      by auto
    moreover have "j \<noteq> i"
    proof
      assume "j = i"
      with i j assms(1) have "v_validator w = v_validator vote" by (simp add: index_of_Some)
      with w Cons.prems(2) show False by (auto simp: image_iff)
    qed
    ultimately show "\<exists>j. index_of vs (v_validator w) = Some j \<and> agg_lookup agg' j = None"
      using a(3) by simp
  qed
  with Cons.IH [OF a(2)] Cons.prems(2) obtain agg'' where
    "aggregate_from vs agg' votes = Inr agg''" "agg_wf (validator_count vs) agg''"
    "\<forall>k sg. agg_lookup agg'' k = Some sg \<longleftrightarrow> agg_lookup agg' k = Some sg \<or>
       (\<exists>vote \<in> set votes. index_of vs (v_validator vote) = Some k \<and> v_signature vote = sg)"
    by auto
  with i a show ?case by (auto simp: fun_upd_def split: if_splits)
qed auto

lemma aggregate_votes_spec:
  assumes "vs_wf vs" "distinct (map v_validator votes)"
    and "\<forall>vote \<in> set votes. get_validator vs (v_validator vote) \<noteq> None"
  shows "\<exists>agg. aggregate_votes vs votes = Inr agg \<and> agg_wf (validator_count vs) agg \<and>
    (\<forall>i sg. agg_lookup agg i = Some sg \<longleftrightarrow>
       (\<exists>vote \<in> set votes. index_of vs (v_validator vote) = Some i \<and> v_signature vote = sg))"
  unfolding aggregate_votes_def
  using aggregate_from_spec [OF assms(1), of "agg_new (validator_count vs)" votes] assms(2,3)
  by (auto simp: get_validator_def index_of_def)

section \<open>Quorums\<close>

definition signer_infos :: "ValidatorSet \<Rightarrow> AggregateSignature \<Rightarrow> ValidatorInfo list" where
  "signer_infos vs agg = map snd (filter fst (zip (ag_signers agg) (vs_validators vs)))"

definition set_power :: "ValidatorInfo set \<Rightarrow> nat" where
  "set_power A = (\<Sum>v \<in> A. unat (vi_power v))"

lemma drop_Cons_nth: "i < length xs \<Longrightarrow> drop i xs = xs ! i # drop (Suc i) xs"
  by (rule Cons_nth_drop_Suc [symmetric])

lemma quorum_loop_spec:
  "quorum_loop vals i p bs =
     (if unat p + power_sum (map snd (filter fst (zip bs (drop i vals)))) < 2 ^ 64
      then Some (p + of_nat (power_sum (map snd (filter fst (zip bs (drop i vals)))))) else None)"
proof (induction bs arbitrary: i p)
  case Nil
  show ?case by simp
next
  case (Cons b bs)
  show ?case
  proof (cases "b \<and> i < length vals")
    case False
    then show ?thesis
      by (cases "i < length vals") (auto simp: Cons.IH nth_opt_def drop_Cons_nth)
  next
    case True
    then have d: "drop i vals = vals ! i # drop (Suc i) vals" and n: "nth_opt vals i = Some (vals ! i)"
      by (simp_all add: drop_Cons_nth nth_opt_def)
    show ?thesis
    proof (cases "checked_add p (vi_power (vals ! i))")
      case None
      then have "2 ^ 64 \<le> unat p + unat (vi_power (vals ! i))" by (simp add: checked_add_None)
      with None True d n show ?thesis by simp
    next
      case (Some q)
      then have q: "unat q = unat p + unat (vi_power (vals ! i))" "q = p + vi_power (vals ! i)"
        using checked_add_unat [OF Some] by (simp_all add: checked_add_Some)
      let ?S = "power_sum (map snd (filter fst (zip bs (drop (Suc i) vals))))"
      have "quorum_loop vals i p (b # bs) = quorum_loop vals (Suc i) q bs"
        using True n Some by simp
      also have "\<dots> = (if unat q + ?S < 2 ^ 64 then Some (q + of_nat ?S) else None)"
        by (rule Cons.IH)
      also have "unat q + ?S = unat p + power_sum (map snd (filter fst (zip (b # bs) (drop i vals))))"
        using True d q by simp
      also have "q + of_nat ?S =
          p + of_nat (power_sum (map snd (filter fst (zip (b # bs) (drop i vals)))))"
        using True by (simp add: d q(2))
      finally show ?thesis .
    qed
  qed
qed

lemma power_sum_filter_zip: "power_sum (map snd (filter fst (zip bs vals))) \<le> power_sum vals"
proof (induction bs arbitrary: vals)
  case (Cons b bs)
  show ?case using Cons.IH [of "tl vals"] by (cases vals) auto
qed simp

lemma has_quorum_iff:
  assumes "vs_wf vs"
  shows "has_quorum vs agg \<longleftrightarrow>
    2 * unat (vs_total_power vs) div 3 + 1 \<le> power_sum (signer_infos vs agg)"
proof -
  have "power_sum (signer_infos vs agg) \<le> power_sum (vs_validators vs)"
    unfolding signer_infos_def by (rule power_sum_filter_zip)
  moreover have "power_sum (vs_validators vs) < 2 ^ 64"
    using assms by (simp add: vs_wf_def valid_infos_def)
  ultimately have l: "power_sum (signer_infos vs agg) < 2 ^ 64" by (rule le_less_trans)
  then have "has_quorum vs agg \<longleftrightarrow> quorum_threshold vs \<le> of_nat (power_sum (signer_infos vs agg))"
    by (simp add: has_quorum_def quorum_loop_spec signer_infos_def)
  also have "\<dots> \<longleftrightarrow> unat (quorum_threshold vs) \<le> power_sum (signer_infos vs agg)"
    using l by (simp add: word_le_nat_alt unat_of_nat_u64)
  finally show ?thesis by (simp add: unat_quorum_threshold)
qed

lemma distinct_signer_infos:
  assumes "vs_wf vs"
  shows "distinct (signer_infos vs agg)" "set (signer_infos vs agg) \<subseteq> set (vs_validators vs)"
proof -
  have z: "distinct (map snd (filter fst (zip bs vals)))" if "distinct vals" for bs and vals :: "ValidatorInfo list"
    using that
  proof (induction bs arbitrary: vals)
    case (Cons b bs)
    then show ?case by (cases vals) (auto dest: set_zip_rightD)
  qed simp
  have "distinct (vs_validators vs)"
    using assms by (auto simp: vs_wf_def valid_infos_def distinct_map)
  from z [OF this] show "distinct (signer_infos vs agg)" unfolding signer_infos_def .
  show "set (signer_infos vs agg) \<subseteq> set (vs_validators vs)"
    unfolding signer_infos_def by (auto dest: set_zip_rightD)
qed

lemma power_sum_set: "distinct vs \<Longrightarrow> power_sum vs = set_power (set vs)"
  by (simp add: power_sum_def set_power_def sum_list_distinct_conv_sum_set)

lemma set_power_mono: "\<lbrakk> finite B; A \<subseteq> B \<rbrakk> \<Longrightarrow> set_power A \<le> set_power B"
  unfolding set_power_def by (rule sum_mono2) auto

lemma set_power_Un_Int:
  "\<lbrakk> finite A; finite B \<rbrakk> \<Longrightarrow> set_power (A \<union> B) + set_power (A \<inter> B) = set_power A + set_power B"
  unfolding set_power_def by (rule sum.union_inter)

lemma set_power_total: "vs_wf vs \<Longrightarrow> set_power (set (vs_validators vs)) = unat (vs_total_power vs)"
  by (auto simp: vs_wf_def valid_infos_def distinct_map power_sum_set)

text \<open>Two quorums of one set share more power than the faulty may have.\<close>

lemma quorum_overlap:
  assumes wf: "vs_wf vs" and A: "A \<subseteq> set (vs_validators vs)" "unat (quorum_threshold vs) \<le> set_power A"
    and B: "B \<subseteq> set (vs_validators vs)" "unat (quorum_threshold vs) \<le> set_power B"
  shows "unat (max_faulty_power vs) < set_power (A \<inter> B)"
proof -
  let ?V = "set (vs_validators vs)"
  have f: "finite A" "finite B" using A B by (auto intro: finite_subset)
  have "set_power (A \<union> B) \<le> set_power ?V" using A B by (intro set_power_mono) auto
  with set_power_Un_Int [OF f] A B set_power_total [OF wf] show ?thesis
    unfolding unat_quorum_threshold unat_max_faulty_power by linarith
qed

lemma quorum_has_honest:
  assumes wf: "vs_wf vs" and A: "A \<subseteq> set (vs_validators vs)" "unat (quorum_threshold vs) \<le> set_power A"
    and B: "B \<subseteq> set (vs_validators vs)" "unat (quorum_threshold vs) \<le> set_power B"
    and F: "set_power (F \<inter> set (vs_validators vs)) \<le> unat (max_faulty_power vs)"
  shows "\<exists>v \<in> A \<inter> B. v \<notin> F"
proof (rule ccontr)
  assume "\<not> ?thesis"
  then have "A \<inter> B \<subseteq> F \<inter> set (vs_validators vs)" using A by auto
  then have "set_power (A \<inter> B) \<le> set_power (F \<inter> set (vs_validators vs))"
    by (intro set_power_mono) auto
  with quorum_overlap [OF wf A B] F show False by linarith
qed

lemma has_quorum_set:
  assumes "vs_wf vs"
  shows "has_quorum vs agg \<longleftrightarrow> unat (quorum_threshold vs) \<le> set_power (set (signer_infos vs agg))"
  using assms by (simp add: has_quorum_iff unat_quorum_threshold power_sum_set distinct_signer_infos)

lemma mem_signer_infos:
  "v \<in> set (signer_infos vs agg) \<longleftrightarrow>
     (\<exists>i. i < length (ag_signers agg) \<and> ag_signers agg ! i \<and> i < length (vs_validators vs) \<and>
          vs_validators vs ! i = v)"
  by (auto simp: signer_infos_def set_zip image_iff)

section \<open>The signer walk\<close>

lemma signer_walk_spec:
  "signer_walk ok vals sigs idx k bs = Some n \<longleftrightarrow>
     n = k + count_true bs \<and>
     (\<forall>i < length bs. bs ! i \<longrightarrow>
        idx + i < length vals \<and> k + count_true (take i bs) < length sigs \<and>
        ok (idx + i) (vals ! (idx + i)) (sigs ! (k + count_true (take i bs))))"
proof (induction bs arbitrary: idx k)
  case (Cons b bs)
  show ?case
    by (cases b) (auto simp: Cons.IH All_less_Suc2 nth_opt_def)
qed auto

lemma signer_walk_agg:
  "signer_walk ok vals (ag_signatures agg) 0 0 (ag_signers agg) = Some (length (ag_signatures agg)) \<longleftrightarrow>
     length (ag_signatures agg) = count_true (ag_signers agg) \<and>
     (\<forall>i sg. agg_lookup agg i = Some sg \<longrightarrow> i < length vals \<and> ok i (vals ! i) sg)"
proof -
  have "count_true (take i (ag_signers agg)) < count_true (ag_signers agg)"
    if "i < length (ag_signers agg)" "ag_signers agg ! i" for i
    using count_true_take_less [OF that, of "length (ag_signers agg)"] that by simp
  then show ?thesis by (auto simp: signer_walk_spec agg_lookup_def)
qed

text \<open>What a verified vote aggregate says.\<close>

definition vote_bytes_of ::
    "(bytes \<Rightarrow> hash32) \<Rightarrow> hash32 \<Rightarrow> VoteAggregateRef \<Rightarrow> ValidatorInfo \<Rightarrow> bytes" where
  "vote_bytes_of blake3 chain a v =
     vote_signing_bytes blake3 chain (va_epoch a) (va_view a) (vi_id v) (va_block_hash a)
       (va_vote_type a) (map_of (rev (va_extensions a)) (vi_id v))"

lemma verify_vote_aggregate_iff:
  "verify_vote_aggregate verify blake3 chain a \<longleftrightarrow>
     agg_wf (validator_count (va_validator_set a)) (va_aggregate_signature a) \<and>
     (va_vote_type a = Vote \<longrightarrow> va_extensions a = []) \<and>
     (\<forall>i sg. agg_lookup (va_aggregate_signature a) i = Some sg \<longrightarrow>
        i < validator_count (va_validator_set a) \<and>
        verify (vi_public_key (vs_validators (va_validator_set a) ! i))
          (vote_bytes_of blake3 chain a (vs_validators (va_validator_set a) ! i)) sg) \<and>
     has_quorum (va_validator_set a) (va_aggregate_signature a)"
proof -
  let ?agg = "va_aggregate_signature a" and ?vs = "va_validator_set a"
  let ?ok = "\<lambda>_ v s. verify (vi_public_key v) (vote_bytes_of blake3 chain a v) s"
  let ?w = "signer_walk ?ok (vs_validators ?vs) (ag_signatures ?agg) 0 0 (ag_signers ?agg)"
  have "verify_vote_aggregate verify blake3 chain a \<longleftrightarrow>
    length (ag_signers ?agg) = validator_count ?vs \<and> (va_vote_type a = Vote \<longrightarrow> va_extensions a = []) \<and>
    ?w = Some (length (ag_signatures ?agg)) \<and> has_quorum ?vs ?agg"
    by (auto simp: verify_vote_aggregate_def Let_def vote_bytes_of_def split: option.splits)
  then show ?thesis
    unfolding signer_walk_agg agg_wf_def validator_count_def by blast
qed

section \<open>Canonical extensions\<close>

lemma AList_delete_distinct [simp]:
  "distinct (map fst m) \<Longrightarrow> distinct (map fst (AList.delete k m))"
  by (rule distinct_delete)

lemma canonical_loop_Some:
  assumes "canonical_loop vals idx bs m can = Some (m', can')" "distinct (map fst m)"
    and "distinct (map vi_id vals)"
  shows "\<exists>new. can' = can @ new \<and>
    (\<forall>k. map_of m k = (case map_of new k of Some e \<Rightarrow> Some e | None \<Rightarrow> map_of m' k)) \<and>
    distinct (map fst new) \<and> distinct (map fst m') \<and> fst ` set new \<inter> fst ` set m' = {} \<and>
    (\<forall>k \<in> fst ` set new. \<exists>i < length bs. bs ! i \<and> idx + i < length vals \<and> vi_id (vals ! (idx + i)) = k)"
  using assms(1,2)
proof (induction bs arbitrary: idx m can)
  case (Cons b bs)
  then obtain v where v: "nth_opt vals idx = Some v"
    by (auto split: option.splits)
  show ?case
  proof (cases "if b then map_of m (vi_id v) else None")
    case None
    with v Cons.prems have "canonical_loop vals (Suc idx) bs m can = Some (m', can')"
      by simp
    from Cons.IH [OF this Cons.prems(2)] obtain new where new: "can' = can @ new"
      "\<forall>k. map_of m k = (case map_of new k of Some e \<Rightarrow> Some e | None \<Rightarrow> map_of m' k)"
      "distinct (map fst new)" "distinct (map fst m')" "fst ` set new \<inter> fst ` set m' = {}"
      "\<forall>k \<in> fst ` set new. \<exists>i < length bs. bs ! i \<and> Suc idx + i < length vals \<and>
         vi_id (vals ! (Suc idx + i)) = k"
      by blast
    from new(6) have "\<forall>k \<in> fst ` set new. \<exists>i < length (b # bs). (b # bs) ! i \<and> idx + i < length vals \<and>
         vi_id (vals ! (idx + i)) = k"
      by (metis Suc_less_eq add_Suc_shift length_Cons nth_Cons_Suc)
    with new show ?thesis by blast
  next
    case (Some e)
    then have b: "b" "map_of m (vi_id v) = Some e" by (simp_all split: if_splits)
    let ?k = "vi_id v" and ?m = "AList.delete (vi_id v) m"
    from Some v Cons.prems have "canonical_loop vals (Suc idx) bs ?m (can @ [(?k, e)]) = Some (m', can')"
      by simp
    from Cons.IH [OF this AList_delete_distinct [OF Cons.prems(2)]] obtain new where
      new: "can' = can @ (?k, e) # new"
      "\<forall>k. map_of ?m k = (case map_of new k of Some e \<Rightarrow> Some e | None \<Rightarrow> map_of m' k)"
      "distinct (map fst new)" "distinct (map fst m')" "fst ` set new \<inter> fst ` set m' = {}"
      "\<forall>k \<in> fst ` set new. \<exists>i < length bs. bs ! i \<and> Suc idx + i < length vals \<and>
         vi_id (vals ! (Suc idx + i)) = k"
      by auto
    have "map_of ?m ?k = None" by (simp add: delete_conv)
    with new(2) have fresh: "map_of new ?k = None" "map_of m' ?k = None"
      by (auto split: option.splits dest: spec [of _ ?k])
    have here: "idx < length vals" "vals ! idx = v" using v by (simp_all add: nth_opt_Some)
    have "\<forall>k \<in> fst ` set ((?k, e) # new). \<exists>i < length (b # bs). (b # bs) ! i \<and>
        idx + i < length vals \<and> vi_id (vals ! (idx + i)) = k"
    proof
      fix k assume "k \<in> fst ` set ((?k, e) # new)"
      then consider "k = ?k" | "k \<in> fst ` set new" by auto
      then show "\<exists>i < length (b # bs). (b # bs) ! i \<and> idx + i < length vals \<and> vi_id (vals ! (idx + i)) = k"
      proof cases
        case 1
        with b here show ?thesis by (intro exI [of _ 0]) simp
      next
        case 2
        with new(6) show ?thesis by (metis Suc_less_eq add_Suc_shift length_Cons nth_Cons_Suc)
      qed
    qed
    moreover have "\<forall>k. map_of m k =
        (case map_of ((?k, e) # new) k of Some e \<Rightarrow> Some e | None \<Rightarrow> map_of m' k)"
    proof
      fix k
      show "map_of m k = (case map_of ((?k, e) # new) k of Some e \<Rightarrow> Some e | None \<Rightarrow> map_of m' k)"
        using new(2) [rule_format, of k] b by (cases "k = ?k") (simp_all add: delete_conv)
    qed
    moreover have "?k \<notin> fst ` set new" "?k \<notin> fst ` set m'"
      using fresh by (simp_all add: map_of_eq_None_iff)
    ultimately show ?thesis using new by (intro exI [of _ "(?k, e) # new"]) auto
  qed
qed simp

lemma canonical_vote_extensions_spec:
  assumes "canonical_vote_extensions dc vs = Some can" "vs_wf vs"
  shows "map_of can = map_of (dc_vote_extensions dc)"
    and "distinct (map fst can)" "distinct (map fst (dc_vote_extensions dc))"
    and "fst ` set can \<subseteq> vi_id ` set (signer_infos vs (qc_aggregate_signature (dc_outer_qc dc)))"
proof -
  let ?bs = "ag_signers (qc_aggregate_signature (dc_outer_qc dc))"
  have d: "distinct (map fst (dc_vote_extensions dc))"
    and l: "canonical_loop (vs_validators vs) 0 ?bs (dc_vote_extensions dc) [] = Some ([], can)"
    using assms(1) by (auto simp: canonical_vote_extensions_def Let_def split: if_splits option.splits)
  have v: "distinct (map vi_id (vs_validators vs))"
    using assms(2) by (simp add: vs_wf_def valid_infos_def)
  from canonical_loop_Some [OF l d v] have
    m: "\<forall>k. map_of (dc_vote_extensions dc) k = (case map_of can k of Some e \<Rightarrow> Some e | None \<Rightarrow> None)"
    and c: "distinct (map fst can)"
    and s: "\<forall>k \<in> fst ` set can. \<exists>i < length ?bs. ?bs ! i \<and> i < length (vs_validators vs) \<and>
        vi_id (vs_validators vs ! i) = k"
    by (auto split: option.splits)
  show "map_of can = map_of (dc_vote_extensions dc)"
  proof
    fix k
    show "map_of can k = map_of (dc_vote_extensions dc) k"
      using m [rule_format, of k] by (cases "map_of can k") simp_all
  qed
  show "distinct (map fst can)" "distinct (map fst (dc_vote_extensions dc))" using c d by auto
  show "fst ` set can \<subseteq> vi_id ` set (signer_infos vs (qc_aggregate_signature (dc_outer_qc dc)))"
    using s by (force simp: mem_signer_infos image_iff)
qed

section \<open>Properties\<close>

text \<open>
  C10. Quorum intersection: two aggregates that \<open>has_quorum\<close> accepts for one well-formed set have a
  common signer outside any set of validators whose power is at most \<open>max_faulty_power\<close>. The
  threshold is computed in 128 bits and the sum is checked, so this holds for every power a
  64-bit total allows.
\<close>

theorem quorum_intersection_honest:
  assumes "vs_wf vs" "has_quorum vs a" "has_quorum vs b"
    and "set_power (F \<inter> set (vs_validators vs)) \<le> unat (max_faulty_power vs)"
  shows "\<exists>v. v \<in> set (signer_infos vs a) \<and> v \<in> set (signer_infos vs b) \<and> v \<notin> F"
  using quorum_has_honest [OF assms(1), of "set (signer_infos vs a)" "set (signer_infos vs b)" F]
    assms distinct_signer_infos(2) [OF assms(1)]
  by (auto simp: has_quorum_set)

theorem quorum_intersection_honest_witness:
  "\<exists>v. v \<in> set (signer_infos sample_set \<lparr> ag_signers = [True, False, True, True], ag_signatures = [] \<rparr>) \<and>
       v \<in> set (signer_infos sample_set \<lparr> ag_signers = [False, True, True, True], ag_signatures = [] \<rparr>) \<and>
       v \<notin> {sample_infos ! 2}"
proof (rule quorum_intersection_honest [OF sample_set_wf])
  show "has_quorum sample_set \<lparr> ag_signers = [True, False, True, True], ag_signatures = [] \<rparr>"
    "has_quorum sample_set \<lparr> ag_signers = [False, True, True, True], ag_signatures = [] \<rparr>"
    by (simp_all add: has_quorum_iff [OF sample_set_wf] signer_infos_def)
       (simp_all add: sample_set_def sample_infos_def)
  have "{sample_infos ! 2} \<inter> set (vs_validators sample_set) = {sample_infos ! 2}"
    by (simp add: sample_set_def sample_infos_def)
  then show "set_power ({sample_infos ! 2} \<inter> set (vs_validators sample_set)) \<le> unat (max_faulty_power sample_set)"
    by (simp add: unat_max_faulty_power set_power_def) (simp add: sample_set_def sample_infos_def)
qed

text \<open>
  C11. \<open>verify_vote_aggregate\<close> accepts exactly the aggregates that carry one signature per marked
  validator of the set, each valid under that validator's key for the vote the certificate stands
  for (epoch, view, own id, block, phase and own extension), whose signers have quorum power, and
  that carry no extension in the first phase.
\<close>

theorem verify_vote_aggregate_exact:
  "verify_vote_aggregate verify blake3 chain a \<longleftrightarrow>
     agg_wf (validator_count (va_validator_set a)) (va_aggregate_signature a) \<and>
     (va_vote_type a = Vote \<longrightarrow> va_extensions a = []) \<and>
     (\<forall>i sg. agg_lookup (va_aggregate_signature a) i = Some sg \<longrightarrow>
        i < validator_count (va_validator_set a) \<and>
        verify (vi_public_key (vs_validators (va_validator_set a) ! i))
          (vote_bytes_of blake3 chain a (vs_validators (va_validator_set a) ! i)) sg) \<and>
     has_quorum (va_validator_set a) (va_aggregate_signature a)"
  by (rule verify_vote_aggregate_iff)

definition sample_aggregate :: VoteAggregateRef where
  "sample_aggregate =
     \<lparr> va_validator_set = sample_set, va_epoch = 0, va_view = 3, va_block_hash = hash_rep 7,
       va_vote_type = Vote,
       va_aggregate_signature =
         \<lparr> ag_signers = [True, False, True, True], ag_signatures = [[1], [3], [4]] \<rparr>,
       va_extensions = [] \<rparr>"

theorem verify_vote_aggregate_exact_witness:
  "verify_vote_aggregate (\<lambda>pk msg sg. take 1 pk = sg \<and> length msg = 146) (\<lambda>_. hash_rep 0)
     (hash_rep 9) sample_aggregate"
proof -
  let ?agg = "va_aggregate_signature sample_aggregate"
  have "agg_lookup ?agg = [0 \<mapsto> [1], 2 \<mapsto> [3], 3 \<mapsto> [4]]"
    by (rule ext) (auto simp: agg_lookup_def sample_aggregate_def less_Suc_eq numeral_eq_Suc)
  moreover have "has_quorum sample_set ?agg"
    by (simp add: has_quorum_iff [OF sample_set_wf] signer_infos_def sample_aggregate_def)
       (simp add: sample_set_def sample_infos_def)
  moreover have "length (vote_bytes_of (\<lambda>_. hash_rep 0) c sample_aggregate v) = 146" for c v
    by (simp add: vote_bytes_of_def vote_signing_bytes_def ascii_def split: option.splits)
  ultimately show ?thesis
    unfolding verify_vote_aggregate_exact
    by (auto simp: sample_aggregate_def agg_wf_def validator_count_def sample_set_def
        sample_infos_def split: if_splits)
qed

end
