(* ===== verification/Pacemaker.thy ===== *)
theory Pacemaker
  imports Aggregate
begin

text \<open>
  \<open>hotmint-consensus/src/pacemaker.rs\<close>: view timers with backoff, timeout wishes and the timeout
  certificate built from them, and the relay filter. Instants and durations are milliseconds in
  \<open>nat\<close>; \<open>now\<close> is the clock. \<open>f64_scale base n\<close> stands for the double-precision expression
  \<open>(base as f64 * multiplier.powi(n)) as u64\<close>.
\<close>

record PacemakerConfig =
  pc_base_timeout_ms :: u64
  pc_max_timeout_ms :: u64

type_synonym wish = "ValidatorId \<times> QuorumCertificate option \<times> Signature"

record Pacemaker =
  pm_config :: PacemakerConfig
  pm_view_deadline :: nat
  pm_base_timeout :: nat
  pm_current_timeout :: nat
  pm_consecutive_timeouts :: u32
  pm_wishes :: "ViewNumber \<rightharpoonup> wish list"
  pm_relayed_tcs :: "ViewNumber \<rightharpoonup> bool"

definition default_PacemakerConfig :: PacemakerConfig where
  "default_PacemakerConfig = \<lparr> pc_base_timeout_ms = 2000, pc_max_timeout_ms = 30000 \<rparr>"

definition pm_with_config :: "nat \<Rightarrow> PacemakerConfig \<Rightarrow> Pacemaker" where
  "pm_with_config now config =
     (let base_timeout = unat (pc_base_timeout_ms config)
      in \<lparr> pm_config = config, pm_view_deadline = now + base_timeout,
           pm_base_timeout = base_timeout, pm_current_timeout = base_timeout,
           pm_consecutive_timeouts = 0, pm_wishes = Map.empty, pm_relayed_tcs = Map.empty \<rparr>)"

definition pm_reset_timer :: "nat \<Rightarrow> Pacemaker \<Rightarrow> Pacemaker" where
  "pm_reset_timer now pm = pm\<lparr>pm_view_deadline := now + pm_current_timeout pm\<rparr>"

definition pm_reset_on_progress :: "nat \<Rightarrow> Pacemaker \<Rightarrow> Pacemaker" where
  "pm_reset_on_progress now pm =
     pm\<lparr>pm_consecutive_timeouts := 0, pm_current_timeout := pm_base_timeout pm,
        pm_view_deadline := now + pm_base_timeout pm\<rparr>"

definition pm_on_timeout :: "(nat \<Rightarrow> u32 \<Rightarrow> u64) \<Rightarrow> nat \<Rightarrow> Pacemaker \<Rightarrow> Pacemaker" where
  "pm_on_timeout f64_scale now pm =
     (let n = pm_consecutive_timeouts pm + 1;
          new_ms = f64_scale (pm_base_timeout pm) n;
          timeout = unat (min new_ms (pc_max_timeout_ms (pm_config pm)))
      in pm\<lparr>pm_consecutive_timeouts := n, pm_current_timeout := timeout,
            pm_view_deadline := now + timeout\<rparr>)"

text \<open>\<open>None\<close> is the panic of \<open>current_view.next()\<close>.\<close>

definition build_wish ::
    "(bytes \<Rightarrow> hash32) \<Rightarrow> (bytes \<Rightarrow> Signature) \<Rightarrow> hash32 \<Rightarrow> EpochNumber \<Rightarrow> ViewNumber \<Rightarrow>
     ValidatorId \<Rightarrow> QuorumCertificate option \<Rightarrow> ConsensusMessage option" where
  "build_wish blake3 sign chain_id_hash epoch current_view validator_id highest_qc =
     map_option
       (\<lambda>target_view. Wish target_view validator_id highest_qc
          (sign (wish_signing_bytes blake3 chain_id_hash epoch target_view highest_qc)))
       (next_view current_view)"

fun wish_power :: "ValidatorSet \<Rightarrow> u64 \<Rightarrow> wish list \<Rightarrow> u64 option" where
  "wish_power vs pow [] = Some pow"
| "wish_power vs pow ((vid, _, _) # ws) =
     (if power_of vs vid = 0 then wish_power vs pow ws
      else case checked_add pow (power_of vs vid) of
             None \<Rightarrow> None | Some pow' \<Rightarrow> wish_power vs pow' ws)"

text \<open>\<open>let _ = agg.add(..)\<close> drops an error, which leaves the aggregate as it was.\<close>

fun wish_aggregate ::
    "ValidatorSet \<Rightarrow> wish list \<Rightarrow> AggregateSignature \<Rightarrow> QuorumCertificate option list \<Rightarrow>
     AggregateSignature \<times> QuorumCertificate option list" where
  "wish_aggregate vs [] agg hqcs = (agg, hqcs)"
| "wish_aggregate vs ((vid, hqc, sg) # ws) agg hqcs =
     (case index_of vs vid of
        None \<Rightarrow> wish_aggregate vs ws agg hqcs
      | Some idx \<Rightarrow>
          wish_aggregate vs ws
            (case agg_add agg idx sg of Inl _ \<Rightarrow> agg | Inr agg' \<Rightarrow> agg') (hqcs[idx := hqc]))"

definition wishes_for :: "Pacemaker \<Rightarrow> ViewNumber \<Rightarrow> wish list" where
  "wishes_for pm v = (case pm_wishes pm v of None \<Rightarrow> [] | Some ws \<Rightarrow> ws)"

definition add_wish ::
    "ValidatorSet \<Rightarrow> ViewNumber \<Rightarrow> ValidatorId \<Rightarrow> QuorumCertificate option \<Rightarrow> Signature \<Rightarrow>
     Pacemaker \<Rightarrow> Pacemaker \<times> TimeoutCertificate option" where
  "add_wish vs target_view validator highest_qc signature pm =
     (let wishes = wishes_for pm target_view
      in if \<exists>w \<in> set wishes. fst w = validator
         then (pm\<lparr>pm_wishes := (pm_wishes pm)(target_view \<mapsto> wishes)\<rparr>, None)
         else
           let wishes' = wishes @ [(validator, highest_qc, signature)];
               pm' = pm\<lparr>pm_wishes := (pm_wishes pm)(target_view \<mapsto> wishes')\<rparr>
           in case wish_power vs 0 wishes' of
                None \<Rightarrow> (pm', None)
              | Some pow \<Rightarrow>
                  if pow \<ge> quorum_threshold vs
                  then let (agg, hqcs) = wish_aggregate vs wishes' (agg_new (validator_count vs))
                                           (replicate (validator_count vs) None)
                       in (pm', Some \<lparr> tc_view = saturating_sub target_view 1,
                                       tc_aggregate_signature = agg, tc_highest_qcs = hqcs \<rparr>)
                  else (pm', None))"

definition should_relay_tc :: "TimeoutCertificate \<Rightarrow> Pacemaker \<Rightarrow> Pacemaker \<times> bool" where
  "should_relay_tc tc pm =
     (case pm_relayed_tcs pm (tc_view tc) of
        None \<Rightarrow> (pm\<lparr>pm_relayed_tcs := (pm_relayed_tcs pm)(tc_view tc \<mapsto> True)\<rparr>, True)
      | Some _ \<Rightarrow> (pm, False))"

definition pm_clear_view :: "ViewNumber \<Rightarrow> Pacemaker \<Rightarrow> Pacemaker" where
  "pm_clear_view view pm = pm\<lparr>pm_wishes := (pm_wishes pm)(view := None)\<rparr>"

definition pm_prune_before :: "ViewNumber \<Rightarrow> Pacemaker \<Rightarrow> Pacemaker" where
  "pm_prune_before min_view pm =
     pm\<lparr>pm_wishes := (\<lambda>v. if v \<ge> min_view then pm_wishes pm v else None),
        pm_relayed_tcs := (\<lambda>v. if v \<ge> min_view then pm_relayed_tcs pm v else None)\<rparr>"

section \<open>Timers\<close>

text \<open>The timeouts a pacemaker ever uses: its base, or something its configured maximum bounds.\<close>

definition pm_timers_ok :: "Pacemaker \<Rightarrow> bool" where
  "pm_timers_ok pm \<longleftrightarrow>
     pm_base_timeout pm = unat (pc_base_timeout_ms (pm_config pm)) \<and>
     pm_current_timeout pm \<le> max (unat (pc_base_timeout_ms (pm_config pm)))
                               (unat (pc_max_timeout_ms (pm_config pm)))"

lemma pm_timers:
  "pm_timers_ok (pm_with_config now config)"
  "pm_timers_ok pm \<Longrightarrow> pm_timers_ok (pm_reset_timer now pm)"
  "pm_timers_ok pm \<Longrightarrow> pm_timers_ok (pm_reset_on_progress now pm)"
  "pm_timers_ok pm \<Longrightarrow> pm_timers_ok (pm_on_timeout scale now pm)"
  by (auto simp: pm_timers_ok_def pm_with_config_def pm_reset_timer_def pm_reset_on_progress_def
      pm_on_timeout_def Let_def min_def word_le_nat_alt)

section \<open>Timeout certificates\<close>

text \<open>The pacemaker keeps at most one wish per validator and view.\<close>

definition pm_wf :: "Pacemaker \<Rightarrow> bool" where
  "pm_wf pm \<longleftrightarrow> (\<forall>v. distinct (map fst (wishes_for pm v)))"

lemma wishes_for_update [simp]:
  "wishes_for (pm\<lparr>pm_wishes := (pm_wishes pm)(v \<mapsto> ws)\<rparr>) v' = (if v' = v then ws else wishes_for pm v')"
  by (simp add: wishes_for_def)

lemma add_wish_wishes:
  "wishes_for (fst (add_wish vs tv i hqc sg pm)) v =
     (if v = tv \<and> i \<notin> fst ` set (wishes_for pm tv) then wishes_for pm tv @ [(i, hqc, sg)]
      else wishes_for pm v)"
  by (auto simp: add_wish_def Let_def image_iff split: option.splits prod.splits)

lemma pm_wf_preserved:
  "pm_wf (pm_with_config now config)"
  "pm_wf pm \<Longrightarrow> pm_wf (fst (add_wish vs tv i hqc sg pm))"
  "pm_wf pm \<Longrightarrow> pm_wf (fst (should_relay_tc tc pm))"
  "pm_wf pm \<Longrightarrow> pm_wf (pm_clear_view v pm)"
  "pm_wf pm \<Longrightarrow> pm_wf (pm_prune_before v pm)"
proof -
  show "pm_wf pm \<Longrightarrow> pm_wf (fst (add_wish vs tv i hqc sg pm))"
    by (auto simp: pm_wf_def add_wish_wishes)
qed (auto simp: pm_wf_def wishes_for_def pm_with_config_def Let_def should_relay_tc_def
      pm_clear_view_def pm_prune_before_def split: option.splits)

lemma set_power_insert:
  "finite A \<Longrightarrow> v \<notin> A \<Longrightarrow> set_power (insert v A) = unat (vi_power v) + set_power A"
  by (simp add: set_power_def)

text \<open>Members of the set among the wishers.\<close>

definition wishers :: "ValidatorSet \<Rightarrow> wish list \<Rightarrow> ValidatorInfo set" where
  "wishers vs ws = {v \<in> set (vs_validators vs). vi_id v \<in> fst ` set ws}"

lemma wishers_Cons:
  assumes "vs_wf vs"
  shows "wishers vs ((i, x) # ws) =
    (case get_validator vs i of None \<Rightarrow> wishers vs ws | Some v \<Rightarrow> insert v (wishers vs ws))"
proof (cases "get_validator vs i")
  case None
  with assms have "i \<notin> vi_id ` set (vs_validators vs)" by (simp add: get_validator_None)
  with None show ?thesis by (auto simp: wishers_def)
next
  case (Some v)
  then have v: "v \<in> set (vs_validators vs)" "vi_id v = i" using assms by (simp_all add: get_validator_Some)
  have "u \<in> set (vs_validators vs) \<and> vi_id u = i \<longleftrightarrow> u = v" for u
    using Some get_validator_Some [OF assms, of i u] v by auto
  then have "{u \<in> set (vs_validators vs). vi_id u = i} = {v}" by auto
  moreover have "wishers vs ((i, x) # ws) = {u \<in> set (vs_validators vs). vi_id u = i} \<union> wishers vs ws"
    by (auto simp: wishers_def)
  ultimately show ?thesis using Some by simp
qed

lemma wishers_power_le: "vs_wf vs \<Longrightarrow> set_power (wishers vs ws) \<le> unat (vs_total_power vs)"
proof -
  assume wf: "vs_wf vs"
  have "set_power (wishers vs ws) \<le> set_power (set (vs_validators vs))"
    by (rule set_power_mono) (auto simp: wishers_def)
  with set_power_total [OF wf] show ?thesis by simp
qed

lemma wish_power_spec:
  assumes wf: "vs_wf vs"
  shows "distinct (map fst ws) \<Longrightarrow> unat p + set_power (wishers vs ws) < 2 ^ 64 \<Longrightarrow>
    \<exists>q. wish_power vs p ws = Some q \<and> unat q = unat p + set_power (wishers vs ws)"
proof (induction ws arbitrary: p)
  case Nil
  then show ?case by (simp add: wishers_def set_power_def)
next
  case (Cons w ws)
  obtain i x y where w: "w = (i, x, y)" by (cases w)
  have fin: "finite (wishers vs ws)" by (simp add: wishers_def)
  show ?case
  proof (cases "get_validator vs i")
    case None
    with Cons w show ?thesis by (simp add: wishers_Cons [OF wf] power_of_def)
  next
    case (Some v)
    with wf have v: "vi_id v = i" by (simp add: get_validator_Some)
    with Cons.prems(1) w have "v \<notin> wishers vs ws" by (auto simp: wishers_def)
    with Some w fin have s: "set_power (wishers vs (w # ws)) = unat (vi_power v) + set_power (wishers vs ws)"
      by (simp add: wishers_Cons [OF wf] set_power_insert)
    have p: "power_of vs i = vi_power v" using Some by (simp add: power_of_def)
    show ?thesis
    proof (cases "vi_power v = 0")
      case True
      with Cons s p w show ?thesis by simp
    next
      case False
      have l: "unat p + unat (vi_power v) < 2 ^ 64" using Cons.prems(2) s by simp
      then have c: "checked_add p (vi_power v) = Some (p + vi_power v)" by (simp add: checked_add_Some)
      have u: "unat (p + vi_power v) = unat p + unat (vi_power v)"
        using checked_add_unat [OF c] .
      from Cons.IH [of "p + vi_power v"] Cons.prems s u obtain q where
        "wish_power vs (p + vi_power v) ws = Some q"
        "unat q = unat p + unat (vi_power v) + set_power (wishers vs ws)"
        by auto
      with False p c s w show ?thesis by simp
    qed
  qed
qed

lemma wish_aggregate_spec:
  assumes wf: "vs_wf vs" and a: "agg_wf (validator_count vs) agg" "length hqcs = validator_count vs"
    and d: "distinct (map fst ws)"
    and f: "\<forall>w \<in> set ws. \<forall>i. index_of vs (fst w) = Some i \<longrightarrow> agg_lookup agg i = None"
    and r: "wish_aggregate vs ws agg hqcs = (agg', hqcs')"
  shows "agg_wf (validator_count vs) agg'" "length hqcs' = validator_count vs"
    and "agg_lookup agg' i = Some sg \<longleftrightarrow> agg_lookup agg i = Some sg \<or>
           (\<exists>vid hqc. (vid, hqc, sg) \<in> set ws \<and> index_of vs vid = Some i)"
    and "i < validator_count vs \<Longrightarrow> hqcs' ! i =
           (case map_of ws (vi_id (vs_validators vs ! i)) of None \<Rightarrow> hqcs ! i | Some (hqc, _) \<Rightarrow> hqc)"
proof -
  have "agg_wf (validator_count vs) agg' \<and> length hqcs' = validator_count vs \<and>
    (\<forall>i sg. agg_lookup agg' i = Some sg \<longleftrightarrow> agg_lookup agg i = Some sg \<or>
           (\<exists>vid hqc. (vid, hqc, sg) \<in> set ws \<and> index_of vs vid = Some i)) \<and>
    (\<forall>i < validator_count vs. hqcs' ! i =
           (case map_of ws (vi_id (vs_validators vs ! i)) of None \<Rightarrow> hqcs ! i | Some (hqc, _) \<Rightarrow> hqc))"
    using a d f r
  proof (induction ws arbitrary: agg hqcs)
    case (Cons w ws)
    obtain vid hqc sg where w: "w = (vid, hqc, sg)" by (cases w)
    show ?case
    proof (cases "index_of vs vid")
      case None
      have ne: "vi_id (vs_validators vs ! i) \<noteq> vid" if "i < validator_count vs" for i
        using None that index_of_Some [OF wf, of vid i] by (auto simp: validator_count_def)
      from None Cons.prems w have "wish_aggregate vs ws agg hqcs = (agg', hqcs')" by simp
      with Cons None w ne show ?thesis by auto
    next
      case (Some idx)
      then have idx: "idx < validator_count vs" "vi_id (vs_validators vs ! idx) = vid"
        using wf by (simp_all add: index_of_Some validator_count_def)
      from Cons.prems(4) w Some have n: "agg_lookup agg idx = None" by auto
      obtain agg1 where a1: "agg_add agg idx sg = Inr agg1" "agg_wf (validator_count vs) agg1"
          "agg_lookup agg1 = (agg_lookup agg)(idx \<mapsto> sg)"
        using agg_add_fresh [OF Cons.prems(1) idx(1) n] by metis
      have fresh: "\<forall>u \<in> set ws. \<forall>i. index_of vs (fst u) = Some i \<longrightarrow> agg_lookup agg1 i = None"
      proof (intro ballI allI impI)
        fix u i assume u: "u \<in> set ws" "index_of vs (fst u) = Some i"
        with Cons.prems(3) w have "fst u \<noteq> vid" by (auto simp: image_iff)
        with u Some wf have "i \<noteq> idx" by (auto simp: index_of_Some)
        with u Cons.prems(4) a1(3) show "agg_lookup agg1 i = None" by auto
      qed
      have rr: "wish_aggregate vs ws agg1 (hqcs[idx := hqc]) = (agg', hqcs')"
        using Cons.prems(5) w Some a1(1) by simp
      note IH = Cons.IH [OF a1(2) _ _ fresh rr]
      have vid: "vid \<notin> fst ` set ws" using Cons.prems(3) w by auto
      then have none: "map_of ws vid = None" by (simp add: map_of_eq_None_iff)
      have inj: "vi_id (vs_validators vs ! i) = vid \<longleftrightarrow> i = idx" if "i < validator_count vs" for i
        using that Some wf index_of_Some [OF wf, of vid i] by (auto simp: validator_count_def)
      have "agg_lookup agg' i = Some s \<longleftrightarrow> agg_lookup agg i = Some s \<or>
           (\<exists>vid hqc. (vid, hqc, s) \<in> set (w # ws) \<and> index_of vs vid = Some i)" for i s
        using IH Cons.prems a1(3) n w Some by (auto split: if_splits)
      moreover have "hqcs' ! i = (case map_of (w # ws) (vi_id (vs_validators vs ! i)) of
          None \<Rightarrow> hqcs ! i | Some (hqc, _) \<Rightarrow> hqc)" if i: "i < validator_count vs" for i
        using IH Cons.prems(2,3) i inj [OF i] none w idx
        by (cases "i = idx") (auto split: option.splits)
      ultimately show ?thesis using IH Cons.prems(2,3) by auto
    qed
  qed auto
  then show "agg_wf (validator_count vs) agg'" "length hqcs' = validator_count vs"
    "agg_lookup agg' i = Some sg \<longleftrightarrow> agg_lookup agg i = Some sg \<or>
           (\<exists>vid hqc. (vid, hqc, sg) \<in> set ws \<and> index_of vs vid = Some i)"
    "i < validator_count vs \<Longrightarrow> hqcs' ! i =
           (case map_of ws (vi_id (vs_validators vs ! i)) of None \<Rightarrow> hqcs ! i | Some (hqc, _) \<Rightarrow> hqc)"
    by blast+
qed

lemma highest_qc_of_tc_upper:
  assumes "i < length (ag_signers (tc_aggregate_signature tc))"
    "ag_signers (tc_aggregate_signature tc) ! i"
    "i < length (tc_highest_qcs tc)" "tc_highest_qcs tc ! i = Some q"
  shows "\<exists>q'. highest_qc_of_tc tc = Some q' \<and> qc_view q \<le> qc_view q'"
proof -
  let ?f = "\<lambda>(idx, qc). case nth_opt (ag_signers (tc_aggregate_signature tc)) idx of
             Some True \<Rightarrow> qc | _ \<Rightarrow> None"
  let ?l = "List.map_filter ?f (List.enumerate 0 (tc_highest_qcs tc))"
  have "(i, Some q) \<in> set (List.enumerate 0 (tc_highest_qcs tc))"
    using assms by (simp add: in_set_enumerate_eq)
  moreover have "?f (i, Some q) = Some q" using assms by (simp add: nth_opt_def)
  ultimately have m: "q \<in> set ?l" by (force simp: set_map_filter)
  then obtain q' where q': "max_by_view ?l = Some q'" by (cases "max_by_view ?l") auto
  with max_by_view_Some [OF q'] m show ?thesis by (auto simp: highest_qc_of_tc_def)
qed

lemma highest_qc_of_tc_mem:
  assumes "highest_qc_of_tc tc = Some q"
  shows "\<exists>i. i < length (ag_signers (tc_aggregate_signature tc)) \<and>
    ag_signers (tc_aggregate_signature tc) ! i \<and> i < length (tc_highest_qcs tc) \<and>
    tc_highest_qcs tc ! i = Some q"
proof -
  let ?f = "\<lambda>(idx, qc). case nth_opt (ag_signers (tc_aggregate_signature tc)) idx of
             Some True \<Rightarrow> qc | _ \<Rightarrow> None"
  have "q \<in> set (List.map_filter ?f (List.enumerate 0 (tc_highest_qcs tc)))"
    using assms max_by_view_Some unfolding highest_qc_of_tc_def by blast
  then obtain p where "p \<in> set (List.enumerate 0 (tc_highest_qcs tc))" "?f p = Some q"
    by (auto simp: set_map_filter)
  then show ?thesis
    by (auto simp: in_set_enumerate_eq nth_opt_def split: option.splits if_splits bool.splits prod.splits)
qed

lemma agg_signer_iff:
  "(i < length (ag_signers agg) \<and> ag_signers agg ! i) \<longleftrightarrow> (\<exists>sg. agg_lookup agg i = Some sg)"
  by (auto simp: agg_lookup_def)

text \<open>The certificate a quorum of wishes yields.\<close>

lemma add_wish_result:
  fixes tv :: ViewNumber and i :: ValidatorId and hqc :: "QuorumCertificate option" and sg :: Signature
  assumes wf: "vs_wf vs" "pm_wf pm"
  defines "ws \<equiv> wishes_for pm tv @ [(i, hqc, sg)]"
  shows "snd (add_wish vs tv i hqc sg pm) =
    (if i \<notin> fst ` set (wishes_for pm tv) \<and> unat (quorum_threshold vs) \<le> set_power (wishers vs ws)
     then Some (let (agg, hqcs) = wish_aggregate vs ws (agg_new (validator_count vs))
                                    (replicate (validator_count vs) None)
                in \<lparr> tc_view = saturating_sub tv 1, tc_aggregate_signature = agg,
                     tc_highest_qcs = hqcs \<rparr>)
     else None)"
proof (cases "i \<in> fst ` set (wishes_for pm tv)")
  case True
  then have "\<exists>w \<in> set (wishes_for pm tv). fst w = i" by auto
  with True show ?thesis by (simp add: add_wish_def)
next
  case False
  then have n: "\<not> (\<exists>w \<in> set (wishes_for pm tv). fst w = i)" by auto
  have d: "distinct (map fst ws)" using wf(2) False by (simp add: ws_def pm_wf_def)
  have "unat (0 :: u64) + set_power (wishers vs ws) < 2 ^ 64"
    using wishers_power_le [OF wf(1), of ws] unat_u64_less [of "vs_total_power vs"]
    by (simp del: unat_u64_less)
  from wish_power_spec [OF wf(1) d this] obtain q where
    q: "wish_power vs 0 ws = Some q" "unat q = set_power (wishers vs ws)" by auto
  then have "quorum_threshold vs \<le> q \<longleftrightarrow> unat (quorum_threshold vs) \<le> set_power (wishers vs ws)"
    by (simp add: word_le_nat_alt)
  with q n False show ?thesis
    by (simp add: add_wish_def Let_def ws_def split: prod.splits)
qed

lemma add_wish_tc:
  assumes wf: "vs_wf vs" "pm_wf pm" and t: "snd (add_wish vs tv i hqc sg pm) = Some tc"
  defines "ws \<equiv> wishes_for pm tv @ [(i, hqc, sg)]"
  shows "tc_view tc = saturating_sub tv 1" "distinct (map fst ws)"
    "agg_wf (validator_count vs) (tc_aggregate_signature tc)"
    "length (tc_highest_qcs tc) = validator_count vs"
    "\<And>k s. agg_lookup (tc_aggregate_signature tc) k = Some s \<longleftrightarrow>
       (\<exists>vid h. (vid, h, s) \<in> set ws \<and> index_of vs vid = Some k)"
    "\<And>k vid h s. (vid, h, s) \<in> set ws \<Longrightarrow> index_of vs vid = Some k \<Longrightarrow> tc_highest_qcs tc ! k = h"
    "unat (quorum_threshold vs) \<le> set_power (wishers vs ws)"
proof -
  obtain agg hqcs where w: "wish_aggregate vs ws (agg_new (validator_count vs))
      (replicate (validator_count vs) None) = (agg, hqcs)" by (cases "wish_aggregate vs ws
      (agg_new (validator_count vs)) (replicate (validator_count vs) None)")
  from t w have i: "i \<notin> fst ` set (wishes_for pm tv)"
    and q: "unat (quorum_threshold vs) \<le> set_power (wishers vs ws)"
    and tc: "tc = \<lparr> tc_view = saturating_sub tv 1, tc_aggregate_signature = agg, tc_highest_qcs = hqcs \<rparr>"
    unfolding add_wish_result [OF wf] ws_def [symmetric] by (auto split: if_splits)
  show d: "distinct (map fst ws)" using wf(2) i by (simp add: ws_def pm_wf_def)
  note spec = wish_aggregate_spec [OF wf(1) agg_new_wf _ d _ w]
  show "tc_view tc = saturating_sub tv 1" using tc by simp
  show "unat (quorum_threshold vs) \<le> set_power (wishers vs ws)" by (rule q)
  show "agg_wf (validator_count vs) (tc_aggregate_signature tc)"
    "length (tc_highest_qcs tc) = validator_count vs"
    using spec(1,2) tc by simp_all
  show "agg_lookup (tc_aggregate_signature tc) k = Some s \<longleftrightarrow>
       (\<exists>vid h. (vid, h, s) \<in> set ws \<and> index_of vs vid = Some k)" for k s
    using spec(3) tc by simp
  show "tc_highest_qcs tc ! k = h" if "(vid, h, s) \<in> set ws" "index_of vs vid = Some k" for k vid h s
  proof -
    have "k < validator_count vs" "vi_id (vs_validators vs ! k) = vid"
      using that(2) wf(1) by (simp_all add: index_of_Some validator_count_def)
    moreover have "map_of ws vid = Some (h, s)" using that(1) d by simp
    ultimately show ?thesis using spec(4) [of k] tc by simp
  qed
qed

section \<open>Properties\<close>

definition sample_qc :: "ViewNumber \<Rightarrow> QuorumCertificate" where
  "sample_qc v = \<lparr> qc_block_hash = hash_rep 7, qc_view = v,
     qc_aggregate_signature = \<lparr> ag_signers = [], ag_signatures = [] \<rparr>, qc_epoch = 0 \<rparr>"

definition sample_pacemaker :: Pacemaker where
  "sample_pacemaker = (pm_with_config 0 default_PacemakerConfig)
     \<lparr>pm_wishes := [5 \<mapsto> [(1, Some (sample_qc 3), [1]), (4, None, [4])]]\<rparr>"

lemma sample_pacemaker_wf: "pm_wf sample_pacemaker"
  by (simp add: pm_wf_def sample_pacemaker_def wishes_for_def pm_with_config_def Let_def)

lemma sample_wishers:
  "unat (quorum_threshold sample_set) \<le>
     set_power (wishers sample_set (wishes_for sample_pacemaker 5 @ [(2, Some (sample_qc 1), [2])]))"
proof -
  have "wishers sample_set (wishes_for sample_pacemaker 5 @ [(2, Some (sample_qc 1), [2])]) =
    set [sample_infos ! 0, sample_infos ! 1, sample_infos ! 3]"
    by (auto simp: wishers_def sample_set_def sample_infos_def wishes_for_def sample_pacemaker_def)
  moreover have "set_power (set [sample_infos ! 0, sample_infos ! 1, sample_infos ! 3]) = 4"
    by (subst power_sum_set [symmetric]) (simp_all add: sample_infos_def)
  moreover have "unat (quorum_threshold sample_set) = 4"
    by (simp add: unat_quorum_threshold) (simp add: sample_set_def)
  ultimately show ?thesis by (simp only: order_refl)
qed

text \<open>
  C16. A timeout certificate appears exactly at quorum and carries the highest certificate: a new
  wish of a well-formed pacemaker yields one if and only if its sender had not wished for that view
  yet and the members who did, this one included, have quorum power. It is for the view before the
  target, and its \<open>highest_qc\<close> is at least the certificate of every member who wished.
\<close>

theorem add_wish_quorum:
  fixes tv :: ViewNumber and i :: ValidatorId and hqc :: "QuorumCertificate option" and sg :: Signature
  assumes "vs_wf vs" "pm_wf pm"
  defines "ws \<equiv> wishes_for pm tv @ [(i, hqc, sg)]"
  shows "(snd (add_wish vs tv i hqc sg pm) \<noteq> None \<longleftrightarrow>
            i \<notin> fst ` set (wishes_for pm tv) \<and>
            unat (quorum_threshold vs) \<le> set_power (wishers vs ws)) \<and>
         (\<forall>tc vid q s. snd (add_wish vs tv i hqc sg pm) = Some tc \<longrightarrow> (vid, Some q, s) \<in> set ws \<longrightarrow>
            get_validator vs vid \<noteq> None \<longrightarrow>
            tc_view tc = saturating_sub tv 1 \<and>
            (\<exists>q'. highest_qc_of_tc tc = Some q' \<and> qc_view q \<le> qc_view q'))"
proof (intro conjI allI impI)
  show "snd (add_wish vs tv i hqc sg pm) \<noteq> None \<longleftrightarrow>
      i \<notin> fst ` set (wishes_for pm tv) \<and> unat (quorum_threshold vs) \<le> set_power (wishers vs ws)"
    unfolding add_wish_result [OF assms(1,2)] ws_def [symmetric] by auto
next
  fix tc vid q s
  assume t: "snd (add_wish vs tv i hqc sg pm) = Some tc" and w: "(vid, Some q, s) \<in> set ws"
    and m: "get_validator vs vid \<noteq> None"
  note spec = add_wish_tc [OF assms(1,2) t, folded ws_def]
  show "tc_view tc = saturating_sub tv 1" by (rule spec(1))
  from m obtain k where k: "index_of vs vid = Some k" by (auto simp: get_validator_def index_of_def)
  then have "k < validator_count vs" using assms(1) by (simp add: index_of_Some validator_count_def)
  moreover have "agg_lookup (tc_aggregate_signature tc) k = Some s" using spec(5) w k by blast
  ultimately show "\<exists>q'. highest_qc_of_tc tc = Some q' \<and> qc_view q \<le> qc_view q'"
    using agg_signer_iff [of k "tc_aggregate_signature tc"] spec(4) spec(6) [OF w k]
    by (intro highest_qc_of_tc_upper [of k]) auto
qed

theorem add_wish_quorum_witness:
  "\<exists>tc q'. snd (add_wish sample_set 5 2 (Some (sample_qc 1)) [2] sample_pacemaker) = Some tc \<and>
     tc_view tc = 4 \<and> highest_qc_of_tc tc = Some q' \<and> 3 \<le> qc_view q'"
proof -
  let ?ws = "wishes_for sample_pacemaker 5 @ [(2, Some (sample_qc 1), [2])]"
  note c = add_wish_quorum [OF sample_set_wf sample_pacemaker_wf, of 5 2 "Some (sample_qc 1)" "[2]"]
  have "2 \<notin> fst ` set (wishes_for sample_pacemaker 5)"
    by (simp add: wishes_for_def sample_pacemaker_def)
  with c sample_wishers obtain tc where
    t: "snd (add_wish sample_set 5 2 (Some (sample_qc 1)) [2] sample_pacemaker) = Some tc"
    by (metis not_None_eq)
  have "(1, Some (sample_qc 3), [1]) \<in> set ?ws"
    by (simp add: wishes_for_def sample_pacemaker_def)
  moreover have "get_validator sample_set 1 \<noteq> None"
    using get_validator_None [OF sample_set_wf, of 1] by (auto simp: sample_set_def sample_infos_def)
  ultimately have "tc_view tc = saturating_sub 5 1 \<and>
      (\<exists>q'. highest_qc_of_tc tc = Some q' \<and> qc_view (sample_qc 3) \<le> qc_view q')"
    using c t by blast
  with t show ?thesis by (simp add: saturating_sub_def sample_qc_def)
qed

end
