(* ===== verification/Engine_Verify.thy ===== *)
theory Engine_Verify
  imports View_Protocol Pacemaker
begin

text \<open>
  The verification half of \<open>hotmint-consensus/src/engine.rs\<close>: certificates and messages are checked
  against the current validator set or the retained one of the previous epoch. The functions read
  the consensus state and the retained epoch of the engine, which are arguments here; \<open>verify\<close> is the
  engine's \<open>Verifier\<close> and \<open>ed\<close> the Ed25519 library behind the relay check.
\<close>

section \<open>Epochs and certificates\<close>

definition verification_epochs :: "ConsensusState \<Rightarrow> Epoch option \<Rightarrow> EpochNumber list" where
  "verification_epochs st previous_epoch =
     (let cur = ep_number (cs_current_epoch st);
          prev = (case previous_epoch of None \<Rightarrow> cur | Some epoch \<Rightarrow> ep_number epoch)
      in [cur, prev])"

definition validator_set_for_epoch ::
    "ConsensusState \<Rightarrow> Epoch option \<Rightarrow> EpochNumber \<Rightarrow> ValidatorSet option" where
  "validator_set_for_epoch st previous_epoch epoch =
     (if epoch = ep_number (cs_current_epoch st) then Some (cs_validator_set st)
      else case previous_epoch of
             Some previous \<Rightarrow> if ep_number previous = epoch then Some (ep_validator_set previous) else None
           | None \<Rightarrow> None)"

definition verify_vote_qc ::
    "(PublicKey \<Rightarrow> bytes \<Rightarrow> Signature \<Rightarrow> bool) \<Rightarrow> (bytes \<Rightarrow> hash32) \<Rightarrow> ConsensusState \<Rightarrow> Epoch option \<Rightarrow>
     QuorumCertificate \<Rightarrow> VoteType \<Rightarrow> bool" where
  "verify_vote_qc verify blake3 st previous_epoch qc vote_type =
     (case validator_set_for_epoch st previous_epoch (qc_epoch qc) of
        None \<Rightarrow> False
      | Some vs \<Rightarrow>
          verify_vote_aggregate verify blake3 (cs_chain_id_hash st)
            \<lparr> va_validator_set = vs, va_epoch = qc_epoch qc, va_view = qc_view qc,
              va_block_hash = qc_block_hash qc, va_vote_type = vote_type,
              va_aggregate_signature = qc_aggregate_signature qc, va_extensions = [] \<rparr>)"

definition is_genesis_qc :: "QuorumCertificate \<Rightarrow> bool" where
  "is_genesis_qc qc =
     (qc_block_hash qc = GENESIS_HASH \<and> qc_view qc = 0 \<and> qc_epoch qc = 0 \<and>
      agg_count (qc_aggregate_signature qc) = 0 \<and> ag_signatures (qc_aggregate_signature qc) = [])"

definition verify_justify_qc ::
    "(PublicKey \<Rightarrow> bytes \<Rightarrow> Signature \<Rightarrow> bool) \<Rightarrow> (bytes \<Rightarrow> hash32) \<Rightarrow> ConsensusState \<Rightarrow> Epoch option \<Rightarrow>
     QuorumCertificate \<Rightarrow> bool" where
  "verify_justify_qc verify blake3 st previous_epoch qc =
     (if is_genesis_qc qc then True else verify_vote_qc verify blake3 st previous_epoch qc Vote)"

text \<open>The loop of \<open>verify_tc\<close>; \<open>None\<close> is a \<open>return false\<close>.\<close>

fun tc_walk ::
    "(QuorumCertificate \<Rightarrow> bool) \<Rightarrow> (PublicKey \<Rightarrow> QuorumCertificate option \<Rightarrow> Signature \<Rightarrow> bool) \<Rightarrow>
     ValidatorSet \<Rightarrow> QuorumCertificate option list \<Rightarrow> Signature list \<Rightarrow> nat \<Rightarrow> nat \<Rightarrow> u64 \<Rightarrow> bool list \<Rightarrow>
     (nat \<times> u64) option" where
  "tc_walk qc_ok sig_ok vs hqcs sigs i sig_idx pow [] = Some (sig_idx, pow)"
| "tc_walk qc_ok sig_ok vs hqcs sigs i sig_idx pow (signs # rest) =
     (if \<not> signs then tc_walk qc_ok sig_ok vs hqcs sigs (Suc i) sig_idx pow rest
      else case nth_opt (vs_validators vs) i of
             None \<Rightarrow> None
           | Some vi \<Rightarrow>
               let hqc = (case nth_opt hqcs i of None \<Rightarrow> None | Some h \<Rightarrow> h)
               in if (case hqc of Some qc \<Rightarrow> \<not> qc_ok qc | None \<Rightarrow> False) then None
                  else case nth_opt sigs sig_idx of
                         None \<Rightarrow> None
                       | Some sg \<Rightarrow>
                           if \<not> sig_ok (vi_public_key vi) hqc sg then None
                           else tc_walk qc_ok sig_ok vs hqcs sigs (Suc i) (Suc sig_idx)
                                  (pow + power_of vs (vi_id vi)) rest)"

definition verify_tc ::
    "(PublicKey \<Rightarrow> bytes \<Rightarrow> Signature \<Rightarrow> bool) \<Rightarrow> (bytes \<Rightarrow> hash32) \<Rightarrow> ConsensusState \<Rightarrow> Epoch option \<Rightarrow>
     TimeoutCertificate \<Rightarrow> ValidatorSet \<Rightarrow> bool" where
  "verify_tc verify blake3 st previous_epoch tc vs =
     (case checked_add (tc_view tc) 1 of
        None \<Rightarrow> False
      | Some target_view \<Rightarrow>
          let n = validator_count vs; agg = tc_aggregate_signature tc
          in if length (ag_signers agg) \<noteq> n then False
             else if length (tc_highest_qcs tc) \<noteq> n then False
             else case tc_walk (verify_justify_qc verify blake3 st previous_epoch)
                         (\<lambda>pk hqc sg. \<exists>epoch \<in> set (verification_epochs st previous_epoch).
                            verify pk (wish_signing_bytes blake3 (cs_chain_id_hash st) epoch target_view hqc) sg)
                         vs (tc_highest_qcs tc) (ag_signatures agg) 0 0 0 (ag_signers agg) of
                    None \<Rightarrow> False
                  | Some (sig_idx, pow) \<Rightarrow>
                      if sig_idx \<noteq> length (ag_signatures agg) then False
                      else pow \<ge> quorum_threshold vs)"

text \<open>\<open>validate_double_cert\<close>.\<close>

definition validate_double_cert ::
    "(PublicKey \<Rightarrow> bytes \<Rightarrow> Signature \<Rightarrow> bool) \<Rightarrow> (bytes \<Rightarrow> hash32) \<Rightarrow> ConsensusState \<Rightarrow> Epoch option \<Rightarrow>
     DoubleCertificate \<Rightarrow> bool" where
  "validate_double_cert verify blake3 st previous_epoch dc =
     (let inner = dc_inner_qc dc; outer = dc_outer_qc dc
      in if qc_block_hash inner \<noteq> qc_block_hash outer then False
         else if qc_view outer \<noteq> qc_view inner then False
         else if qc_epoch inner \<noteq> qc_epoch outer then False
         else case validator_set_for_epoch st previous_epoch (qc_epoch inner) of
                None \<Rightarrow> False
              | Some vs \<Rightarrow>
                  (case canonical_vote_extensions dc vs of
                     None \<Rightarrow> False
                   | Some vote_extensions \<Rightarrow>
                       if \<not> verify_vote_aggregate verify blake3 (cs_chain_id_hash st)
                              \<lparr> va_validator_set = vs, va_epoch = qc_epoch inner, va_view = qc_view inner,
                                va_block_hash = qc_block_hash inner, va_vote_type = Vote,
                                va_aggregate_signature = qc_aggregate_signature inner, va_extensions = [] \<rparr>
                       then False
                       else verify_vote_aggregate verify blake3 (cs_chain_id_hash st)
                              \<lparr> va_validator_set = vs, va_epoch = qc_epoch outer, va_view = qc_view outer,
                                va_block_hash = qc_block_hash outer, va_vote_type = Vote2,
                                va_aggregate_signature = qc_aggregate_signature outer,
                                va_extensions = vote_extensions \<rparr>))"

section \<open>Messages\<close>

text \<open>
  The view a message is about, for the messages that are not checked when it has passed; \<open>None\<close> is
  the overflow of a timeout certificate's view, which fails the check.
\<close>

fun message_view :: "ConsensusMessage \<Rightarrow> ViewNumber option option" where
  "message_view (Propose block justify double_cert signature ancestors) = Some None"
| "message_view (VoteMsg v) = Some (Some (v_view v))"
| "message_view (Vote2Msg v) = Some (Some (v_view v))"
| "message_view (Prepare certificate signature) = Some (Some (qc_view certificate))"
| "message_view (Wish target_view validator highest_qc signature) = Some (Some target_view)"
| "message_view (TimeoutCert tc) = map_option Some (checked_add (tc_view tc) 1)"
| "message_view (StatusCert locked_qc validator signature) = Some None"
| "message_view (Evidence p) = Some None"

definition verify_vote ::
    "(PublicKey \<Rightarrow> bytes \<Rightarrow> Signature \<Rightarrow> bool) \<Rightarrow> (bytes \<Rightarrow> hash32) \<Rightarrow> ConsensusState \<Rightarrow> Epoch option \<Rightarrow> Vote \<Rightarrow> bool" where
  "verify_vote verify blake3 st previous_epoch vote =
     (case validator_set_for_epoch st previous_epoch (v_epoch vote) of
        None \<Rightarrow> False
      | Some vote_vs \<Rightarrow>
          (case get_validator vote_vs (v_validator vote) of
             None \<Rightarrow> False
           | Some vi \<Rightarrow>
               if v_vote_type vote = Vote \<and> v_extension vote \<noteq> None then False
               else verify (vi_public_key vi)
                      (vote_signing_bytes blake3 (cs_chain_id_hash st) (v_epoch vote) (v_view vote)
                         (v_validator vote) (v_block_hash vote) (v_vote_type vote) (v_extension vote))
                      (v_signature vote)))"

fun verify_content ::
    "(PublicKey \<Rightarrow> bytes \<Rightarrow> Signature \<Rightarrow> bool) \<Rightarrow> (bytes \<Rightarrow> hash32) \<Rightarrow> ConsensusState \<Rightarrow> Epoch option \<Rightarrow>
     ConsensusMessage \<Rightarrow> bool" where
  "verify_content verify blake3 st prev (Propose block justify double_cert signature ancestors) =
     (case get_validator (cs_validator_set st) (b_proposer block) of
        None \<Rightarrow> False
      | Some vi \<Rightarrow>
          if \<not> (\<exists>epoch \<in> set (verification_epochs st prev).
                  verify (vi_public_key vi)
                    (proposal_signing_bytes (cs_chain_id_hash st) epoch block justify) signature)
          then False
          else verify_justify_qc verify blake3 st prev justify)"
| "verify_content verify blake3 st prev (VoteMsg vote) = verify_vote verify blake3 st prev vote"
| "verify_content verify blake3 st prev (Vote2Msg vote) = verify_vote verify blake3 st prev vote"
| "verify_content verify blake3 st prev (Prepare certificate signature) =
     (case leader_for_view (cs_validator_set st) (qc_view certificate) of
        None \<Rightarrow> False
      | Some leader \<Rightarrow>
          if \<not> (\<exists>epoch \<in> set (verification_epochs st prev).
                  verify (vi_public_key leader)
                    (prepare_signing_bytes (cs_chain_id_hash st) epoch certificate) signature)
          then False
          else verify_vote_qc verify blake3 st prev certificate Vote)"
| "verify_content verify blake3 st prev (Wish target_view validator highest_qc signature) =
     (case (case get_validator (cs_validator_set st) validator of
              Some vi \<Rightarrow> Some vi
            | None \<Rightarrow> Option.bind prev (\<lambda>e. get_validator (ep_validator_set e) validator)) of
        None \<Rightarrow> False
      | Some vi \<Rightarrow>
          \<exists>epoch \<in> set (verification_epochs st prev).
            verify (vi_public_key vi)
              (wish_signing_bytes blake3 (cs_chain_id_hash st) epoch target_view highest_qc) signature)"
| "verify_content verify blake3 st prev (TimeoutCert tc) =
     (if verify_tc verify blake3 st prev tc (cs_validator_set st) then True
      else case prev of
             Some e \<Rightarrow> verify_tc verify blake3 st prev tc (ep_validator_set e)
           | None \<Rightarrow> False)"
| "verify_content verify blake3 st prev (StatusCert locked_qc validator signature) =
     (case get_validator (cs_validator_set st) validator of
        None \<Rightarrow> False
      | Some vi \<Rightarrow>
          \<exists>epoch \<in> set (verification_epochs st prev).
            verify (vi_public_key vi)
              (status_signing_bytes (cs_chain_id_hash st) epoch (cs_current_view st) validator locked_qc)
              signature)"
| "verify_content verify blake3 st prev (Evidence p) = True"

definition verify_message ::
    "(PublicKey \<Rightarrow> bytes \<Rightarrow> Signature \<Rightarrow> bool) \<Rightarrow> (bytes \<Rightarrow> hash32) \<Rightarrow> ConsensusState \<Rightarrow> Epoch option \<Rightarrow>
     ConsensusMessage \<Rightarrow> bool" where
  "verify_message verify blake3 st previous_epoch msg =
     (case message_view msg of
        None \<Rightarrow> False
      | Some msg_view \<Rightarrow>
          if (case msg_view of Some v \<Rightarrow> v < cs_current_view st | None \<Rightarrow> False) then True
          else verify_content verify blake3 st previous_epoch msg)"

section \<open>The relay check\<close>

fun relay_walk ::
    "(PublicKey \<Rightarrow> QuorumCertificate option \<Rightarrow> Signature \<Rightarrow> bool) \<Rightarrow> (ValidatorId \<rightharpoonup> PublicKey) \<Rightarrow>
     ValidatorId list \<Rightarrow> QuorumCertificate option list \<Rightarrow> Signature list \<Rightarrow> nat \<Rightarrow> nat \<Rightarrow> nat \<Rightarrow> bool list \<Rightarrow>
     (nat \<times> nat) option" where
  "relay_walk sig_ok keys ordered hqcs sigs i sig_idx verified [] = Some (sig_idx, verified)"
| "relay_walk sig_ok keys ordered hqcs sigs i sig_idx verified (signs # rest) =
     (if \<not> signs then relay_walk sig_ok keys ordered hqcs sigs (Suc i) sig_idx verified rest
      else if i \<ge> length ordered then None
      else case keys (ordered ! i) of
             None \<Rightarrow> None
           | Some pk \<Rightarrow>
               let hqc = (case nth_opt hqcs i of None \<Rightarrow> None | Some h \<Rightarrow> h)
               in if sig_idx \<ge> length sigs then None
                  else if \<not> sig_ok pk hqc (sigs ! sig_idx) then None
                  else relay_walk sig_ok keys ordered hqcs sigs (Suc i) (Suc sig_idx) (Suc verified) rest)"

fun verify_relay_sender ::
    "Ed25519 \<Rightarrow> (bytes \<Rightarrow> hash32) \<Rightarrow> ValidatorId \<Rightarrow> ConsensusMessage \<Rightarrow> (ValidatorId \<rightharpoonup> PublicKey) \<Rightarrow>
     ValidatorId list \<Rightarrow> ValidatorId option \<Rightarrow> hash32 \<Rightarrow> EpochNumber \<Rightarrow> bool" where
  "verify_relay_sender ed blake3 sender (Propose block justify double_cert signature ancestors) keys ordered
     leader chain epoch =
     (case keys (b_proposer block) of
        None \<Rightarrow> False
      | Some pk \<Rightarrow> ed_verify ed pk (proposal_signing_bytes chain epoch block justify) signature)"
| "verify_relay_sender ed blake3 sender (VoteMsg vote) keys ordered leader chain epoch =
     (if v_epoch vote \<noteq> epoch then False
      else case keys (v_validator vote) of
             None \<Rightarrow> False
           | Some pk \<Rightarrow> ed_verify ed pk (vote_signing_bytes blake3 chain (v_epoch vote) (v_view vote)
                          (v_validator vote) (v_block_hash vote) (v_vote_type vote) (v_extension vote))
                          (v_signature vote))"
| "verify_relay_sender ed blake3 sender (Vote2Msg vote) keys ordered leader chain epoch =
     (if v_epoch vote \<noteq> epoch then False
      else case keys (v_validator vote) of
             None \<Rightarrow> False
           | Some pk \<Rightarrow> ed_verify ed pk (vote_signing_bytes blake3 chain (v_epoch vote) (v_view vote)
                          (v_validator vote) (v_block_hash vote) (v_vote_type vote) (v_extension vote))
                          (v_signature vote))"
| "verify_relay_sender ed blake3 sender (Prepare certificate signature) keys ordered leader chain epoch =
     (if (case leader of Some expected_leader \<Rightarrow> sender \<noteq> expected_leader | None \<Rightarrow> False) then False
      else case keys sender of
             None \<Rightarrow> False
           | Some pk \<Rightarrow> ed_verify ed pk (prepare_signing_bytes chain epoch certificate) signature)"
| "verify_relay_sender ed blake3 sender (Wish target_view validator highest_qc signature) keys ordered
     leader chain epoch =
     (case keys validator of
        None \<Rightarrow> False
      | Some pk \<Rightarrow> ed_verify ed pk (wish_signing_bytes blake3 chain epoch target_view highest_qc) signature)"
| "verify_relay_sender ed blake3 sender (TimeoutCert tc) keys ordered leader chain epoch =
     (case checked_add (tc_view tc) 1 of
        None \<Rightarrow> False
      | Some target_view \<Rightarrow>
          let n = length ordered; agg = tc_aggregate_signature tc
          in if n = 0 \<or> length (ag_signers agg) \<noteq> n then False
             else case relay_walk (\<lambda>pk hqc sg. ed_verify ed pk (wish_signing_bytes blake3 chain epoch target_view hqc) sg)
                         keys ordered (tc_highest_qcs tc) (ag_signatures agg) 0 0 0 (ag_signers agg) of
                    None \<Rightarrow> False
                  | Some (sig_idx, verified_count) \<Rightarrow>
                      if sig_idx \<noteq> length (ag_signatures agg) then False
                      else verified_count * 3 > n * 2)"
| "verify_relay_sender ed blake3 sender (StatusCert locked_qc validator signature) keys ordered leader chain epoch =
     (keys validator \<noteq> None)"
| "verify_relay_sender ed blake3 sender (Evidence p) keys ordered leader chain epoch = (keys sender \<noteq> None)"

section \<open>What a verified timeout certificate says\<close>

definition tc_signer_ok ::
    "(QuorumCertificate \<Rightarrow> bool) \<Rightarrow> (PublicKey \<Rightarrow> QuorumCertificate option \<Rightarrow> Signature \<Rightarrow> bool) \<Rightarrow>
     QuorumCertificate option list \<Rightarrow> nat \<Rightarrow> ValidatorInfo \<Rightarrow> Signature \<Rightarrow> bool" where
  "tc_signer_ok qc_ok sig_ok hqcs i v sg \<longleftrightarrow>
     (let hqc = (case nth_opt hqcs i of None \<Rightarrow> None | Some h \<Rightarrow> h)
      in (\<forall>qc. hqc = Some qc \<longrightarrow> qc_ok qc) \<and> sig_ok (vi_public_key v) hqc sg)"

lemma tc_walk_signer_walk:
  assumes "vs_wf vs"
  shows "tc_walk qc_ok sig_ok vs hqcs sigs i k p bs =
    map_option (\<lambda>n. (n, p + of_nat (power_sum (map snd (filter fst (zip bs (drop i (vs_validators vs))))))))
      (signer_walk (tc_signer_ok qc_ok sig_ok hqcs) (vs_validators vs) sigs i k bs)"
proof (induction bs arbitrary: i k p)
  case (Cons b bs)
  show ?case
  proof (cases "b \<and> i < length (vs_validators vs)")
    case False
    then show ?thesis
      by (cases "i < length (vs_validators vs)") (auto simp: Cons.IH nth_opt_def drop_Cons_nth)
  next
    case True
    then have d: "drop i (vs_validators vs) = vs_validators vs ! i # drop (Suc i) (vs_validators vs)"
      and n: "nth_opt (vs_validators vs) i = Some (vs_validators vs ! i)"
      by (simp_all add: drop_Cons_nth nth_opt_def)
    show ?thesis
      using True power_of_nth [OF assms, of i]
      by (simp add: d n Cons.IH tc_signer_ok_def Let_def add.assoc split: option.split)
  qed
qed simp

lemma verify_tc_iff:
  assumes "vs_wf vs"
  shows "verify_tc verify blake3 st prev tc vs \<longleftrightarrow>
    tc_view tc \<noteq> - 1 \<and> agg_wf (validator_count vs) (tc_aggregate_signature tc) \<and>
    length (tc_highest_qcs tc) = validator_count vs \<and>
    (\<forall>i sg. agg_lookup (tc_aggregate_signature tc) i = Some sg \<longrightarrow>
       i < validator_count vs \<and>
       (\<forall>qc. tc_highest_qcs tc ! i = Some qc \<longrightarrow> verify_justify_qc verify blake3 st prev qc) \<and>
       (\<exists>epoch \<in> set (verification_epochs st prev).
          verify (vi_public_key (vs_validators vs ! i))
            (wish_signing_bytes blake3 (cs_chain_id_hash st) epoch (tc_view tc + 1) (tc_highest_qcs tc ! i)) sg)) \<and>
    has_quorum vs (tc_aggregate_signature tc)"
proof -
  let ?agg = "tc_aggregate_signature tc"
  let ?sig = "\<lambda>pk hqc sg. \<exists>epoch \<in> set (verification_epochs st prev).
      verify pk (wish_signing_bytes blake3 (cs_chain_id_hash st) epoch (tc_view tc + 1) hqc) sg"
  let ?ok = "tc_signer_ok (verify_justify_qc verify blake3 st prev) ?sig (tc_highest_qcs tc)"
  let ?w = "signer_walk ?ok (vs_validators vs) (ag_signatures ?agg) 0 0 (ag_signers ?agg)"
  let ?pow = "power_sum (signer_infos vs ?agg)"
  have "unat (tc_view tc) \<le> 18446744073709551615" using unat_u64_less [of "tc_view tc"] by linarith
  then have add: "checked_add (tc_view tc) 1 = (if tc_view tc = - 1 then None else Some (tc_view tc + 1))"
    using word_unat_eq_iff [of "tc_view tc" "- 1"]
    by (auto simp: checked_add_def unsigned_minus_1_eq_mask mask_eq_exp_minus_1)
  have "?pow < 2 ^ 64"
    using power_sum_filter_zip [of "ag_signers ?agg" "vs_validators vs"] assms
    by (simp add: signer_infos_def vs_wf_def valid_infos_def)
  then have q: "quorum_threshold vs \<le> of_nat ?pow \<longleftrightarrow> has_quorum vs ?agg"
    by (simp add: has_quorum_iff [OF assms] word_le_nat_alt unat_of_nat_u64 unat_quorum_threshold)
  have "verify_tc verify blake3 st prev tc vs \<longleftrightarrow>
    tc_view tc \<noteq> - 1 \<and> length (ag_signers ?agg) = validator_count vs \<and>
    length (tc_highest_qcs tc) = validator_count vs \<and> ?w = Some (length (ag_signatures ?agg)) \<and> has_quorum vs ?agg"
    unfolding verify_tc_def add tc_walk_signer_walk [OF assms] q [symmetric] signer_infos_def
    by (auto simp: Let_def split: option.split)
  then have verify: "verify_tc verify blake3 st prev tc vs \<longleftrightarrow>
    tc_view tc \<noteq> - 1 \<and> agg_wf (validator_count vs) ?agg \<and> length (tc_highest_qcs tc) = validator_count vs \<and>
    (\<forall>i sg. agg_lookup ?agg i = Some sg \<longrightarrow> i < validator_count vs \<and> ?ok i (vs_validators vs ! i) sg) \<and>
    has_quorum vs ?agg"
    unfolding signer_walk_agg agg_wf_def validator_count_def by blast
  have ok: "?ok i v sg \<longleftrightarrow>
      (\<forall>qc. tc_highest_qcs tc ! i = Some qc \<longrightarrow> verify_justify_qc verify blake3 st prev qc) \<and>
      ?sig (vi_public_key v) (tc_highest_qcs tc ! i) sg" if "i < length (tc_highest_qcs tc)" for i v sg
    using that by (simp add: tc_signer_ok_def nth_opt_def Let_def)
  show ?thesis
  proof (cases "length (tc_highest_qcs tc) = validator_count vs")
    case True
    have "(\<forall>i sg. agg_lookup ?agg i = Some sg \<longrightarrow> i < validator_count vs \<and> ?ok i (vs_validators vs ! i) sg) \<longleftrightarrow>
      (\<forall>i sg. agg_lookup ?agg i = Some sg \<longrightarrow> i < validator_count vs \<and>
        (\<forall>qc. tc_highest_qcs tc ! i = Some qc \<longrightarrow> verify_justify_qc verify blake3 st prev qc) \<and>
        ?sig (vi_public_key (vs_validators vs ! i)) (tc_highest_qcs tc ! i) sg)"
      by (intro iff_allI imp_cong refl conj_cong ok) (simp add: True)
    then show ?thesis unfolding verify by (simp only:)
  qed (simp add: verify)
qed

text \<open>
  C39. What a timeout certificate proves: on a well-formed set \<open>verify_tc\<close> accepts exactly the
  certificates with one entry per validator in which every marked signer signed its wish for the next
  view, bound to the certificate it attached, every attached certificate of a signer is itself valid,
  and the signers have quorum power. In particular the certificate it hands to the view change is
  valid, whatever unsigned entries carry.
\<close>

theorem verify_tc_exact:
  assumes "vs_wf vs"
  shows "(verify_tc verify blake3 st prev tc vs \<longleftrightarrow>
      tc_view tc \<noteq> - 1 \<and> agg_wf (validator_count vs) (tc_aggregate_signature tc) \<and>
      length (tc_highest_qcs tc) = validator_count vs \<and>
      (\<forall>i sg. agg_lookup (tc_aggregate_signature tc) i = Some sg \<longrightarrow>
         i < validator_count vs \<and>
         (\<forall>qc. tc_highest_qcs tc ! i = Some qc \<longrightarrow> verify_justify_qc verify blake3 st prev qc) \<and>
         (\<exists>epoch \<in> set (verification_epochs st prev).
            verify (vi_public_key (vs_validators vs ! i))
              (wish_signing_bytes blake3 (cs_chain_id_hash st) epoch (tc_view tc + 1) (tc_highest_qcs tc ! i)) sg)) \<and>
      has_quorum vs (tc_aggregate_signature tc)) \<and>
    (verify_tc verify blake3 st prev tc vs \<longrightarrow>
      (\<forall>qc. highest_qc_of_tc tc = Some qc \<longrightarrow> verify_justify_qc verify blake3 st prev qc))"
proof (rule conjI [OF verify_tc_iff [OF assms]], intro impI allI)
  fix qc
  assume v: "verify_tc verify blake3 st prev tc vs" and "highest_qc_of_tc tc = Some qc"
  from highest_qc_of_tc_mem [OF this(2)] obtain i where
    i: "i < length (ag_signers (tc_aggregate_signature tc))" "ag_signers (tc_aggregate_signature tc) ! i"
      "tc_highest_qcs tc ! i = Some qc" by blast
  then obtain sg where "agg_lookup (tc_aggregate_signature tc) i = Some sg"
    by (auto simp: agg_lookup_def)
  with v i(3) show "verify_justify_qc verify blake3 st prev qc"
    unfolding verify_tc_iff [OF assms] by blast
qed

definition sample_tc :: TimeoutCertificate where
  "sample_tc =
     \<lparr> tc_view = 4,
       tc_aggregate_signature = \<lparr> ag_signers = [True, False, True, True], ag_signatures = [[1], [3], [4]] \<rparr>,
       tc_highest_qcs = [None, Some (sample_qc 99), None, None] \<rparr>"

lemma verify_tc_exact_witness:
  "verify_tc (\<lambda>pk m sg. True) (\<lambda>m. hash_rep 9) (sample_state 1) None sample_tc sample_set"
proof (rule conjunct1 [OF verify_tc_exact [OF sample_set_wf], THEN iffD2], intro conjI allI impI)
  show "agg_wf (validator_count sample_set) (tc_aggregate_signature sample_tc)"
    by (simp add: agg_wf_def sample_tc_def validator_count_def sample_set_def sample_infos_def)
  show "has_quorum sample_set (tc_aggregate_signature sample_tc)"
    by (simp add: has_quorum_iff [OF sample_set_wf] signer_infos_def sample_tc_def)
       (simp add: sample_set_def sample_infos_def)
next
  fix i sg
  assume i: "agg_lookup (tc_aggregate_signature sample_tc) i = Some sg"
  then have "i < 4 \<and> i \<noteq> 1" by (auto simp: agg_lookup_def sample_tc_def split: if_splits)
  then have "i = 0 \<or> i = 2 \<or> i = 3" by linarith
  then show "tc_highest_qcs sample_tc ! i = Some qc \<Longrightarrow>
      verify_justify_qc (\<lambda>pk m sg. True) (\<lambda>m. hash_rep 9) (sample_state 1) None qc"
    "i < validator_count sample_set" for qc
    by (auto simp: sample_tc_def validator_count_def sample_set_def sample_infos_def)
qed (auto simp: sample_tc_def validator_count_def sample_set_def sample_infos_def verification_epochs_def Let_def)

text \<open>
  C40. A timeout certificate that the pacemaker builds passes verification: if every wish collected for
  a view, the new one included, that is from a member was signed by it for that view and carries a
  valid certificate or none, then the certificate \<open>add_wish\<close> returns is accepted by \<open>verify_tc\<close>.
\<close>

theorem add_wish_tc_verifies:
  assumes "vs_wf vs" "pm_wf pm" "tv \<noteq> 0" "snd (add_wish vs tv i hqc sg pm) = Some tc"
    and "\<forall>(vid, h, s) \<in> set (wishes_for pm tv @ [(i, hqc, sg)]). \<forall>vi. get_validator vs vid = Some vi \<longrightarrow>
          (\<forall>qc. h = Some qc \<longrightarrow> verify_justify_qc verify blake3 st prev qc) \<and>
          (\<exists>epoch \<in> set (verification_epochs st prev).
             verify (vi_public_key vi) (wish_signing_bytes blake3 (cs_chain_id_hash st) epoch tv h) s)"
  shows "verify_tc verify blake3 st prev tc vs"
proof -
  note tc = add_wish_tc [OF assms(1, 2, 4)]
  have view: "tc_view tc \<noteq> - 1" "tc_view tc + 1 = tv"
    using assms(3) tc(1) by (auto simp: saturating_sub_def word_le_nat_alt unat_gt_0 Suc_le_eq split: if_splits)
  have each: "k < validator_count vs \<and>
      (\<forall>qc. tc_highest_qcs tc ! k = Some qc \<longrightarrow> verify_justify_qc verify blake3 st prev qc) \<and>
      (\<exists>epoch \<in> set (verification_epochs st prev). verify (vi_public_key (vs_validators vs ! k))
          (wish_signing_bytes blake3 (cs_chain_id_hash st) epoch tv (tc_highest_qcs tc ! k)) s)"
    if "agg_lookup (tc_aggregate_signature tc) k = Some s" for k s
  proof -
    from that obtain vid h where w: "(vid, h, s) \<in> set (wishes_for pm tv @ [(i, hqc, sg)])"
      "index_of vs vid = Some k" unfolding tc(5) by blast
    have k: "k < validator_count vs" "vi_id (vs_validators vs ! k) = vid"
      using w(2) assms(1) by (simp_all add: index_of_Some validator_count_def)
    then have "get_validator vs vid = Some (vs_validators vs ! k)"
      using get_validator_nth [OF assms(1), of k] by (simp add: validator_count_def)
    with k w assms(5) tc(6) [OF w] show ?thesis by blast
  qed
  have "v \<in> set (signer_infos vs (tc_aggregate_signature tc))"
    if v: "v \<in> wishers vs (wishes_for pm tv @ [(i, hqc, sg)])" for v
  proof -
    from v have mem: "v \<in> set (vs_validators vs)" "vi_id v \<in> fst ` set (wishes_for pm tv @ [(i, hqc, sg)])"
      by (simp_all add: wishers_def)
    from mem(1) obtain k where k: "k < length (vs_validators vs)" "v = vs_validators vs ! k"
      by (metis in_set_conv_nth)
    from mem(2) obtain x where x: "x \<in> set (wishes_for pm tv @ [(i, hqc, sg)])" "vi_id v = fst x"
      by (elim imageE)
    obtain a h s where "x = (a, h, s)" by (rule prod_cases3)
    with x have w: "(vi_id v, h, s) \<in> set (wishes_for pm tv @ [(i, hqc, sg)])" by simp
    from k have "index_of vs (vi_id v) = Some k" using assms(1) by (simp add: index_of_Some)
    with w have "agg_lookup (tc_aggregate_signature tc) k = Some s" unfolding tc(5) by blast
    with k show ?thesis
      using agg_signer_iff [of k "tc_aggregate_signature tc"] by (auto simp: mem_signer_infos)
  qed
  then have "set_power (wishers vs (wishes_for pm tv @ [(i, hqc, sg)])) \<le>
      set_power (set (signer_infos vs (tc_aggregate_signature tc)))"
    by (intro set_power_mono) auto
  with tc(7) have "has_quorum vs (tc_aggregate_signature tc)"
    by (simp add: has_quorum_set [OF assms(1)])
  with each view tc(3, 4) show ?thesis unfolding verify_tc_iff [OF assms(1)] by simp
qed

lemma add_wish_tc_verifies_witness:
  "\<exists>tc. snd (add_wish sample_set 5 2 None [2]
           (sample_pacemaker\<lparr>pm_wishes := [5 \<mapsto> [(1, None, [1]), (4, None, [4])]]\<rparr>)) = Some tc \<and>
     verify_tc (\<lambda>pk m sg. True) (\<lambda>m. hash_rep 9) (sample_state 1) None tc sample_set"
proof -
  let ?pm = "sample_pacemaker\<lparr>pm_wishes := [5 \<mapsto> [(1, None, [1]), (4, None, [4])]]\<rparr>"
  have wf: "pm_wf ?pm" by (simp add: pm_wf_def sample_pacemaker_def wishes_for_def pm_with_config_def Let_def)
  have "wishers sample_set (wishes_for ?pm 5 @ [(2, None, [2])]) =
      wishers sample_set (wishes_for sample_pacemaker 5 @ [(2, Some (sample_qc 1), [2])])"
    by (simp add: wishers_def wishes_for_def sample_pacemaker_def)
  moreover have "2 \<notin> fst ` set (wishes_for ?pm 5)" by (simp add: wishes_for_def)
  ultimately obtain tc where tc: "snd (add_wish sample_set 5 2 None [2] ?pm) = Some tc"
    using sample_wishers by (simp add: add_wish_result [OF sample_set_wf wf])
  have "verify_tc (\<lambda>pk m sg. True) (\<lambda>m. hash_rep 9) (sample_state 1) None tc sample_set"
    by (rule add_wish_tc_verifies [OF sample_set_wf wf _ tc])
       (auto simp: wishes_for_def verification_epochs_def Let_def)
  with tc show ?thesis by blast
qed

section \<open>Counting signers\<close>

text \<open>
  The relay check and the engine disagree on timeout certificates: with powers 10, 1, 1 and 1 the
  first validator has quorum power alone, and a certificate it signed passes \<open>verify_tc\<close>; the relay
  check counts signers instead of adding their powers and refuses to forward it.
\<close>

definition skewed_infos :: "ValidatorInfo list" where
  "skewed_infos = map (\<lambda>(i, p). \<lparr> vi_id = i, vi_public_key = replicate 32 (ucast i), vi_power = p \<rparr>)
     [(1, 10), (2, 1), (3, 1), (4, 1)]"

definition skewed_set :: ValidatorSet where
  "skewed_set = \<lparr> vs_validators = skewed_infos, vs_total_power = 13, vs_index_map = rebuild_index skewed_infos \<rparr>"

definition skewed_tc :: TimeoutCertificate where
  "skewed_tc = \<lparr> tc_view = 4, tc_aggregate_signature =
     \<lparr> ag_signers = [True, False, False, False], ag_signatures = [replicate 64 1] \<rparr>,
     tc_highest_qcs = [None, None, None, None] \<rparr>"

definition accepting_ed :: Ed25519 where
  "accepting_ed = \<lparr> vk_from_bytes = (\<lambda>k. True), verify_strict = (\<lambda>k m s. True), verify_batch = (\<lambda>b. True) \<rparr>"

lemma skewed_set_wf: "vs_wf skewed_set"
  by (simp add: vs_wf_def valid_infos_def skewed_set_def skewed_infos_def)

lemma relay_refuses_valid_tc:
  "verify_tc (ed_verify accepting_ed) blake3 (with_chain_id blake3 1 skewed_set []) None skewed_tc skewed_set \<and>
   \<not> verify_relay_sender accepting_ed blake3 sender (TimeoutCert skewed_tc)
       (map_of (map (\<lambda>v. (vi_id v, vi_public_key v)) skewed_infos)) (map vi_id skewed_infos) leader chain epoch"
proof
  show "verify_tc (ed_verify accepting_ed) blake3 (with_chain_id blake3 1 skewed_set []) None skewed_tc skewed_set"
    unfolding verify_tc_iff [OF skewed_set_wf] has_quorum_iff [OF skewed_set_wf]
    by (auto simp: skewed_tc_def agg_wf_def agg_lookup_def validator_count_def skewed_set_def skewed_infos_def
        signer_infos_def verification_epochs_def ed_verify_def accepting_ed_def Let_def less_Suc_eq nth_Cons
        split: if_splits nat.splits)
  show "\<not> verify_relay_sender accepting_ed blake3 sender (TimeoutCert skewed_tc)
       (map_of (map (\<lambda>v. (vi_id v, vi_public_key v)) skewed_infos)) (map vi_id skewed_infos) leader chain epoch"
    by (simp add: skewed_tc_def skewed_infos_def Let_def checked_add_def ed_verify_def accepting_ed_def)
qed

end
