(* ===== verification/Vote_Collector.thy ===== *)
theory Vote_Collector
  imports Aggregate
begin

text \<open>
  \<open>hotmint-consensus/src/vote_collector.rs\<close>. The \<open>HashMap\<close> of vote buckets is an association
  list, whose order stands for the iteration order of the equivocation scan. An operation returns
  the new collector beside its result, because the error paths leave buckets behind.
\<close>

section \<open>Operations\<close>

type_synonym vote_key = "EpochNumber \<times> ViewNumber \<times> BlockHash \<times> VoteType"

record VoteCollector =
  vc_votes :: "(vote_key \<times> Vote list) list"

record VoteResult =
  vr_qc :: "QuorumCertificate option"
  vr_equivocation :: "EquivocationProof option"
  vr_extensions :: "(ValidatorId \<times> bytes) list"

datatype vote_error =
    VoteEpochMismatch EpochNumber EpochNumber
  | FirstPhaseExtension
  | VoteFromUnknownValidator ValidatorId
  | VoteAggregation agg_error

definition vc_new :: VoteCollector where
  "vc_new = \<lparr> vc_votes = [] \<rparr>"

fun find_equivocation ::
    "EpochNumber \<Rightarrow> Vote \<Rightarrow> (vote_key \<times> Vote list) list \<Rightarrow> EquivocationProof option" where
  "find_equivocation epoch vote [] = None"
| "find_equivocation epoch vote (((ep, v, bh, vt), existing_votes) # rest) =
     (if ep = epoch \<and> v = v_view vote \<and> vt = v_vote_type vote \<and> bh \<noteq> v_block_hash vote
      then (case find (\<lambda>ev. v_validator ev = v_validator vote) existing_votes of
              Some existing \<Rightarrow> Some
                \<lparr> ev_validator = v_validator vote, ev_view = v_view vote,
                  ev_vote_type = v_vote_type vote, ev_epoch = epoch,
                  ev_block_hash_a = v_block_hash existing, ev_signature_a = v_signature existing,
                  ev_extension_a = v_extension existing,
                  ev_block_hash_b = v_block_hash vote, ev_signature_b = v_signature vote,
                  ev_extension_b = v_extension vote \<rparr>
            | None \<Rightarrow> find_equivocation epoch vote rest)
      else find_equivocation epoch vote rest)"

definition vote_extensions_of :: "Vote list \<Rightarrow> (ValidatorId \<times> bytes) list" where
  "vote_extensions_of votes =
     List.map_filter (\<lambda>v. map_option (Pair (v_validator v)) (v_extension v)) votes"

text \<open>The result of a call that stored the vote: a certificate if the bucket has a quorum.\<close>

definition form_result ::
    "ValidatorSet \<Rightarrow> vote_key \<Rightarrow> AggregateSignature \<Rightarrow> EquivocationProof option \<Rightarrow> Vote list \<Rightarrow>
     VoteResult" where
  "form_result vs key agg equivocation votes =
     (if has_quorum vs agg
      then \<lparr> vr_qc = Some \<lparr> qc_block_hash = fst (snd (snd key)), qc_view = fst (snd key),
                           qc_aggregate_signature = agg, qc_epoch = fst key \<rparr>,
             vr_equivocation = equivocation, vr_extensions = vote_extensions_of votes \<rparr>
      else \<lparr> vr_qc = None, vr_equivocation = equivocation, vr_extensions = [] \<rparr>)"

text \<open>\<open>entry(key).or_default()\<close> of the votes of one key.\<close>

definition bucket :: "VoteCollector \<Rightarrow> vote_key \<Rightarrow> Vote list" where
  "bucket c key = (case map_of (vc_votes c) key of None \<Rightarrow> [] | Some votes \<Rightarrow> votes)"

definition set_bucket :: "VoteCollector \<Rightarrow> vote_key \<Rightarrow> Vote list \<Rightarrow> VoteCollector" where
  "set_bucket c key votes = c\<lparr>vc_votes := AList.update key votes (vc_votes c)\<rparr>"

definition add_vote ::
    "ValidatorSet \<Rightarrow> Vote \<Rightarrow> EpochNumber \<Rightarrow> VoteCollector \<Rightarrow>
     VoteCollector \<times> (vote_error + VoteResult)" where
  "add_vote vs vote epoch c =
     (if v_epoch vote \<noteq> epoch then (c, Inl (VoteEpochMismatch (v_epoch vote) epoch))
      else if v_vote_type vote = Vote \<and> v_extension vote \<noteq> None then (c, Inl FirstPhaseExtension)
      else
        let equivocation = find_equivocation epoch vote (vc_votes c);
            key = (epoch, v_view vote, v_block_hash vote, v_vote_type vote);
            votes = bucket c key
        in if \<exists>v \<in> set votes. v_validator v = v_validator vote
           then (set_bucket c key votes,
                 Inr \<lparr> vr_qc = None, vr_equivocation = equivocation, vr_extensions = [] \<rparr>)
           else if get_validator vs (v_validator vote) = None
           then (set_bucket c key votes, Inl (VoteFromUnknownValidator (v_validator vote)))
           else
             let votes' = votes @ [vote];
                 c' = set_bucket c key votes'
             in case aggregate_votes vs votes' of
                  Inl e \<Rightarrow> (c', Inl (VoteAggregation e))
                | Inr agg \<Rightarrow> (c', Inr (form_result vs key agg equivocation votes')))"

definition vc_clear_view :: "ViewNumber \<Rightarrow> VoteCollector \<Rightarrow> VoteCollector" where
  "vc_clear_view view c = c\<lparr>vc_votes := filter (\<lambda>(k, _). fst (snd k) \<noteq> view) (vc_votes c)\<rparr>"

definition vc_prune_before :: "ViewNumber \<Rightarrow> VoteCollector \<Rightarrow> VoteCollector" where
  "vc_prune_before min_view c =
     c\<lparr>vc_votes := filter (\<lambda>(k, _). fst (snd k) \<ge> min_view) (vc_votes c)\<rparr>"

section \<open>The invariant\<close>

text \<open>
  Every bucket holds votes of its key, one per validator, all of members of the set of the key's
  epoch, and first-phase votes without an extension.
\<close>

definition key_of :: "Vote \<Rightarrow> vote_key" where
  "key_of vote = (v_epoch vote, v_view vote, v_block_hash vote, v_vote_type vote)"

abbreviation admissible :: "Vote \<Rightarrow> bool" where
  "admissible vote \<equiv> v_vote_type vote = Vote \<longrightarrow> v_extension vote = None"

definition bucket_ok :: "(EpochNumber \<Rightarrow> ValidatorSet) \<Rightarrow> vote_key \<Rightarrow> Vote list \<Rightarrow> bool" where
  "bucket_ok vs_of key votes \<longleftrightarrow>
     distinct (map v_validator votes) \<and>
     (\<forall>vote \<in> set votes.
        key_of vote = key \<and> get_validator (vs_of (fst key)) (v_validator vote) \<noteq> None \<and>
        admissible vote)"

definition vc_wf :: "(EpochNumber \<Rightarrow> ValidatorSet) \<Rightarrow> VoteCollector \<Rightarrow> bool" where
  "vc_wf vs_of c \<longleftrightarrow>
     distinct (map fst (vc_votes c)) \<and> (\<forall>(key, votes) \<in> set (vc_votes c). bucket_ok vs_of key votes)"

definition stored :: "VoteCollector \<Rightarrow> Vote set" where
  "stored c = (\<Union>(key, votes) \<in> set (vc_votes c). set votes)"

lemma set_AList_update:
  "(k, b) \<in> set (AList.update key v xs) \<Longrightarrow> (k, b) = (key, v) \<or> (k, b) \<in> set xs"
  by (induction xs) (auto split: if_splits)

lemma bucket_ok_Nil [simp]: "bucket_ok vs_of key []"
  by (simp add: bucket_ok_def)

lemma vc_wf_new [simp]: "vc_wf vs_of vc_new"
  by (simp add: vc_wf_def vc_new_def)

lemma vc_wf_bucket: "vc_wf vs_of c \<Longrightarrow> bucket_ok vs_of key (bucket c key)"
  by (auto simp: vc_wf_def bucket_def split: option.splits dest: map_of_SomeD)

lemma vc_wf_set_bucket:
  assumes "vc_wf vs_of c" "bucket_ok vs_of key votes"
  shows "vc_wf vs_of (set_bucket c key votes)"
proof -
  have "distinct (map fst (AList.update key votes (vc_votes c)))"
    using assms(1) by (simp add: vc_wf_def distinct_update)
  moreover have "bucket_ok vs_of k b" if "(k, b) \<in> set (AList.update key votes (vc_votes c))" for k b
  proof -
    from that have "(k, b) = (key, votes) \<or> (k, b) \<in> set (vc_votes c)"
      by (rule set_AList_update)
    with assms show ?thesis by (auto simp: vc_wf_def)
  qed
  ultimately show ?thesis by (auto simp: vc_wf_def set_bucket_def)
qed

lemma bucket_set_bucket [simp]:
  "bucket (set_bucket c key votes) k = (if k = key then votes else bucket c k)"
  by (auto simp: bucket_def set_bucket_def update_conv')

lemma stored_bucket: "vc_wf vs_of c \<Longrightarrow> vote \<in> stored c \<longleftrightarrow> vote \<in> set (bucket c (key_of vote))"
proof
  assume wf: "vc_wf vs_of c"
  {
    assume "vote \<in> stored c"
    then obtain key votes where k: "(key, votes) \<in> set (vc_votes c)" "vote \<in> set votes"
      by (auto simp: stored_def)
    with wf have "key = key_of vote" by (auto simp: vc_wf_def bucket_ok_def)
    moreover have "map_of (vc_votes c) key = Some votes" using wf k by (simp add: vc_wf_def)
    ultimately show "vote \<in> set (bucket c (key_of vote))" using k by (simp add: bucket_def)
  }
  assume "vote \<in> set (bucket c (key_of vote))"
  then show "vote \<in> stored c"
    by (cases "map_of (vc_votes c) (key_of vote)")
       (auto simp: bucket_def stored_def dest!: map_of_SomeD)
qed

section \<open>What add_vote does\<close>

lemma find_equivocation_Some:
  assumes "find_equivocation epoch vote m = Some p"
  shows "\<exists>b \<in> set m. \<exists>existing \<in> set (snd b).
    fst b = (epoch, v_view vote, fst (snd (snd (fst b))), v_vote_type vote) \<and>
    fst (snd (snd (fst b))) \<noteq> v_block_hash vote \<and> v_validator existing = v_validator vote \<and>
    p = \<lparr> ev_validator = v_validator vote, ev_view = v_view vote,
          ev_vote_type = v_vote_type vote, ev_epoch = epoch,
          ev_block_hash_a = v_block_hash existing, ev_signature_a = v_signature existing,
          ev_extension_a = v_extension existing, ev_block_hash_b = v_block_hash vote,
          ev_signature_b = v_signature vote, ev_extension_b = v_extension vote \<rparr>"
  using assms
proof (induction epoch vote m rule: find_equivocation.induct)
  case (2 epoch vote ep v bh vt existing_votes rest)
  let ?hit = "ep = epoch \<and> v = v_view vote \<and> vt = v_vote_type vote \<and> bh \<noteq> v_block_hash vote"
  let ?find = "find (\<lambda>ev. v_validator ev = v_validator vote) existing_votes"
  show ?case
  proof (cases "?hit \<and> ?find \<noteq> None")
    case True
    then obtain e where "?find = Some e" by auto
    then have "e \<in> set existing_votes" "v_validator e = v_validator vote"
      by (auto simp: find_Some_iff)
    with True \<open>?find = Some e\<close> 2(3) show ?thesis
      by (intro bexI [of _ "((ep, v, bh, vt), existing_votes)"] bexI [of _ e]) auto
  next
    case False
    with 2 have "find_equivocation epoch vote rest = Some p" by (auto split: if_splits)
    with False 2(1,2) show ?thesis
      unfolding list.set(2) bex_simps(5) by (cases ?hit) (simp_all only: not_False_eq_True simp_thms)
  qed
qed simp

lemma find_equivocation_None:
  assumes "find_equivocation epoch vote m = None" "(key, votes) \<in> set m" "existing \<in> set votes"
    "key = (epoch, v_view vote, bh, v_vote_type vote)" "bh \<noteq> v_block_hash vote"
  shows "v_validator existing \<noteq> v_validator vote"
  using assms
  by (induction epoch vote m rule: find_equivocation.induct)
     (auto simp: find_None_iff split: if_splits option.splits)

text \<open>On a well-formed collector the scan finds evidence exactly when there is some.\<close>

definition conflicts :: "Vote \<Rightarrow> Vote \<Rightarrow> bool" where
  "conflicts a b \<longleftrightarrow>
     v_epoch a = v_epoch b \<and> v_view a = v_view b \<and> v_vote_type a = v_vote_type b \<and>
     v_validator a = v_validator b \<and> v_block_hash a \<noteq> v_block_hash b"

definition proof_of :: "Vote \<Rightarrow> Vote \<Rightarrow> EquivocationProof" where
  "proof_of a b =
     \<lparr> ev_validator = v_validator b, ev_view = v_view b, ev_vote_type = v_vote_type b,
       ev_epoch = v_epoch b, ev_block_hash_a = v_block_hash a, ev_signature_a = v_signature a,
       ev_extension_a = v_extension a, ev_block_hash_b = v_block_hash b,
       ev_signature_b = v_signature b, ev_extension_b = v_extension b \<rparr>"

lemma find_equivocation_spec:
  assumes wf: "vc_wf vs_of c"
  shows "case find_equivocation (v_epoch vote) vote (vc_votes c) of
           Some p \<Rightarrow> \<exists>a \<in> stored c. conflicts a vote \<and> p = proof_of a vote
         | None \<Rightarrow> \<forall>a \<in> stored c. \<not> conflicts a vote"
proof (cases "find_equivocation (v_epoch vote) vote (vc_votes c)")
  case None
  have "\<not> conflicts a vote" if "a \<in> stored c" for a
  proof
    assume cf: "conflicts a vote"
    from that obtain key votes where k: "(key, votes) \<in> set (vc_votes c)" "a \<in> set votes"
      by (auto simp: stored_def)
    with wf have "key = (v_epoch a, v_view a, v_block_hash a, v_vote_type a)"
      by (auto simp: vc_wf_def bucket_ok_def key_of_def)
    with find_equivocation_None [OF None k] cf show False by (auto simp: conflicts_def)
  qed
  with None show ?thesis by simp
next
  case (Some p)
  from find_equivocation_Some [OF Some] obtain b a where
    "b \<in> set (vc_votes c)" "a \<in> set (snd b)"
      "fst b = (v_epoch vote, v_view vote, fst (snd (snd (fst b))), v_vote_type vote)"
      "fst (snd (snd (fst b))) \<noteq> v_block_hash vote" "v_validator a = v_validator vote"
      "p = proof_of a vote"
    unfolding proof_of_def by blast
  then obtain key votes where
    k: "(key, votes) \<in> set (vc_votes c)" "a \<in> set votes"
      "key = (v_epoch vote, v_view vote, fst (snd (snd key)), v_vote_type vote)"
      "fst (snd (snd key)) \<noteq> v_block_hash vote" "v_validator a = v_validator vote"
      "p = proof_of a vote"
    by (metis prod.collapse)
  from wf k(1,2) have "key = (v_epoch a, v_view a, v_block_hash a, v_vote_type a)"
    by (auto simp: vc_wf_def bucket_ok_def key_of_def)
  with k have "conflicts a vote" by (auto simp: conflicts_def)
  moreover have "a \<in> stored c" using k by (auto simp: stored_def)
  ultimately show ?thesis using Some k by auto
qed

text \<open>The three outcomes of a call that passes the two guards.\<close>

lemma bucket_ok_append:
  assumes "bucket_ok vs_of (key_of vote) votes" "admissible vote"
    and "get_validator (vs_of (v_epoch vote)) (v_validator vote) \<noteq> None"
    and "v_validator vote \<notin> v_validator ` set votes"
  shows "bucket_ok vs_of (key_of vote) (votes @ [vote])"
  using assms by (auto simp: bucket_ok_def key_of_def)

lemma add_vote_duplicate:
  assumes "admissible vote" "v_validator vote \<in> v_validator ` set (bucket c (key_of vote))"
  shows "add_vote vs vote (v_epoch vote) c =
    (set_bucket c (key_of vote) (bucket c (key_of vote)),
     Inr \<lparr> vr_qc = None, vr_equivocation = find_equivocation (v_epoch vote) vote (vc_votes c),
           vr_extensions = [] \<rparr>)"
proof -
  have "\<exists>v \<in> set (bucket c (key_of vote)). v_validator v = v_validator vote" using assms(2) by auto
  with assms(1) show ?thesis by (auto simp: add_vote_def Let_def key_of_def)
qed

lemma add_vote_unknown:
  assumes "admissible vote" "v_validator vote \<notin> v_validator ` set (bucket c (key_of vote))"
    and "get_validator vs (v_validator vote) = None"
  shows "add_vote vs vote (v_epoch vote) c =
    (set_bucket c (key_of vote) (bucket c (key_of vote)),
     Inl (VoteFromUnknownValidator (v_validator vote)))"
  using assms by (auto simp: add_vote_def Let_def key_of_def image_iff)

lemma add_vote_fresh:
  assumes "vs_wf vs" "vs = vs_of (v_epoch vote)" "vc_wf vs_of c" "admissible vote"
    and "v_validator vote \<notin> v_validator ` set (bucket c (key_of vote))"
    and "get_validator vs (v_validator vote) \<noteq> None"
  defines "votes' \<equiv> bucket c (key_of vote) @ [vote]"
  shows "\<exists>agg. agg_wf (validator_count vs) agg \<and>
    (\<forall>i sg. agg_lookup agg i = Some sg \<longleftrightarrow>
       (\<exists>w \<in> set votes'. index_of vs (v_validator w) = Some i \<and> v_signature w = sg)) \<and>
    bucket_ok vs_of (key_of vote) votes' \<and>
    add_vote vs vote (v_epoch vote) c =
      (set_bucket c (key_of vote) votes',
       Inr (form_result vs (key_of vote) agg
              (find_equivocation (v_epoch vote) vote (vc_votes c)) votes'))"
proof -
  have ok: "bucket_ok vs_of (key_of vote) votes'"
    unfolding votes'_def using assms by (intro bucket_ok_append vc_wf_bucket) auto
  then have d: "distinct (map v_validator votes')"
    and m: "\<forall>w \<in> set votes'. get_validator vs (v_validator w) \<noteq> None"
    using assms(2) by (auto simp: bucket_ok_def key_of_def)
  from aggregate_votes_spec [OF assms(1) d m] obtain agg where agg:
    "aggregate_votes vs votes' = Inr agg" "agg_wf (validator_count vs) agg"
    "\<forall>i sg. agg_lookup agg i = Some sg \<longleftrightarrow>
       (\<exists>w \<in> set votes'. index_of vs (v_validator w) = Some i \<and> v_signature w = sg)"
    by blast
  have n: "\<not> (\<exists>v \<in> set (bucket c (key_of vote)). v_validator v = v_validator vote)"
    using assms(5) by (auto simp: image_iff)
  have "add_vote vs vote (v_epoch vote) c =
      (set_bucket c (key_of vote) votes',
       Inr (form_result vs (key_of vote) agg
              (find_equivocation (v_epoch vote) vote (vc_votes c)) votes'))"
    using assms(4,6) n agg(1) unfolding add_vote_def votes'_def
    by (auto simp: Let_def simp flip: key_of_def)
  with agg ok show ?thesis by blast
qed

lemma add_vote_wf:
  assumes "vs_wf (vs_of epoch)" "vc_wf vs_of c"
  shows "vc_wf vs_of (fst (add_vote (vs_of epoch) vote epoch c))"
proof (cases "v_epoch vote = epoch \<and> admissible vote")
  case False
  with assms show ?thesis by (auto simp: add_vote_def)
next
  case True
  let ?b = "bucket c (key_of vote)"
  have same: "vc_wf vs_of (set_bucket c (key_of vote) ?b)"
    using assms by (intro vc_wf_set_bucket vc_wf_bucket)
  consider "v_validator vote \<in> v_validator ` set ?b"
    | "v_validator vote \<notin> v_validator ` set ?b" "get_validator (vs_of epoch) (v_validator vote) = None"
    | "v_validator vote \<notin> v_validator ` set ?b" "get_validator (vs_of epoch) (v_validator vote) \<noteq> None"
    by blast
  then show ?thesis
  proof cases
    case 1
    with True same add_vote_duplicate [of vote c "vs_of epoch"] show ?thesis by auto
  next
    case 2
    with True same add_vote_unknown [of vote c "vs_of epoch"] show ?thesis by auto
  next
    case 3
    with True assms obtain votes' r where "bucket_ok vs_of (key_of vote) votes'"
      "add_vote (vs_of epoch) vote epoch c = (set_bucket c (key_of vote) votes', r)"
      using add_vote_fresh [of "vs_of epoch" vs_of vote c] by blast
    with assms show ?thesis by (simp add: vc_wf_set_bucket)
  qed
qed

lemma vc_prune_wf: "vc_wf vs_of c \<Longrightarrow> vc_wf vs_of (vc_prune_before v c)"
  by (auto simp: vc_wf_def vc_prune_before_def distinct_map_filter)

lemma vc_clear_wf: "vc_wf vs_of c \<Longrightarrow> vc_wf vs_of (vc_clear_view v c)"
  by (auto simp: vc_wf_def vc_clear_view_def distinct_map_filter)

section \<open>The certificate formed\<close>

lemma signer_infos_of_votes:
  assumes wf: "vs_wf vs" and a: "agg_wf (validator_count vs) agg"
    and l: "\<forall>i sg. agg_lookup agg i = Some sg \<longleftrightarrow>
       (\<exists>w \<in> set votes. index_of vs (v_validator w) = Some i \<and> v_signature w = sg)"
  shows "set (signer_infos vs agg) = {v \<in> set (vs_validators vs). vi_id v \<in> v_validator ` set votes}"
proof -
  have s: "(i < length (ag_signers agg) \<and> ag_signers agg ! i) \<longleftrightarrow>
      (\<exists>w \<in> set votes. index_of vs (v_validator w) = Some i)" for i
  proof -
    have "(i < length (ag_signers agg) \<and> ag_signers agg ! i) \<longleftrightarrow> (\<exists>sg. agg_lookup agg i = Some sg)"
      by (auto simp: agg_lookup_def)
    with l show ?thesis by auto
  qed
  have "v \<in> set (signer_infos vs agg) \<longleftrightarrow>
      (\<exists>i < length (vs_validators vs). vs_validators vs ! i = v \<and>
         (\<exists>w \<in> set votes. index_of vs (v_validator w) = Some i))" for v
    by (auto simp: mem_signer_infos simp flip: s)
  also have "\<dots> v \<longleftrightarrow> v \<in> set (vs_validators vs) \<and> vi_id v \<in> v_validator ` set votes" for v
    by (auto simp: index_of_Some [OF wf] in_set_conv_nth image_iff)
  finally show ?thesis by auto
qed

lemma map_of_vote_extensions:
  assumes "distinct (map v_validator votes)" "w \<in> set votes"
  shows "map_of (rev (vote_extensions_of votes)) (v_validator w) = v_extension w"
proof -
  have keys: "fst ` set (vote_extensions_of vs) \<subseteq> v_validator ` set vs" for vs
    by (auto simp: vote_extensions_of_def List.map_filter_def)
  have d: "distinct (map fst (vote_extensions_of votes))"
    using assms(1)
  proof (induction votes)
    case (Cons v votes)
    then show ?case using keys [of votes]
      by (auto simp: vote_extensions_of_def List.map_filter_def split: option.splits)
  qed (simp add: vote_extensions_of_def List.map_filter_def)
  have e: "(v_validator w, x) \<in> set (vote_extensions_of votes) \<longleftrightarrow> v_extension w = Some x" for x
  proof
    assume "(v_validator w, x) \<in> set (vote_extensions_of votes)"
    then obtain u where "u \<in> set votes" "v_validator u = v_validator w" "v_extension u = Some x"
      by (auto simp: vote_extensions_of_def List.map_filter_def)
    with assms show "v_extension w = Some x" by (metis distinct_map inj_onD)
  next
    assume "v_extension w = Some x"
    with assms(2) show "(v_validator w, x) \<in> set (vote_extensions_of votes)"
      by (force simp: vote_extensions_of_def List.map_filter_def)
  qed
  have "distinct (map fst (rev (vote_extensions_of votes)))" using d by (simp flip: rev_map)
  then have "map_of (rev (vote_extensions_of votes)) (v_validator w) = Some x \<longleftrightarrow> v_extension w = Some x" for x
    using e by simp
  then show ?thesis by (metis option.exhaust)
qed

definition vote_valid ::
    "(PublicKey \<Rightarrow> bytes \<Rightarrow> Signature \<Rightarrow> bool) \<Rightarrow> (bytes \<Rightarrow> hash32) \<Rightarrow> hash32 \<Rightarrow> ValidatorSet \<Rightarrow> Vote \<Rightarrow> bool" where
  "vote_valid verify blake3 chain vs vote \<longleftrightarrow>
     (\<exists>v. get_validator vs (v_validator vote) = Some v \<and>
        verify (vi_public_key v)
          (vote_signing_bytes blake3 chain (v_epoch vote) (v_view vote) (v_validator vote)
             (v_block_hash vote) (v_vote_type vote) (v_extension vote)) (v_signature vote))"

lemma aggregate_verifies:
  assumes wf: "vs_wf vs" and a: "agg_wf (validator_count vs) agg"
    and l: "\<forall>i sg. agg_lookup agg i = Some sg \<longleftrightarrow>
       (\<exists>w \<in> set votes. index_of vs (v_validator w) = Some i \<and> v_signature w = sg)"
    and d: "distinct (map v_validator votes)"
    and k: "\<forall>w \<in> set votes. key_of w = (e, v, bh, vt) \<and> vote_valid verify blake3 chain vs w \<and> admissible w"
    and q: "has_quorum vs agg"
  shows "verify_vote_aggregate verify blake3 chain
    \<lparr> va_validator_set = vs, va_epoch = e, va_view = v, va_block_hash = bh, va_vote_type = vt,
      va_aggregate_signature = agg, va_extensions = vote_extensions_of votes \<rparr>"
  unfolding verify_vote_aggregate_iff VoteAggregateRef.simps
proof (intro conjI allI impI)
  show "vote_extensions_of votes = []" if "vt = Vote"
    using k that by (auto simp: vote_extensions_of_def List.map_filter_def key_of_def filter_empty_conv)
  fix i sg assume "agg_lookup agg i = Some sg"
  with l obtain w where w: "w \<in> set votes" "index_of vs (v_validator w) = Some i" "v_signature w = sg"
    by auto
  then have i: "i < length (vs_validators vs)" "vi_id (vs_validators vs ! i) = v_validator w"
    using wf by (simp_all add: index_of_Some)
  then show "i < validator_count vs" by (simp add: validator_count_def)
  have g: "get_validator vs (v_validator w) = Some (vs_validators vs ! i)"
    using w(2) by (simp add: get_validator_def index_of_def)
  have "map_of (rev (vote_extensions_of votes)) (v_validator w) = v_extension w"
    using d w(1) by (rule map_of_vote_extensions)
  with k w g i show "verify (vi_public_key (vs_validators vs ! i))
      (vote_bytes_of blake3 chain
        \<lparr> va_validator_set = vs, va_epoch = e, va_view = v, va_block_hash = bh, va_vote_type = vt,
          va_aggregate_signature = agg, va_extensions = vote_extensions_of votes \<rparr>
        (vs_validators vs ! i)) sg"
    by (auto simp: vote_bytes_of_def vote_valid_def key_of_def)
qed (use a q in simp_all)

lemma add_vote_Inr_cases:
  assumes wf: "vs_wf (vs_of epoch)" "vc_wf vs_of c"
    and r: "add_vote (vs_of epoch) vote epoch c = (c', Inr r)"
  obtains (duplicate) "v_epoch vote = epoch" "admissible vote"
      "v_validator vote \<in> v_validator ` set (bucket c (key_of vote))" "vr_qc r = None"
      "vr_equivocation r = find_equivocation epoch vote (vc_votes c)"
      "bucket c' = bucket c"
  | (fresh) agg where "v_epoch vote = epoch" "admissible vote"
      "v_validator vote \<notin> v_validator ` set (bucket c (key_of vote))"
      "get_validator (vs_of epoch) (v_validator vote) \<noteq> None"
      "vr_equivocation r = find_equivocation epoch vote (vc_votes c)"
      "bucket c' = (bucket c)(key_of vote := bucket c (key_of vote) @ [vote])"
      "bucket_ok vs_of (key_of vote) (bucket c (key_of vote) @ [vote])"
      "agg_wf (validator_count (vs_of epoch)) agg"
      "\<forall>i sg. agg_lookup agg i = Some sg \<longleftrightarrow>
         (\<exists>w \<in> set (bucket c (key_of vote) @ [vote]).
            index_of (vs_of epoch) (v_validator w) = Some i \<and> v_signature w = sg)"
      "vr_qc r = (if has_quorum (vs_of epoch) agg
         then Some \<lparr> qc_block_hash = v_block_hash vote, qc_view = v_view vote,
                     qc_aggregate_signature = agg, qc_epoch = epoch \<rparr> else None)"
      "vr_extensions r = (if has_quorum (vs_of epoch) agg
         then vote_extensions_of (bucket c (key_of vote) @ [vote]) else [])"
proof -
  from r have g: "v_epoch vote = epoch" "admissible vote"
    by (auto simp: add_vote_def split: if_splits)
  consider "v_validator vote \<in> v_validator ` set (bucket c (key_of vote))"
    | "v_validator vote \<notin> v_validator ` set (bucket c (key_of vote))"
      "get_validator (vs_of epoch) (v_validator vote) = None"
    | "v_validator vote \<notin> v_validator ` set (bucket c (key_of vote))"
      "get_validator (vs_of epoch) (v_validator vote) \<noteq> None"
    by blast
  then show thesis
  proof cases
    case 1
    with r g add_vote_duplicate [OF g(2) 1, of "vs_of epoch"] show thesis
      by (intro duplicate) auto
  next
    case 2
    with r g add_vote_unknown [OF g(2) 2] show thesis by auto
  next
    case 3
    have e: "vs_of epoch = vs_of (v_epoch vote)" using g by simp
    from add_vote_fresh [OF wf(1) e wf(2) g(2) 3] obtain agg where a:
      "agg_wf (validator_count (vs_of epoch)) agg"
      "\<forall>i sg. agg_lookup agg i = Some sg \<longleftrightarrow>
         (\<exists>w \<in> set (bucket c (key_of vote) @ [vote]).
            index_of (vs_of epoch) (v_validator w) = Some i \<and> v_signature w = sg)"
      "bucket_ok vs_of (key_of vote) (bucket c (key_of vote) @ [vote])"
      "add_vote (vs_of epoch) vote (v_epoch vote) c =
        (set_bucket c (key_of vote) (bucket c (key_of vote) @ [vote]),
         Inr (form_result (vs_of epoch) (key_of vote) agg
           (find_equivocation (v_epoch vote) vote (vc_votes c)) (bucket c (key_of vote) @ [vote])))"
      by blast
    from a(4) r g(1) have b: "c' = set_bucket c (key_of vote) (bucket c (key_of vote) @ [vote])"
      "r = form_result (vs_of epoch) (key_of vote) agg
           (find_equivocation epoch vote (vc_votes c)) (bucket c (key_of vote) @ [vote])"
      by simp_all
    show thesis
    proof (rule fresh [OF g 3 _ _ a(3) a(1,2)])
      show "bucket c' = (bucket c)(key_of vote := bucket c (key_of vote) @ [vote])"
        unfolding b(1) by (rule ext) simp
    qed (simp_all add: b(2) form_result_def key_of_def g(1))
  qed
qed

lemma add_vote_qc_verified:
  assumes "vs_wf (vs_of epoch)" "vc_wf vs_of c"
    and "add_vote (vs_of epoch) vote epoch c = (c', Inr r)" "vr_qc r = Some qc"
    and "\<forall>w \<in> set (bucket c (key_of vote) @ [vote]). vote_valid verify blake3 chain (vs_of epoch) w"
  shows "verify_vote_aggregate verify blake3 chain
    \<lparr> va_validator_set = vs_of epoch, va_epoch = qc_epoch qc, va_view = qc_view qc,
      va_block_hash = qc_block_hash qc, va_vote_type = v_vote_type vote,
      va_aggregate_signature = qc_aggregate_signature qc, va_extensions = vr_extensions r \<rparr>"
  using assms(1-3)
proof (cases rule: add_vote_Inr_cases)
  case duplicate
  with assms(4) show ?thesis by simp
next
  case (fresh agg)
  from fresh(10) assms(4) have q: "has_quorum (vs_of epoch) agg"
      "qc = \<lparr> qc_block_hash = v_block_hash vote, qc_view = v_view vote,
             qc_aggregate_signature = agg, qc_epoch = epoch \<rparr>"
    by (auto split: if_splits)
  have d: "distinct (map v_validator (bucket c (key_of vote) @ [vote]))"
    and k: "\<forall>w \<in> set (bucket c (key_of vote) @ [vote]).
      key_of w = (epoch, v_view vote, v_block_hash vote, v_vote_type vote) \<and>
      vote_valid verify blake3 chain (vs_of epoch) w \<and> admissible w"
    using fresh(1,7) assms(5) unfolding bucket_ok_def by (simp_all add: key_of_def [of vote])
  from aggregate_verifies [OF assms(1) fresh(8,9) d k q(1)] fresh(11) q show ?thesis by simp
qed

section \<open>A concrete collector\<close>

text \<open>Validators 1 and 4 have voted for block 7 of view 3; validator 4 has also voted for block 8.\<close>

definition sample_vote :: "ValidatorId \<Rightarrow> BlockHash \<Rightarrow> Vote" where
  "sample_vote i h =
     \<lparr> v_epoch = 0, v_block_hash = h, v_view = 3, v_validator = i, v_signature = [ucast i],
       v_vote_type = Vote, v_extension = None \<rparr>"

definition sample_collector :: VoteCollector where
  "sample_collector =
     \<lparr> vc_votes = [((0, 3, hash_rep 7, Vote), [sample_vote 1 (hash_rep 7), sample_vote 4 (hash_rep 7)]),
                   ((0, 3, hash_rep 8, Vote), [sample_vote 4 (hash_rep 8)])] \<rparr>"

lemma sample_members: "get_validator sample_set i \<noteq> None \<longleftrightarrow> i \<in> {1, 2, 3, 4}"
  using get_validator_None [OF sample_set_wf, of i] by (auto simp: sample_set_def sample_infos_def)

lemma sample_collector_wf: "vc_wf (\<lambda>_. sample_set) sample_collector"
  by (simp add: vc_wf_def sample_collector_def bucket_ok_def key_of_def sample_vote_def
      sample_members del: not_None_eq)

lemma sample_bucket:
  "bucket sample_collector (key_of (sample_vote i (hash_rep 7))) =
     [sample_vote 1 (hash_rep 7), sample_vote 4 (hash_rep 7)]"
  by (simp add: bucket_def sample_collector_def key_of_def sample_vote_def)

lemma sample_add_vote:
  obtains c' r where
    "add_vote sample_set (sample_vote 2 (hash_rep 7)) 0 sample_collector = (c', Inr r)"
proof -
  have "admissible (sample_vote 2 (hash_rep 7))" "v_epoch (sample_vote 2 (hash_rep 7)) = 0"
    by (simp_all add: sample_vote_def)
  moreover have "v_validator (sample_vote 2 (hash_rep 7)) \<notin>
      v_validator ` set (bucket sample_collector (key_of (sample_vote 2 (hash_rep 7))))"
    unfolding sample_bucket by (simp add: sample_vote_def)
  moreover have "get_validator sample_set (v_validator (sample_vote 2 (hash_rep 7))) \<noteq> None"
    unfolding sample_members by (simp add: sample_vote_def)
  ultimately show thesis
    using add_vote_fresh [OF sample_set_wf _ sample_collector_wf, of "sample_vote 2 (hash_rep 7)"] that
    by fastforce
qed

lemma sample_voters:
  "set_power {v \<in> set (vs_validators sample_set).
     vi_id v \<in> insert (v_validator (sample_vote 2 (hash_rep 7)))
       (v_validator ` set (bucket sample_collector (key_of (sample_vote 2 (hash_rep 7)))))} = 4"
proof -
  have "{v \<in> set (vs_validators sample_set).
     vi_id v \<in> insert (v_validator (sample_vote 2 (hash_rep 7)))
       (v_validator ` set (bucket sample_collector (key_of (sample_vote 2 (hash_rep 7)))))} =
    set [sample_infos ! 0, sample_infos ! 1, sample_infos ! 3]"
    unfolding sample_bucket by (auto simp: sample_set_def sample_infos_def sample_vote_def)
  moreover have "set_power (set [sample_infos ! 0, sample_infos ! 1, sample_infos ! 3]) = 4"
    by (subst power_sum_set [symmetric]) (simp_all add: sample_infos_def)
  ultimately show ?thesis by (simp only:)
qed

section \<open>Properties\<close>

text \<open>
  C12. Certificates are formed exactly at quorum: on a well-formed collector \<open>add_vote\<close> returns a
  certificate for a vote if and only if the vote is the first of its validator for its epoch, view,
  block and phase and the members who voted so, this one included, have quorum power. The
  certificate names the vote's block, view and epoch, and its signers are those members.
\<close>

theorem add_vote_forms_qc_at_quorum:
  assumes "vs_wf (vs_of epoch)" "vc_wf vs_of c"
    and "add_vote (vs_of epoch) vote epoch c = (c', Inr r)"
  defines "voters \<equiv> {v \<in> set (vs_validators (vs_of epoch)).
     vi_id v \<in> insert (v_validator vote) (v_validator ` set (bucket c (key_of vote)))}"
  shows "(vr_qc r \<noteq> None \<longleftrightarrow>
            v_validator vote \<notin> v_validator ` set (bucket c (key_of vote)) \<and>
            unat (quorum_threshold (vs_of epoch)) \<le> set_power voters) \<and>
         (\<forall>qc. vr_qc r = Some qc \<longrightarrow>
            qc_block_hash qc = v_block_hash vote \<and> qc_view qc = v_view vote \<and> qc_epoch qc = epoch \<and>
            set (signer_infos (vs_of epoch) (qc_aggregate_signature qc)) = voters)"
  using assms(1-3)
proof (cases rule: add_vote_Inr_cases)
  case duplicate
  then show ?thesis by simp
next
  case (fresh agg)
  have "set (signer_infos (vs_of epoch) agg) = voters"
    unfolding signer_infos_of_votes [OF assms(1) fresh(8,9)] voters_def by auto
  with has_quorum_set [OF assms(1), of agg]
  have q: "has_quorum (vs_of epoch) agg \<longleftrightarrow> unat (quorum_threshold (vs_of epoch)) \<le> set_power voters"
    and s: "set (signer_infos (vs_of epoch) agg) = voters" by simp_all
  show ?thesis
    unfolding fresh(10) q [symmetric] using fresh(3) s
    by (cases "has_quorum (vs_of epoch) agg") simp_all
qed

theorem add_vote_forms_qc_at_quorum_witness:
  "\<exists>c' r. add_vote sample_set (sample_vote 2 (hash_rep 7)) 0 sample_collector = (c', Inr r) \<and>
     vr_qc r \<noteq> None"
proof -
  from sample_add_vote obtain c' r where
    a: "add_vote sample_set (sample_vote 2 (hash_rep 7)) 0 sample_collector = (c', Inr r)" .
  have "v_validator (sample_vote 2 (hash_rep 7)) \<notin>
      v_validator ` set (bucket sample_collector (key_of (sample_vote 2 (hash_rep 7))))"
    unfolding sample_bucket by (simp add: sample_vote_def)
  moreover have "unat (quorum_threshold sample_set) = 4"
    by (simp add: unat_quorum_threshold) (simp add: sample_set_def)
  ultimately have "vr_qc r \<noteq> None"
    using add_vote_forms_qc_at_quorum [where vs_of = "\<lambda>_. sample_set", OF sample_set_wf sample_collector_wf a]
    unfolding sample_voters by simp
  with a show ?thesis by blast
qed

text \<open>
  C13. What a collector forms, every honest node accepts: if the votes of the bucket and the new
  vote carry valid signatures of members, a certificate returned by \<open>add_vote\<close>, with the
  extensions returned beside it, passes \<open>verify_vote_aggregate\<close>.
\<close>

theorem add_vote_qc_verifies:
  assumes "vs_wf (vs_of epoch)" "vc_wf vs_of c"
    and "add_vote (vs_of epoch) vote epoch c = (c', Inr r)" "vr_qc r = Some qc"
    and "\<forall>w \<in> set (bucket c (key_of vote) @ [vote]). vote_valid verify blake3 chain (vs_of epoch) w"
  shows "verify_vote_aggregate verify blake3 chain
    \<lparr> va_validator_set = vs_of epoch, va_epoch = qc_epoch qc, va_view = qc_view qc,
      va_block_hash = qc_block_hash qc, va_vote_type = v_vote_type vote,
      va_aggregate_signature = qc_aggregate_signature qc, va_extensions = vr_extensions r \<rparr>"
  by (rule add_vote_qc_verified [OF assms])

theorem add_vote_qc_verifies_witness:
  "\<exists>c' r. add_vote sample_set (sample_vote 2 (hash_rep 7)) 0 sample_collector = (c', Inr r) \<and>
     (\<forall>qc. vr_qc r = Some qc \<longrightarrow>
        verify_vote_aggregate (\<lambda>pk msg sg. sg = take 1 pk) (\<lambda>_. hash_rep 0) (hash_rep 9)
          \<lparr> va_validator_set = sample_set, va_epoch = qc_epoch qc, va_view = qc_view qc,
            va_block_hash = qc_block_hash qc, va_vote_type = Vote,
            va_aggregate_signature = qc_aggregate_signature qc, va_extensions = vr_extensions r \<rparr>)"
proof -
  from sample_add_vote obtain c' r where
    a: "add_vote sample_set (sample_vote 2 (hash_rep 7)) 0 sample_collector = (c', Inr r)" .
  have g: "get_validator sample_set 1 = Some (sample_infos ! 0)"
    "get_validator sample_set 2 = Some (sample_infos ! 1)"
    "get_validator sample_set 4 = Some (sample_infos ! 3)"
    by (simp_all add: get_validator_Some [OF sample_set_wf]) (simp_all add: sample_set_def sample_infos_def)
  have "\<forall>w \<in> set (bucket sample_collector (key_of (sample_vote 2 (hash_rep 7))) @ [sample_vote 2 (hash_rep 7)]).
     vote_valid (\<lambda>pk msg sg. sg = take 1 pk) (\<lambda>_. hash_rep 0) (hash_rep 9) sample_set w"
    unfolding sample_bucket by (simp add: vote_valid_def sample_vote_def g) (simp add: sample_infos_def)
  from add_vote_qc_verifies [where vs_of = "\<lambda>_. sample_set", OF sample_set_wf sample_collector_wf a _ this] a
  show ?thesis by (auto simp: sample_vote_def)
qed

text \<open>
  C14. Equivocation detection is sound and complete: whenever \<open>add_vote\<close> answers, it reports a
  proof exactly if the collector holds a vote of the same validator, epoch, view and phase for
  another block, and the proof carries the blocks, signatures and extensions of the two votes.
\<close>

theorem add_vote_equivocation:
  assumes "vs_wf (vs_of epoch)" "vc_wf vs_of c"
    and "add_vote (vs_of epoch) vote epoch c = (c', Inr r)"
  shows "case vr_equivocation r of
           Some p \<Rightarrow> \<exists>a \<in> stored c. conflicts a vote \<and> p = proof_of a vote
         | None \<Rightarrow> \<not> (\<exists>a \<in> stored c. conflicts a vote)"
proof -
  have "v_epoch vote = epoch \<and> vr_equivocation r = find_equivocation epoch vote (vc_votes c)"
    using assms by (cases rule: add_vote_Inr_cases) auto
  with find_equivocation_spec [OF assms(2), of vote] show ?thesis
    by (auto split: option.splits)
qed

theorem add_vote_equivocation_witness:
  "\<exists>c' r p. add_vote sample_set (sample_vote 4 (hash_rep 9)) 0 sample_collector = (c', Inr r) \<and>
     vr_equivocation r = Some p \<and> ev_validator p = 4"
proof -
  let ?v = "sample_vote 4 (hash_rep 9)"
  have b: "bucket sample_collector (key_of ?v) = []"
    by (simp add: bucket_def sample_collector_def key_of_def sample_vote_def)
  have "get_validator sample_set (v_validator ?v) \<noteq> None"
    unfolding sample_members by (simp add: sample_vote_def)
  then obtain c' r where a: "add_vote sample_set ?v 0 sample_collector = (c', Inr r)"
    using add_vote_fresh [OF sample_set_wf _ sample_collector_wf, of ?v] b by (fastforce simp: sample_vote_def)
  have "sample_vote 4 (hash_rep 7) \<in> stored sample_collector" "conflicts (sample_vote 4 (hash_rep 7)) ?v"
    by (simp_all add: stored_def sample_collector_def conflicts_def sample_vote_def)
  with add_vote_equivocation [where vs_of = "\<lambda>_. sample_set", OF sample_set_wf sample_collector_wf a]
  have "\<exists>p. vr_equivocation r = Some p \<and> ev_validator p = 4"
    by (auto simp: proof_of_def sample_vote_def split: option.splits)
  with a show ?thesis by blast
qed

text \<open>
  A call fails only for the three reasons it names, a foreign epoch, an extension on a
  first-phase vote and a validator outside the set; aggregation itself never fails, so no vote can
  poison a bucket, and every outcome keeps the collector well-formed.
\<close>

lemma add_vote_errors:
  assumes "vs_wf (vs_of epoch)" "vc_wf vs_of c"
  shows "vc_wf vs_of (fst (add_vote (vs_of epoch) vote epoch c)) \<and>
    (case snd (add_vote (vs_of epoch) vote epoch c) of
       Inl e \<Rightarrow> e = VoteEpochMismatch (v_epoch vote) epoch \<and> v_epoch vote \<noteq> epoch
              \<or> e = FirstPhaseExtension \<and> v_vote_type vote = Vote \<and> v_extension vote \<noteq> None
              \<or> e = VoteFromUnknownValidator (v_validator vote) \<and>
                get_validator (vs_of epoch) (v_validator vote) = None
     | Inr r \<Rightarrow> v_epoch vote = epoch)"
proof (cases "v_epoch vote = epoch \<and> admissible vote")
  case False
  with assms show ?thesis by (auto simp: add_vote_def)
next
  case True
  then have e: "vs_of epoch = vs_of (v_epoch vote)" "admissible vote" "v_epoch vote = epoch" by auto
  let ?b = "v_validator ` set (bucket c (key_of vote))"
  note wf = add_vote_wf [OF assms, of vote]
  consider "v_validator vote \<in> ?b"
    | "v_validator vote \<notin> ?b" "get_validator (vs_of epoch) (v_validator vote) = None"
    | "v_validator vote \<notin> ?b" "get_validator (vs_of epoch) (v_validator vote) \<noteq> None"
    by blast
  then show ?thesis
  proof cases
    case 1
    with add_vote_duplicate [OF e(2), of c "vs_of epoch"] e(3) wf show ?thesis by simp
  next
    case 2
    with add_vote_unknown [OF e(2), of c "vs_of epoch"] e(3) wf show ?thesis by simp
  next
    case 3
    then obtain c' r where "add_vote (vs_of epoch) vote epoch c = (c', Inr r)"
      using add_vote_fresh [OF assms(1) e(1) assms(2) e(2)] e(3) by blast
    with wf e(3) show ?thesis by simp
  qed
qed

end
