(* ===== verification/Evidence_Store.thy ===== *)
theory Evidence_Store
  imports Types
begin

text \<open>
  \<open>hotmint-storage/src/evidence_store.rs\<close>: the in-memory and the persistent store of equivocation
  proofs. The locale \<open>evidence_store\<close> is the contract of the trait in
  \<open>hotmint-consensus/src/evidence_store.rs\<close>, against an abstract store that keeps the proofs in
  order and the set of committed offences; both stores interpret it.
\<close>

type_synonym offence = "ViewNumber \<times> ValidatorId"

definition offence_of :: "EquivocationProof \<Rightarrow> offence" where
  "offence_of p = (ev_view p, ev_validator p)"

section \<open>The in-memory store\<close>

record MemoryEvidenceStore =
  me_proofs :: "EquivocationProof list"
  me_committed :: "offence set"

definition me_new :: MemoryEvidenceStore where
  "me_new = \<lparr> me_proofs = [], me_committed = {} \<rparr>"

definition me_put_evidence :: "EquivocationProof \<Rightarrow> MemoryEvidenceStore \<Rightarrow> MemoryEvidenceStore" where
  "me_put_evidence proof s =
     (if \<exists>p \<in> set (me_proofs s). ev_view p = ev_view proof \<and> ev_validator p = ev_validator proof
      then s else s\<lparr>me_proofs := me_proofs s @ [proof]\<rparr>)"

definition me_get_pending :: "MemoryEvidenceStore \<Rightarrow> EquivocationProof list" where
  "me_get_pending s = filter (\<lambda>p. (ev_view p, ev_validator p) \<notin> me_committed s) (me_proofs s)"

definition me_mark_committed :: "ViewNumber \<Rightarrow> ValidatorId \<Rightarrow> MemoryEvidenceStore \<Rightarrow> MemoryEvidenceStore" where
  "me_mark_committed view validator s =
     (let committed = insert (view, validator) (me_committed s)
      in s\<lparr>me_committed := committed,
           me_proofs := filter (\<lambda>p. (ev_view p, ev_validator p) \<notin> committed) (me_proofs s)\<rparr>)"

section \<open>The persistent store\<close>

record PersistentEvidenceStore =
  pe_proofs :: "(u64 \<times> EquivocationProof) list"
  pe_committed :: "bytes \<rightharpoonup> u8"
  pe_next_id :: u64

definition next_id_from_proofs :: "(u64 \<times> EquivocationProof) list \<Rightarrow> u64" where
  "next_id_from_proofs proofs = (if proofs = [] then 0 else saturating_add (fst (last proofs)) 1)"

definition committed_key :: "ViewNumber \<Rightarrow> ValidatorId \<Rightarrow> bytes" where
  "committed_key view validator = to_le_bytes view @ to_le_bytes validator"

definition pe_new :: PersistentEvidenceStore where
  "pe_new = \<lparr> pe_proofs = [], pe_committed = Map.empty, pe_next_id = 0 \<rparr>"

text \<open>Reopening restores the two collections and derives the next id from the proofs.\<close>

definition pe_reopen :: "PersistentEvidenceStore \<Rightarrow> PersistentEvidenceStore" where
  "pe_reopen s = s\<lparr>pe_next_id := next_id_from_proofs (pe_proofs s)\<rparr>"

definition is_duplicate :: "EquivocationProof \<Rightarrow> PersistentEvidenceStore \<Rightarrow> bool" where
  "is_duplicate proof s =
     (\<exists>(_, p) \<in> set (pe_proofs s). ev_view p = ev_view proof \<and> ev_validator p = ev_validator proof)"

definition pe_put_evidence :: "EquivocationProof \<Rightarrow> PersistentEvidenceStore \<Rightarrow> PersistentEvidenceStore" where
  "pe_put_evidence proof s =
     (if is_duplicate proof s then s
      else s\<lparr>pe_proofs := omap_insert (pe_next_id s) proof (pe_proofs s),
             pe_next_id := pe_next_id s + 1\<rparr>)"

definition pe_get_pending :: "PersistentEvidenceStore \<Rightarrow> EquivocationProof list" where
  "pe_get_pending s =
     List.map_filter
       (\<lambda>(_, p). if pe_committed s (committed_key (ev_view p) (ev_validator p)) \<noteq> None
                 then None else Some p) (pe_proofs s)"

definition pe_mark_committed ::
    "ViewNumber \<Rightarrow> ValidatorId \<Rightarrow> PersistentEvidenceStore \<Rightarrow> PersistentEvidenceStore" where
  "pe_mark_committed view validator s =
     (let to_remove = map fst (filter (\<lambda>(_, p). ev_view p = view \<and> ev_validator p = validator) (pe_proofs s))
      in s\<lparr>pe_committed := (pe_committed s)(committed_key view validator \<mapsto> 1),
           pe_proofs := foldl (\<lambda>m i. AList.delete i m) (pe_proofs s) to_remove\<rparr>)"

section \<open>The contract\<close>

text \<open>
  The abstract store: the proofs pending, oldest first, and the offences committed. A proof is
  taken unless its offence is pending or committed; committing an offence drops its proof.
\<close>

type_synonym evidence_view = "EquivocationProof list \<times> offence set"

definition spec_put :: "EquivocationProof \<Rightarrow> evidence_view \<Rightarrow> evidence_view" where
  "spec_put p v =
     (if offence_of p \<in> offence_of ` set (fst v) \<or> offence_of p \<in> snd v then v
      else (fst v @ [p], snd v))"

definition spec_mark :: "offence \<Rightarrow> evidence_view \<Rightarrow> evidence_view" where
  "spec_mark x v = (filter (\<lambda>p. offence_of p \<noteq> x) (fst v), insert x (snd v))"

datatype evidence_op = PutEvidence EquivocationProof | MarkCommitted offence

fun spec_evidence :: "evidence_op \<Rightarrow> evidence_view \<Rightarrow> evidence_view" where
  "spec_evidence (PutEvidence p) v = spec_put p v"
| "spec_evidence (MarkCommitted x) v = spec_mark x v"

text \<open>One operation, on a store that was closed and opened again before it or not.\<close>

fun run_evidence ::
    "(EquivocationProof \<Rightarrow> 's \<Rightarrow> 's) \<Rightarrow> (ViewNumber \<Rightarrow> ValidatorId \<Rightarrow> 's \<Rightarrow> 's) \<Rightarrow> ('s \<Rightarrow> 's) \<Rightarrow>
     bool \<times> evidence_op \<Rightarrow> 's \<Rightarrow> 's" where
  "run_evidence put mark reopen_store (r, PutEvidence p) s = put p (if r then reopen_store s else s)"
| "run_evidence put mark reopen_store (r, MarkCommitted x) s = mark (fst x) (snd x) (if r then reopen_store s else s)"

text \<open>The number in the invariant is how many more proofs the store can number.\<close>

locale evidence_store =
  fixes put :: "EquivocationProof \<Rightarrow> 's \<Rightarrow> 's"
    and mark :: "ViewNumber \<Rightarrow> ValidatorId \<Rightarrow> 's \<Rightarrow> 's"
    and reopen_store :: "'s \<Rightarrow> 's"
    and pending :: "'s \<Rightarrow> EquivocationProof list"
    and committed :: "'s \<Rightarrow> offence set"
    and inv :: "nat \<Rightarrow> 's \<Rightarrow> bool"
  assumes put_inv: "inv (Suc n) s \<Longrightarrow> inv n (put p s)"
    and put_view: "inv (Suc n) s \<Longrightarrow>
      (pending (put p s), committed (put p s)) = spec_put p (pending s, committed s)"
    and mark_inv: "inv (Suc n) s \<Longrightarrow> inv n (mark (fst x) (snd x) s)"
    and mark_view: "inv (Suc n) s \<Longrightarrow>
      (pending (mark (fst x) (snd x) s), committed (mark (fst x) (snd x) s)) =
      spec_mark x (pending s, committed s)"
    and reopen_inv: "inv n s \<Longrightarrow> inv n (reopen_store s)"
    and reopen_view: "pending (reopen_store s) = pending s" "committed (reopen_store s) = committed s"
begin

lemma run_view:
  "inv (length ops) s \<Longrightarrow>
     (let s' = fold (run_evidence put mark reopen_store) ops s
      in (pending s', committed s') = fold spec_evidence (map snd ops) (pending s, committed s))"
proof (induction ops arbitrary: s)
  case (Cons a ops)
  obtain r p where a: "a = (r, p)" by (cases a)
  define t where "t = (if r then reopen_store s else s)"
  have t: "inv (Suc (length ops)) t" "pending t = pending s" "committed t = committed s"
    using Cons.prems reopen_inv by (auto simp: t_def reopen_view)
  show ?case
  proof (cases p)
    case (PutEvidence q)
    with Cons.IH [OF put_inv [OF t(1), of q]] put_view [OF t(1), of q]
    show ?thesis by (simp add: a t t_def [symmetric] Let_def)
  next
    case (MarkCommitted x)
    with Cons.IH [OF mark_inv [OF t(1), of x]] mark_view [OF t(1), of x]
    show ?thesis by (simp add: a t t_def [symmetric] Let_def)
  qed
qed (simp add: Let_def)

end

lemma spec_evidence_distinct:
  "distinct (map offence_of (fst v)) \<and> offence_of ` set (fst v) \<inter> snd v = {} \<Longrightarrow>
     (let v' = fold spec_evidence ops v
      in distinct (map offence_of (fst v')) \<and> offence_of ` set (fst v') \<inter> snd v' = {})"
proof (induction ops arbitrary: v)
  case (Cons op ops)
  have "distinct (map offence_of (fst (spec_evidence op v))) \<and>
        offence_of ` set (fst (spec_evidence op v)) \<inter> snd (spec_evidence op v) = {}"
    using Cons.prems by (cases op) (auto simp: spec_put_def spec_mark_def distinct_map_filter)
  from Cons.IH [OF this] show ?case by simp
qed (simp add: Let_def)

lemma spec_evidence_mono: "snd v \<subseteq> snd (fold spec_evidence ops v)"
proof (induction ops arbitrary: v)
  case (Cons op ops)
  have "snd v \<subseteq> snd (spec_evidence op v)" by (cases op) (auto simp: spec_put_def spec_mark_def)
  also have "\<dots> \<subseteq> snd (fold spec_evidence ops (spec_evidence op v))" by (rule Cons.IH)
  finally show ?case by simp
qed simp

lemma spec_evidence_marked: "MarkCommitted x \<in> set ops \<Longrightarrow> x \<in> snd (fold spec_evidence ops v)"
proof (induction ops arbitrary: v)
  case (Cons op ops)
  show ?case
  proof (cases "op = MarkCommitted x")
    case True
    then have "x \<in> snd (spec_evidence op v)" by (simp add: spec_mark_def)
    then show ?thesis using spec_evidence_mono [of "spec_evidence op v" ops] by auto
  next
    case False
    with Cons show ?thesis by simp
  qed
qed simp

section \<open>Both stores fulfil it\<close>

lemma same_offence:
  "(\<exists>q \<in> A. ev_view q = ev_view p \<and> ev_validator q = ev_validator p) \<longleftrightarrow> offence_of p \<in> offence_of ` A"
  by (auto simp: offence_of_def image_iff eq_commute [of "ev_view p"] eq_commute [of "ev_validator p"])

interpretation me: evidence_store me_put_evidence me_mark_committed "\<lambda>s. s" me_get_pending me_committed
    "\<lambda>_ _. True"
proof
  fix p s
  show "(me_get_pending (me_put_evidence p s), me_committed (me_put_evidence p s)) =
      spec_put p (me_get_pending s, me_committed s)"
    unfolding me_put_evidence_def same_offence
    by (auto simp: spec_put_def me_get_pending_def image_iff simp flip: offence_of_def)
next
  fix x :: offence and s
  show "(me_get_pending (me_mark_committed (fst x) (snd x) s),
         me_committed (me_mark_committed (fst x) (snd x) s)) =
      spec_mark x (me_get_pending s, me_committed s)"
    by (auto simp: me_mark_committed_def spec_mark_def me_get_pending_def Let_def intro: filter_cong
        simp flip: offence_of_def)
qed auto

definition pe_offences :: "PersistentEvidenceStore \<Rightarrow> offence set" where
  "pe_offences s = {x. pe_committed s (committed_key (fst x) (snd x)) \<noteq> None}"

definition pe_inv :: "nat \<Rightarrow> PersistentEvidenceStore \<Rightarrow> bool" where
  "pe_inv n s \<longleftrightarrow> omap_sorted (pe_proofs s) \<and> (\<forall>k \<in> fst ` set (pe_proofs s). k < pe_next_id s) \<and>
     unat (pe_next_id s) + n < 2 ^ 64"

lemma committed_key_inject [simp]:
  "committed_key v i = committed_key v' i' \<longleftrightarrow> v = v' \<and> i = i'"
  by (simp add: committed_key_def append_eq_append_conv)

lemma omap_insert_last:
  "\<forall>k' \<in> fst ` set m. k' < k \<Longrightarrow> omap_insert k v m = m @ [(k, v)]"
  by (induction k v m rule: omap_insert.induct) auto

lemma foldl_delete:
  "foldl (\<lambda>m i. AList.delete i m) m ks = filter (\<lambda>kv. fst kv \<notin> set ks) m"
proof (induction ks arbitrary: m)
  case (Cons k ks)
  have "AList.delete k m = filter (\<lambda>kv. fst kv \<noteq> k) m"
    by (auto simp: AList.delete_eq case_prod_unfold intro!: filter_cong)
  then show ?case by (simp add: Cons.IH)
qed simp

lemma pe_get_pending_filter:
  "pe_get_pending s = filter (\<lambda>p. offence_of p \<notin> pe_offences s) (map snd (pe_proofs s))"
  by (auto simp: pe_get_pending_def List.map_filter_def pe_offences_def offence_of_def filter_map comp_def
      case_prod_unfold intro!: map_cong filter_cong)

lemma is_duplicate_iff: "is_duplicate p s \<longleftrightarrow> offence_of p \<in> offence_of ` snd ` set (pe_proofs s)"
  unfolding same_offence [symmetric] by (force simp: is_duplicate_def)

lemma pe_mark_proofs:
  assumes "distinct (map fst (pe_proofs s))"
  shows "pe_proofs (pe_mark_committed view validator s) =
         filter (\<lambda>kv. offence_of (snd kv) \<noteq> (view, validator)) (pe_proofs s)"
proof -
  have "fst kv \<in> fst ` {x \<in> set (pe_proofs s). offence_of (snd x) = (view, validator)} \<longleftrightarrow>
        offence_of (snd kv) = (view, validator)" if "kv \<in> set (pe_proofs s)" for kv
  proof
    assume "fst kv \<in> fst ` {x \<in> set (pe_proofs s). offence_of (snd x) = (view, validator)}"
    then obtain x where x: "x \<in> set (pe_proofs s)" "offence_of (snd x) = (view, validator)" "fst kv = fst x"
      by auto
    have "x = kv" using inj_onD [of fst "set (pe_proofs s)" x kv] x that assms by (simp add: distinct_map)
    with x show "offence_of (snd kv) = (view, validator)" by simp
  qed (use that in auto)
  then show ?thesis
    by (auto simp: pe_mark_committed_def foldl_delete offence_of_def case_prod_unfold intro!: filter_cong)
qed

lemma pe_put_offences: "pe_offences (pe_put_evidence p s) = pe_offences s"
  by (simp add: pe_offences_def pe_put_evidence_def)

lemma pe_mark_offences:
  "pe_offences (pe_mark_committed view validator s) = insert (view, validator) (pe_offences s)"
  by (auto simp: pe_offences_def pe_mark_committed_def Let_def)

lemma pe_put_proofs:
  assumes "pe_inv n s"
  shows "pe_proofs (pe_put_evidence p s) =
         (if is_duplicate p s then pe_proofs s else pe_proofs s @ [(pe_next_id s, p)])"
  using assms by (simp add: pe_put_evidence_def pe_inv_def omap_insert_last)

lemma pe_inv_distinct: "pe_inv n s \<Longrightarrow> distinct (map fst (pe_proofs s))"
  by (simp add: pe_inv_def strict_sorted_iff)

interpretation pe: evidence_store pe_put_evidence pe_mark_committed pe_reopen pe_get_pending pe_offences pe_inv
proof
  fix n s p
  assume inv: "pe_inv (Suc n) s"
  have "unat (pe_next_id s + 1) = unat (pe_next_id s) + 1"
    using inv by (simp add: pe_inv_def unat_word_ariths)
  then show "pe_inv n (pe_put_evidence p s)"
    using inv by (auto simp: pe_inv_def pe_put_evidence_def word_less_nat_alt omap_insert_last sorted_wrt_append)
  show "(pe_get_pending (pe_put_evidence p s), pe_offences (pe_put_evidence p s)) =
      spec_put p (pe_get_pending s, pe_offences s)"
    by (auto simp: pe_get_pending_filter pe_put_offences pe_put_proofs [OF inv] spec_put_def is_duplicate_iff)
next
  fix n s and x :: offence
  assume inv: "pe_inv (Suc n) s"
  have proofs: "pe_proofs (pe_mark_committed (fst x) (snd x) s) =
      filter (\<lambda>kv. offence_of (snd kv) \<noteq> x) (pe_proofs s)"
    using pe_mark_proofs [OF pe_inv_distinct [OF inv], of "fst x" "snd x"] by simp
  moreover have "pe_next_id (pe_mark_committed (fst x) (snd x) s) = pe_next_id s"
    by (simp add: pe_mark_committed_def Let_def)
  ultimately show "pe_inv n (pe_mark_committed (fst x) (snd x) s)"
    using inv by (auto simp: pe_inv_def sorted_wrt_map intro: sorted_wrt_filter)
  show "(pe_get_pending (pe_mark_committed (fst x) (snd x) s), pe_offences (pe_mark_committed (fst x) (snd x) s)) =
      spec_mark x (pe_get_pending s, pe_offences s)"
    by (auto simp: pe_get_pending_filter pe_mark_offences proofs spec_mark_def filter_map comp_def
        intro!: filter_cong arg_cong [where f = "map snd"])
next
  fix n s
  assume inv: "pe_inv n s"
  show "pe_inv n (pe_reopen s)"
  proof (cases "pe_proofs s = []")
    case True
    with inv show ?thesis by (simp add: pe_inv_def pe_reopen_def next_id_from_proofs_def)
  next
    case False
    let ?l = "fst (last (pe_proofs s))"
    have l: "?l < pe_next_id s" using False inv by (simp add: pe_inv_def)
    then have sat: "saturating_add ?l 1 = ?l + 1" "unat (?l + 1) = unat ?l + 1"
      using inv
      by (simp_all add: pe_inv_def saturating_add_def word_less_nat_alt unat_word_ariths)
    have "k \<le> ?l" if "k \<in> fst ` set (pe_proofs s)" for k
      using that inv False
      by (cases "pe_proofs s" rule: rev_cases) (auto simp: pe_inv_def sorted_wrt_append less_imp_le)
    moreover have "unat (?l + 1) + n < 2 ^ 64"
      using l sat(2) inv by (simp add: pe_inv_def word_less_nat_alt)
    ultimately show ?thesis
      using False inv sat
      by (auto simp: pe_inv_def pe_reopen_def next_id_from_proofs_def word_less_nat_alt word_le_nat_alt less_Suc_eq_le)
  qed
qed (simp_all add: pe_reopen_def pe_get_pending_def pe_offences_def)

text \<open>
  C28. The persistent evidence store answers like the in-memory one. After any sequence of
  reported and committed proofs, with the persistent store closed and reopened at any points
  between, both list the same pending proofs in the same order; no offence is listed twice, and
  none that was committed.
\<close>

theorem evidence_stores_agree:
  fixes ops :: "(bool \<times> evidence_op) list"
  defines "m \<equiv> fold (run_evidence me_put_evidence me_mark_committed (\<lambda>s. s)) ops me_new"
    and "s \<equiv> fold (run_evidence pe_put_evidence pe_mark_committed pe_reopen) ops pe_new"
  assumes "length ops < 2 ^ 64"
  shows "pe_get_pending s = me_get_pending m \<and>
         distinct (map offence_of (pe_get_pending s)) \<and>
         (\<forall>p. MarkCommitted (offence_of p) \<in> snd ` set ops \<longrightarrow> p \<notin> set (pe_get_pending s))"
proof -
  have inv: "pe_inv (length ops) pe_new" using assms(3) by (simp add: pe_inv_def pe_new_def)
  have new: "me_get_pending me_new = []" "me_committed me_new = {}"
      "pe_get_pending pe_new = []" "pe_offences pe_new = {}"
    by (simp_all add: me_get_pending_def me_new_def pe_get_pending_def pe_new_def pe_offences_def List.map_filter_def)
  let ?v = "fold spec_evidence (map snd ops) ([], {})"
  have m: "(me_get_pending m, me_committed m) = ?v"
    using me.run_view [of ops me_new] by (simp add: m_def new Let_def)
  have s: "(pe_get_pending s, pe_offences s) = ?v"
    using pe.run_view [OF inv] by (simp add: s_def new Let_def)
  have d: "distinct (map offence_of (fst ?v)) \<and> offence_of ` set (fst ?v) \<inter> snd ?v = {}"
    using spec_evidence_distinct [of "([], {})" "map snd ops"] by (simp add: Let_def)
  have c: "x \<in> snd ?v" if "MarkCommitted x \<in> snd ` set ops" for x
    using spec_evidence_marked [of x "map snd ops"] that by simp
  from m s have "pe_get_pending s = fst ?v" "me_get_pending m = fst ?v" by (metis fst_conv)+
  moreover have "p \<notin> set (fst ?v)" if "MarkCommitted (offence_of p) \<in> snd ` set ops" for p
    using c [OF that] d by (meson disjoint_iff image_eqI)
  ultimately show ?thesis using d by simp
qed

text \<open>
  Two offences reported, one of them twice and one committed, across a restart.
\<close>

definition sample_proof :: "u64 \<Rightarrow> EquivocationProof" where
  "sample_proof i =
     \<lparr> ev_validator = i, ev_view = 3, ev_vote_type = Vote, ev_epoch = 0,
       ev_block_hash_a = hash_rep 1, ev_signature_a = [],
       ev_extension_a = None, ev_block_hash_b = hash_rep 2, ev_signature_b = [], ev_extension_b = None \<rparr>"

definition sample_ops :: "(bool \<times> evidence_op) list" where
  "sample_ops =
     [(False, PutEvidence (sample_proof 1)), (True, PutEvidence (sample_proof 2)),
      (False, PutEvidence (sample_proof 1)), (True, MarkCommitted (3, 1))]"

lemma evidence_stores_agree_witness:
  "length sample_ops < 2 ^ 64 \<and>
   pe_get_pending (fold (run_evidence pe_put_evidence pe_mark_committed pe_reopen) sample_ops pe_new) =
     [sample_proof 2]"
proof
  show len: "length sample_ops < 2 ^ 64" by (simp add: sample_ops_def)
  have "me_get_pending (fold (run_evidence me_put_evidence me_mark_committed (\<lambda>s. s)) sample_ops me_new) =
      [sample_proof 2]"
    by (simp add: sample_ops_def me_put_evidence_def me_mark_committed_def me_get_pending_def me_new_def
        sample_proof_def)
  with evidence_stores_agree [OF len]
  show "pe_get_pending (fold (run_evidence pe_put_evidence pe_mark_committed pe_reopen) sample_ops pe_new) =
      [sample_proof 2]"
    by simp
qed

end
