(* ===== verification/Persistence.thy ===== *)
theory Persistence
  imports Consensus_State
begin

text \<open>
  \<open>hotmint-storage/src/consensus_state.rs\<close>: the persisted consensus state, one tagged value per key,
  and its restoration at startup in \<open>hotmint/src/bin/node.rs\<close>. The locale \<open>state_persistence\<close> is the
  contract of the trait \<open>StatePersistence\<close> of the engine against a record of what was last saved.
\<close>

section \<open>The store\<close>

datatype StateValue =
    SvView ViewNumber
  | SvHeight Height
  | SvQc QuorumCertificate
  | SvEpoch Epoch
  | SvAppHash BlockHash
  | SvVote ViewNumber BlockHash

record PersistentConsensusState =
  pcs_store :: "u64 \<rightharpoonup> StateValue"

definition pcs_new :: PersistentConsensusState where
  "pcs_new = \<lparr> pcs_store = Map.empty \<rparr>"

definition pcs_insert :: "u64 \<Rightarrow> StateValue \<Rightarrow> PersistentConsensusState \<Rightarrow> PersistentConsensusState" where
  "pcs_insert k v p = p\<lparr>pcs_store := (pcs_store p)(k \<mapsto> v)\<rparr>"

definition save_current_view :: "ViewNumber \<Rightarrow> PersistentConsensusState \<Rightarrow> PersistentConsensusState" where
  "save_current_view view p = pcs_insert 1 (SvView view) p"

definition load_current_view :: "PersistentConsensusState \<Rightarrow> ViewNumber option" where
  "load_current_view p = (case pcs_store p 1 of Some (SvView v) \<Rightarrow> Some v | _ \<Rightarrow> None)"

definition save_locked_qc :: "QuorumCertificate \<Rightarrow> PersistentConsensusState \<Rightarrow> PersistentConsensusState" where
  "save_locked_qc qc p = pcs_insert 2 (SvQc qc) p"

definition load_locked_qc :: "PersistentConsensusState \<Rightarrow> QuorumCertificate option" where
  "load_locked_qc p = (case pcs_store p 2 of Some (SvQc qc) \<Rightarrow> Some qc | _ \<Rightarrow> None)"

definition save_highest_qc :: "QuorumCertificate \<Rightarrow> PersistentConsensusState \<Rightarrow> PersistentConsensusState" where
  "save_highest_qc qc p = pcs_insert 3 (SvQc qc) p"

definition load_highest_qc :: "PersistentConsensusState \<Rightarrow> QuorumCertificate option" where
  "load_highest_qc p = (case pcs_store p 3 of Some (SvQc qc) \<Rightarrow> Some qc | _ \<Rightarrow> None)"

definition save_last_committed_height :: "Height \<Rightarrow> PersistentConsensusState \<Rightarrow> PersistentConsensusState" where
  "save_last_committed_height h p = pcs_insert 4 (SvHeight h) p"

definition load_last_committed_height :: "PersistentConsensusState \<Rightarrow> Height option" where
  "load_last_committed_height p = (case pcs_store p 4 of Some (SvHeight h) \<Rightarrow> Some h | _ \<Rightarrow> None)"

definition save_current_epoch :: "Epoch \<Rightarrow> PersistentConsensusState \<Rightarrow> PersistentConsensusState" where
  "save_current_epoch e p = pcs_insert 5 (SvEpoch e) p"

definition load_current_epoch :: "PersistentConsensusState \<Rightarrow> Epoch option" where
  "load_current_epoch p = (case pcs_store p 5 of Some (SvEpoch e) \<Rightarrow> Some e | _ \<Rightarrow> None)"

definition save_last_app_hash :: "BlockHash \<Rightarrow> PersistentConsensusState \<Rightarrow> PersistentConsensusState" where
  "save_last_app_hash h p = pcs_insert 6 (SvAppHash h) p"

definition load_last_app_hash :: "PersistentConsensusState \<Rightarrow> BlockHash option" where
  "load_last_app_hash p = (case pcs_store p 6 of Some (SvAppHash h) \<Rightarrow> Some h | _ \<Rightarrow> None)"

definition save_optional_epoch ::
    "u64 \<Rightarrow> Epoch option \<Rightarrow> PersistentConsensusState \<Rightarrow> PersistentConsensusState" where
  "save_optional_epoch k epoch p =
     (case epoch of Some e \<Rightarrow> pcs_insert k (SvEpoch e) p
      | None \<Rightarrow> p\<lparr>pcs_store := (pcs_store p)(k := None)\<rparr>)"

definition save_pending_epoch :: "Epoch option \<Rightarrow> PersistentConsensusState \<Rightarrow> PersistentConsensusState" where
  "save_pending_epoch epoch p = save_optional_epoch 7 epoch p"

definition load_pending_epoch :: "PersistentConsensusState \<Rightarrow> Epoch option" where
  "load_pending_epoch p = (case pcs_store p 7 of Some (SvEpoch e) \<Rightarrow> Some e | _ \<Rightarrow> None)"

definition save_previous_epoch :: "Epoch option \<Rightarrow> PersistentConsensusState \<Rightarrow> PersistentConsensusState" where
  "save_previous_epoch epoch p = save_optional_epoch 8 epoch p"

definition load_previous_epoch :: "PersistentConsensusState \<Rightarrow> Epoch option" where
  "load_previous_epoch p = (case pcs_store p 8 of Some (SvEpoch e) \<Rightarrow> Some e | _ \<Rightarrow> None)"

definition vote_key_of :: "VoteType \<Rightarrow> u64" where
  "vote_key_of t = (case t of Vote \<Rightarrow> 9 | Vote2 \<Rightarrow> 10)"

definition save_last_vote ::
    "VoteType \<Rightarrow> ViewNumber \<Rightarrow> BlockHash \<Rightarrow> PersistentConsensusState \<Rightarrow> PersistentConsensusState" where
  "save_last_vote vote_type view block_hash p = pcs_insert (vote_key_of vote_type) (SvVote view block_hash) p"

definition load_last_vote :: "VoteType \<Rightarrow> PersistentConsensusState \<Rightarrow> (ViewNumber \<times> BlockHash) option" where
  "load_last_vote vote_type p =
     (case pcs_store p (vote_key_of vote_type) of Some (SvVote v h) \<Rightarrow> Some (v, h) | _ \<Rightarrow> None)"

section \<open>Saving and restoring the consensus state\<close>

text \<open>\<open>ConsensusEngine::persist_state\<close>; a slot that is \<open>None\<close> in memory is left as it is on disk.\<close>

definition persist ::
    "ConsensusState \<Rightarrow> Epoch option \<Rightarrow> Epoch option \<Rightarrow> PersistentConsensusState \<Rightarrow> PersistentConsensusState" where
  "persist s previous_epoch pending_epoch p0 =
     (let p1 = save_current_view (cs_current_view s) p0;
          p2 = (case cs_locked_qc s of Some qc \<Rightarrow> save_locked_qc qc p1 | None \<Rightarrow> p1);
          p3 = (case cs_highest_qc s of Some qc \<Rightarrow> save_highest_qc qc p2 | None \<Rightarrow> p2);
          p4 = save_last_committed_height (cs_last_committed_height s) p3;
          p5 = save_current_epoch (cs_current_epoch s) p4;
          p6 = save_previous_epoch previous_epoch p5;
          p7 = save_last_app_hash (cs_last_app_hash s) p6
      in save_pending_epoch pending_epoch p7)"

definition restore_state ::
    "(bytes \<Rightarrow> hash32) \<Rightarrow> ValidatorId \<Rightarrow> ValidatorSet \<Rightarrow> bytes \<Rightarrow> PersistentConsensusState \<Rightarrow> ConsensusState" where
  "restore_state blake3 our_vid validator_set chain_id p =
     (let s0 = with_chain_id blake3 our_vid validator_set chain_id;
          s1 = (case load_current_view p of Some v \<Rightarrow> s0\<lparr>cs_current_view := v\<rparr> | None \<Rightarrow> s0);
          s2 = (case load_locked_qc p of Some qc \<Rightarrow> s1\<lparr>cs_locked_qc := Some qc\<rparr> | None \<Rightarrow> s1);
          s3 = (case load_highest_qc p of Some qc \<Rightarrow> s2\<lparr>cs_highest_qc := Some qc\<rparr> | None \<Rightarrow> s2);
          s4 = (case load_last_committed_height p of
                  Some h \<Rightarrow> s3\<lparr>cs_last_committed_height := h\<rparr> | None \<Rightarrow> s3);
          s5 = (case load_current_epoch p of
                  Some e \<Rightarrow> s4\<lparr>cs_validator_set := ep_validator_set e, cs_current_epoch := e\<rparr> | None \<Rightarrow> s4);
          s6 = (case load_last_app_hash p of Some h \<Rightarrow> s5\<lparr>cs_last_app_hash := h\<rparr> | None \<Rightarrow> s5)
      in s6\<lparr>cs_last_vote1 := load_last_vote Vote p, cs_last_vote2 := load_last_vote Vote2 p\<rparr>)"

section \<open>The contract of the trait\<close>

text \<open>What a backend holds, field by field.\<close>

record saved_state =
  sv_view :: "ViewNumber option"
  sv_locked :: "QuorumCertificate option"
  sv_highest :: "QuorumCertificate option"
  sv_height :: "Height option"
  sv_epoch :: "Epoch option"
  sv_app_hash :: "BlockHash option"
  sv_pending :: "Epoch option"
  sv_previous :: "Epoch option"
  sv_vote1 :: "(ViewNumber \<times> BlockHash) option"
  sv_vote2 :: "(ViewNumber \<times> BlockHash) option"

locale state_persistence =
  fixes saved :: "'s \<Rightarrow> saved_state"
    and s_view :: "ViewNumber \<Rightarrow> 's \<Rightarrow> 's"
    and s_locked s_highest :: "QuorumCertificate \<Rightarrow> 's \<Rightarrow> 's"
    and s_height :: "Height \<Rightarrow> 's \<Rightarrow> 's"
    and s_epoch :: "Epoch \<Rightarrow> 's \<Rightarrow> 's"
    and s_app_hash :: "BlockHash \<Rightarrow> 's \<Rightarrow> 's"
    and s_pending s_previous :: "Epoch option \<Rightarrow> 's \<Rightarrow> 's"
    and s_vote :: "VoteType \<Rightarrow> ViewNumber \<Rightarrow> BlockHash \<Rightarrow> 's \<Rightarrow> 's"
  assumes laws:
    "saved (s_view v s) = (saved s)\<lparr>sv_view := Some v\<rparr>"
    "saved (s_locked qc s) = (saved s)\<lparr>sv_locked := Some qc\<rparr>"
    "saved (s_highest qc s) = (saved s)\<lparr>sv_highest := Some qc\<rparr>"
    "saved (s_height h s) = (saved s)\<lparr>sv_height := Some h\<rparr>"
    "saved (s_epoch e s) = (saved s)\<lparr>sv_epoch := Some e\<rparr>"
    "saved (s_app_hash x s) = (saved s)\<lparr>sv_app_hash := Some x\<rparr>"
    "saved (s_pending pe s) = (saved s)\<lparr>sv_pending := pe\<rparr>"
    "saved (s_previous pe s) = (saved s)\<lparr>sv_previous := pe\<rparr>"
    "saved (s_vote Vote v b s) = (saved s)\<lparr>sv_vote1 := Some (v, b)\<rparr>"
    "saved (s_vote Vote2 v b s) = (saved s)\<lparr>sv_vote2 := Some (v, b)\<rparr>"
begin

text \<open>Saving a vote and saving the rest commute as far as any reader can tell.\<close>

lemma vote_commutes:
  "saved (s_vote t v b (s_view w s)) = saved (s_view w (s_vote t v b s))"
  "saved (s_vote t v b (s_locked qc s)) = saved (s_locked qc (s_vote t v b s))"
  by (cases t; simp add: laws)+

end

definition pcs_saved :: "PersistentConsensusState \<Rightarrow> saved_state" where
  "pcs_saved p =
     \<lparr> sv_view = load_current_view p, sv_locked = load_locked_qc p, sv_highest = load_highest_qc p,
       sv_height = load_last_committed_height p, sv_epoch = load_current_epoch p,
       sv_app_hash = load_last_app_hash p, sv_pending = load_pending_epoch p,
       sv_previous = load_previous_epoch p, sv_vote1 = load_last_vote Vote p,
       sv_vote2 = load_last_vote Vote2 p \<rparr>"

lemmas load_defs = load_current_view_def load_locked_qc_def load_highest_qc_def load_last_committed_height_def
  load_current_epoch_def load_last_app_hash_def load_pending_epoch_def load_previous_epoch_def load_last_vote_def

lemmas save_defs = save_current_view_def save_locked_qc_def save_highest_qc_def save_last_committed_height_def
  save_current_epoch_def save_last_app_hash_def save_pending_epoch_def save_previous_epoch_def
  save_optional_epoch_def save_last_vote_def pcs_insert_def vote_key_of_def

interpretation pcs: state_persistence pcs_saved save_current_view save_locked_qc save_highest_qc
    save_last_committed_height save_current_epoch save_last_app_hash save_pending_epoch save_previous_epoch
    save_last_vote
proof
  fix pe :: "Epoch option" and s
  show "pcs_saved (save_pending_epoch pe s) = (pcs_saved s)\<lparr>sv_pending := pe\<rparr>"
    "pcs_saved (save_previous_epoch pe s) = (pcs_saved s)\<lparr>sv_previous := pe\<rparr>"
    by (cases pe; simp add: pcs_saved_def load_defs save_defs)+
qed (simp_all add: pcs_saved_def load_defs save_defs)

lemma saved_loads:
  "load_current_view p = sv_view (pcs_saved p)" "load_locked_qc p = sv_locked (pcs_saved p)"
  "load_highest_qc p = sv_highest (pcs_saved p)" "load_last_committed_height p = sv_height (pcs_saved p)"
  "load_current_epoch p = sv_epoch (pcs_saved p)" "load_last_app_hash p = sv_app_hash (pcs_saved p)"
  "load_pending_epoch p = sv_pending (pcs_saved p)" "load_previous_epoch p = sv_previous (pcs_saved p)"
  "load_last_vote Vote p = sv_vote1 (pcs_saved p)" "load_last_vote Vote2 p = sv_vote2 (pcs_saved p)"
  by (simp_all add: pcs_saved_def)

lemma persist_saved:
  "pcs_saved (persist s prev pend p) =
     (pcs_saved p)\<lparr>sv_view := Some (cs_current_view s),
       sv_locked := (case cs_locked_qc s of None \<Rightarrow> sv_locked (pcs_saved p) | Some qc \<Rightarrow> Some qc),
       sv_highest := (case cs_highest_qc s of None \<Rightarrow> sv_highest (pcs_saved p) | Some qc \<Rightarrow> Some qc),
       sv_height := Some (cs_last_committed_height s), sv_epoch := Some (cs_current_epoch s),
       sv_app_hash := Some (cs_last_app_hash s), sv_pending := pend, sv_previous := prev\<rparr>"
  by (simp add: persist_def Let_def pcs.laws split: option.split)

text \<open>
  A restart restores what the engine needs for safety: if the vote records on disk are those in
  memory and no certificate slot was emptied since it was last saved, saving the state and restoring
  it gives the state back, both vote records, the lock and the highest certificate included, except
  for role, step, the last double certificate and the collected extensions, which are reset; the
  pending and the retained epoch read back as saved.
\<close>

lemma persist_restore_round_trip:
  assumes "cs_validator_id s = i" "cs_chain_id_hash s = blake3 chain_id"
    and "cs_validator_set s = ep_validator_set (cs_current_epoch s)"
    and "load_last_vote Vote p = cs_last_vote1 s" "load_last_vote Vote2 p = cs_last_vote2 s"
    and "cs_locked_qc s = None \<Longrightarrow> load_locked_qc p = None"
    and "cs_highest_qc s = None \<Longrightarrow> load_highest_qc p = None"
  shows "restore_state blake3 i vs chain_id (persist s prev pend p) =
           s\<lparr>cs_role := Replica, cs_step := Entered, cs_highest_double_cert := None,
             cs_pending_vote_extensions := []\<rparr> \<and>
         load_pending_epoch (persist s prev pend p) = pend \<and>
         load_previous_epoch (persist s prev pend p) = prev"
proof -
  have "restore_state blake3 i vs chain_id (persist s prev pend p) =
           s\<lparr>cs_role := Replica, cs_step := Entered, cs_highest_double_cert := None,
             cs_pending_vote_extensions := []\<rparr>"
    using assms
    by (cases "cs_locked_qc s"; cases "cs_highest_qc s")
       (simp_all add: restore_state_def Let_def saved_loads persist_saved with_chain_id_def)
  then show ?thesis by (simp add: saved_loads persist_saved)
qed

end
