(* ===== verification/Engine.thy ===== *)
theory Engine
  imports Engine_Verify Vote_Collector Evidence_Store Persistence
begin

text \<open>
  The stateful half of \<open>hotmint-consensus/src/engine.rs\<close>: one definition per method of
  \<open>ConsensusEngine\<close>, over a record of its fields. A method that can panic returns \<open>Inl\<close> the reason.
  What leaves the engine is the log \<open>en_log\<close>: every message sent and every vote signed, in order,
  with the consensus state and the durable state at that moment. The block store is the persistent
  one; the write-ahead log is the trait's two operations (\<open>WalOps\<close>); the clock is read once per
  handler. Advancing a view, proposing and voting for one's own block call each other: the calls to
  \<open>advance_view\<close> go through the argument \<open>adv\<close>, and \<open>advance_view_to\<close> ties the knot with fuel.
\<close>

section \<open>State and environment\<close>

record 'w WalOps =
  wo_intent :: "Height \<Rightarrow> 'w \<Rightarrow> 'w option"
  wo_done :: "Height \<Rightarrow> 'w \<Rightarrow> 'w"

record ('a, 'w) EngineEnv =
  ee_deps :: "'a ViewDeps"
  ee_wal :: "'w WalOps"
  ee_f64_scale :: "nat \<Rightarrow> u32 \<Rightarrow> u64"
  ee_now :: nat
  ee_now_ms :: u64

record ('a, 'w) Engine =
  en_state :: ConsensusState
  en_store :: VsdbBlockStore
  en_app :: 'a
  en_vote_collector :: VoteCollector
  en_pacemaker :: Pacemaker
  en_pacemaker_config :: PacemakerConfig
  en_status_senders :: "ValidatorId list"
  en_current_view_qc :: "QuorumCertificate option"
  en_pending_epoch :: "Epoch option"
  en_persistence :: "PersistentConsensusState option"
  en_evidence_store :: "PersistentEvidenceStore option"
  en_liveness_tracker :: LivenessTracker
  en_wal :: "'w option"
  en_msg_rate_limiter :: "ValidatorId \<rightharpoonup> nat \<times> u32"
  en_previous_epoch :: "Epoch option"
  en_log :: "(effect \<times> ConsensusState \<times> PersistentConsensusState option) list"

datatype engine_stop = Panic | ProcessExit | NoReturn | OutOfFuel

datatype engine_error = VoteRejected vote_error | ProposalRejected vp_error

type_synonym ('a, 'w) engine_result = "engine_stop + ('a, 'w) Engine"

definition engine_new ::
    "ConsensusState \<Rightarrow> VsdbBlockStore \<Rightarrow> 'a \<Rightarrow> nat \<Rightarrow> PacemakerConfig option \<Rightarrow> PersistentConsensusState option \<Rightarrow>
     PersistentEvidenceStore option \<Rightarrow> 'w option \<Rightarrow> Epoch option \<Rightarrow> Epoch option \<Rightarrow> ('a, 'w) Engine" where
  "engine_new st store app now pacemaker persistence evidence wal pending_epoch previous_epoch =
     (let pc = (case pacemaker of None \<Rightarrow> default_PacemakerConfig | Some c \<Rightarrow> c)
      in \<lparr> en_state = st, en_store = store, en_app = app, en_vote_collector = vc_new,
           en_pacemaker = pm_with_config now pc, en_pacemaker_config = pc, en_status_senders = [],
           en_current_view_qc = None, en_pending_epoch = pending_epoch, en_persistence = persistence,
           en_evidence_store = evidence, en_liveness_tracker = lt_new, en_wal = wal,
           en_msg_rate_limiter = Map.empty, en_previous_epoch = previous_epoch, en_log = [] \<rparr>)"

text \<open>The errors of a commit that are panics of the source.\<close>

fun commit_panics :: "commit_error \<Rightarrow> bool" where
  "commit_panics EpochOverflowPanic = True"
| "commit_panics (EvidencePanic h) = True"
| "commit_panics (ExecutePanic h) = True"
| "commit_panics (OnCommitPanic h) = True"
| "commit_panics _ = False"

fun proposal_panics :: "vp_error \<Rightarrow> bool" where
  "proposal_panics HeightPanic = True"
| "proposal_panics (FastForwardFailed e) = commit_panics e"
| "proposal_panics _ = False"

text \<open>A vote record is saved durably; everything else is logged.\<close>

definition perform :: "effect \<Rightarrow> ('a, 'w) Engine \<Rightarrow> ('a, 'w) Engine" where
  "perform eff e =
     (case eff of
        SaveLastVote t v h \<Rightarrow> e\<lparr>en_persistence := map_option (save_last_vote t v h) (en_persistence e)\<rparr>
      | _ \<Rightarrow> e\<lparr>en_log := en_log e @ [(eff, en_state e, en_persistence e)]\<rparr>)"

definition perform_all :: "effect list \<Rightarrow> ('a, 'w) Engine \<Rightarrow> ('a, 'w) Engine" where
  "perform_all effs e = fold perform effs e"

definition persist_state :: "('a, 'w) Engine \<Rightarrow> ('a, 'w) Engine" where
  "persist_state e =
     e\<lparr>en_persistence :=
         map_option (persist (en_state e) (en_previous_epoch e) (en_pending_epoch e)) (en_persistence e)\<rparr>"

definition finish_wal_intent :: "('a, 'w) EngineEnv \<Rightarrow> Height \<Rightarrow> ('a, 'w) Engine \<Rightarrow> ('a, 'w) Engine" where
  "finish_wal_intent env target_height e =
     e\<lparr>en_wal := map_option (wo_done (ee_wal env) target_height) (en_wal e)\<rparr>"

text \<open>Logging an intent: without a log nothing happens; a failing one panics.\<close>

definition wal_intent :: "('a, 'w) EngineEnv \<Rightarrow> Height \<Rightarrow> ('a, 'w) Engine \<Rightarrow> ('a, 'w) engine_result" where
  "wal_intent env target_height e =
     (case en_wal e of
        None \<Rightarrow> Inr e
      | Some w \<Rightarrow> (case wo_intent (ee_wal env) target_height w of
                     None \<Rightarrow> Inl Panic
                   | Some w' \<Rightarrow> Inr (e\<lparr>en_wal := Some w'\<rparr>)))"

definition handle_equivocation :: "VoteResult \<Rightarrow> ('a, 'w) Engine \<Rightarrow> ('a, 'w) Engine" where
  "handle_equivocation result e =
     (case vr_equivocation result of
        None \<Rightarrow> e
      | Some p \<Rightarrow>
          perform (BroadcastEvidence p)
            (e\<lparr>en_evidence_store := map_option (pe_put_evidence p) (en_evidence_store e)\<rparr>))"

section \<open>Commits\<close>

definition index_txs :: "(bytes \<Rightarrow> hash32) \<Rightarrow> Block \<Rightarrow> VsdbBlockStore \<Rightarrow> VsdbBlockStore" where
  "index_txs blake3 block store =
     fold (\<lambda>(tx_idx, tx) s. put_tx_index (blake3 tx) (b_height block) (of_nat tx_idx) s)
       (List.enumerate 0 (decode_payload (b_payload block))) store"

fun store_committed ::
    "(bytes \<Rightarrow> hash32) \<Rightarrow> QuorumCertificate \<Rightarrow> EndBlockResponse list \<Rightarrow> nat \<Rightarrow> Block list \<Rightarrow> VsdbBlockStore \<Rightarrow>
     VsdbBlockStore" where
  "store_committed blake3 commit_qc responses i [] store = store"
| "store_committed blake3 commit_qc responses i (block # rest) store =
     (let s1 = (if qc_block_hash commit_qc = b_hash block
                then put_commit_qc (b_height block) commit_qc store else store);
          s2 = index_txs blake3 block s1;
          s3 = (case nth_opt responses i of
                  Some resp \<Rightarrow> put_block_results (b_height block) resp s2
                | None \<Rightarrow> s2)
      in store_committed blake3 commit_qc responses (Suc i) rest s3)"

definition mark_committed_evidence :: "Block list \<Rightarrow> PersistentEvidenceStore \<Rightarrow> PersistentEvidenceStore" where
  "mark_committed_evidence blocks ev =
     fold (\<lambda>block s. fold (\<lambda>p. pe_mark_committed (ev_view p) (ev_validator p)) (b_evidence block) s) blocks ev"

definition process_commit_result ::
    "('a, 'w) EngineEnv \<Rightarrow> CommitResult \<Rightarrow> ('a, 'w) Engine \<Rightarrow> ('a, 'w) Engine" where
  "process_commit_result env result e =
     (if cr_committed_blocks result = [] then e
      else
        let e1 = e\<lparr>en_store := store_committed (vd_blake3 (ee_deps env)) (cr_commit_qc result)
                     (cr_block_responses result) 0 (cr_committed_blocks result) (en_store e)\<rparr>;
            e2 = e1\<lparr>en_evidence_store :=
                      map_option (mark_committed_evidence (cr_committed_blocks result)) (en_evidence_store e1)\<rparr>;
            e3 = e2\<lparr>en_liveness_tracker :=
                      record_commit (cs_validator_set (en_state e2))
                        (ag_signers (qc_aggregate_signature (cr_commit_qc result))) (en_liveness_tracker e2)\<rparr>;
            e4 = persist_state e3
        in finish_wal_intent env (cs_last_committed_height (en_state e4)) e4)"

definition adopt_commit_epoch :: "CommitResult \<Rightarrow> ('a, 'w) Engine \<Rightarrow> ('a, 'w) Engine" where
  "adopt_commit_epoch result e =
     (let e1 = (case cr_activated_epoch result of
                  Some activated \<Rightarrow>
                    e\<lparr>en_previous_epoch := Some (cs_current_epoch (en_state e)),
                      en_state := (en_state e)\<lparr>cs_current_epoch := activated,
                                    cs_validator_set := ep_validator_set activated\<rparr>\<rparr>
                | None \<Rightarrow> e)
      in e1\<lparr>en_pending_epoch := cr_pending_epoch result\<rparr>)"

definition apply_commit ::
    "('a, 'w) EngineEnv \<Rightarrow> DoubleCertificate \<Rightarrow> ('a, 'w) Engine \<Rightarrow> ('a, 'w) engine_result" where
  "apply_commit env dc e0 =
     (let intent_height = (case en_wal e0 of
                             None \<Rightarrow> None
                           | Some _ \<Rightarrow> map_option b_height (get_block (en_store e0) (qc_block_hash (dc_inner_qc dc))))
      in rbind (case intent_height of None \<Rightarrow> Inr e0 | Some h \<Rightarrow> wal_intent env h e0) (\<lambda>e.
           (case try_commit (vd_app (ee_deps env)) (get_block (en_store e)) (get_block_by_height (en_store e)) dc
                       (cs_current_epoch (en_state e)) (en_previous_epoch e) (en_pending_epoch e)
                       (cs_last_committed_height (en_state e)) (en_app e) of
                  (h, a, Inr result) \<Rightarrow>
                    let committed = cr_committed_blocks result \<noteq> [];
                        st = (en_state e)\<lparr>cs_last_committed_height := h\<rparr>;
                        e1 = e\<lparr>en_app := a,
                               en_state := (if committed then st\<lparr>cs_last_app_hash := cr_last_app_hash result\<rparr>
                                            else st)\<rparr>;
                        e2 = (if committed then adopt_commit_epoch result e1 else e1);
                        e3 = process_commit_result env result e2
                    in (case intent_height of
                          Some height \<Rightarrow> Inr (if \<not> committed then finish_wal_intent env height e3 else e3)
                        | None \<Rightarrow> Inr e3)
                | (h, a, Inl err) \<Rightarrow>
                    if commit_panics err then Inl Panic
                    else
                      let e1 = e\<lparr>en_app := a, en_state := (en_state e)\<lparr>cs_last_committed_height := h\<rparr>\<rparr>
                      in (case intent_height of
                            Some height \<Rightarrow> Inr (finish_wal_intent env height e1)
                          | None \<Rightarrow> Inr e1))))"

section \<open>Voting for one's own proposal\<close>

text \<open>\<open>adv\<close> stands for \<open>advance_view\<close>.\<close>

type_synonym ('a, 'w) advance = "ViewEntryTrigger \<Rightarrow> ('a, 'w) Engine \<Rightarrow> ('a, 'w) engine_result"

definition matching_inner_qc :: "QuorumCertificate \<Rightarrow> ('a, 'w) Engine \<Rightarrow> QuorumCertificate option" where
  "matching_inner_qc outer_qc e =
     (let fits = (\<lambda>x. case x of Some qc \<Rightarrow> qc_block_hash qc = qc_block_hash outer_qc | None \<Rightarrow> False)
      in if fits (en_current_view_qc e) then en_current_view_qc e
         else if fits (cs_locked_qc (en_state e)) then cs_locked_qc (en_state e)
         else if fits (cs_highest_qc (en_state e)) then cs_highest_qc (en_state e)
         else None)"

definition on_double_cert_formed ::
    "('a, 'w) advance \<Rightarrow> ('a, 'w) EngineEnv \<Rightarrow> QuorumCertificate \<Rightarrow> (ValidatorId \<times> bytes) list \<Rightarrow>
     ('a, 'w) Engine \<Rightarrow> ('a, 'w) engine_result" where
  "on_double_cert_formed adv env outer_qc extensions e0 =
     (let e = e0\<lparr>en_current_view_qc := None\<rparr>
      in case matching_inner_qc outer_qc e0 of
           None \<Rightarrow> Inr e
         | Some inner_qc \<Rightarrow>
             let dc = \<lparr> dc_inner_qc = inner_qc, dc_outer_qc = outer_qc, dc_vote_extensions = extensions \<rparr>
             in rbind (apply_commit env dc e) (\<lambda>e1.
                  adv (TriggerDoubleCert dc)
                    (e1\<lparr>en_state := (en_state e1)\<lparr>cs_highest_double_cert := Some dc\<rparr>\<rparr>)))"

definition block_vote_extension :: "('a, 'w) EngineEnv \<Rightarrow> BlockHash \<Rightarrow> ('a, 'w) Engine \<Rightarrow> bytes option" where
  "block_vote_extension env block_hash e =
     Option.bind (get_block (en_store e) block_hash) (\<lambda>block.
       app_extend_vote (vd_app (ee_deps env)) block
         \<lparr> ctx_height = b_height block, ctx_view = cs_current_view (en_state e),
           ctx_proposer = b_proposer block, ctx_epoch = ep_number (cs_current_epoch (en_state e)),
           ctx_epoch_start_view = ep_start_view (cs_current_epoch (en_state e)),
           ctx_validator_set = cs_validator_set (en_state e), ctx_timestamp = b_timestamp block,
           ctx_vote_extensions = [] \<rparr> (en_app e))"

text \<open>Adding a vote of one's own to the collector; a failure is only logged.\<close>

definition collect_own_vote ::
    "Vote \<Rightarrow> (QuorumCertificate \<Rightarrow> (ValidatorId \<times> bytes) list \<Rightarrow> ('a, 'w) Engine \<Rightarrow> ('a, 'w) engine_result) \<Rightarrow>
     ('a, 'w) Engine \<Rightarrow> ('a, 'w) engine_result" where
  "collect_own_vote vote formed e =
     (case add_vote (cs_validator_set (en_state e)) vote (ep_number (cs_current_epoch (en_state e)))
             (en_vote_collector e) of
        (c, Inr result) \<Rightarrow>
          let e1 = handle_equivocation result (e\<lparr>en_vote_collector := c\<rparr>)
          in (case vr_qc result of Some qc \<Rightarrow> formed qc (vr_extensions result) e1 | None \<Rightarrow> Inr e1)
      | (c, Inl err) \<Rightarrow> Inr (e\<lparr>en_vote_collector := c\<rparr>))"

definition on_qc_formed ::
    "('a, 'w) advance \<Rightarrow> ('a, 'w) EngineEnv \<Rightarrow> QuorumCertificate \<Rightarrow> ('a, 'w) Engine \<Rightarrow> ('a, 'w) engine_result" where
  "on_qc_formed adv env qc e0 =
     (let (s1, out) = on_votes_collected (ee_deps env) qc (en_state e0);
          e1 = perform_all out (e0\<lparr>en_current_view_qc := Some qc, en_state := s1\<rparr>);
          vote_extension = block_vote_extension env (qc_block_hash qc) e1;
          (s2, may_sign) = check_and_record_vote Vote2 (cs_current_view (en_state e1)) (qc_block_hash qc) (en_state e1);
          e2 = e1\<lparr>en_state := s2\<rparr>
      in if \<not> may_sign then Inr e2
         else
           let e3 = perform (SaveLastVote Vote2 (cs_current_view s2) (qc_block_hash qc)) e2;
               vote = make_vote (ee_deps env) s2 (qc_block_hash qc) Vote2 vote_extension;
               e4 = persist_state
                      ((perform (SignVote vote) e3)\<lparr>en_state := update_locked_qc qc (en_state e3)\<rparr>)
           in (case next_leader (cs_validator_set (en_state e4)) (cs_current_view (en_state e4)) of
                 None \<Rightarrow> Inl Panic
               | Some next_leader_id \<Rightarrow>
                   if next_leader_id = cs_validator_id (en_state e4)
                   then collect_own_vote vote (on_double_cert_formed adv env) e4
                   else Inr (perform (SendTo next_leader_id (Vote2Msg vote)) e4)))"

definition leader_self_vote ::
    "('a, 'w) advance \<Rightarrow> ('a, 'w) EngineEnv \<Rightarrow> BlockHash \<Rightarrow> ('a, 'w) Engine \<Rightarrow> ('a, 'w) engine_result" where
  "leader_self_vote adv env block_hash e0 =
     (let (s1, may_sign) = check_and_record_vote Vote (cs_current_view (en_state e0)) block_hash (en_state e0);
          e1 = e0\<lparr>en_state := s1\<rparr>
      in if \<not> may_sign then Inr e1
         else
           let e2 = perform (SaveLastVote Vote (cs_current_view s1) block_hash) e1;
               vote = make_vote (ee_deps env) s1 block_hash Vote None;
               e3 = perform (SignVote vote) e2
           in collect_own_vote vote (\<lambda>qc extensions. on_qc_formed adv env qc) e3)"

definition try_propose ::
    "('a, 'w) advance \<Rightarrow> ('a, 'w) EngineEnv \<Rightarrow> ('a, 'w) Engine \<Rightarrow> ('a, 'w) engine_result" where
  "try_propose adv env e =
     (let pending_evidence = (case en_evidence_store e of None \<Rightarrow> [] | Some s \<Rightarrow> pe_get_pending s)
      in case propose (ee_deps env) (ee_now_ms env) pending_evidence
                \<lparr> ec_previous_epoch = en_previous_epoch e, ec_in_flight_pending = None \<rparr>
                (en_state e) (en_store e) (en_app e) of
           (s, store, a, out, r) \<Rightarrow>
             let e1 = perform_all out (e\<lparr>en_state := s, en_store := store, en_app := a\<rparr>)
             in (case r of
                   Inr block \<Rightarrow> leader_self_vote adv env (b_hash block) e1
                 | Inl HeightPanic \<Rightarrow> Inl Panic
                 | Inl AncestorLoop \<Rightarrow> Inl NoReturn
                 | Inl _ \<Rightarrow> Inr e1))"

section \<open>Advancing\<close>

text \<open>The epoch transition of \<open>advance_view_to\<close>.\<close>

definition offline_evidence :: "('a, 'w) Engine \<Rightarrow> OfflineEvidence list" where
  "offline_evidence e =
     map (\<lambda>(validator, missed, total).
            \<lparr> oe_validator = validator, oe_missed_commits = missed, oe_total_commits = total,
              oe_evidence_height = cs_last_committed_height (en_state e) \<rparr>)
       (offline_validators (en_liveness_tracker e))"

definition epoch_transition :: "('a, 'w) EngineEnv \<Rightarrow> ViewNumber \<Rightarrow> ('a, 'w) Engine \<Rightarrow> ('a, 'w) Engine" where
  "epoch_transition env new_view e =
     (case en_pending_epoch e of
        None \<Rightarrow> e
      | Some new_epoch \<Rightarrow>
          if \<not> new_view \<ge> ep_start_view new_epoch then e
          else
            let evidence = offline_evidence e;
                e1 = e\<lparr>en_pending_epoch := None,
                       en_app := (if evidence \<noteq> [] then app_on_offline_validators (vd_app (ee_deps env)) evidence (en_app e)
                                  else en_app e),
                       en_liveness_tracker := lt_reset (en_liveness_tracker e),
                       en_previous_epoch := Some (cs_current_epoch (en_state e)),
                       en_state := (en_state e)\<lparr>cs_validator_set := ep_validator_set new_epoch,
                                     cs_current_epoch := new_epoch\<rparr>\<rparr>;
                e2 = perform (EpochChange (ep_number new_epoch) (ep_validator_set new_epoch)) e1
            in e2\<lparr>en_vote_collector := vc_new,
                  en_pacemaker := pm_with_config (ee_now env) (en_pacemaker_config e2)\<rparr>)"

text \<open>Everything \<open>advance_view_to\<close> does before the leader proposes.\<close>

definition trigger_extensions :: "ViewEntryTrigger \<Rightarrow> ('a, 'w) Engine \<Rightarrow> (ValidatorId \<times> bytes) list" where
  "trigger_extensions trigger e =
     (case trigger of
        TriggerDoubleCert dc \<Rightarrow>
          (case Option.bind (validator_set_for_epoch (en_state e) (en_previous_epoch e) (qc_epoch (dc_outer_qc dc)))
                  (canonical_vote_extensions dc) of
             Some extensions \<Rightarrow> extensions
           | None \<Rightarrow> [])
      | _ \<Rightarrow> [])"

definition clear_old_view :: "('a, 'w) Engine \<Rightarrow> ('a, 'w) Engine" where
  "clear_old_view e =
     (let view = cs_current_view (en_state e)
      in e\<lparr>en_vote_collector := vc_prune_before view (vc_clear_view view (en_vote_collector e)),
           en_pacemaker := pm_prune_before view (pm_clear_view view (en_pacemaker e)),
           en_status_senders := [], en_current_view_qc := None\<rparr>)"

definition enter_new_view ::
    "('a, 'w) EngineEnv \<Rightarrow> ViewNumber \<Rightarrow> ViewEntryTrigger \<Rightarrow> ('a, 'w) Engine \<Rightarrow> ('a, 'w) engine_result" where
  "enter_new_view env new_view trigger e0 =
     (let e1 = e0\<lparr>en_state := (en_state e0)\<lparr>cs_pending_vote_extensions := trigger_extensions trigger e0\<rparr>\<rparr>;
          e2 = epoch_transition env new_view (clear_old_view e1)
      in case enter_view (ee_deps env) new_view trigger (en_state e2) of
           Inl _ \<Rightarrow> Inl Panic
         | Inr (s, out) \<Rightarrow>
             let e3 = perform_all out (e2\<lparr>en_state := s\<rparr>);
                 e4 = e3\<lparr>en_pacemaker :=
                           (if (case trigger of TriggerDoubleCert _ \<Rightarrow> True | _ \<Rightarrow> False)
                            then pm_reset_on_progress (ee_now env) (en_pacemaker e3)
                            else pm_reset_timer (ee_now env) (en_pacemaker e3))\<rparr>
             in Inr (persist_state e4))"

definition trigger_view :: "ViewEntryTrigger \<Rightarrow> ViewNumber \<Rightarrow> ViewNumber option" where
  "trigger_view trigger current_view =
     (case trigger of
        TriggerDoubleCert _ \<Rightarrow> next_view current_view
      | TriggerTimeoutCert tc \<Rightarrow> Some (tc_view tc + 1)
      | TriggerGenesis \<Rightarrow> Some 1)"

text \<open>
  \<open>advance_view_to\<close>; its recursive call is \<open>advance_view\<close> with one unit of fuel less.
\<close>

primrec advance_view_to ::
    "nat \<Rightarrow> ('a, 'w) EngineEnv \<Rightarrow> ViewNumber \<Rightarrow> ViewEntryTrigger \<Rightarrow> ('a, 'w) Engine \<Rightarrow> ('a, 'w) engine_result" where
  "advance_view_to 0 env new_view trigger e = Inl OutOfFuel"
| "advance_view_to (Suc n) env new_view trigger e =
     (if new_view \<le> cs_current_view (en_state e) then Inr e
      else rbind (enter_new_view env new_view trigger e) (\<lambda>e1.
             if cs_is_leader (en_state e1) \<and> cs_step (en_state e1) = WaitingForStatus
             then try_propose
                    (\<lambda>trigger' e'. case trigger_view trigger' (cs_current_view (en_state e')) of
                                     None \<Rightarrow> Inl Panic
                                   | Some v \<Rightarrow> advance_view_to n env v trigger' e')
                    env e1
             else Inr e1))"

definition advance_view :: "nat \<Rightarrow> ('a, 'w) EngineEnv \<Rightarrow> ('a, 'w) advance" where
  "advance_view fuel env trigger e =
     (case trigger_view trigger (cs_current_view (en_state e)) of
        None \<Rightarrow> Inl Panic
      | Some v \<Rightarrow> advance_view_to fuel env v trigger e)"

section \<open>Startup and timeouts\<close>

definition genesis_qc :: "ConsensusState \<Rightarrow> QuorumCertificate" where
  "genesis_qc st =
     \<lparr> qc_block_hash = GENESIS_HASH, qc_view = 0,
       qc_aggregate_signature = agg_new (validator_count (cs_validator_set st)),
       qc_epoch = ep_number (cs_current_epoch st) \<rparr>"

definition enter_genesis_view :: "nat \<Rightarrow> ('a, 'w) EngineEnv \<Rightarrow> ('a, 'w) Engine \<Rightarrow> ('a, 'w) engine_result" where
  "enter_genesis_view fuel env e =
     (let st = (en_state e)\<lparr>cs_highest_qc := Some (genesis_qc (en_state e))\<rparr>
      in case enter_view (ee_deps env) 1 TriggerGenesis st of
           Inl _ \<Rightarrow> Inl Panic
         | Inr (s, out) \<Rightarrow>
             let e1 = perform_all out (e\<lparr>en_state := s\<rparr>);
                 e2 = e1\<lparr>en_pacemaker := pm_reset_timer (ee_now env) (en_pacemaker e1)\<rparr>
             in if cs_is_leader (en_state e2)
                then try_propose (advance_view fuel env) env
                       (e2\<lparr>en_state := (en_state e2)\<lparr>cs_step := WaitingForStatus\<rparr>\<rparr>)
                else Inr e2)"

text \<open>\<open>run\<close> up to the event loop; \<open>info\<close> is the height and hash the application reports.\<close>

definition engine_start ::
    "nat \<Rightarrow> ('a, 'w) EngineEnv \<Rightarrow> Height \<times> BlockHash \<Rightarrow> ('a, 'w) Engine \<Rightarrow> ('a, 'w) engine_result" where
  "engine_start fuel env info e =
     (if fst info > 0 \<and> fst info \<noteq> cs_last_committed_height (en_state e) then Inl ProcessExit
      else if fst info > 0 \<and> snd info \<noteq> cs_last_app_hash (en_state e) then Inl ProcessExit
      else if cs_current_view (en_state e) \<le> 1 then enter_genesis_view fuel env e
      else Inr (e\<lparr>en_pacemaker := pm_reset_timer (ee_now env) (en_pacemaker e)\<rparr>))"

definition handle_timeout :: "nat \<Rightarrow> ('a, 'w) EngineEnv \<Rightarrow> ('a, 'w) Engine \<Rightarrow> ('a, 'w) engine_result" where
  "handle_timeout fuel env e =
     (let st = en_state e; deps = ee_deps env;
          backoff = (\<lambda>e'. e'\<lparr>en_pacemaker := pm_on_timeout (ee_f64_scale env) (ee_now env) (en_pacemaker e')\<rparr>)
      in if \<not> power_of (cs_validator_set st) (cs_validator_id st) > 0 then Inr (backoff e)
         else case build_wish (vd_blake3 deps) (vd_sign deps) (cs_chain_id_hash st)
                     (ep_number (cs_current_epoch st)) (cs_current_view st) (cs_validator_id st) (cs_highest_qc st) of
                None \<Rightarrow> Inl Panic
              | Some wish \<Rightarrow>
                  let e1 = perform (Broadcast wish) e
                  in (case wish of
                        Wish target_view validator highest_qc signature \<Rightarrow>
                          (case add_wish (cs_validator_set st) target_view validator highest_qc signature (en_pacemaker e1) of
                             (pm, Some tc) \<Rightarrow>
                               advance_view fuel env (TriggerTimeoutCert tc)
                                 (perform (Broadcast (TimeoutCert tc)) (e1\<lparr>en_pacemaker := pm\<rparr>))
                           | (pm, None) \<Rightarrow> Inr (backoff (e1\<lparr>en_pacemaker := pm\<rparr>)))
                      | _ \<Rightarrow> Inr (backoff e1)))"

section \<open>Messages\<close>

type_synonym ('a, 'w) handler_result = "engine_stop + ('a, 'w) Engine \<times> engine_error option"

abbreviation handled :: "('a, 'w) engine_result \<Rightarrow> ('a, 'w) handler_result" where
  "handled r \<equiv> rbind r (\<lambda>e. Inr (e, None))"

definition store_ancestors :: "(bytes \<Rightarrow> hash32) \<Rightarrow> Height \<Rightarrow> Block list \<Rightarrow> VsdbBlockStore \<Rightarrow> VsdbBlockStore" where
  "store_ancestors blake3 last_committed_height ancestors store =
     fold (\<lambda>b s. if b_height b > last_committed_height \<and> get_block s (b_hash b) = None \<and>
                     b_hash b = compute_hash blake3 b
                  then put_block b s else s) ancestors store"

text \<open>The part of the proposal handler that runs in the view of the proposal.\<close>

definition handle_current_proposal ::
    "('a, 'w) EngineEnv \<Rightarrow> Block \<Rightarrow> QuorumCertificate \<Rightarrow> DoubleCertificate option \<Rightarrow> ('a, 'w) Engine \<Rightarrow>
     ('a, 'w) handler_result" where
  "handle_current_proposal env block justify double_cert e0 =
     (let deps = ee_deps env
      in if (case double_cert of
               Some dc \<Rightarrow> \<not> validate_double_cert (vd_verify deps) (vd_blake3 deps) (en_state e0) (en_previous_epoch e0) dc
             | None \<Rightarrow> False)
         then Inr (e0, None)
         else
           let e1 = (if agg_count (qc_aggregate_signature justify) > 0
                     then case get_block (en_store e0) (qc_block_hash justify) of
                            Some justified_block \<Rightarrow>
                              if get_commit_qc (en_store e0) (b_height justified_block) = None
                              then e0\<lparr>en_store := put_commit_qc (b_height justified_block) justify (en_store e0)\<rparr>
                              else e0
                          | None \<Rightarrow> e0
                     else e0);
               intent_height = Option.bind double_cert (\<lambda>dc.
                 map_option b_height (get_block (en_store e1) (qc_block_hash (dc_inner_qc dc))))
           in rbind (case intent_height of None \<Rightarrow> Inr e1 | Some h \<Rightarrow> wal_intent env h e1) (\<lambda>e2.
                let finish = (\<lambda>e. case intent_height of Some h \<Rightarrow> finish_wal_intent env h e | None \<Rightarrow> e)
                in case on_proposal deps (ee_now_ms env)
                          \<lparr> pd_block = block, pd_justify = justify, pd_double_cert = double_cert \<rparr>
                          \<lparr> ec_previous_epoch = en_previous_epoch e2, ec_in_flight_pending = en_pending_epoch e2 \<rparr>
                          (en_state e2) (en_store e2) (en_app e2) of
                     (s, store, a, out, r) \<Rightarrow>
                       let e3 = perform_all out (e2\<lparr>en_state := s, en_store := store, en_app := a\<rparr>)
                       in (case r of
                             Inl err \<Rightarrow> if proposal_panics err then Inl Panic
                                        else Inr (finish e3, Some (ProposalRejected err))
                           | Inr result \<Rightarrow>
                               (case pr_commit_result result of
                                  Some cr \<Rightarrow>
                                    let committed = cr_committed_blocks cr \<noteq> [];
                                        e4 = (if committed then adopt_commit_epoch cr e3 else e3);
                                        e5 = process_commit_result env cr e4
                                    in Inr (if \<not> committed then finish e5 else e5, None)
                                | None \<Rightarrow>
                                    (case pr_pending_epoch result of
                                       Some epoch \<Rightarrow> Inr (finish (e3\<lparr>en_pending_epoch := Some epoch\<rparr>), None)
                                     | None \<Rightarrow> Inr (finish e3, None))))))"

definition handle_propose ::
    "nat \<Rightarrow> ('a, 'w) EngineEnv \<Rightarrow> Block \<Rightarrow> QuorumCertificate \<Rightarrow> DoubleCertificate option \<Rightarrow> Block list \<Rightarrow>
     ('a, 'w) Engine \<Rightarrow> ('a, 'w) handler_result" where
  "handle_propose fuel env block justify double_cert ancestor_blocks e0 =
     (let deps = ee_deps env;
          e = e0\<lparr>en_store := store_ancestors (vd_blake3 deps) (cs_last_committed_height (en_state e0))
                               ancestor_blocks (en_store e0)\<rparr>
      in if b_view block > cs_current_view (en_state e)
         then case double_cert of
                None \<Rightarrow> Inr (e, None)
              | Some dc \<Rightarrow>
                  if \<not> validate_double_cert (vd_verify deps) (vd_blake3 deps) (en_state e) (en_previous_epoch e) dc
                  then Inr (e, None)
                  else rbind (apply_commit env dc e) (\<lambda>e1.
                         rbind (advance_view_to fuel env (b_view block) (TriggerDoubleCert dc)
                                  (e1\<lparr>en_state := (en_state e1)\<lparr>cs_highest_double_cert := Some dc\<rparr>\<rparr>))
                           (handle_current_proposal env block justify double_cert))
         else if b_view block < cs_current_view (en_state e)
         then Inr (if b_height block > cs_last_committed_height (en_state e) \<and>
                      b_hash block = compute_hash (vd_blake3 deps) block
                   then e\<lparr>en_store := put_block block (en_store e)\<rparr> else e, None)
         else handle_current_proposal env block justify double_cert e)"

text \<open>Adding a received vote; a failure is the error of the handler.\<close>

definition collect_vote ::
    "Vote \<Rightarrow> (QuorumCertificate \<Rightarrow> (ValidatorId \<times> bytes) list \<Rightarrow> ('a, 'w) Engine \<Rightarrow> ('a, 'w) engine_result) \<Rightarrow>
     ('a, 'w) Engine \<Rightarrow> ('a, 'w) handler_result" where
  "collect_vote vote formed e =
     (case add_vote (cs_validator_set (en_state e)) vote (ep_number (cs_current_epoch (en_state e)))
             (en_vote_collector e) of
        (c, Inl err) \<Rightarrow> Inr (e\<lparr>en_vote_collector := c\<rparr>, Some (VoteRejected err))
      | (c, Inr result) \<Rightarrow>
          let e1 = handle_equivocation result (e\<lparr>en_vote_collector := c\<rparr>)
          in (case vr_qc result of
                Some qc \<Rightarrow> handled (formed qc (vr_extensions result) e1)
              | None \<Rightarrow> Inr (e1, None)))"

definition handle_vote :: "nat \<Rightarrow> ('a, 'w) EngineEnv \<Rightarrow> Vote \<Rightarrow> ('a, 'w) Engine \<Rightarrow> ('a, 'w) handler_result" where
  "handle_vote fuel env vote e =
     (if v_view vote \<noteq> cs_current_view (en_state e) then Inr (e, None)
      else if v_epoch vote \<noteq> ep_number (cs_current_epoch (en_state e)) then Inr (e, None)
      else if \<not> cs_is_leader (en_state e) then Inr (e, None)
      else if v_vote_type vote \<noteq> Vote then Inr (e, None)
      else collect_vote vote (\<lambda>qc extensions. on_qc_formed (advance_view fuel env) env qc) e)"

definition handle_prepare :: "('a, 'w) EngineEnv \<Rightarrow> QuorumCertificate \<Rightarrow> ('a, 'w) Engine \<Rightarrow> ('a, 'w) handler_result" where
  "handle_prepare env certificate e =
     (if qc_view certificate < cs_current_view (en_state e) then Inr (e, None)
      else if qc_view certificate = cs_current_view (en_state e)
      then if app_tracks_app_hash (vd_app (ee_deps env)) \<and>
              (case get_block (en_store e) (qc_block_hash certificate) of
                 Some block \<Rightarrow> b_app_hash block \<noteq> cs_last_app_hash (en_state e)
               | None \<Rightarrow> False)
           then Inr (e, None)
           else case on_prepare (ee_deps env) certificate
                       (block_vote_extension env (qc_block_hash certificate) e) (en_state e) of
                  Inl _ \<Rightarrow> Inl Panic
                | Inr (s, out, vote2) \<Rightarrow>
                    let e1 = persist_state (perform_all out (e\<lparr>en_state := s\<rparr>))
                    in (case vote2 of
                          Some (next_leader_id, vote) \<Rightarrow> Inr (perform (SendTo next_leader_id (Vote2Msg vote)) e1, None)
                        | None \<Rightarrow> Inr (e1, None))
      else Inr (e, None))"

definition handle_vote2 :: "nat \<Rightarrow> ('a, 'w) EngineEnv \<Rightarrow> Vote \<Rightarrow> ('a, 'w) Engine \<Rightarrow> ('a, 'w) handler_result" where
  "handle_vote2 fuel env vote e =
     (if v_view vote \<noteq> cs_current_view (en_state e) then Inr (e, None)
      else if v_epoch vote \<noteq> ep_number (cs_current_epoch (en_state e)) then Inr (e, None)
      else if v_vote_type vote \<noteq> Vote2 then Inr (e, None)
      else if (case v_extension vote of
                 Some ext \<Rightarrow> \<not> app_verify_vote_extension (vd_app (ee_deps env)) ext (v_block_hash vote)
                                  (v_validator vote) (en_app e)
               | None \<Rightarrow> False)
      then Inr (e, None)
      else collect_vote vote (on_double_cert_formed (advance_view fuel env) env) e)"

definition handle_wish ::
    "nat \<Rightarrow> ('a, 'w) EngineEnv \<Rightarrow> ViewNumber \<Rightarrow> ValidatorId \<Rightarrow> QuorumCertificate option \<Rightarrow> Signature \<Rightarrow>
     ('a, 'w) Engine \<Rightarrow> ('a, 'w) handler_result" where
  "handle_wish fuel env target_view validator highest_qc signature e =
     (if target_view < cs_current_view (en_state e) then Inr (e, None)
      else if target_view > saturating_add (cs_current_view (en_state e)) 1 then Inr (e, None)
      else if (case highest_qc of
                 Some qc \<Rightarrow> \<not> verify_justify_qc (vd_verify (ee_deps env)) (vd_blake3 (ee_deps env))
                                 (en_state e) (en_previous_epoch e) qc
               | None \<Rightarrow> False)
      then Inr (e, None)
      else case add_wish (cs_validator_set (en_state e)) target_view validator highest_qc signature (en_pacemaker e) of
             (pm, Some tc) \<Rightarrow>
               handled (advance_view fuel env (TriggerTimeoutCert tc)
                          (perform (Broadcast (TimeoutCert tc)) (e\<lparr>en_pacemaker := pm\<rparr>)))
           | (pm, None) \<Rightarrow> Inr (e\<lparr>en_pacemaker := pm\<rparr>, None))"

definition handle_timeout_cert ::
    "nat \<Rightarrow> ('a, 'w) EngineEnv \<Rightarrow> TimeoutCertificate \<Rightarrow> ('a, 'w) Engine \<Rightarrow> ('a, 'w) handler_result" where
  "handle_timeout_cert fuel env tc e0 =
     (let new_view = tc_view tc + 1;
          e = (if new_view \<ge> cs_current_view (en_state e0)
               then case should_relay_tc tc (en_pacemaker e0) of
                      (pm, relay) \<Rightarrow>
                        if relay then perform (Broadcast (TimeoutCert tc)) (e0\<lparr>en_pacemaker := pm\<rparr>)
                        else e0\<lparr>en_pacemaker := pm\<rparr>
               else e0)
      in if new_view > cs_current_view (en_state e)
         then handled (advance_view fuel env (TriggerTimeoutCert tc) e)
         else Inr (e, None))"

definition handle_status ::
    "nat \<Rightarrow> ('a, 'w) EngineEnv \<Rightarrow> QuorumCertificate option \<Rightarrow> ValidatorId \<Rightarrow> ('a, 'w) Engine \<Rightarrow> ('a, 'w) handler_result" where
  "handle_status fuel env locked_qc validator e0 =
     (if cs_is_leader (en_state e0) \<and> cs_step (en_state e0) = WaitingForStatus
      then
        let e1 = (case locked_qc of
                    Some qc \<Rightarrow>
                      if agg_count (qc_aggregate_signature qc) > 0 \<and>
                         verify_vote_qc (vd_verify (ee_deps env)) (vd_blake3 (ee_deps env)) (en_state e0)
                           (en_previous_epoch e0) qc Vote
                      then e0\<lparr>en_state := update_highest_qc qc (en_state e0)\<rparr> else e0
                  | None \<Rightarrow> e0);
            e2 = e1\<lparr>en_status_senders := List.insert validator (en_status_senders e1)\<rparr>;
            vs = cs_validator_set (en_state e2);
            status_power = (\<Sum>v \<leftarrow> en_status_senders e2. power_of vs v);
            total_power = status_power + power_of vs (cs_validator_id (en_state e2))
        in if total_power \<ge> quorum_threshold vs
           then handled (try_propose (advance_view fuel env) env e2) else Inr (e2, None)
      else Inr (e0, None))"

definition handle_evidence ::
    "('a, 'w) EngineEnv \<Rightarrow> EquivocationProof \<Rightarrow> ('a, 'w) Engine \<Rightarrow> ('a, 'w) handler_result" where
  "handle_evidence env p e =
     (let verify = vd_verify (ee_deps env); blake3 = vd_blake3 (ee_deps env); chain = cs_chain_id_hash (en_state e)
      in case (case get_validator (cs_validator_set (en_state e)) (ev_validator p) of
                 Some vi \<Rightarrow> Some vi
               | None \<Rightarrow> Option.bind (en_previous_epoch e)
                           (\<lambda>ep. get_validator (ep_validator_set ep) (ev_validator p))) of
           None \<Rightarrow> Inr (e, None)
         | Some vi \<Rightarrow>
             if ev_block_hash_a p = ev_block_hash_b p then Inr (e, None)
             else if \<not> verify (vi_public_key vi)
                          (vote_signing_bytes blake3 chain (ev_epoch p) (ev_view p) (ev_validator p)
                             (ev_block_hash_a p) (ev_vote_type p) (ev_extension_a p)) (ev_signature_a p) \<or>
                     \<not> verify (vi_public_key vi)
                          (vote_signing_bytes blake3 chain (ev_epoch p) (ev_view p) (ev_validator p)
                             (ev_block_hash_b p) (ev_vote_type p) (ev_extension_b p)) (ev_signature_b p)
             then Inr (e, None)
             else Inr (e\<lparr>en_evidence_store := map_option (pe_put_evidence p) (en_evidence_store e)\<rparr>, None))"

text \<open>The rate limiter: the engine with the updated count, and whether the message is dropped.\<close>

definition rate_limit :: "nat \<Rightarrow> ValidatorId option \<Rightarrow> ('a, 'w) Engine \<Rightarrow> ('a, 'w) Engine \<times> bool" where
  "rate_limit now sender e =
     (case sender of
        None \<Rightarrow> (e, False)
      | Some vid \<Rightarrow>
          let (start, count) = (case en_msg_rate_limiter e vid of None \<Rightarrow> (now, 0) | Some x \<Rightarrow> x)
          in if now - start \<ge> 1000
             then (e\<lparr>en_msg_rate_limiter := (en_msg_rate_limiter e)(vid \<mapsto> (now, 1))\<rparr>, False)
             else (e\<lparr>en_msg_rate_limiter := (en_msg_rate_limiter e)(vid \<mapsto> (start, count + 1))\<rparr>, count + 1 > 100))"

definition dispatch :: "nat \<Rightarrow> ('a, 'w) EngineEnv \<Rightarrow> ConsensusMessage \<Rightarrow> ('a, 'w) Engine \<Rightarrow> ('a, 'w) handler_result" where
  "dispatch fuel env msg e =
     (case msg of
        Propose block justify double_cert signature ancestors \<Rightarrow> handle_propose fuel env block justify double_cert ancestors e
      | VoteMsg vote \<Rightarrow> handle_vote fuel env vote e
      | Prepare certificate signature \<Rightarrow> handle_prepare env certificate e
      | Vote2Msg vote \<Rightarrow> handle_vote2 fuel env vote e
      | Wish target_view validator highest_qc signature \<Rightarrow> handle_wish fuel env target_view validator highest_qc signature e
      | TimeoutCert tc \<Rightarrow> handle_timeout_cert fuel env tc e
      | StatusCert locked_qc validator signature \<Rightarrow> handle_status fuel env locked_qc validator e
      | Evidence p \<Rightarrow> handle_evidence env p e)"

definition handle_message ::
    "nat \<Rightarrow> ('a, 'w) EngineEnv \<Rightarrow> ValidatorId option \<Rightarrow> ConsensusMessage \<Rightarrow> ('a, 'w) Engine \<Rightarrow> ('a, 'w) handler_result" where
  "handle_message fuel env sender msg e0 =
     (case rate_limit (ee_now env) sender e0 of
        (e, dropped) \<Rightarrow>
          if dropped then Inr (e, None)
          else if \<not> verify_message (vd_verify (ee_deps env)) (vd_blake3 (ee_deps env)) (en_state e)
                      (en_previous_epoch e) msg
          then Inr (e, None)
          else dispatch fuel env msg e)"

end
