(* ===== verification/Engine_Rules.thy ===== *)
theory Engine_Rules
  imports Engine
begin

text \<open>
  Proof rules for the engine. The locale \<open>engine_rules\<close> lists what the handlers of \<open>Engine\<close> do to
  the engine's state, one law per kind of change, each with the checks the code has made before it.
  A predicate that meets the laws is kept by every handler, which is proved here once; the later
  theories interpret the locale with their invariants. The first argument of the invariant is a
  commit that the application has executed and the engine has not yet recorded: \<open>on_proposal\<close> commits,
  votes, and only then hands the commit to \<open>process_commit_result\<close>.
\<close>

section \<open>Changes that no rule needs to know\<close>

definition voter ::
    "ConsensusState \<Rightarrow> ValidatorId \<times> ValidatorSet \<times> hash32 \<times> ViewNumber \<times> QuorumCertificate option \<times>
     QuorumCertificate option \<times> Height \<times> Epoch \<times> (ViewNumber \<times> BlockHash) option \<times>
     (ViewNumber \<times> BlockHash) option" where
  "voter s = (cs_validator_id s, cs_validator_set s, cs_chain_id_hash s, cs_current_view s,
              cs_locked_qc s, cs_highest_qc s, cs_last_committed_height s, cs_current_epoch s,
              cs_last_vote1 s, cs_last_vote2 s)"

definition same_core :: "('a, 'w) Engine \<Rightarrow> ('a, 'w) Engine \<Rightarrow> bool" where
  "same_core e e' \<longleftrightarrow>
     voter (en_state e') = voter (en_state e) \<and>
     vb_by_hash (en_store e') = vb_by_hash (en_store e) \<and>
     vb_by_height (en_store e') = vb_by_height (en_store e) \<and>
     vb_commit_qcs (en_store e') = vb_commit_qcs (en_store e) \<and>
     en_app e' = en_app e \<and> en_vote_collector e' = en_vote_collector e \<and>
     pm_wishes (en_pacemaker e') = pm_wishes (en_pacemaker e) \<and>
     en_current_view_qc e' = en_current_view_qc e \<and> en_pending_epoch e' = en_pending_epoch e \<and>
     en_previous_epoch e' = en_previous_epoch e \<and> en_persistence e' = en_persistence e \<and>
     en_log e' = en_log e"

lemmas core_simps = same_core_def voter_def

fun vote_effect :: "effect \<Rightarrow> bool" where
  "vote_effect (SaveLastVote t v h) = True"
| "vote_effect (SignVote vote) = True"
| "vote_effect eff = False"

text \<open>The vote a message carries, and the votes signed so far.\<close>

fun vote_sent :: "effect \<Rightarrow> Vote option" where
  "vote_sent (SendTo i (VoteMsg vote)) = Some vote"
| "vote_sent (SendTo i (Vote2Msg vote)) = Some vote"
| "vote_sent (Broadcast (VoteMsg vote)) = Some vote"
| "vote_sent (Broadcast (Vote2Msg vote)) = Some vote"
| "vote_sent eff = None"

definition signed_votes :: "('a, 'w) Engine \<Rightarrow> Vote set" where
  "signed_votes e = {vote. SignVote vote \<in> fst ` set (en_log e)}"

text \<open>Saving a vote record and signing the vote.\<close>

definition sign_vote ::
    "'a ViewDeps \<Rightarrow> VoteType \<Rightarrow> BlockHash \<Rightarrow> bytes option \<Rightarrow> ('a, 'w) Engine \<Rightarrow> ('a, 'w) Engine" where
  "sign_vote deps t h ext e =
     perform (SignVote (make_vote deps (en_state e) h t ext))
       (perform (SaveLastVote t (cs_current_view (en_state e)) h) e)"

text \<open>The blocks, certificates and votes a message carries.\<close>

fun msg_blocks :: "ConsensusMessage \<Rightarrow> Block set" where
  "msg_blocks (Propose block justify double_cert signature ancestors) = insert block (set ancestors)"
| "msg_blocks msg = {}"

fun msg_qcs :: "ConsensusMessage \<Rightarrow> QuorumCertificate set" where
  "msg_qcs (Propose block justify double_cert signature ancestors) =
     insert justify (case double_cert of None \<Rightarrow> {} | Some dc \<Rightarrow> {dc_inner_qc dc, dc_outer_qc dc})"
| "msg_qcs (Prepare certificate signature) = {certificate}"
| "msg_qcs (Wish target_view validator highest_qc signature) = set_option highest_qc"
| "msg_qcs (TimeoutCert tc) = {qc. Some qc \<in> set (tc_highest_qcs tc)}"
| "msg_qcs (StatusCert locked_qc validator signature) = set_option locked_qc"
| "msg_qcs msg = {}"

fun msg_votes :: "ConsensusMessage \<Rightarrow> Vote set" where
  "msg_votes (VoteMsg vote) = {vote}"
| "msg_votes (Vote2Msg vote) = {vote}"
| "msg_votes msg = {}"

definition made_of ::
    "(Block \<Rightarrow> bool) \<Rightarrow> (QuorumCertificate \<Rightarrow> bool) \<Rightarrow> (Vote \<Rightarrow> bool) \<Rightarrow> ConsensusMessage \<Rightarrow> bool" where
  "made_of blk hq hv msg \<longleftrightarrow>
     (\<forall>b \<in> msg_blocks msg. blk b) \<and> (\<forall>qc \<in> msg_qcs msg. hq qc) \<and> (\<forall>vote \<in> msg_votes msg. hv vote)"

lemma made_of_True [simp]: "made_of (\<lambda>_. True) (\<lambda>_. True) (\<lambda>_. True) msg"
  by (simp add: made_of_def)

lemma perform_all_simps [simp]:
  "perform_all [] e = e" "perform_all (x # xs) e = perform_all xs (perform x e)"
  by (simp_all add: perform_all_def)

lemma perform_keeps [simp]:
  "en_state (perform eff e) = en_state e" "en_store (perform eff e) = en_store e" "en_app (perform eff e) = en_app e"
  "en_vote_collector (perform eff e) = en_vote_collector e" "en_pacemaker (perform eff e) = en_pacemaker e"
  "en_current_view_qc (perform eff e) = en_current_view_qc e" "en_pending_epoch (perform eff e) = en_pending_epoch e"
  "en_previous_epoch (perform eff e) = en_previous_epoch e"
  by (cases eff; simp add: perform_def)+

lemma perform_all_keeps [simp]:
  "en_state (perform_all out e) = en_state e" "en_store (perform_all out e) = en_store e"
  "en_app (perform_all out e) = en_app e" "en_vote_collector (perform_all out e) = en_vote_collector e"
  "en_pacemaker (perform_all out e) = en_pacemaker e" "en_current_view_qc (perform_all out e) = en_current_view_qc e"
  "en_pending_epoch (perform_all out e) = en_pending_epoch e" "en_previous_epoch (perform_all out e) = en_previous_epoch e"
  by (induction out arbitrary: e) simp_all

lemma add_vote_qc_fields:
  "\<lbrakk> add_vote vs vote epoch c = (c', Inr result); vr_qc result = Some qc \<rbrakk>
     \<Longrightarrow> qc_view qc = v_view vote \<and> qc_block_hash qc = v_block_hash vote"
  by (auto simp: add_vote_def form_result_def Let_def split: if_splits sum.splits)

lemma make_vote_fields [simp]:
  "v_view (make_vote deps s h t ext) = cs_current_view s" "v_vote_type (make_vote deps s h t ext) = t"
  "v_block_hash (make_vote deps s h t ext) = h" "v_validator (make_vote deps s h t ext) = cs_validator_id s"
  "v_extension (make_vote deps s h t ext) = ext" "v_epoch (make_vote deps s h t ext) = ep_number (cs_current_epoch s)"
  by (simp_all add: make_vote_def)

lemma sign_vote_signed: "make_vote deps (en_state e) h t ext \<in> signed_votes (sign_vote deps t h ext e)"
  by (simp add: signed_votes_def sign_vote_def perform_def)

lemma signed_votes_keeps [simp]:
  "signed_votes (persist_state e) = signed_votes e" "signed_votes (e\<lparr>en_state := s\<rparr>) = signed_votes e"
  "signed_votes (e\<lparr>en_current_view_qc := q\<rparr>) = signed_votes e" "signed_votes (e\<lparr>en_vote_collector := c\<rparr>) = signed_votes e"
  "signed_votes (e\<lparr>en_pacemaker := pm\<rparr>) = signed_votes e" "signed_votes (e\<lparr>en_store := store\<rparr>) = signed_votes e"
  "signed_votes (e\<lparr>en_app := a\<rparr>) = signed_votes e" "signed_votes (e\<lparr>en_evidence_store := ev\<rparr>) = signed_votes e"
  by (simp_all add: signed_votes_def persist_state_def)

lemma signed_votes_perform: "signed_votes e \<subseteq> signed_votes (perform eff e)"
  by (auto simp: signed_votes_def perform_def split: effect.split)

lemma validate_double_cert_hash:
  "validate_double_cert verify blake3 st prev dc \<Longrightarrow> qc_block_hash (dc_outer_qc dc) = qc_block_hash (dc_inner_qc dc)"
  by (auto simp: validate_double_cert_def Let_def split: if_splits)

lemma propose_app:
  "propose deps now_ms evs epochs s store a = (s', store', a', out, Inr b) \<Longrightarrow>
     \<exists>ctx. a' = snd (app_create_payload (vd_app deps) ctx a)"
  by (auto simp: propose_def build_block_def Let_def case_prod_unfold split: option.splits)

lemma process_commit_keeps [simp]:
  "en_state (process_commit_result env cr e) = en_state e" "en_log (process_commit_result env cr e) = en_log e"
  "en_vote_collector (process_commit_result env cr e) = en_vote_collector e"
  "en_pacemaker (process_commit_result env cr e) = en_pacemaker e" "en_app (process_commit_result env cr e) = en_app e"
  "en_current_view_qc (process_commit_result env cr e) = en_current_view_qc e"
  "en_pending_epoch (process_commit_result env cr e) = en_pending_epoch e"
  "en_previous_epoch (process_commit_result env cr e) = en_previous_epoch e"
  by (simp_all add: process_commit_result_def finish_wal_intent_def persist_state_def Let_def)

lemma process_commit_effect:
  assumes "cr_committed_blocks cr \<noteq> []"
  shows "en_persistence (process_commit_result env cr e) =
      map_option (persist (en_state e) (en_previous_epoch e) (en_pending_epoch e)) (en_persistence e)"
    "en_store (process_commit_result env cr e) = store_committed (vd_blake3 (ee_deps env)) (cr_commit_qc cr)
      (cr_block_responses cr) 0 (cr_committed_blocks cr) (en_store e)"
  using assms by (simp_all add: process_commit_result_def finish_wal_intent_def persist_state_def Let_def)

lemma adopt_commit_keeps [simp]:
  "en_log (adopt_commit_epoch cr e) = en_log e" "en_store (adopt_commit_epoch cr e) = en_store e"
  "en_vote_collector (adopt_commit_epoch cr e) = en_vote_collector e"
  "en_pacemaker (adopt_commit_epoch cr e) = en_pacemaker e" "en_app (adopt_commit_epoch cr e) = en_app e"
  "en_current_view_qc (adopt_commit_epoch cr e) = en_current_view_qc e"
  "en_pending_epoch (adopt_commit_epoch cr e) = cr_pending_epoch cr"
  "en_persistence (adopt_commit_epoch cr e) = en_persistence e"
  by (simp_all add: adopt_commit_epoch_def split: option.split)

lemma adopt_commit_state:
  "en_state (adopt_commit_epoch cr e) =
     (case cr_activated_epoch cr of
        None \<Rightarrow> en_state e
      | Some ep \<Rightarrow> (en_state e)\<lparr>cs_current_epoch := ep, cs_validator_set := ep_validator_set ep\<rparr>)"
  "en_previous_epoch (adopt_commit_epoch cr e) =
     (case cr_activated_epoch cr of None \<Rightarrow> en_previous_epoch e | Some ep \<Rightarrow> Some (cs_current_epoch (en_state e)))"
  by (simp_all add: adopt_commit_epoch_def split: option.split)

text \<open>The new epoch, before it is announced and the collectors are cleared.\<close>

definition switch_epoch :: "('a, 'w) EngineEnv \<Rightarrow> Epoch \<Rightarrow> ('a, 'w) Engine \<Rightarrow> ('a, 'w) Engine" where
  "switch_epoch env ep e =
     e\<lparr>en_pending_epoch := None,
       en_app := (if offline_evidence e \<noteq> [] then app_on_offline_validators (vd_app (ee_deps env)) (offline_evidence e) (en_app e)
                  else en_app e),
       en_liveness_tracker := lt_reset (en_liveness_tracker e),
       en_previous_epoch := Some (cs_current_epoch (en_state e)),
       en_state := (en_state e)\<lparr>cs_validator_set := ep_validator_set ep, cs_current_epoch := ep\<rparr>\<rparr>"

lemma epoch_transition_unfold:
  "epoch_transition env v e =
     (case en_pending_epoch e of
        Some ep \<Rightarrow> if ep_start_view ep \<le> v
                   then (perform (EpochChange (ep_number ep) (ep_validator_set ep)) (switch_epoch env ep e))\<lparr>
                          en_vote_collector := vc_new, en_pacemaker := pm_with_config (ee_now env) (en_pacemaker_config e)\<rparr>
                   else e
      | None \<Rightarrow> e)"
  by (simp add: epoch_transition_def switch_epoch_def perform_def Let_def split: option.split)

text \<open>Nothing of the current view or earlier ones is left in the collectors.\<close>

definition cleared :: "('a, 'w) Engine \<Rightarrow> bool" where
  "cleared e \<longleftrightarrow>
     (\<forall>(key, votes) \<in> set (vc_votes (en_vote_collector e)). cs_current_view (en_state e) < fst (snd key)) \<and>
     (\<forall>u. pm_wishes (en_pacemaker e) u \<noteq> None \<longrightarrow> cs_current_view (en_state e) < u)"

lemma cleared_epoch: "cleared (epoch_transition env v (clear_old_view e))"
  by (auto simp: cleared_def epoch_transition_unfold switch_epoch_def perform_def clear_old_view_def vc_new_def
      pm_with_config_def vc_prune_before_def vc_clear_view_def pm_prune_before_def pm_clear_view_def Let_def
      split: option.splits if_splits)

section \<open>Runs\<close>

text \<open>
  An event of the loop of \<open>run\<close>: a message from the channel or the timer, with the clock at that time.
  An error of a handler is only logged.
\<close>

datatype engine_event = Received nat u64 "ValidatorId option" ConsensusMessage | TimerFired nat u64

definition at_time :: "nat \<Rightarrow> u64 \<Rightarrow> ('a, 'w) EngineEnv \<Rightarrow> ('a, 'w) EngineEnv" where
  "at_time now now_ms env = env\<lparr>ee_now := now, ee_now_ms := now_ms\<rparr>"

fun run_event :: "nat \<Rightarrow> ('a, 'w) EngineEnv \<Rightarrow> engine_event \<Rightarrow> ('a, 'w) Engine \<Rightarrow> ('a, 'w) engine_result" where
  "run_event fuel env (Received now now_ms sender msg) e =
     rbind (handle_message fuel (at_time now now_ms env) sender msg e) (\<lambda>(e', err). Inr e')"
| "run_event fuel env (TimerFired now now_ms) e = handle_timeout fuel (at_time now now_ms env) e"

fun run_events :: "nat \<Rightarrow> ('a, 'w) EngineEnv \<Rightarrow> engine_event list \<Rightarrow> ('a, 'w) Engine \<Rightarrow> ('a, 'w) engine_result" where
  "run_events fuel env [] e = Inr e"
| "run_events fuel env (ev # evs) e = rbind (run_event fuel env ev e) (run_events fuel env evs)"

text \<open>\<open>run\<close>: startup, at the time \<open>env\<close> carries, then the events.\<close>

definition engine_run ::
    "nat \<Rightarrow> ('a, 'w) EngineEnv \<Rightarrow> Height \<times> BlockHash \<Rightarrow> engine_event list \<Rightarrow> ('a, 'w) Engine \<Rightarrow> ('a, 'w) engine_result" where
  "engine_run fuel env info evs e = rbind (engine_start fuel env info e) (run_events fuel env evs)"

fun event_msgs :: "engine_event \<Rightarrow> ConsensusMessage set" where
  "event_msgs (Received now now_ms sender msg) = {msg}"
| "event_msgs (TimerFired now now_ms) = {}"

section \<open>The rules\<close>

locale engine_rules =
  fixes deps :: "'a ViewDeps"
    and I :: "CommitResult option \<Rightarrow> ('a, 'w) Engine \<Rightarrow> bool"
    and cert :: "Vote set \<Rightarrow> VoteType \<Rightarrow> QuorumCertificate \<Rightarrow> (ValidatorId \<times> bytes) list \<Rightarrow> bool"
    and just :: "Vote set \<Rightarrow> QuorumCertificate \<Rightarrow> bool"
    and good_vote :: "Vote set \<Rightarrow> Vote \<Rightarrow> bool"
    and blk :: "Block \<Rightarrow> bool"
    and hq :: "QuorumCertificate \<Rightarrow> bool"
    and hv :: "Vote \<Rightarrow> bool"
    and ready :: "(effect \<times> ConsensusState \<times> PersistentConsensusState option) list \<Rightarrow> QuorumCertificate option \<Rightarrow> QuorumCertificate option \<Rightarrow> (BlockHash \<rightharpoonup> Block) \<Rightarrow> Block \<Rightarrow> bool"
  assumes quiet: "\<lbrakk> I r e; same_core e e' \<rbrakk> \<Longrightarrow> I r e'"
    and emit: "\<lbrakk> I r e; \<not> vote_effect eff; \<forall>vote. vote_sent eff = Some vote \<longrightarrow> vote \<in> signed_votes e \<rbrakk> \<Longrightarrow> I r (perform eff e)"
    and persists: "I r e \<Longrightarrow> I r (persist_state e)"
    \<comment> \<open>certificates\<close>
    and cert_mono: "\<lbrakk> cert V t qc exts; V \<subseteq> V' \<rbrakk> \<Longrightarrow> cert V' t qc exts"
    and just_mono: "\<lbrakk> just V qc; V \<subseteq> V' \<rbrakk> \<Longrightarrow> just V' qc"
    and cert_just: "cert V Vote qc [] \<Longrightarrow> just V qc"
    and verified_qc: "\<lbrakk> I r e; hq qc; verify_vote_qc (vd_verify deps) (vd_blake3 deps) (en_state e) (en_previous_epoch e) qc Vote \<rbrakk>
        \<Longrightarrow> cert {} Vote qc []"
    and verified_justify: "\<lbrakk> I r e; hq qc; verify_justify_qc (vd_verify deps) (vd_blake3 deps) (en_state e) (en_previous_epoch e) qc \<rbrakk>
        \<Longrightarrow> just {} qc"
    and verified_double: "\<lbrakk> I r e; hq (dc_inner_qc dc); hq (dc_outer_qc dc);
          validate_double_cert (vd_verify deps) (vd_blake3 deps) (en_state e) (en_previous_epoch e) dc \<rbrakk>
        \<Longrightarrow> just {} (dc_inner_qc dc) \<and> (\<exists>exts. cert {} Vote2 (dc_outer_qc dc) exts)"
    and verified_tc: "\<lbrakk> I r e; verify_content (vd_verify deps) (vd_blake3 deps) (en_state e) (en_previous_epoch e) (TimeoutCert tc);
          highest_qc_of_tc tc = Some qc; hq qc \<rbrakk> \<Longrightarrow> just {} qc"
    and own_highest: "\<lbrakk> I r e; cs_highest_qc (en_state e) = Some qc \<rbrakk> \<Longrightarrow> just (signed_votes e) qc"
    and own_locked: "\<lbrakk> I r e; cs_locked_qc (en_state e) = Some qc \<rbrakk> \<Longrightarrow> just (signed_votes e) qc"
    and own_view_qc: "\<lbrakk> I r e; en_current_view_qc e = Some qc \<rbrakk> \<Longrightarrow> just (signed_votes e) qc"
    and highest: "\<lbrakk> I r e; just (signed_votes e) qc \<rbrakk> \<Longrightarrow> I r (e\<lparr>en_state := update_highest_qc qc (en_state e)\<rparr>)"
    and view_qc: "\<lbrakk> I r e; case q of None \<Rightarrow> True | Some qc \<Rightarrow> cert (signed_votes e) Vote qc [] \<rbrakk> \<Longrightarrow> I r (e\<lparr>en_current_view_qc := q\<rparr>)"
    and lock: "\<lbrakk> I r e; cert (signed_votes e) Vote qc [] \<rbrakk>
        \<Longrightarrow> I r (e\<lparr>en_state := update_highest_qc qc (update_locked_qc qc (en_state e))\<rparr>)"
    \<comment> \<open>votes and wishes received\<close>
    and verified_vote: "\<lbrakk> I r e; hv vote; verify_vote (vd_verify deps) (vd_blake3 deps) (en_state e) (en_previous_epoch e) vote \<rbrakk>
        \<Longrightarrow> good_vote (signed_votes e) vote"
    and own_vote: "\<lbrakk> I r e; vote \<in> signed_votes e \<rbrakk> \<Longrightarrow> good_vote (signed_votes e) vote"
    and collect: "\<lbrakk> I r e; good_vote (signed_votes e) vote; v_view vote = cs_current_view (en_state e);
          add_vote (cs_validator_set (en_state e)) vote (ep_number (cs_current_epoch (en_state e))) (en_vote_collector e) = (c, res) \<rbrakk>
        \<Longrightarrow> I r (e\<lparr>en_vote_collector := c\<rparr>) \<and>
          (\<forall>result qc. res = Inr result \<longrightarrow> vr_qc result = Some qc \<longrightarrow>
             cert (signed_votes e) (v_vote_type vote) qc (if v_vote_type vote = Vote then [] else vr_extensions result))"
    and wished: "\<lbrakk> I r e; \<And>qc. hqc = Some qc \<Longrightarrow> just (signed_votes e) qc;
          cs_current_view (en_state e) \<le> target; target \<le> saturating_add (cs_current_view (en_state e)) 1;
          add_wish (cs_validator_set (en_state e)) target i hqc sg (en_pacemaker e) = (pm, made) \<rbrakk>
        \<Longrightarrow> I r (e\<lparr>en_pacemaker := pm\<rparr>) \<and>
          (\<forall>tc qc. made = Some tc \<longrightarrow> highest_qc_of_tc tc = Some qc \<longrightarrow> just (signed_votes e) qc)"
    \<comment> \<open>votes cast\<close>
    and vote1: "\<lbrakk> I r e; ready (en_log e) (cs_locked_qc (en_state e)) (cs_highest_qc (en_state e)) (vb_by_hash (en_store e)) b;
          check_and_record_vote Vote (cs_current_view (en_state e)) (b_hash b) (en_state e) = (s, True) \<rbrakk>
        \<Longrightarrow> I r (sign_vote deps Vote (b_hash b) None (e\<lparr>en_state := s\<rparr>))"
    and vote2: "\<lbrakk> I r e; cert (signed_votes e) Vote qc []; qc_view qc = cs_current_view (en_state e);
          view_le (Some qc) (cs_highest_qc (en_state e));
          check_and_record_vote Vote2 (cs_current_view (en_state e)) (qc_block_hash qc) (en_state e) = (s, True) \<rbrakk>
        \<Longrightarrow> I r ((sign_vote deps Vote2 (qc_block_hash qc) ext (e\<lparr>en_state := s\<rparr>))\<lparr>en_state := update_locked_qc qc s\<rparr>)"
    \<comment> \<open>blocks\<close>
    and store_block: "\<lbrakk> I None e; blk b; b_hash b = compute_hash (vd_blake3 deps) b;
          cs_last_committed_height (en_state e) < b_height b \<rbrakk> \<Longrightarrow> I None (e\<lparr>en_store := put_block b (en_store e)\<rparr>)"
    and store_justify: "\<lbrakk> I None e; get_block (en_store e) (qc_block_hash qc) = Some b;
          get_commit_qc (en_store e) (b_height b) = None \<rbrakk>
        \<Longrightarrow> I None (e\<lparr>en_store := put_commit_qc (b_height b) qc (en_store e)\<rparr>)"
    and accept: "\<lbrakk> I None e; blk b; just (signed_votes e) qc;
          check_proposal deps now_ms b qc \<lparr> ec_previous_epoch = en_previous_epoch e, ec_in_flight_pending = en_pending_epoch e \<rparr>
            (en_state e) (en_store e) (en_app e) = Inr () \<rbrakk>
        \<Longrightarrow> I None (e\<lparr>en_store := put_block b (en_store e), en_state := update_highest_qc qc (en_state e)\<rparr>) \<and>
          ready (en_log e) (cs_locked_qc (en_state e)) (cs_highest_qc (update_highest_qc qc (en_state e)))
            (vb_by_hash (put_block b (en_store e))) b"
    and propose_step: "\<lbrakk> I None e;
          propose deps now_ms evs \<lparr> ec_previous_epoch = en_previous_epoch e, ec_in_flight_pending = None \<rparr>
            (en_state e) (en_store e) (en_app e) = (s, store, a, out, Inr b) \<rbrakk>
        \<Longrightarrow> I None (perform_all out (e\<lparr>en_state := s, en_store := store, en_app := a\<rparr>)) \<and>
          ready (en_log (perform_all out (e\<lparr>en_state := s, en_store := store, en_app := a\<rparr>)))
            (cs_locked_qc s) (cs_highest_qc s) (vb_by_hash store) b"
    \<comment> \<open>commits\<close>
    and commit: "\<lbrakk> I None e; cert (signed_votes e) Vote2 outer exts; qc_block_hash outer = qc_block_hash (dc_inner_qc dc);
          try_commit (vd_app deps) (get_block (en_store e)) (get_block_by_height (en_store e)) dc
            (cs_current_epoch (en_state e)) (en_previous_epoch e) (en_pending_epoch e)
            (cs_last_committed_height (en_state e)) (en_app e) = (ht, a, Inr cr) \<rbrakk>
        \<Longrightarrow> I (if cr_committed_blocks cr = [] then None else Some cr)
              (e\<lparr>en_app := a, en_state := (en_state e)\<lparr>cs_last_committed_height := ht\<rparr>\<rparr>)"
    and commit_error: "\<lbrakk> I None e; cert (signed_votes e) Vote2 outer exts; qc_block_hash outer = qc_block_hash (dc_inner_qc dc);
          try_commit (vd_app deps) (get_block (en_store e)) (get_block_by_height (en_store e)) dc
            (cs_current_epoch (en_state e)) (en_previous_epoch e) (en_pending_epoch e)
            (cs_last_committed_height (en_state e)) (en_app e) = (ht, a, Inl err); \<not> commit_panics err \<rbrakk>
        \<Longrightarrow> I None (e\<lparr>en_app := a, en_state := (en_state e)\<lparr>cs_last_committed_height := ht\<rparr>\<rparr>)"
    and record_commit: "\<lbrakk> I (Some cr) e; ee_deps env = deps; cr_committed_blocks cr \<noteq> [] \<rbrakk>
        \<Longrightarrow> I None (process_commit_result env cr (adopt_commit_epoch cr e))"
    \<comment> \<open>views and epochs\<close>
    and clear: "I None e \<Longrightarrow> I None (clear_old_view e)"
    and epoch: "\<lbrakk> I None e; ee_deps env = deps \<rbrakk> \<Longrightarrow> I None (epoch_transition env v e)"
    and enter: "\<lbrakk> I None e; cleared e; cs_current_view (en_state e) < v \<rbrakk>
        \<Longrightarrow> I None (e\<lparr>en_state := (en_state e)\<lparr>cs_current_view := v\<rparr>\<rparr>)"
begin

lemma emits: "\<lbrakk> I r e; \<forall>eff \<in> set out. \<not> vote_effect eff \<and> vote_sent eff = None \<rbrakk> \<Longrightarrow> I r (perform_all out e)"
  by (induction out arbitrary: e) (simp_all add: emit)

lemma keeps_equivocation: "I r e \<Longrightarrow> I r (handle_equivocation result e)"
proof -
  assume e: "I r e"
  have "I r (e\<lparr>en_evidence_store := x\<rparr>)" for x
    by (rule quiet [OF e]) (simp add: core_simps)
  with e show ?thesis by (auto simp: handle_equivocation_def intro: emit split: option.splits)
qed

lemma keeps_wal:
  "I r e \<Longrightarrow> I r (finish_wal_intent env h e)"
  "\<lbrakk> I r e; wal_intent env h e = Inr e' \<rbrakk> \<Longrightarrow> I r e'"
  by (rule quiet, assumption,
      force simp: core_simps finish_wal_intent_def wal_intent_def split: option.splits)+

lemma wal_intent_same:
  assumes "wal_intent env h e = Inr e'"
  shows "en_state e' = en_state e" "en_store e' = en_store e" "en_app e' = en_app e"
    "en_previous_epoch e' = en_previous_epoch e" "en_pending_epoch e' = en_pending_epoch e"
  using assms by (auto simp: wal_intent_def split: option.splits)

text \<open>A vote added to the collector, and what is done with a certificate it completes.\<close>

lemma collected:
  assumes "I r e" "good_vote (signed_votes e) vote" "v_view vote = cs_current_view (en_state e)"
    and "add_vote (cs_validator_set (en_state e)) vote (ep_number (cs_current_epoch (en_state e)))
           (en_vote_collector e) = (c, Inr result)"
  shows "I r (handle_equivocation result (e\<lparr>en_vote_collector := c\<rparr>))"
    "en_state (handle_equivocation result (e\<lparr>en_vote_collector := c\<rparr>)) = en_state e"
    "vr_qc result = Some qc \<Longrightarrow>
       cert (signed_votes (handle_equivocation result (e\<lparr>en_vote_collector := c\<rparr>))) (v_vote_type vote) qc
         (if v_vote_type vote = Vote then [] else vr_extensions result) \<and>
       qc_view qc = cs_current_view (en_state e)"
proof -
  let ?e = "handle_equivocation result (e\<lparr>en_vote_collector := c\<rparr>)"
  note c = collect [OF assms]
  show "I r ?e" using c keeps_equivocation by blast
  show "en_state ?e = en_state e" by (simp add: handle_equivocation_def split: option.split)
  have "signed_votes e \<subseteq> signed_votes ?e"
    by (auto simp: handle_equivocation_def signed_votes_def perform_def split: option.split)
  then show "vr_qc result = Some qc \<Longrightarrow> cert (signed_votes ?e) (v_vote_type vote) qc
         (if v_vote_type vote = Vote then [] else vr_extensions result) \<and> qc_view qc = cs_current_view (en_state e)"
    using cert_mono [of "signed_votes e" "v_vote_type vote" qc] c add_vote_qc_fields [OF assms(4)] assms(3)
    by (metis (no_types, lifting))
qed

lemma collect_own:
  assumes "I r e" "good_vote (signed_votes e) vote" "v_view vote = cs_current_view (en_state e)"
    and "collect_own_vote vote formed e = Inr e'"
    and "\<And>qc exts e1 e2. \<lbrakk> I r e1; en_state e1 = en_state e;
           cert (signed_votes e1) (v_vote_type vote) qc (if v_vote_type vote = Vote then [] else exts);
           qc_view qc = cs_current_view (en_state e1); formed qc exts e1 = Inr e2 \<rbrakk> \<Longrightarrow> I r e2"
  shows "I r e'"
proof -
  obtain c res where a: "add_vote (cs_validator_set (en_state e)) vote (ep_number (cs_current_epoch (en_state e)))
           (en_vote_collector e) = (c, res)" by fastforce
  show ?thesis
  proof (cases res)
    case (Inl x)
    with a assms(4) collect [OF assms(1-3) a] show ?thesis by (simp add: collect_own_vote_def)
  next
    case (Inr result)
    note b = collected [OF assms(1-3) a [unfolded Inr]]
    show ?thesis
    proof (cases "vr_qc result")
      case None
      with assms(4) a Inr b(1) show ?thesis by (simp add: collect_own_vote_def)
    next
      case (Some qc)
      with assms(4) a Inr have "formed qc (vr_extensions result)
          (handle_equivocation result (e\<lparr>en_vote_collector := c\<rparr>)) = Inr e'"
        by (simp add: collect_own_vote_def)
      from assms(5) [OF b(1,2) _ _ this] b(2) b(3) [of qc] Some show ?thesis by simp
    qed
  qed
qed

lemma collect_other:
  assumes "I r e" "good_vote (signed_votes e) vote" "v_view vote = cs_current_view (en_state e)"
    and "collect_vote vote formed e = Inr (e', err)"
    and "\<And>qc exts e1 e2. \<lbrakk> I r e1; en_state e1 = en_state e;
           cert (signed_votes e1) (v_vote_type vote) qc (if v_vote_type vote = Vote then [] else exts);
           qc_view qc = cs_current_view (en_state e1); formed qc exts e1 = Inr e2 \<rbrakk> \<Longrightarrow> I r e2"
  shows "I r e'"
proof (rule collect_own [OF assms(1-3) _ assms(5)])
  show "collect_own_vote vote formed e = Inr e'"
    using assms(4)
    by (auto simp: collect_vote_def collect_own_vote_def rbind_Inr Let_def split: prod.splits sum.splits option.splits)
qed

text \<open>Commits.\<close>

definition commits :: "Vote set \<Rightarrow> DoubleCertificate \<Rightarrow> bool" where
  "commits V dc \<longleftrightarrow> just V (dc_inner_qc dc) \<and>
     (\<exists>outer exts. cert V Vote2 outer exts \<and> qc_block_hash outer = qc_block_hash (dc_inner_qc dc))"

lemma verified_commits:
  "\<lbrakk> I r e; hq (dc_inner_qc dc); hq (dc_outer_qc dc);
     validate_double_cert (vd_verify deps) (vd_blake3 deps) (en_state e) (en_previous_epoch e) dc \<rbrakk> \<Longrightarrow> commits {} dc"
  using verified_double [of r e dc] validate_double_cert_hash unfolding commits_def by metis

lemma commits_mono: "\<lbrakk> commits V dc; V \<subseteq> V' \<rbrakk> \<Longrightarrow> commits V' dc"
  unfolding commits_def using cert_mono just_mono by metis

lemma apply_commit_keeps:
  assumes "I None e0" "commits (signed_votes e0) dc" "ee_deps env = deps" "apply_commit env dc e0 = Inr e'"
  shows "I None e'"
proof -
  define hh where "hh = (case en_wal e0 of None \<Rightarrow> None
     | Some _ \<Rightarrow> map_option b_height (get_block (en_store e0) (qc_block_hash (dc_inner_qc dc))))"
  obtain e where w: "(case hh of None \<Rightarrow> Inr e0 | Some h \<Rightarrow> wal_intent env h e0) = Inr e"
    using assms(4) unfolding apply_commit_def hh_def [symmetric] Let_def rbind_Inr by blast
  have e: "I None e" using w assms(1) keeps_wal(2) by (auto split: option.splits)
  have sv: "signed_votes e = signed_votes e0"
    using w by (auto simp: wal_intent_def signed_votes_def split: option.splits)
  obtain h a res where t: "try_commit (vd_app deps) (get_block (en_store e)) (get_block_by_height (en_store e)) dc
            (cs_current_epoch (en_state e)) (en_previous_epoch e) (en_pending_epoch e)
            (cs_last_committed_height (en_state e)) (en_app e) = (h, a, res)" using prod_cases3 by blast
  let ?s = "(en_state e)\<lparr>cs_last_committed_height := h\<rparr>"
  let ?e = "e\<lparr>en_app := a, en_state := ?s\<rparr>"
  note eq = assms(4) [unfolded apply_commit_def hh_def [symmetric] Let_def w rbind_simps assms(3) t]
  from assms(2) obtain outer exts where c: "cert (signed_votes e) Vote2 outer exts"
    "qc_block_hash outer = qc_block_hash (dc_inner_qc dc)" unfolding commits_def sv by blast
  have fin: "I None e'" if "I None x" "e' = x \<or> (\<exists>k. e' = finish_wal_intent env k x)" for x
    using that keeps_wal(1) by blast
  show ?thesis
  proof (cases res)
    case (Inl err)
    with eq have "\<not> commit_panics err" "e' = ?e \<or> (\<exists>k. e' = finish_wal_intent env k ?e)"
      by (auto split: if_splits option.splits)
    with fin commit_error [OF e c t [unfolded Inl]] show ?thesis by blast
  next
    case (Inr cr)
    note k = commit [OF e c t [unfolded Inr]]
    show ?thesis
    proof (cases "cr_committed_blocks cr = []")
      case True
      with eq Inr have "e' = ?e \<or> (\<exists>k. e' = finish_wal_intent env k ?e)"
        by (auto simp: process_commit_result_def split: option.splits)
      with fin k True show ?thesis by auto
    next
      case False
      let ?x = "e\<lparr>en_app := a, en_state := ?s\<lparr>cs_last_app_hash := cr_last_app_hash cr\<rparr>\<rparr>"
      from k False have "I (Some cr) ?e" by simp
      then have "I (Some cr) ?x" by (rule quiet) (simp add: core_simps)
      moreover from eq Inr False have "e' = process_commit_result env cr (adopt_commit_epoch cr ?x)"
        by (auto split: option.splits)
      ultimately show ?thesis using record_commit assms(3) False by blast
    qed
  qed
qed

lemma apply_commit_log:
  assumes "apply_commit env dc e0 = Inr e'"
  shows "en_log e' = en_log e0"
proof -
  have fin: "en_log (finish_wal_intent env h x) = en_log x" for h x
    by (simp add: finish_wal_intent_def)
  show ?thesis
    using assms
    by (auto simp: apply_commit_def rbind_Inr wal_intent_def fin Let_def split: option.splits prod.splits sum.splits if_splits)
qed

text \<open>Views are advanced through \<open>adv\<close>, which must keep the invariant on certificates already checked.\<close>

definition trigger_ok :: "Vote set \<Rightarrow> ViewEntryTrigger \<Rightarrow> bool" where
  "trigger_ok V trigger \<longleftrightarrow>
     (case trigger of
        TriggerDoubleCert dc \<Rightarrow> just V (dc_inner_qc dc)
      | TriggerTimeoutCert tc \<Rightarrow> \<forall>qc. highest_qc_of_tc tc = Some qc \<longrightarrow> just V qc
      | TriggerGenesis \<Rightarrow> True)"

definition adv_ok :: "('a, 'w) advance \<Rightarrow> bool" where
  "adv_ok adv \<longleftrightarrow> (\<forall>trigger e e'. I None e \<longrightarrow> trigger_ok (signed_votes e) trigger \<longrightarrow> adv trigger e = Inr e' \<longrightarrow> I None e')"

lemma trigger_ok_mono: "\<lbrakk> trigger_ok V trigger; V \<subseteq> V' \<rbrakk> \<Longrightarrow> trigger_ok V' trigger"
  using just_mono by (auto simp: trigger_ok_def split: ViewEntryTrigger.splits)

lemma matching_just: "\<lbrakk> I r e; matching_inner_qc outer e = Some qc \<rbrakk> \<Longrightarrow> just (signed_votes e) qc \<and> qc_block_hash qc = qc_block_hash outer"
  using own_view_qc own_locked own_highest
  by (auto simp: matching_inner_qc_def Let_def split: if_splits option.splits)

lemma double_cert_keeps:
  assumes "I None e0" "cert (signed_votes e0) Vote2 outer exts" "adv_ok adv" "ee_deps env = deps"
    and "on_double_cert_formed adv env outer exts e0 = Inr e'"
  shows "I None e'"
proof -
  let ?e = "e0\<lparr>en_current_view_qc := None\<rparr>"
  have e: "I None ?e" using view_qc [OF assms(1), of None] by simp
  show ?thesis
  proof (cases "matching_inner_qc outer e0")
    case None
    with assms(5) e show ?thesis by (simp add: on_double_cert_formed_def)
  next
    case (Some inner)
    let ?dc = "\<lparr> dc_inner_qc = inner, dc_outer_qc = outer, dc_vote_extensions = exts \<rparr>"
    from Some assms(5) obtain e1 where c: "apply_commit env ?dc ?e = Inr e1"
      "adv (TriggerDoubleCert ?dc) (e1\<lparr>en_state := (en_state e1)\<lparr>cs_highest_double_cert := Some ?dc\<rparr>\<rparr>) = Inr e'"
      by (auto simp: on_double_cert_formed_def rbind_Inr Let_def)
    have "commits (signed_votes ?e) ?dc" using matching_just [OF assms(1) Some] assms(2) by (auto simp: commits_def)
    from apply_commit_keeps [OF e this assms(4) c(1)] have "I None e1" .
    then have "I None (e1\<lparr>en_state := (en_state e1)\<lparr>cs_highest_double_cert := Some ?dc\<rparr>\<rparr>)"
      by (rule quiet) (simp add: core_simps)
    moreover have "signed_votes e1 = signed_votes e0" using apply_commit_log [OF c(1)] by (simp add: signed_votes_def)
    then have "trigger_ok (signed_votes e1) (TriggerDoubleCert ?dc)"
      using matching_just [OF assms(1) Some] by (simp add: trigger_ok_def)
    ultimately show ?thesis using assms(3) c(2) by (auto simp: adv_ok_def)
  qed
qed

lemma qc_formed_keeps:
  assumes "I None e0" "cert (signed_votes e0) Vote qc []" "qc_view qc = cs_current_view (en_state e0)" "adv_ok adv" "ee_deps env = deps"
    and "on_qc_formed adv env qc e0 = Inr e'"
  shows "I None e'"
proof -
  let ?s1 = "(update_highest_qc qc (en_state e0))\<lparr>cs_step := Prepared\<rparr>"
  let ?e = "e0\<lparr>en_current_view_qc := Some qc, en_state := ?s1\<rparr>"
  obtain sg where out: "on_votes_collected deps qc (en_state e0) = (?s1, [Broadcast (Prepare qc sg)])"
    by (simp add: on_votes_collected_def Let_def)
  define e1 where "e1 = perform (Broadcast (Prepare qc sg)) ?e"
  have "I None (e0\<lparr>en_current_view_qc := Some qc\<rparr>)" using view_qc [OF assms(1), of "Some qc"] assms(2) by simp
  from highest [OF this, of qc] cert_just [OF assms(2)]
  have "I None (e0\<lparr>en_current_view_qc := Some qc, en_state := update_highest_qc qc (en_state e0)\<rparr>)" by simp
  then have "I None ?e" by (rule quiet) (simp add: core_simps)
  then have e1: "I None e1" unfolding e1_def by (rule emit) simp_all
  have st1: "en_state e1 = ?s1" by (simp add: e1_def)
  have "signed_votes e0 \<subseteq> signed_votes e1" using signed_votes_perform [of ?e] by (simp add: e1_def)
  with assms(2) have cert1: "cert (signed_votes e1) Vote qc []" by (rule cert_mono)
  have le: "view_le (Some qc) (cs_highest_qc (en_state e1))"
    by (simp add: st1 update_highest_qc_def view_le_def not_less split: option.split)
  obtain s2 may where g: "check_and_record_vote Vote2 (cs_current_view (en_state e1)) (qc_block_hash qc) (en_state e1) = (s2, may)"
    by fastforce
  note eq = assms(6) [unfolded on_qc_formed_def assms(5) Let_def out prod.case perform_all_simps e1_def [symmetric] g]
  show ?thesis
  proof (cases may)
    case False
    then have "s2 = en_state e1" using g by (simp add: check_and_record_vote_spec split: if_splits)
    with eq False e1 show ?thesis by simp
  next
    case True
    define ext where "ext = block_vote_extension env (qc_block_hash qc) e1"
    let ?e2 = "sign_vote deps Vote2 (qc_block_hash qc) ext (e1\<lparr>en_state := s2\<rparr>)"
    define e4 where "e4 = persist_state (?e2\<lparr>en_state := update_locked_qc qc s2\<rparr>)"
    let ?vote = "make_vote deps s2 (qc_block_hash qc) Vote2 ext"
    have v: "qc_view qc = cs_current_view (en_state e1)" using assms(3) by (simp add: st1)
    have e4: "I None e4"
      unfolding e4_def using vote2 [OF e1 cert1 v le, of s2 ext] g True by (simp add: persists)
    let ?e3 = "perform (SaveLastVote Vote2 (cs_current_view s2) (qc_block_hash qc)) (e1\<lparr>en_state := s2\<rparr>)"
    have e4': "persist_state ((perform (SignVote ?vote) ?e3)\<lparr>en_state := update_locked_qc qc (en_state ?e3)\<rparr>) = e4"
      by (simp add: e4_def sign_vote_def)
    have st4: "en_state e4 = update_locked_qc qc s2" by (simp add: e4_def persist_state_def)
    have same: "cs_current_view s2 = cs_current_view (en_state e4)" "make_vote deps (en_state e4) (qc_block_hash qc) Vote2 ext = ?vote"
      by (simp_all add: st4 make_vote_def)
    have signed: "?vote \<in> signed_votes e4"
      using sign_vote_signed [of deps "e1\<lparr>en_state := s2\<rparr>"] by (simp add: e4_def)
    note good = own_vote [OF e4 signed]
    have "(case next_leader (cs_validator_set (en_state e4)) (cs_current_view (en_state e4)) of
                 None \<Rightarrow> Inl Panic
               | Some next_leader_id \<Rightarrow>
                   if next_leader_id = cs_validator_id (en_state e4)
                   then collect_own_vote ?vote (on_double_cert_formed adv env) e4
                   else Inr (perform (SendTo next_leader_id (Vote2Msg ?vote)) e4)) = Inr e'"
      using eq True unfolding ext_def [symmetric] e4' by simp
    then consider "collect_own_vote ?vote (on_double_cert_formed adv env) e4 = Inr e'"
      | n where "e' = perform (SendTo n (Vote2Msg ?vote)) e4"
      by (auto split: option.splits if_splits)
    then show ?thesis
    proof cases
      case 1
      show ?thesis
        by (rule collect_own [OF e4 good _ 1]) (use same double_cert_keeps assms(4,5) in auto)
    next
      case 2
      with signed show ?thesis using emit [OF e4] by simp
    qed
  qed
qed

lemma self_vote_keeps:
  assumes "I None e0" "ready (en_log e0) (cs_locked_qc (en_state e0)) (cs_highest_qc (en_state e0)) (vb_by_hash (en_store e0)) b"
    and "adv_ok adv" "ee_deps env = deps" "leader_self_vote adv env (b_hash b) e0 = Inr e'"
  shows "I None e'"
proof -
  obtain s1 may where g: "check_and_record_vote Vote (cs_current_view (en_state e0)) (b_hash b) (en_state e0) = (s1, may)"
    by fastforce
  note eq = assms(5) [unfolded leader_self_vote_def assms(4) Let_def g prod.case]
  show ?thesis
  proof (cases may)
    case False
    then have "s1 = en_state e0" using g by (simp add: check_and_record_vote_spec split: if_splits)
    with eq False assms(1) show ?thesis by simp
  next
    case True
    define e3 where "e3 = sign_vote deps Vote (b_hash b) None (e0\<lparr>en_state := s1\<rparr>)"
    have e3: "I None e3" unfolding e3_def by (rule vote1 [OF assms(1,2)]) (use g True in simp)
    have st: "en_state e3 = s1" by (simp add: e3_def sign_vote_def)
    have "make_vote deps s1 (b_hash b) Vote None \<in> signed_votes e3"
      using sign_vote_signed [of deps "e0\<lparr>en_state := s1\<rparr>"] by (simp add: e3_def)
    note good = own_vote [OF e3 this]
    have c: "collect_own_vote (make_vote deps s1 (b_hash b) Vote None) (\<lambda>qc extensions. on_qc_formed adv env qc) e3 = Inr e'"
      using eq True by (simp add: e3_def sign_vote_def)
    show ?thesis
      by (rule collect_own [OF e3 good _ c]) (use st qc_formed_keeps assms(3,4) in auto)
  qed
qed

lemma propose_error:
  "propose deps now_ms evs epochs s store a = (s', store', a', out, Inl err) \<Longrightarrow>
     err = AncestorLoop \<or> (s' = s \<and> store' = store \<and> a' = a \<and> out = [])"
  by (auto simp: propose_def Let_def split: option.splits prod.splits)

lemma try_propose_keeps:
  assumes "I None e" "adv_ok adv" "ee_deps env = deps" "try_propose adv env e = Inr e'"
  shows "I None e'"
proof -
  define evs where "evs = (case en_evidence_store e of None \<Rightarrow> [] | Some s \<Rightarrow> pe_get_pending s)"
  obtain s store a out res where p: "propose deps (ee_now_ms env) evs
      \<lparr> ec_previous_epoch = en_previous_epoch e, ec_in_flight_pending = None \<rparr>
      (en_state e) (en_store e) (en_app e) = (s, store, a, out, res)" using prod_cases5 by blast
  note eq = assms(4) [unfolded try_propose_def evs_def [symmetric] assms(3) Let_def p prod.case]
  show ?thesis
  proof (cases res)
    case (Inl err)
    with propose_error [OF p [unfolded Inl]] eq assms(1) show ?thesis by (auto split: vp_error.splits)
  next
    case (Inr b)
    let ?e = "perform_all out (e\<lparr>en_state := s, en_store := store, en_app := a\<rparr>)"
    note q = propose_step [OF assms(1) p [unfolded Inr]]
    show ?thesis
    proof (rule self_vote_keeps [of ?e b, OF _ _ assms(2,3)])
      show "leader_self_vote adv env (b_hash b) ?e = Inr e'" using eq Inr by simp
    qed (use q in simp_all)
  qed
qed

text \<open>Entering a view.\<close>

lemma enter_view_keeps:
  assumes "I None e" "trigger_ok (signed_votes e) trigger" "cs_current_view (en_state e) < v" "cleared e"
    and "enter_view deps v trigger (en_state e) = Inr (s, out)"
  shows "I None (perform_all out (e\<lparr>en_state := s\<rparr>))"
proof -
  let ?s = "(en_state e)\<lparr>cs_current_view := v\<rparr>"
  define hq where "hq = (case trigger of TriggerDoubleCert dc \<Rightarrow> Some (dc_inner_qc dc)
    | TriggerTimeoutCert tc \<Rightarrow> highest_qc_of_tc tc | TriggerGenesis \<Rightarrow> None)"
  define s1 where "s1 = (case hq of None \<Rightarrow> ?s | Some qc \<Rightarrow> update_highest_qc qc ?s)"
  have "I None (e\<lparr>en_state := ?s\<rparr>)" by (rule enter [OF assms(1,4,3)])
  then have "I None (e\<lparr>en_state := s1\<rparr>)"
    using highest [of None "e\<lparr>en_state := ?s\<rparr>"] assms(2)
    by (auto simp: s1_def hq_def trigger_ok_def split: option.splits ViewEntryTrigger.splits)
  moreover have "voter s = voter s1"
  proof (cases trigger)
    case (TriggerTimeoutCert tc)
    with assms(3,5) show ?thesis
      by (cases "highest_qc_of_tc tc")
         (auto simp: enter_view_def s1_def hq_def voter_def update_highest_qc_def result_simps not_le Let_def split: if_splits)
  qed (use assms(3,5) in \<open>auto simp: enter_view_def s1_def hq_def voter_def update_highest_qc_def result_simps not_le Let_def
        split: if_splits\<close>)
  ultimately have "I None (e\<lparr>en_state := s\<rparr>)"
    by (elim quiet) (simp add: same_core_def)
  moreover have "\<forall>eff \<in> set out. \<not> vote_effect eff \<and> vote_sent eff = None"
    using assms(5)
    by (auto simp: enter_view_def send_status_def result_simps Let_def
        split: ViewEntryTrigger.splits option.splits if_splits)
  ultimately show ?thesis by (rule emits)
qed

lemma enter_new_view_keeps:
  assumes "I None e" "trigger_ok (signed_votes e) trigger" "cs_current_view (en_state e) < v" "ee_deps env = deps"
    and "enter_new_view env v trigger e = Inr e'"
  shows "I None e'"
proof -
  define e1 where "e1 = e\<lparr>en_state := (en_state e)\<lparr>cs_pending_vote_extensions := trigger_extensions trigger e\<rparr>\<rparr>"
  define e2 where "e2 = epoch_transition env v (clear_old_view e1)"
  have "I None e1" unfolding e1_def by (rule quiet [OF assms(1)]) (simp add: core_simps)
  then have e2: "I None e2" unfolding e2_def by (intro epoch clear assms(4))
  have v2: "cs_current_view (en_state e2) < v"
    using assms(3) by (auto simp: e2_def e1_def epoch_transition_def clear_old_view_def perform_def Let_def split: option.splits)
  have c2: "cleared e2" unfolding e2_def by (rule cleared_epoch)
  have "signed_votes e \<subseteq> signed_votes e2"
    by (auto simp: e2_def e1_def signed_votes_def epoch_transition_unfold switch_epoch_def perform_def clear_old_view_def Let_def
        split: option.split)
  with assms(2) have t2: "trigger_ok (signed_votes e2) trigger" by (rule trigger_ok_mono)
  define pm where "pm = (\<lambda>e3 :: ('a, 'w) Engine. if (case trigger of TriggerDoubleCert _ \<Rightarrow> True | _ \<Rightarrow> False)
    then pm_reset_on_progress (ee_now env) (en_pacemaker e3) else pm_reset_timer (ee_now env) (en_pacemaker e3))"
  have pm: "pm_wishes (pm x) = pm_wishes (en_pacemaker x)" for x
    by (simp add: pm_def pm_reset_on_progress_def pm_reset_timer_def)
  from assms(5) obtain s out where x: "enter_view deps v trigger (en_state e2) = Inr (s, out)"
    "e' = persist_state ((perform_all out (e2\<lparr>en_state := s\<rparr>))\<lparr>en_pacemaker := pm (perform_all out (e2\<lparr>en_state := s\<rparr>))\<rparr>)"
    unfolding enter_new_view_def e1_def [symmetric] e2_def [symmetric] assms(4) Let_def pm_def
    by (auto split: sum.splits prod.splits)
  let ?e3 = "perform_all out (e2\<lparr>en_state := s\<rparr>)"
  have "I None (?e3\<lparr>en_pacemaker := pm ?e3\<rparr>)"
    by (rule quiet [OF enter_view_keeps [OF e2 t2 v2 c2 x(1)]]) (simp add: core_simps pm)
  then show ?thesis unfolding x(2) by (rule persists)
qed

lemma advance_view_to_keeps:
  "\<lbrakk> I None e; trigger_ok (signed_votes e) trigger; ee_deps env = deps; advance_view_to n env v trigger e = Inr e' \<rbrakk> \<Longrightarrow> I None e'"
proof (induction n arbitrary: v trigger e e')
  case (Suc n)
  let ?adv = "\<lambda>trigger' e'. case trigger_view trigger' (cs_current_view (en_state e')) of
      None \<Rightarrow> Inl Panic | Some v \<Rightarrow> advance_view_to n env v trigger' e'"
  have adv: "adv_ok ?adv" using Suc.IH Suc.prems(3) by (auto simp: adv_ok_def split: option.splits)
  show ?case
  proof (cases "v \<le> cs_current_view (en_state e)")
    case True
    with Suc.prems show ?thesis by simp
  next
    case False
    with Suc.prems(4) obtain e1 where e1: "enter_new_view env v trigger e = Inr e1"
      "try_propose ?adv env e1 = Inr e' \<or> e' = e1"
      by (auto simp: rbind_Inr split: if_splits)
    have "I None e1" using enter_new_view_keeps [OF Suc.prems(1,2) _ Suc.prems(3) e1(1)] False by simp
    with e1(2) try_propose_keeps [OF _ adv Suc.prems(3)] show ?thesis by blast
  qed
qed simp

lemma advance_view_ok: "ee_deps env = deps \<Longrightarrow> adv_ok (advance_view n env)"
  using advance_view_to_keeps by (auto simp: adv_ok_def advance_view_def split: option.splits)

text \<open>Handlers.\<close>

lemma handle_timeout_keeps:
  assumes "I None e" "ee_deps env = deps" "handle_timeout n env e = Inr e'"
  shows "I None e'"
proof -
  have later: "I None (x\<lparr>en_pacemaker := pm_on_timeout (ee_f64_scale env) (ee_now env) (en_pacemaker x)\<rparr>)"
    if "I None x" for x
    by (rule quiet [OF that]) (simp add: core_simps pm_on_timeout_def Let_def)
  show ?thesis
  proof (cases "power_of (cs_validator_set (en_state e)) (cs_validator_id (en_state e)) > 0")
    case False
    with assms(1,3) later show ?thesis by (auto simp: handle_timeout_def Let_def)
  next
    case True
    from True assms(3) obtain target sg where
      w: "build_wish (vd_blake3 deps) (vd_sign deps) (cs_chain_id_hash (en_state e))
        (ep_number (cs_current_epoch (en_state e))) (cs_current_view (en_state e)) (cs_validator_id (en_state e))
        (cs_highest_qc (en_state e)) = Some (Wish target (cs_validator_id (en_state e)) (cs_highest_qc (en_state e)) sg)"
      by (auto simp: handle_timeout_def assms(2) build_wish_def Let_def split: option.splits)
    let ?wish = "Wish target (cs_validator_id (en_state e)) (cs_highest_qc (en_state e)) sg"
    let ?e1 = "perform (Broadcast ?wish) e"
    have e1: "I None ?e1" by (rule emit [OF assms(1)]) simp_all
    obtain pm res where a: "add_wish (cs_validator_set (en_state e)) target (cs_validator_id (en_state e))
        (cs_highest_qc (en_state e)) sg (en_pacemaker ?e1) = (pm, res)" by fastforce
    have "next_view (cs_current_view (en_state e)) = Some target" using w by (simp add: build_wish_def)
    then have t: "cs_current_view (en_state e) \<le> target" "target \<le> saturating_add (cs_current_view (en_state e)) 1"
      by (auto simp: next_view_def checked_add_def saturating_add_def word_le_nat_alt unat_word_ariths split: if_splits)
    from wished [OF e1, of "cs_highest_qc (en_state e)" target _ sg pm res] a own_highest [OF e1] t
    have pm: "I None (?e1\<lparr>en_pacemaker := pm\<rparr>)"
      "\<forall>tc qc. res = Some tc \<longrightarrow> highest_qc_of_tc tc = Some qc \<longrightarrow> just (signed_votes ?e1) qc"
      by auto
    note eq = assms(3) [unfolded handle_timeout_def Let_def assms(2) w option.case ConsensusMessage.case a prod.case]
    show ?thesis
    proof (cases res)
      case None
      with eq True a pm(1) later [OF pm(1)] show ?thesis by simp
    next
      case (Some tc)
      let ?e2 = "perform (Broadcast (TimeoutCert tc)) (?e1\<lparr>en_pacemaker := pm\<rparr>)"
      have "I None ?e2" by (rule emit [OF pm(1)]) simp_all
      moreover have "trigger_ok (signed_votes ?e1) (TriggerTimeoutCert tc)" using pm(2) Some by (simp add: trigger_ok_def)
      then have "trigger_ok (signed_votes ?e2) (TriggerTimeoutCert tc)"
        by (rule trigger_ok_mono) (use signed_votes_perform [of "?e1\<lparr>en_pacemaker := pm\<rparr>"] in simp)
      moreover have "advance_view n env (TriggerTimeoutCert tc) ?e2 = Inr e'" using eq True a Some by simp
      ultimately show ?thesis using advance_view_ok [OF assms(2)] by (auto simp: adv_ok_def)
    qed
  qed
qed

lemma store_ancestors_keeps:
  assumes "I None e" "\<forall>b \<in> set bs. blk b"
  shows "I None (e\<lparr>en_store := store_ancestors (vd_blake3 deps) (cs_last_committed_height (en_state e)) bs (en_store e)\<rparr>)"
  using assms
proof (induction bs arbitrary: e)
  case (Cons b bs)
  let ?s = "if b_height b > cs_last_committed_height (en_state e) \<and> get_block (en_store e) (b_hash b) = None \<and>
      b_hash b = compute_hash (vd_blake3 deps) b then put_block b (en_store e) else en_store e"
  have "I None (e\<lparr>en_store := ?s\<rparr>)" using Cons.prems store_block [OF Cons.prems(1), of b] by simp
  from Cons.IH [OF this] Cons.prems show ?case by (simp add: store_ancestors_def)
qed (simp add: store_ancestors_def)

lemma cast_vote1_keeps:
  assumes "I r e" "ready (en_log e) (cs_locked_qc (en_state e)) (cs_highest_qc (en_state e)) (vb_by_hash (en_store e)) b"
    and "cast_vote1 deps b (en_state e) = Inr (s, out)"
  shows "I r (perform_all out (e\<lparr>en_state := s\<lparr>cs_step := Voted\<rparr>\<rparr>))"
proof -
  let ?st = "(en_state e)\<lparr>cs_step := Voted\<rparr>"
  let ?e = "e\<lparr>en_state := ?st\<rparr>"
  have e: "I r ?e" by (rule quiet [OF assms(1)]) (simp add: core_simps)
  show ?thesis
  proof (cases "power_of (cs_validator_set (en_state e)) (cs_validator_id (en_state e)) > 0 \<and>
      slot_admits (cs_last_vote1 (en_state e)) (cs_current_view (en_state e)) (b_hash b)")
    case False
    with assms(3) e show ?thesis
      by (auto simp: cast_vote1_def check_and_record_vote_spec vote_slot_def Let_def split: if_splits)
  next
    case True
    let ?s = "set_vote_slot Vote (Some (cs_current_view (en_state e), b_hash b)) ?st"
    have g: "check_and_record_vote Vote (cs_current_view (en_state ?e)) (b_hash b) (en_state ?e) = (?s, True)"
      using True by (simp add: check_and_record_vote_spec vote_slot_def)
    have v: "I r (sign_vote deps Vote (b_hash b) None (?e\<lparr>en_state := ?s\<rparr>))"
      by (rule vote1 [OF e _ g]) (use assms(2) in simp)
    from assms(3) True obtain l where
      "s\<lparr>cs_step := Voted\<rparr> = ?s"
      "out = [SaveLastVote Vote (cs_current_view (en_state e)) (b_hash b), SignVote (make_vote deps ?s (b_hash b) Vote None),
              SendTo l (VoteMsg (make_vote deps ?s (b_hash b) Vote None))]"
      by (auto simp: cast_vote1_def check_and_record_vote_spec vote_slot_def Let_def result_simps make_vote_def set_vote_slot_def)
    with emit [OF v, of "SendTo l (VoteMsg (make_vote deps ?s (b_hash b) Vote None))"]
      sign_vote_signed [of deps "?e\<lparr>en_state := ?s\<rparr>" "b_hash b" Vote None]
    show ?thesis by (simp add: sign_vote_def)
  qed
qed

definition unrecorded :: "CommitResult option \<Rightarrow> CommitResult option" where
  "unrecorded c = (case c of Some cr \<Rightarrow> if cr_committed_blocks cr = [] then None else Some cr | None \<Rightarrow> None)"

lemma fast_forward_keeps:
  assumes "I None e" "\<forall>dc. double_cert = Some dc \<longrightarrow> commits {} dc"
    and "fast_forward deps double_cert \<lparr> ec_previous_epoch = en_previous_epoch e, ec_in_flight_pending = en_pending_epoch e \<rparr>
           (en_store e) (en_state e) (en_app e) = (s, a, ff)"
  shows "case ff of Inl err \<Rightarrow> proposal_panics err \<or> I None (e\<lparr>en_state := s, en_app := a\<rparr>)
         | Inr c \<Rightarrow> I (unrecorded c) (e\<lparr>en_state := s, en_app := a\<rparr>)"
proof (cases double_cert)
  case None
  with assms(1,3) show ?thesis by (auto simp: fast_forward_def unrecorded_def)
next
  case (Some dc)
  with assms(2) have "commits (signed_votes e) dc" using commits_mono by blast
  then obtain outer exts where c: "cert (signed_votes e) Vote2 outer exts"
    "qc_block_hash outer = qc_block_hash (dc_inner_qc dc)" unfolding commits_def by blast
  obtain h a' res where t: "try_commit (vd_app deps) (get_block (en_store e)) (get_block_by_height (en_store e)) dc
            (cs_current_epoch (en_state e)) (en_previous_epoch e) (en_pending_epoch e)
            (cs_last_committed_height (en_state e)) (en_app e) = (h, a', res)" using prod_cases3 by blast
  show ?thesis
  proof (cases res)
    case (Inl err)
    with assms(3) Some t have "ff = Inl (FastForwardFailed err)" "a = a'" "s = (en_state e)\<lparr>cs_last_committed_height := h\<rparr>"
      by (simp_all add: fast_forward_def)
    moreover have "I None (e\<lparr>en_state := (en_state e)\<lparr>cs_last_committed_height := h\<rparr>, en_app := a'\<rparr>)" if "\<not> commit_panics err"
      by (rule quiet [OF commit_error [OF assms(1) c t [unfolded Inl] that]]) (simp add: core_simps)
    ultimately show ?thesis by (cases "commit_panics err") simp_all
  next
    case (Inr cr)
    with assms(3) Some t have ff: "ff = Inr (Some cr)" "a = a'"
      "voter s = voter ((en_state e)\<lparr>cs_last_committed_height := h\<rparr>)"
      by (auto simp: fast_forward_def voter_def)
    from commit [OF assms(1) c t [unfolded Inr]]
    have "I (unrecorded (Some cr)) (e\<lparr>en_app := a', en_state := (en_state e)\<lparr>cs_last_committed_height := h\<rparr>\<rparr>)"
      by (simp add: unrecorded_def)
    then have "I (unrecorded (Some cr)) (e\<lparr>en_state := s, en_app := a\<rparr>)"
      by (rule quiet) (simp add: same_core_def ff)
    with ff(1) show ?thesis by simp
  qed
qed

lemma on_proposal_steps:
  assumes "I None e" "blk b" "just {} justify" "\<forall>dc. double_cert = Some dc \<longrightarrow> commits {} dc"
    and "on_proposal deps now_ms \<lparr> pd_block = b, pd_justify = justify, pd_double_cert = double_cert \<rparr>
           \<lparr> ec_previous_epoch = en_previous_epoch e, ec_in_flight_pending = en_pending_epoch e \<rparr>
           (en_state e) (en_store e) (en_app e) = (s, store, a, out, res)"
  shows "case res of Inl err \<Rightarrow> proposal_panics err \<or> I None (perform_all out (e\<lparr>en_state := s, en_store := store, en_app := a\<rparr>))
         | Inr pr \<Rightarrow> I (unrecorded (pr_commit_result pr)) (perform_all out (e\<lparr>en_state := s, en_store := store, en_app := a\<rparr>))"
proof -
  let ?ep = "\<lparr> ec_previous_epoch = en_previous_epoch e, ec_in_flight_pending = en_pending_epoch e \<rparr>"
  show ?thesis
  proof (cases "cs_step (en_state e) = WaitingForProposal \<and>
      check_proposal deps now_ms b justify ?ep (en_state e) (en_store e) (en_app e) = Inr ()")
    case False
    with assms(1,5) show ?thesis by (auto simp: on_proposal_def unrecorded_def Let_def split: sum.splits if_splits)
  next
    case True
    define e1 where "e1 = e\<lparr>en_store := put_block b (en_store e), en_state := update_highest_qc justify (en_state e)\<rparr>"
    from accept [OF assms(1,2) just_mono [OF assms(3)]] True have e1: "I None e1"
      and ready: "ready (en_log e1) (cs_locked_qc (en_state e)) (cs_highest_qc (en_state e1)) (vb_by_hash (en_store e1)) b"
      by (auto simp: e1_def)
    obtain s2 a2 ff where f: "fast_forward deps double_cert ?ep (put_block b (en_store e))
        (update_highest_qc justify (en_state e)) (en_app e) = (s2, a2, ff)" using prod_cases3 by blast
    have ex: "e\<lparr>en_state := s', en_store := put_block b (en_store e), en_app := x\<rparr> = e1\<lparr>en_state := s', en_app := x\<rparr>" for s' x
      by (simp add: e1_def)
    have swap: "e1\<lparr>en_app := x, en_state := y\<rparr> = e1\<lparr>en_state := y, en_app := x\<rparr>" for x y by simp
    have k: "case ff of Inl err \<Rightarrow> proposal_panics err \<or> I None (e1\<lparr>en_state := s2, en_app := a2\<rparr>)
         | Inr c \<Rightarrow> I (unrecorded c) (e1\<lparr>en_state := s2, en_app := a2\<rparr>)"
      by (rule fast_forward_keeps [OF e1 assms(4)]) (use f in \<open>simp add: e1_def\<close>)
    note eq = assms(5) [unfolded on_proposal_def Let_def ProposalData.simps f prod.case, simplified True, simplified]
    show ?thesis
    proof (cases ff)
      case (Inl err)
      with eq k show ?thesis by (auto simp: ex)
    next
      case (Inr c)
      let ?e2 = "e1\<lparr>en_state := s2, en_app := a2\<rparr>"
      from k Inr have e2: "I (unrecorded c) ?e2" by simp
      show ?thesis
      proof (cases "app_tracks_app_hash (vd_app deps) \<and> b_app_hash b \<noteq> cs_last_app_hash s2")
        case True
        with eq Inr e2 show ?thesis by (auto simp: ex)
      next
        case False
        have same: "same_voter (update_highest_qc justify (en_state e)) s2" "cs_highest_qc s2 = cs_highest_qc (update_highest_qc justify (en_state e))"
          using fast_forward_same_voter [OF f] by simp_all
        from True obtain l where "leader_for_view (cs_validator_set (en_state e)) (b_view b) = Some l"
          by (auto simp: check_proposal_Inr proposal_valid_def)
        then obtain l' where l: "leader_for_view (cs_validator_set s2) (cs_current_view s2) = Some l'"
          using leader_for_view_exists same(1) by (fastforce simp: same_voter_def)
        then obtain s3 out' where cv: "cast_vote1 deps b s2 = Inr (s3, out')"
          by (cases "0 < power_of (cs_validator_set s2) (cs_validator_id s2) \<and>
              slot_admits (cs_last_vote1 s2) (cs_current_view s2) (b_hash b)") (simp_all add: cast_vote1_spec)
        have rd: "ready (en_log ?e2) (cs_locked_qc (en_state ?e2)) (cs_highest_qc (en_state ?e2)) (vb_by_hash (en_store ?e2)) b"
          using ready same by (simp add: same_voter_def e1_def)
        from cast_vote1_keeps [OF e2 rd, of s3 out'] cv
        have "I (unrecorded c) (perform_all out' (e1\<lparr>en_state := s3\<lparr>cs_step := Voted\<rparr>, en_app := a2\<rparr>))"
          by (simp add: swap)
        with eq Inr False cv show ?thesis by (auto simp: ex)
      qed
    qed
  qed
qed

lemma current_proposal_keeps:
  assumes "I None e0" "blk b" "just {} justify" "\<forall>dc. double_cert = Some dc \<longrightarrow> hq (dc_inner_qc dc) \<and> hq (dc_outer_qc dc)"
    and "ee_deps env = deps"
    and "handle_current_proposal env b justify double_cert e0 = Inr (e', err)"
  shows "I None e'"
proof (cases "case double_cert of
    Some dc \<Rightarrow> \<not> validate_double_cert (vd_verify deps) (vd_blake3 deps) (en_state e0) (en_previous_epoch e0) dc | None \<Rightarrow> False")
  case True
  with assms(1,5,6) show ?thesis by (simp add: handle_current_proposal_def)
next
  case valid: False
  then have dc: "\<forall>dc. double_cert = Some dc \<longrightarrow> commits {} dc" using verified_commits [OF assms(1)] assms(4) by auto
  define e1 where "e1 = (if agg_count (qc_aggregate_signature justify) > 0
     then case get_block (en_store e0) (qc_block_hash justify) of
            Some jb \<Rightarrow> if get_commit_qc (en_store e0) (b_height jb) = None
                       then e0\<lparr>en_store := put_commit_qc (b_height jb) justify (en_store e0)\<rparr> else e0
          | None \<Rightarrow> e0
     else e0)"
  have e1: "I None e1"
    using assms(1) store_justify [OF assms(1)] by (auto simp: e1_def split: option.splits)
  define ih where "ih = Option.bind double_cert (\<lambda>dc.
     map_option b_height (get_block (en_store e1) (qc_block_hash (dc_inner_qc dc))))"
  have fin: "I None x \<Longrightarrow> I None (case ih of Some h \<Rightarrow> finish_wal_intent env h x | None \<Rightarrow> x)" for x
    using keeps_wal(1) by (simp split: option.splits)
  note eq0 = assms(6) [unfolded handle_current_proposal_def assms(5) Let_def if_not_P [OF valid]
      e1_def [symmetric] ih_def [symmetric]]
  from eq0 obtain e2 where w: "(case ih of None \<Rightarrow> Inr e1 | Some h \<Rightarrow> wal_intent env h e1) = Inr e2"
    unfolding rbind_Inr by blast
  have e2: "I None e2" using w e1 keeps_wal(2) by (auto split: option.splits)
  obtain s store a out res where p: "on_proposal deps (ee_now_ms env)
      \<lparr> pd_block = b, pd_justify = justify, pd_double_cert = double_cert \<rparr>
      \<lparr> ec_previous_epoch = en_previous_epoch e2, ec_in_flight_pending = en_pending_epoch e2 \<rparr>
      (en_state e2) (en_store e2) (en_app e2) = (s, store, a, out, res)" using prod_cases5 by blast
  define e3 where "e3 = perform_all out (e2\<lparr>en_state := s, en_store := store, en_app := a\<rparr>)"
  note k = on_proposal_steps [OF e2 assms(2,3) dc p, folded e3_def]
  note eq = eq0 [unfolded w rbind_simps p prod.case e3_def [symmetric]]
  show ?thesis
  proof (cases res)
    case (Inl x)
    with eq k fin show ?thesis by (auto split: if_splits)
  next
    case (Inr pr)
    with k have e3: "I (unrecorded (pr_commit_result pr)) e3" by simp
    show ?thesis
    proof (cases "pr_commit_result pr")
      case None
      have "I None (x\<lparr>en_pending_epoch := Some ep\<rparr>)" if "pr_pending_epoch pr = Some ep" for ep x
        using p that Inr None by (auto simp: on_proposal_def Let_def fast_forward_def split: if_splits sum.splits prod.splits option.splits)
      with eq Inr None e3 fin show ?thesis by (auto simp: unrecorded_def split: option.splits)
    next
      case (Some cr)
      show ?thesis
      proof (cases "cr_committed_blocks cr = []")
        case True
        with eq Inr Some e3 fin show ?thesis by (auto simp: unrecorded_def process_commit_result_def)
      next
        case False
        with Some e3 have "I None (process_commit_result env cr (adopt_commit_epoch cr e3))"
          using record_commit assms(5) by (simp add: unrecorded_def)
        with eq Inr Some False show ?thesis by auto
      qed
    qed
  qed
qed

lemma propose_keeps:
  assumes "I None e0" "\<forall>x \<in> insert b (set ancestors). blk x" "just {} justify" "ee_deps env = deps"
    and dcq: "\<forall>dc. double_cert = Some dc \<longrightarrow> hq (dc_inner_qc dc) \<and> hq (dc_outer_qc dc)"
    and "handle_propose n env b justify double_cert ancestors e0 = Inr (e', err)"
  shows "I None e'"
proof -
  define e where "e = e0\<lparr>en_store := store_ancestors (vd_blake3 deps) (cs_last_committed_height (en_state e0)) ancestors (en_store e0)\<rparr>"
  have e: "I None e" unfolding e_def by (rule store_ancestors_keeps) (use assms(1,2) in auto)
  note eq = assms(6) [unfolded handle_propose_def assms(4) Let_def e_def [symmetric]]
  have b: "blk b" using assms(2) by simp
  consider "b_view b > cs_current_view (en_state e)" | "b_view b < cs_current_view (en_state e)"
    | "b_view b = cs_current_view (en_state e)" by force
  then show ?thesis
  proof cases
    case 1
    show ?thesis
    proof (cases "\<exists>dc. double_cert = Some dc \<and> validate_double_cert (vd_verify deps) (vd_blake3 deps) (en_state e) (en_previous_epoch e) dc")
      case False
      with eq 1 e show ?thesis by (auto split: option.splits)
    next
      case True
      then obtain dc where dc: "double_cert = Some dc"
        "validate_double_cert (vd_verify deps) (vd_blake3 deps) (en_state e) (en_previous_epoch e) dc" by blast
      with eq 1 obtain e1 e2 where x: "apply_commit env dc e = Inr e1"
        "advance_view_to n env (b_view b) (TriggerDoubleCert dc)
           (e1\<lparr>en_state := (en_state e1)\<lparr>cs_highest_double_cert := Some dc\<rparr>\<rparr>) = Inr e2"
        "handle_current_proposal env b justify double_cert e2 = Inr (e', err)"
        by (auto simp: rbind_Inr)
      have c: "commits {} dc" using verified_commits [OF e _ _ dc(2)] dcq dc(1) by simp
      have c1: "commits (signed_votes e) dc" by (rule commits_mono [OF c]) simp
      have "I None (e1\<lparr>en_state := (en_state e1)\<lparr>cs_highest_double_cert := Some dc\<rparr>\<rparr>)"
        by (rule quiet [OF apply_commit_keeps [OF e c1 assms(4) x(1)]]) (simp add: core_simps)
      from advance_view_to_keeps [OF this _ assms(4) x(2)] trigger_ok_mono [of "{}" "TriggerDoubleCert dc"] c have "I None e2"
        by (simp add: trigger_ok_def commits_def)
      from current_proposal_keeps [OF this b assms(3) dcq assms(4) x(3)] show ?thesis .
    qed
  next
    case 2
    with eq e store_block [OF e b] show ?thesis by (auto split: if_splits)
  next
    case 3
    with eq current_proposal_keeps [OF e b assms(3) dcq assms(4)] show ?thesis by simp
  qed
qed

abbreviation verified :: "('a, 'w) Engine \<Rightarrow> ConsensusMessage \<Rightarrow> bool" where
  "verified e msg \<equiv> verify_message (vd_verify deps) (vd_blake3 deps) (en_state e) (en_previous_epoch e) msg"

lemma vote_keeps:
  assumes "I None e" "hv vote" "verified e (VoteMsg vote)" "ee_deps env = deps" "handle_vote n env vote e = Inr (e', err)"
  shows "I None e'"
proof (cases "v_view vote = cs_current_view (en_state e) \<and> v_epoch vote = ep_number (cs_current_epoch (en_state e)) \<and>
    cs_is_leader (en_state e) \<and> v_vote_type vote = Vote")
  case False
  with assms(1,5) show ?thesis by (auto simp: handle_vote_def split: if_splits)
next
  case True
  then have good: "good_vote (signed_votes e) vote" using assms(3) verified_vote [OF assms(1,2)] by (simp add: verify_message_def)
  have c: "collect_vote vote (\<lambda>qc extensions. on_qc_formed (advance_view n env) env qc) e = Inr (e', err)"
    using assms(5) True by (simp add: handle_vote_def)
  have formed: "\<lbrakk> I None e1; cert (signed_votes e1) Vote qc []; qc_view qc = cs_current_view (en_state e1);
      on_qc_formed (advance_view n env) env qc e1 = Inr e2 \<rbrakk> \<Longrightarrow> I None e2" for qc e1 e2
    using qc_formed_keeps [OF _ _ _ advance_view_ok [OF assms(4)] assms(4)] by blast
  show ?thesis by (rule collect_other [OF assms(1) good _ c]) (use True formed in auto)
qed

lemma vote2_keeps:
  assumes "I None e" "hv vote" "verified e (Vote2Msg vote)" "ee_deps env = deps" "handle_vote2 n env vote e = Inr (e', err)"
  shows "I None e'"
proof (cases "v_view vote = cs_current_view (en_state e) \<and> v_epoch vote = ep_number (cs_current_epoch (en_state e)) \<and>
    v_vote_type vote = Vote2 \<and> \<not> (case v_extension vote of
       Some ext \<Rightarrow> \<not> app_verify_vote_extension (vd_app deps) ext (v_block_hash vote) (v_validator vote) (en_app e)
     | None \<Rightarrow> False)")
  case False
  with assms(1,4,5) show ?thesis by (auto simp: handle_vote2_def split: if_splits)
next
  case True
  then have good: "good_vote (signed_votes e) vote" using assms(3) verified_vote [OF assms(1,2)] by (simp add: verify_message_def)
  have c: "collect_vote vote (on_double_cert_formed (advance_view n env) env) e = Inr (e', err)"
    using assms(5) True unfolding handle_vote2_def assms(4) by simp
  have formed: "\<lbrakk> I None e1; cert (signed_votes e1) Vote2 qc exts; on_double_cert_formed (advance_view n env) env qc exts e1 = Inr e2 \<rbrakk>
      \<Longrightarrow> I None e2" for qc exts e1 e2
    using double_cert_keeps [OF _ _ advance_view_ok [OF assms(4)] assms(4)] by blast
  show ?thesis by (rule collect_other [OF assms(1) good _ c]) (use True formed in auto)
qed

lemma prepare_keeps:
  assumes "I None e" "verified e (Prepare qc sg)" "ee_deps env = deps" "hq qc" "handle_prepare env qc e = Inr (e', err)"
  shows "I None e'"
proof (cases "e' = e")
  case False
  define ext where "ext = block_vote_extension env (qc_block_hash qc) e"
  from False assms(5) obtain s out v2 where p: "qc_view qc = cs_current_view (en_state e)"
    "on_prepare deps qc ext (en_state e) = Inr (s, out, v2)"
    "e' = (case v2 of None \<Rightarrow> persist_state (perform_all out (e\<lparr>en_state := s\<rparr>))
       | Some (next_leader_id, vote) \<Rightarrow>
           perform (SendTo next_leader_id (Vote2Msg vote)) (persist_state (perform_all out (e\<lparr>en_state := s\<rparr>))))"
    unfolding handle_prepare_def assms(3) ext_def [symmetric]
    by (auto simp: Let_def split: if_splits sum.splits option.splits)
  have c0: "cert {} Vote qc []"
    using assms(2) p(1) verified_qc [OF assms(1,4)] by (auto simp: verify_message_def split: option.splits if_splits)
  have c: "cert (signed_votes x) Vote qc []" for x :: "('a, 'w) Engine" by (rule cert_mono [OF c0]) simp
  let ?s1 = "update_highest_qc qc (update_locked_qc qc (en_state e))"
  have e1: "I None (e\<lparr>en_state := ?s1\<rparr>)" by (rule lock [OF assms(1) c])
  have "I None (perform_all out (e\<lparr>en_state := s\<rparr>))"
  proof (cases "cs_step (en_state e) = Voted")
    case False
    with p(2) assms(1) show ?thesis by (auto simp: on_prepare_def)
  next
    case voted: True
    let ?st = "?s1\<lparr>cs_step := SentVote2\<rparr>"
    let ?e = "e\<lparr>en_state := ?st\<rparr>"
    have e: "I None ?e" by (rule quiet [OF e1]) (simp add: core_simps)
    show ?thesis
    proof (cases "out = []")
      case True
      with p(2) voted have "s = ?st" by (auto simp: on_prepare_def Let_def check_and_record_vote_spec result_simps split: if_splits)
      with True e show ?thesis by simp
    next
      case False
      let ?s2 = "set_vote_slot Vote2 (Some (cs_current_view (en_state e), qc_block_hash qc)) ?st"
      have g: "check_and_record_vote Vote2 (cs_current_view (en_state ?e)) (qc_block_hash qc) (en_state ?e) = (?s2, True)"
        and s: "s = ?s2"
        and out: "out = [SaveLastVote Vote2 (cs_current_view (en_state e)) (qc_block_hash qc),
                         SignVote (make_vote deps ?s2 (qc_block_hash qc) Vote2 ext)]"
        using False p(2) voted
        by (auto simp: on_prepare_def Let_def check_and_record_vote_spec result_simps make_vote_def set_vote_slot_def vote_slot_def
            update_highest_qc_def update_locked_qc_def split: if_splits)
      have le: "view_le (Some qc) (cs_highest_qc (en_state ?e))"
        by (simp add: update_highest_qc_def view_le_def not_less split: option.split)
      have locked: "update_locked_qc qc ?s2 = ?s2"
        by (auto simp: update_locked_qc_def update_highest_qc_def set_vote_slot_def split: option.splits)
      have v: "qc_view qc = cs_current_view (en_state ?e)" using p(1) by simp
      have "I None ((sign_vote deps Vote2 (qc_block_hash qc) ext (?e\<lparr>en_state := ?s2\<rparr>))\<lparr>en_state := ?s2\<rparr>)"
        using vote2 [OF e c v le g, of ext] locked by simp
      then show ?thesis by (elim quiet) (simp add: core_simps sign_vote_def s out)
    qed
  qed
  moreover have "vote \<in> signed_votes (perform_all out (e\<lparr>en_state := s\<rparr>))" if "v2 = Some (i, vote)" for i vote
    using p(2) that
    by (auto simp: on_prepare_def Let_def result_simps signed_votes_def perform_def check_and_record_vote_spec split: if_splits)
  ultimately show ?thesis using p(3) persists emit by (auto split: option.splits)
qed (use assms(1) in simp)

lemma wish_keeps:
  assumes "I None e" "ee_deps env = deps" "\<forall>qc \<in> set_option hqc. hq qc" "handle_wish n env target i hqc sg e = Inr (e', err)"
  shows "I None e'"
proof (cases "e' = e")
  case False
  obtain pm made where a: "add_wish (cs_validator_set (en_state e)) target i hqc sg (en_pacemaker e) = (pm, made)" by fastforce
  from False assms(2,4) have q: "\<And>qc. hqc = Some qc \<Longrightarrow> just (signed_votes e) qc"
    using just_mono [OF verified_justify [OF assms(1)]] assms(3) by (auto simp: handle_wish_def split: if_splits)
  from False assms(4) have t: "cs_current_view (en_state e) \<le> target" "target \<le> saturating_add (cs_current_view (en_state e)) 1"
    by (auto simp: handle_wish_def not_less split: if_splits)
  note w = wished [OF assms(1) q t a]
  show ?thesis
  proof (cases made)
    case None
    with w False assms(2,4) a show ?thesis by (auto simp: handle_wish_def split: if_splits)
  next
    case (Some tc)
    let ?e2 = "perform (Broadcast (TimeoutCert tc)) (e\<lparr>en_pacemaker := pm\<rparr>)"
    have "I None ?e2" using w by (intro emit) simp_all
    moreover have "trigger_ok (signed_votes e) (TriggerTimeoutCert tc)" using w Some by (simp add: trigger_ok_def)
    then have "trigger_ok (signed_votes ?e2) (TriggerTimeoutCert tc)"
      by (rule trigger_ok_mono) (use signed_votes_perform [of "e\<lparr>en_pacemaker := pm\<rparr>"] in simp)
    moreover have "advance_view n env (TriggerTimeoutCert tc) ?e2 = Inr e'"
      using Some False assms(2,4) a by (auto simp: handle_wish_def rbind_Inr split: if_splits)
    ultimately show ?thesis using advance_view_ok [OF assms(2)] by (auto simp: adv_ok_def)
  qed
qed (use assms(1) in simp)

lemma timeout_cert_keeps:
  assumes "I None e0" "verified e0 (TimeoutCert tc)" "ee_deps env = deps"
    and "\<forall>qc \<in> msg_qcs (TimeoutCert tc). hq qc" "handle_timeout_cert n env tc e0 = Inr (e', err)"
  shows "I None e'"
proof -
  obtain pm relay where r: "should_relay_tc tc (en_pacemaker e0) = (pm, relay)" by fastforce
  define e where "e = (if tc_view tc + 1 \<ge> cs_current_view (en_state e0)
     then if relay then perform (Broadcast (TimeoutCert tc)) (e0\<lparr>en_pacemaker := pm\<rparr>) else e0\<lparr>en_pacemaker := pm\<rparr>
     else e0)"
  have "pm_wishes pm = pm_wishes (en_pacemaker e0)"
    using r by (auto simp: should_relay_tc_def split: option.splits)
  then have "I None (e0\<lparr>en_pacemaker := pm\<rparr>)" by (intro quiet [OF assms(1)]) (simp add: core_simps)
  then have e: "I None e" using assms(1) emit by (auto simp: e_def)
  have st: "en_state e = en_state e0" by (simp add: e_def)
  note eq = assms(5) [unfolded handle_timeout_cert_def Let_def r prod.case e_def [symmetric]]
  show ?thesis
  proof (cases "tc_view tc + 1 > cs_current_view (en_state e)")
    case False
    with eq e show ?thesis by simp
  next
    case True
    then obtain target where "checked_add (tc_view tc) 1 = Some target" "target = tc_view tc + 1"
      using assms(2) by (auto simp: verify_message_def checked_add_def split: if_splits)
    with True st assms(2) have "verify_content (vd_verify deps) (vd_blake3 deps) (en_state e0) (en_previous_epoch e0) (TimeoutCert tc)"
      by (auto simp: verify_message_def split: if_splits)
    moreover have "hq qc" if "highest_qc_of_tc tc = Some qc" for qc
      using highest_qc_of_tc_mem [OF that] assms(4) by (auto simp: in_set_conv_nth)
    ultimately have "trigger_ok {} (TriggerTimeoutCert tc)" using verified_tc [OF assms(1)] by (simp add: trigger_ok_def)
    then have "trigger_ok (signed_votes e) (TriggerTimeoutCert tc)" by (rule trigger_ok_mono) simp
    moreover have "advance_view n env (TriggerTimeoutCert tc) e = Inr e'" using eq True by (auto simp: rbind_Inr)
    ultimately show ?thesis using e advance_view_ok [OF assms(3)] by (auto simp: adv_ok_def)
  qed
qed

lemma status_keeps:
  assumes "I None e0" "ee_deps env = deps" "\<forall>qc \<in> set_option locked_qc. hq qc" "handle_status n env locked_qc i e0 = Inr (e', err)"
  shows "I None e'"
proof (cases "cs_is_leader (en_state e0) \<and> cs_step (en_state e0) = WaitingForStatus")
  case False
  with assms(1,4) show ?thesis by (auto simp: handle_status_def)
next
  case True
  define e1 where "e1 = (case locked_qc of
      Some qc \<Rightarrow>
        if agg_count (qc_aggregate_signature qc) > 0 \<and>
           verify_vote_qc (vd_verify deps) (vd_blake3 deps) (en_state e0) (en_previous_epoch e0) qc Vote
        then e0\<lparr>en_state := update_highest_qc qc (en_state e0)\<rparr> else e0
    | None \<Rightarrow> e0)"
  define e2 where "e2 = e1\<lparr>en_status_senders := List.insert i (en_status_senders e1)\<rparr>"
  have "I None e1"
    using assms(1,3) highest [OF assms(1) just_mono [OF cert_just [OF verified_qc [OF assms(1)]]]]
    by (auto simp: e1_def split: option.splits)
  then have e2: "I None e2" unfolding e2_def by (rule quiet) (simp add: core_simps)
  have "e' = e2 \<or> try_propose (advance_view n env) env e2 = Inr e'"
    using assms(4) True unfolding handle_status_def assms(2) e1_def [symmetric] Let_def e2_def [symmetric]
    by (auto simp: rbind_Inr split: if_splits)
  with e2 try_propose_keeps [OF e2 advance_view_ok [OF assms(2)] assms(2)] show ?thesis by blast
qed

lemma evidence_keeps:
  assumes "I None e" "handle_evidence env p e = Inr (e', err)"
  shows "I None e'"
  by (rule quiet [OF assms(1)])
     (use assms(2) in \<open>auto simp: handle_evidence_def core_simps Let_def split: option.splits if_splits\<close>)

theorem message_keeps:
  assumes "I None e0" "made_of blk hq hv msg" "ee_deps env = deps" "handle_message n env sender msg e0 = Inr (e', err)"
  shows "I None e'"
proof -
  obtain e dropped where r: "rate_limit (ee_now env) sender e0 = (e, dropped)" by fastforce
  have e: "I None e"
    by (rule quiet [OF assms(1)]) (use r in \<open>auto simp: rate_limit_def core_simps split: option.splits prod.splits if_splits\<close>)
  show ?thesis
  proof (cases "\<not> dropped \<and> verified e msg")
    case False
    with assms(3,4) r e show ?thesis by (auto simp: handle_message_def split: if_splits)
  next
    case True
    with assms(3,4) r have d: "dispatch n env msg e = Inr (e', err)" by (simp add: handle_message_def)
    show ?thesis
    proof (cases msg)
      case (Propose b justify double_cert sg ancestors)
      then have "verify_justify_qc (vd_verify deps) (vd_blake3 deps) (en_state e) (en_previous_epoch e) justify"
        using True by (auto simp: verify_message_def split: option.splits if_splits)
      with assms(2) Propose have j: "just {} justify" by (intro verified_justify [OF e]) (simp_all add: made_of_def)
      have "handle_propose n env b justify double_cert ancestors e = Inr (e', err)" using d Propose by (simp add: dispatch_def)
      from propose_keeps [OF e _ j assms(3) _ this] assms(2) Propose show ?thesis by (simp add: made_of_def)
    next
      case (VoteMsg vote)
      with d True vote_keeps [OF e _ _ assms(3), of vote n e' err] assms(2) show ?thesis by (simp add: dispatch_def made_of_def)
    next
      case (Prepare qc sg)
      with d True prepare_keeps [OF e _ assms(3), of qc sg e' err] assms(2) show ?thesis by (simp add: dispatch_def made_of_def)
    next
      case (Vote2Msg vote)
      with d True vote2_keeps [OF e _ _ assms(3), of vote n e' err] assms(2) show ?thesis by (simp add: dispatch_def made_of_def)
    next
      case (Wish target i hqc sg)
      with d have h: "handle_wish n env target i hqc sg e = Inr (e', err)" by (simp add: dispatch_def)
      show ?thesis by (rule wish_keeps [OF e assms(3) _ h]) (use assms(2) Wish in \<open>simp add: made_of_def\<close>)
    next
      case (TimeoutCert tc)
      with d True timeout_cert_keeps [OF e _ assms(3), of tc n e' err] assms(2) show ?thesis by (simp add: dispatch_def made_of_def)
    next
      case (StatusCert locked_qc i sg)
      with d have h: "handle_status n env locked_qc i e = Inr (e', err)" by (simp add: dispatch_def)
      show ?thesis by (rule status_keeps [OF e assms(3) _ h]) (use assms(2) StatusCert in \<open>simp add: made_of_def\<close>)
    next
      case (Evidence p)
      with d evidence_keeps [OF e, of env p e' err] assms(2) show ?thesis by (simp add: dispatch_def made_of_def)
    qed
  qed
qed

lemma at_time_deps [simp]: "ee_deps (at_time now now_ms env) = ee_deps env"
  by (simp add: at_time_def)

theorem run_keeps:
  "\<lbrakk> I None e; \<forall>ev \<in> set evs. \<forall>msg \<in> event_msgs ev. made_of blk hq hv msg; ee_deps env = deps; run_events n env evs e = Inr e' \<rbrakk>
     \<Longrightarrow> I None e'"
proof (induction evs arbitrary: e)
  case (Cons ev evs)
  from Cons.prems(4) obtain e1 where e1: "run_event n env ev e = Inr e1" "run_events n env evs e1 = Inr e'"
    by (auto simp: rbind_Inr)
  have "I None e1"
  proof (cases ev)
    case (Received now now_ms sender msg)
    with e1(1) obtain err where m: "handle_message n (at_time now now_ms env) sender msg e = Inr (e1, err)"
      by (auto simp: rbind_Inr)
    show ?thesis by (rule message_keeps [OF Cons.prems(1) _ _ m]) (use Cons.prems(2,3) Received in simp_all)
  next
    case (TimerFired now now_ms)
    with e1(1) have t: "handle_timeout n (at_time now now_ms env) e = Inr e1" by simp
    show ?thesis by (rule handle_timeout_keeps [OF Cons.prems(1) _ t]) (use Cons.prems(3) in simp)
  qed
  with Cons.IH e1(2) Cons.prems(2,3) show ?case by simp
qed simp

text \<open>Startup: the genesis view is entered with the genesis certificate as the highest one.\<close>

theorem start_keeps:
  assumes "ee_deps env = deps" "engine_start n env info e = Inr e'"
    and "I None (e\<lparr>en_state := (en_state e)\<lparr>cs_highest_qc := Some (genesis_qc (en_state e)), cs_current_view := 1\<rparr>\<rparr>)"
    and "cs_current_view (en_state e) \<le> 1"
  shows "I None e'"
proof -
  let ?st = "(en_state e)\<lparr>cs_highest_qc := Some (genesis_qc (en_state e)), cs_current_view := 1\<rparr>"
  obtain s where s: "enter_view deps 1 TriggerGenesis ((en_state e)\<lparr>cs_highest_qc := Some (genesis_qc (en_state e))\<rparr>) = Inr (s, [])"
    "voter s = voter ?st"
    by (simp add: enter_view_def Let_def voter_def)
  have i: "I None (e\<lparr>en_state := st, en_pacemaker := pm_reset_timer (ee_now env) (en_pacemaker e)\<rparr>)"
    if "voter st = voter s" for st
    by (rule quiet [OF assms(3)]) (use s(2) that in \<open>simp add: same_core_def pm_reset_timer_def\<close>)
  have swap: "e\<lparr>en_state := x, en_pacemaker := y, en_state := z\<rparr> = e\<lparr>en_state := z, en_pacemaker := y\<rparr>" for x y z by simp
  consider "e' = e\<lparr>en_state := s, en_pacemaker := pm_reset_timer (ee_now env) (en_pacemaker e)\<rparr>"
  | "try_propose (advance_view n env) env (e\<lparr>en_state := s\<lparr>cs_step := WaitingForStatus\<rparr>,
      en_pacemaker := pm_reset_timer (ee_now env) (en_pacemaker e)\<rparr>) = Inr e'"
    using assms(2,4) s(1)
    by (cases "cs_is_leader s") (simp_all add: engine_start_def enter_genesis_view_def assms(1) Let_def swap split: if_splits)
  then show ?thesis
  proof cases
    case 1
    with i [of s] show ?thesis by simp
  next
    case 2
    show ?thesis by (rule try_propose_keeps [OF i advance_view_ok [OF assms(1)] assms(1) 2]) (simp add: voter_def)
  qed
qed

theorem engine_run_keeps:
  assumes "ee_deps env = deps" "engine_run n env info evs e = Inr e'" "\<forall>ev \<in> set evs. \<forall>msg \<in> event_msgs ev. made_of blk hq hv msg"
    and "if cs_current_view (en_state e) \<le> 1
         then I None (e\<lparr>en_state := (en_state e)\<lparr>cs_highest_qc := Some (genesis_qc (en_state e)), cs_current_view := 1\<rparr>\<rparr>)
         else I None e"
  shows "I None e'"
proof -
  from assms(2) obtain e1 where e1: "engine_start n env info e = Inr e1" "run_events n env evs e1 = Inr e'"
    by (auto simp: engine_run_def rbind_Inr)
  have "I None e1"
  proof (cases "cs_current_view (en_state e) \<le> 1")
    case True
    with start_keeps [OF assms(1) e1(1)] assms(4) show ?thesis by simp
  next
    case False
    with e1(1) have "e1 = e\<lparr>en_pacemaker := pm_reset_timer (ee_now env) (en_pacemaker e)\<rparr>"
      by (auto simp: engine_start_def split: if_splits)
    with False assms(4) show ?thesis by (auto intro: quiet simp: core_simps pm_reset_timer_def)
  qed
  from run_keeps [OF this assms(3,1) e1(2)] show ?thesis .
qed

end

end
