(* ===== verification/Engine_Inv.thy ===== *)
theory Engine_Inv
  imports Engine_Rules
begin

text \<open>
  What every run of the engine keeps, whatever messages it receives and whatever the application
  does: views, locks and committed heights only grow, the votes waiting in the collector are not
  of later views, and the vote records, in memory and on disk, always cover the votes that were
  signed or sent.
\<close>

section \<open>Growth\<close>

definition grows :: "('a, 'w) Engine \<Rightarrow> ('a, 'w) Engine \<Rightarrow> bool" where
  "grows e0 e \<longleftrightarrow>
     cs_current_view (en_state e0) \<le> cs_current_view (en_state e) \<and>
     view_le (cs_locked_qc (en_state e0)) (cs_locked_qc (en_state e)) \<and>
     view_le (cs_highest_qc (en_state e0)) (cs_highest_qc (en_state e)) \<and>
     cs_last_committed_height (en_state e0) \<le> cs_last_committed_height (en_state e) \<and>
     (\<exists>new. en_log e = en_log e0 @ new)"

lemma commit_blocks_height:
  "\<lbrakk> commit_blocks app bs acc = res; h \<le> ca_height acc; \<forall>b \<in> set bs. h \<le> b_height b \<rbrakk>
     \<Longrightarrow> case res of Inl (e, acc') \<Rightarrow> h \<le> ca_height acc' | Inr acc' \<Rightarrow> h \<le> ca_height acc'"
proof (induction bs arbitrary: acc res)
  case (Cons b bs)
  show ?case
  proof (cases "commit_one app b acc")
    case (Inl x)
    then obtain e acc' where x: "x = (e, acc')" by (cases x)
    with Inl have "ca_height acc' = ca_height acc"
      by (auto simp: commit_one_def Let_def activate_pending_def split: sum.splits prod.splits option.splits if_splits)
    with Cons.prems Inl x show ?thesis by auto
  next
    case (Inr acc1)
    with Cons.prems Cons.IH [of acc1 res] commit_one_Inr(1) [OF Inr] show ?thesis by simp
  qed
qed auto

lemma try_commit_height:
  assumes "try_commit app get by_height dc cur prev pend h a = (h', a', r)"
  shows "h \<le> h'"
proof (cases rule: try_commit_cases [of get dc app by_height cur prev pend h a])
  case (chain p bs)
  have "h \<le> b_height b" if "b \<in> set bs" for b
  proof -
    from that obtain i where "i < length bs" "b = bs ! i" by (auto simp: in_set_conv_nth)
    with links_height [OF chain(2)] chain(4) show ?thesis by (auto simp: committed_at_def word_le_nat_alt)
  qed
  with commit_blocks_height [of app bs "initial_acc cur prev pend h a" _ h] try_commit_chain [OF chain, of app cur prev pend a] assms
  show ?thesis by (auto simp: initial_acc_def split: sum.splits prod.splits)
qed (use assms in simp_all)

section \<open>Vote records\<close>

text \<open>A record excludes every vote of the view of a vote that contradicts it.\<close>

definition covers :: "(ViewNumber \<times> BlockHash) option \<Rightarrow> Vote \<Rightarrow> bool" where
  "covers x vote \<longleftrightarrow>
     (\<exists>v h. x = Some (v, h) \<and> (v_view vote < v \<or> v_view vote = v \<and> v_block_hash vote = h))"

text \<open>What a log entry reveals of a vote, and that the durable state at that moment covers it.\<close>

definition reveals :: "effect \<Rightarrow> Vote \<Rightarrow> bool" where
  "reveals eff vote \<longleftrightarrow> eff = SignVote vote \<or> vote_sent eff = Some vote"

definition revealed :: "(effect \<times> ConsensusState \<times> PersistentConsensusState option) list \<Rightarrow> Vote set" where
  "revealed log = {vote. \<exists>x \<in> set log. reveals (fst x) vote}"

text \<open>At every entry of a log the durable state covers all votes revealed up to it.\<close>

definition durable_log :: "(effect \<times> ConsensusState \<times> PersistentConsensusState option) list \<Rightarrow> bool" where
  "durable_log log \<longleftrightarrow>
     (\<forall>k < length log. \<forall>p. snd (snd (log ! k)) = Some p \<longrightarrow>
        (\<forall>vote \<in> revealed (take (Suc k) log). covers (load_last_vote (v_vote_type vote) p) vote))"

definition records_ok :: "('a, 'w) Engine \<Rightarrow> bool" where
  "records_ok e \<longleftrightarrow>
     revealed (en_log e) \<subseteq> signed_votes e \<and>
     (\<forall>vote \<in> signed_votes e. covers (vote_slot (v_vote_type vote) (en_state e)) vote \<and>
        v_view vote \<le> cs_current_view (en_state e)) \<and>
     (\<forall>vote \<in> signed_votes e. \<forall>p. en_persistence e = Some p \<longrightarrow> covers (load_last_vote (v_vote_type vote) p) vote) \<and>
     durable_log (en_log e)"

lemma revealed_append [simp]: "revealed (xs @ ys) = revealed xs \<union> revealed ys" "revealed [] = {}"
  by (auto simp: revealed_def)

lemma durable_log_append:
  "durable_log (log @ [x]) \<longleftrightarrow> durable_log log \<and>
     (\<forall>p. snd (snd x) = Some p \<longrightarrow>
        (\<forall>vote \<in> revealed (log @ [x]). covers (load_last_vote (v_vote_type vote) p) vote))"
  unfolding durable_log_def
  by (auto simp: less_Suc_eq nth_append)

lemma covers_trans:
  "\<lbrakk> covers x vote; slot_admits x v h \<rbrakk> \<Longrightarrow> covers (Some (v, h)) vote"
  by (auto simp: covers_def slot_admits_def)

lemma load_after_save [simp]:
  "load_last_vote t (save_last_vote t' v h p) = (if t = t' then Some (v, h) else load_last_vote t p)"
  by (cases t; cases t'; simp add: load_defs save_defs)

lemma load_vote_persist [simp]: "load_last_vote t (persist s prev pend p) = load_last_vote t p"
  by (cases t) (simp_all add: saved_loads persist_saved)

lemma perform_log:
  "\<not> vote_effect eff \<Longrightarrow> perform eff e = e\<lparr>en_log := en_log e @ [(eff, en_state e, en_persistence e)]\<rparr>"
  by (cases eff) (simp_all add: perform_def)

lemma sign_vote_unfold:
  "sign_vote deps t h ext e =
     (let p = map_option (save_last_vote t (cs_current_view (en_state e)) h) (en_persistence e)
      in e\<lparr>en_persistence := p, en_log := en_log e @ [(SignVote (make_vote deps (en_state e) h t ext), en_state e, p)]\<rparr>)"
  by (simp add: sign_vote_def perform_def Let_def)

lemma signed_votes_append:
  "signed_votes (e\<lparr>en_log := en_log e @ [(eff, st, p)]\<rparr>) =
     (case eff of SignVote vote \<Rightarrow> insert vote (signed_votes e) | _ \<Rightarrow> signed_votes e)"
  by (auto simp: signed_votes_def split: effect.splits)

lemma records_ok_emit:
  assumes "records_ok e" "\<not> vote_effect eff" "\<forall>vote. vote_sent eff = Some vote \<longrightarrow> vote \<in> signed_votes e"
  shows "records_ok (perform eff e)"
proof -
  let ?x = "(eff, en_state e, en_persistence e)"
  have e: "perform eff e = e\<lparr>en_log := en_log e @ [?x]\<rparr>" using assms(2) by (rule perform_log)
  have sv: "signed_votes (perform eff e) = signed_votes e"
    using assms(2) by (auto simp: e signed_votes_append split: effect.splits)
  have r: "revealed (en_log e @ [?x]) \<subseteq> signed_votes e"
    using assms by (auto simp: records_ok_def revealed_def reveals_def)
  then have "durable_log (en_log e @ [?x])"
    using assms(1) by (auto simp: records_ok_def durable_log_append)
  with r assms(1) show ?thesis unfolding records_ok_def sv by (simp add: e)
qed

text \<open>A granted vote is saved and signed.\<close>

lemma records_ok_sign:
  assumes "records_ok e" "check_and_record_vote t (cs_current_view (en_state e)) h (en_state e) = (s, True)"
  shows "records_ok (sign_vote deps t h ext (e\<lparr>en_state := s\<rparr>))"
proof -
  let ?v = "cs_current_view (en_state e)" and ?vote = "make_vote deps s h t ext"
  let ?e = "sign_vote deps t h ext (e\<lparr>en_state := s\<rparr>)"
  from assms(2) have g: "slot_admits (vote_slot t (en_state e)) ?v h" "s = set_vote_slot t (Some (?v, h)) (en_state e)"
    by (auto simp: check_and_record_vote_spec split: if_splits)
  have f: "v_view ?vote = ?v" "v_block_hash ?vote = h" "v_vote_type ?vote = t" using g(2) by simp_all
  have sv: "signed_votes ?e = insert ?vote (signed_votes e)"
    by (auto simp: sign_vote_unfold signed_votes_def Let_def)
  have new: "covers (Some (?v, h)) vote" if "vote \<in> signed_votes ?e" "v_vote_type vote = t" for vote
  proof (cases "vote = ?vote")
    case True
    with f show ?thesis by (simp add: covers_def)
  next
    case False
    with that assms(1) have "covers (vote_slot t (en_state e)) vote" by (auto simp: sv records_ok_def)
    then show ?thesis using g(1) by (rule covers_trans)
  qed
  have old: "v_view vote \<le> ?v \<and> covers (vote_slot (v_vote_type vote) (en_state e)) vote \<and>
      (\<forall>p. en_persistence e = Some p \<longrightarrow> covers (load_last_vote (v_vote_type vote) p) vote)"
    if "vote \<in> signed_votes ?e" "v_vote_type vote \<noteq> t" for vote
    using that assms(1) f by (auto simp: sv records_ok_def)
  have le: "v_view vote \<le> ?v" if "vote \<in> signed_votes ?e" for vote
    using that assms(1) f by (auto simp: sv records_ok_def)
  have log: "en_log ?e = en_log e @ [(SignVote ?vote, s, map_option (save_last_vote t ?v h) (en_persistence e))]"
    and st: "en_state ?e = s" and ps: "en_persistence ?e = map_option (save_last_vote t ?v h) (en_persistence e)"
    using g(2) by (simp_all add: sign_vote_unfold Let_def)
  have "covers (vote_slot (v_vote_type vote) s) vote \<and> v_view vote \<le> cs_current_view s" if "vote \<in> signed_votes ?e" for vote
    using that new old le g(2) by (cases "v_vote_type vote = t") auto
  moreover have cp: "covers (load_last_vote (v_vote_type vote) p) vote"
    if "vote \<in> signed_votes ?e" "en_persistence ?e = Some p" for vote p
    using that new old ps by (cases "v_vote_type vote = t") auto
  moreover have r: "revealed (en_log ?e) \<subseteq> signed_votes ?e"
    using assms(1) unfolding log sv by (auto simp: records_ok_def revealed_def reveals_def)
  moreover have "durable_log (en_log ?e)"
    using assms(1) cp r unfolding log durable_log_append ps [symmetric] by (auto simp: records_ok_def)
  ultimately show ?thesis unfolding records_ok_def st by auto
qed

section \<open>Votes and wishes kept\<close>

text \<open>
  The collector holds votes of the current view only, and the pacemaker wishes for at most three
  views: the current one, the next, and one left over from a view that was skipped.
\<close>

definition collectors_ok :: "('a, 'w) Engine \<Rightarrow> bool" where
  "collectors_ok e \<longleftrightarrow>
     (\<forall>(key, votes) \<in> set (vc_votes (en_vote_collector e)). fst (snd key) = cs_current_view (en_state e)) \<and>
     (\<exists>x \<le> cs_current_view (en_state e). \<forall>u. pm_wishes (en_pacemaker e) u \<noteq> None \<longrightarrow>
        u \<in> {x, cs_current_view (en_state e), saturating_add (cs_current_view (en_state e)) 1})"

lemma add_vote_keys:
  assumes "add_vote vs vote epoch c = (c', r)" "(key, votes) \<in> set (vc_votes c')"
  shows "fst (snd key) = v_view vote \<or> key \<in> fst ` set (vc_votes c)"
proof -
  have "(key, votes) \<in> set (AList.update (epoch, v_view vote, v_block_hash vote, v_vote_type vote) x (vc_votes c)) \<Longrightarrow>
      fst (snd key) = v_view vote \<or> key \<in> fst ` set (vc_votes c)" for x
    by (drule set_AList_update) force
  moreover have "key \<in> fst ` set (vc_votes c)" if "c' = c" using assms(2) that by force
  ultimately show ?thesis
    using assms by (auto simp: add_vote_def set_bucket_def Let_def split: if_splits sum.splits)
qed

lemma add_wish_views:
  "add_wish vs target i hqc sg pm = (pm', res) \<Longrightarrow> pm_wishes pm' u \<noteq> None \<Longrightarrow> u = target \<or> pm_wishes pm u \<noteq> None"
  by (auto simp: add_wish_def Let_def split: if_splits option.splits prod.splits)

lemma saturating_add_1_less: "v < w \<Longrightarrow> saturating_add v 1 \<le> (w :: u64)"
proof -
  assume "v < w"
  then have "unat v < unat w" "unat w < 2 ^ 64" by (simp_all add: word_less_nat_alt)
  then have "unat v + 1 < 2 ^ 64" by linarith
  with \<open>v < w\<close> show ?thesis by (simp add: saturating_add_def inc_le)
qed

lemma collectors_enter:
  assumes "collectors_ok e" "cleared e" "cs_current_view (en_state e) < v"
  shows "collectors_ok (e\<lparr>en_state := (en_state e)\<lparr>cs_current_view := v\<rparr>\<rparr>)"
proof -
  let ?cv = "cs_current_view (en_state e)"
  from assms(1) obtain x where x: "x \<le> ?cv" "\<forall>u. pm_wishes (en_pacemaker e) u \<noteq> None \<longrightarrow> u \<in> {x, ?cv, saturating_add ?cv 1}"
    unfolding collectors_ok_def by blast
  have v: "vc_votes (en_vote_collector e) = []"
    using assms(1,2) by (cases "vc_votes (en_vote_collector e)") (auto simp: collectors_ok_def cleared_def)
  have "u = saturating_add ?cv 1" if "pm_wishes (en_pacemaker e) u \<noteq> None" for u
  proof -
    have "?cv < u" using assms(2) that unfolding cleared_def by blast
    with x that show ?thesis by (metis insertE less_irrefl not_le singletonD)
  qed
  with saturating_add_1_less [OF assms(3)]
  have "\<exists>z \<le> v. \<forall>u. pm_wishes (en_pacemaker e) u \<noteq> None \<longrightarrow> u \<in> {z, v, saturating_add v 1}" by blast
  with v show ?thesis by (simp add: collectors_ok_def)
qed

section \<open>Every run keeps them\<close>

definition run_inv :: "('a, 'w) Engine \<Rightarrow> CommitResult option \<Rightarrow> ('a, 'w) Engine \<Rightarrow> bool" where
  "run_inv e0 r e \<longleftrightarrow> grows e0 e \<and>
     (records_ok e0 \<longrightarrow> records_ok e) \<and> (collectors_ok e0 \<longrightarrow> collectors_ok e)"

lemma run_inv_core:
  assumes "run_inv e0 r e" "same_core e e'"
  shows "run_inv e0 r' e'"
proof -
  note c = assms(2) [unfolded core_simps, simplified]
  have slot: "vote_slot t (en_state e') = vote_slot t (en_state e)" for t
    using c by (cases t) (simp_all add: vote_slot_def)
  have sv: "signed_votes e' = signed_votes e" using c by (simp add: signed_votes_def)
  from c have "grows e0 e' = grows e0 e" "records_ok e' = records_ok e" "collectors_ok e' = collectors_ok e"
    by (simp_all add: grows_def records_ok_def collectors_ok_def slot sv)
  with assms(1) show ?thesis by (simp add: run_inv_def)
qed

text \<open>Changes of the certificate slots, the height and the other parts no record depends on.\<close>

lemma records_ok_upd:
  assumes "records_ok e" "cs_current_view (en_state e) \<le> cs_current_view (en_state e')"
    and "cs_last_vote1 (en_state e') = cs_last_vote1 (en_state e)" "cs_last_vote2 (en_state e') = cs_last_vote2 (en_state e)"
    and "en_log e' = en_log e"
    and "en_persistence e' = en_persistence e \<or> (\<exists>st pr pe. en_persistence e' = map_option (persist st pr pe) (en_persistence e))"
  shows "records_ok e'"
proof -
  have slot: "vote_slot t (en_state e') = vote_slot t (en_state e)" for t
    using assms(3,4) by (simp add: vote_slot_def split: VoteType.splits)
  have sv: "signed_votes e' = signed_votes e" using assms(5) by (simp add: signed_votes_def)
  have "covers (vote_slot (v_vote_type vote) (en_state e')) vote \<and> v_view vote \<le> cs_current_view (en_state e')"
    if "vote \<in> signed_votes e" for vote
    using assms(1) that order_trans [OF _ assms(2)] unfolding records_ok_def slot by blast
  moreover have "covers (load_last_vote (v_vote_type vote) p) vote" if "vote \<in> signed_votes e" "en_persistence e' = Some p" for vote p
  proof -
    from assms(6) that(2) obtain q where q: "en_persistence e = Some q" "load_last_vote t p = load_last_vote t q" for t
      by (elim disjE exE) auto
    with assms(1) that(1) show ?thesis unfolding records_ok_def by simp
  qed
  ultimately show ?thesis
    using assms(1) unfolding records_ok_def sv assms(5) by simp
qed

lemma collectors_ok_upd:
  assumes "collectors_ok e" "cs_current_view (en_state e') = cs_current_view (en_state e)"
    and "set (vc_votes (en_vote_collector e')) \<subseteq> set (vc_votes (en_vote_collector e))"
    and "\<And>u. pm_wishes (en_pacemaker e') u \<noteq> None \<Longrightarrow> pm_wishes (en_pacemaker e) u \<noteq> None"
  shows "collectors_ok e'"
  using assms(1,3,4) unfolding collectors_ok_def assms(2) by blast

lemma run_inv_upd:
  assumes "run_inv e0 r e"
    and "cs_current_view (en_state e') = cs_current_view (en_state e)"
    and "view_le (cs_locked_qc (en_state e)) (cs_locked_qc (en_state e'))"
    and "view_le (cs_highest_qc (en_state e)) (cs_highest_qc (en_state e'))"
    and "cs_last_committed_height (en_state e) \<le> cs_last_committed_height (en_state e')"
    and "cs_last_vote1 (en_state e') = cs_last_vote1 (en_state e)" "cs_last_vote2 (en_state e') = cs_last_vote2 (en_state e)"
    and "en_log e' = en_log e"
    and "en_persistence e' = en_persistence e \<or> (\<exists>st pr pe. en_persistence e' = map_option (persist st pr pe) (en_persistence e))"
    and "set (vc_votes (en_vote_collector e')) \<subseteq> set (vc_votes (en_vote_collector e))"
    and "\<And>u. pm_wishes (en_pacemaker e') u \<noteq> None \<Longrightarrow> pm_wishes (en_pacemaker e) u \<noteq> None"
  shows "run_inv e0 r' e'"
proof -
  have "grows e0 e'"
    using assms(1) view_le_trans [OF _ assms(3)] view_le_trans [OF _ assms(4)] order_trans [OF _ assms(5)]
    unfolding run_inv_def grows_def assms(2,8) by blast
  moreover have "records_ok e \<Longrightarrow> records_ok e'"
    using assms(2) by (intro records_ok_upd [OF _ _ assms(6-9)]) simp_all
  moreover have "collectors_ok e \<Longrightarrow> collectors_ok e'"
    using collectors_ok_upd [OF _ assms(2,10,11)] by blast
  ultimately show ?thesis using assms(1) by (simp add: run_inv_def)
qed

lemma run_inv_emit:
  assumes "run_inv e0 r e" "\<not> vote_effect eff" "\<forall>vote. vote_sent eff = Some vote \<longrightarrow> vote \<in> signed_votes e"
  shows "run_inv e0 r (perform eff e)"
  using assms records_ok_emit [OF _ assms(2,3)]
  by (auto simp: run_inv_def grows_def collectors_ok_def perform_log)

lemma run_inv_sign:
  assumes "run_inv e0 r e" "check_and_record_vote t (cs_current_view (en_state e)) h (en_state e) = (s, True)"
  shows "run_inv e0 r (sign_vote deps t h ext (e\<lparr>en_state := s\<rparr>))"
proof -
  from assms(2) have s: "s = set_vote_slot t (Some (cs_current_view (en_state e), h)) (en_state e)"
    by (auto simp: check_and_record_vote_spec split: if_splits)
  have "cs_last_committed_height s = cs_last_committed_height (en_state e)"
    unfolding s by (cases t) (simp_all add: set_vote_slot_def)
  with assms records_ok_sign [OF _ assms(2), of deps ext] show ?thesis
    by (auto simp: run_inv_def grows_def collectors_ok_def sign_vote_unfold Let_def s)
qed

lemma run_inv_epoch:
  assumes "run_inv e0 r e"
  shows "run_inv e0 r (epoch_transition env v e)"
proof -
  have "run_inv e0 r ((perform (EpochChange (ep_number ep) (ep_validator_set ep)) (switch_epoch env ep e))\<lparr>
      en_vote_collector := vc_new, en_pacemaker := pm_with_config now config\<rparr>)" for ep now config
  proof -
    have "run_inv e0 r (switch_epoch env ep e)" by (rule run_inv_upd [OF assms]) (simp_all add: switch_epoch_def)
    then have "run_inv e0 r (perform (EpochChange (ep_number ep) (ep_validator_set ep)) (switch_epoch env ep e))"
      by (rule run_inv_emit) simp_all
    then show ?thesis by (rule run_inv_upd) (simp_all add: vc_new_def pm_with_config_def Let_def)
  qed
  with assms show ?thesis by (simp add: epoch_transition_unfold split: option.split)
qed

lemma collector_irrelevant [simp]:
  "grows e0 (e\<lparr>en_vote_collector := c\<rparr>) = grows e0 e" "records_ok (e\<lparr>en_vote_collector := c\<rparr>) = records_ok e"
  "grows e0 (e\<lparr>en_pacemaker := pm\<rparr>) = grows e0 e" "records_ok (e\<lparr>en_pacemaker := pm\<rparr>) = records_ok e"
  by (simp_all add: grows_def records_ok_def signed_votes_def)

interpretation run: engine_rules deps "run_inv e0" "\<lambda>_ _ _ _. True" "\<lambda>_ _. True" "\<lambda>_ _. True" "\<lambda>_. True" "\<lambda>_. True" "\<lambda>_. True"
    "\<lambda>_ _ _ _ _. True"
  for deps :: "'a ViewDeps" and e0 :: "('a, 'w) Engine"
proof (unfold_locales, goal_cases)
  case (19 r e vote c res)
  note add_vote_keys [OF 19(4)]
  with 19(3) have "collectors_ok e \<Longrightarrow> collectors_ok (e\<lparr>en_vote_collector := c\<rparr>)"
    by (fastforce simp: collectors_ok_def)
  with 19(1) show ?case by (auto simp: run_inv_def)
next
  case (22 r e qc s ext)
  from run_inv_sign [OF 22(1,5)] have i: "run_inv e0 r (sign_vote deps Vote2 (qc_block_hash qc) ext (e\<lparr>en_state := s\<rparr>))" .
  show ?case
    by (rule run_inv_upd [OF i]) (simp_all add: sign_vote_def update_locked_qc_mono, simp add: update_locked_qc_def)
next
  case (26 e now_ms evs s store a out b)
  from propose_block [OF 26(2)] obtain m where o: "out = [Broadcast m]" "vote_sent (Broadcast m) = None"
    "s = (en_state e)\<lparr>cs_pending_vote_extensions := [], cs_step := CollectingVotes\<rparr>" by (metis vote_sent.simps)
  have "run_inv e0 None (e\<lparr>en_state := s, en_store := store, en_app := a\<rparr>)"
    by (rule run_inv_upd [OF 26(1)]) (simp_all add: o(3))
  then have "run_inv e0 None (perform (Broadcast m) (e\<lparr>en_state := s, en_store := store, en_app := a\<rparr>))"
    by (rule run_inv_emit) (simp_all add: o(2))
  with o(1) show ?case by simp
next
  case (29 cr e env)
  show ?case
    by (rule run_inv_upd [OF 29(1)])
       (auto simp: process_commit_effect [OF 29(3)] adopt_commit_state split: option.split)
next
  case (3 r e)
  show ?case by (rule run_inv_upd [OF 3]) (auto simp: persist_state_def)
next
  case (14 r e qc)
  show ?case by (rule run_inv_upd [OF 14(1)]) (simp_all add: update_highest_qc_mono, simp add: update_highest_qc_def)
next
  case (15 r e q)
  show ?case by (rule run_inv_upd [OF 15(1)]) simp_all
next
  case (16 r e qc)
  have "cs_last_committed_height (update_highest_qc qc (update_locked_qc qc (en_state e))) = cs_last_committed_height (en_state e)"
    by (simp add: update_highest_qc_def update_locked_qc_def)
  then show ?case
    by (intro run_inv_upd [OF 16(1)])
       (use update_highest_qc_mono(1) [of "update_locked_qc qc (en_state e)" qc] in \<open>simp_all add: update_locked_qc_mono\<close>)
next
  case (20 r e hqc target i sg pm made)
  let ?cv = "cs_current_view (en_state e)"
  have "unat target \<le> 18446744073709551615" using unat_u64_less [of target] by linarith
  then have "target \<in> {?cv, saturating_add ?cv 1}"
    using 20(3,4) by (auto simp: saturating_add_def word_le_nat_alt unat_word_ariths word_unat_eq_iff split: if_splits)
  then have "collectors_ok (e\<lparr>en_pacemaker := pm\<rparr>)" if "collectors_ok e"
    using that add_wish_views [OF 20(5)] by (simp add: collectors_ok_def) (metis insertI1 insertI2 insertE singletonD)
  with 20(1) show ?case by (auto simp: run_inv_def)
next
  case (23 e b)
  show ?case by (rule run_inv_upd [OF 23(1)]) simp_all
next
  case (24 e qc b)
  show ?case by (rule run_inv_upd [OF 24(1)]) simp_all
next
  case (25 e b qc now_ms)
  have "cs_last_committed_height (update_highest_qc qc (en_state e)) = cs_last_committed_height (en_state e)"
    by (simp add: update_highest_qc_def)
  then have "run_inv e0 None (e\<lparr>en_store := put_block b (en_store e), en_state := update_highest_qc qc (en_state e)\<rparr>)"
    by (intro run_inv_upd [OF 25(1)]) (simp_all add: update_highest_qc_mono)
  then show ?case by simp
next
  case (27 e outer exts dc ht a cr)
  show ?case by (rule run_inv_upd [OF 27(1)]) (simp_all add: try_commit_height [OF 27(4)])
next
  case (28 e outer exts dc ht a err)
  show ?case by (rule run_inv_upd [OF 28(1)]) (simp_all add: try_commit_height [OF 28(4)])
next
  case (30 e)
  show ?case
    by (rule run_inv_upd [OF 30])
       (auto simp: clear_old_view_def vc_prune_before_def vc_clear_view_def pm_clear_view_def pm_prune_before_def Let_def
         split: if_splits)
next
  case (32 e v)
  let ?e = "e\<lparr>en_state := (en_state e)\<lparr>cs_current_view := v\<rparr>\<rparr>"
  have "records_ok e \<Longrightarrow> records_ok ?e" using 32(3) by (elim records_ok_upd) (auto intro: disjI1)
  with 32 collectors_enter [of e v] show ?case by (auto simp: run_inv_def grows_def)
qed (auto intro: run_inv_core run_inv_emit run_inv_sign run_inv_epoch)

section \<open>Nesting\<close>

text \<open>
  The first vote in an empty collector completes nothing, unless its validator has a quorum alone;
  then proposing does not advance the view.
\<close>

lemma add_vote_alone:
  assumes "vs_wf vs" "power_of vs (v_validator vote) < quorum_threshold vs" "vc_votes c = []"
    and "add_vote vs vote epoch c = (c', Inr r)"
  shows "vr_qc r = None"
proof -
  have wf: "vc_wf (\<lambda>_. vs) c" and b: "bucket c k = []" for k
    using assms(3) by (simp_all add: vc_wf_def bucket_def)
  show ?thesis
  proof (cases rule: add_vote_Inr_cases [of "\<lambda>_. vs", OF assms(1) wf assms(4)])
    case (2 agg)
    from 2(4) obtain v where v: "get_validator vs (v_validator vote) = Some v" by auto
    have "set (signer_infos vs agg) = {u \<in> set (vs_validators vs). vi_id u \<in> v_validator ` set [vote]}"
      by (rule signer_infos_of_votes [OF assms(1) 2(8)]) (use 2(9) b in simp)
    also have "\<dots> = {v}" using v get_validator_Some [OF assms(1)] by (auto, metis option.inject)
    finally have "set_power (set (signer_infos vs agg)) = unat (vi_power v)" by (simp add: set_power_def)
    with v assms(2) have "\<not> has_quorum vs agg"
      by (simp add: has_quorum_set [OF assms(1)] power_of_def word_less_nat_alt)
    with 2(10) show ?thesis by simp
  qed
qed

lemma self_vote_alone:
  assumes "vs_wf (cs_validator_set (en_state e))" "vc_votes (en_vote_collector e) = []"
    and "power_of (cs_validator_set (en_state e)) (cs_validator_id (en_state e)) < quorum_threshold (cs_validator_set (en_state e))"
  shows "\<exists>x. \<forall>adv. leader_self_vote adv env h e = Inr x"
proof -
  obtain s may where g: "check_and_record_vote Vote (cs_current_view (en_state e)) h (en_state e) = (s, may)" by fastforce
  have s: "cs_validator_set s = cs_validator_set (en_state e)" "cs_validator_id s = cs_validator_id (en_state e)"
    using g by (auto simp: check_and_record_vote_spec split: if_splits)
  have "\<exists>y. \<forall>f. collect_own_vote (make_vote d s h Vote None) f x = Inr y"
    if "en_state x = s" "en_vote_collector x = en_vote_collector e" for d x
  proof -
    obtain c res where a: "add_vote (cs_validator_set s) (make_vote d s h Vote None) (ep_number (cs_current_epoch s))
        (en_vote_collector e) = (c, res)" by fastforce
    have "vr_qc result = None" if "res = Inr result" for result
      by (rule add_vote_alone [OF _ _ _ a [unfolded that]]) (use assms s in simp_all)
    with a that show ?thesis by (cases res) (simp_all add: collect_own_vote_def)
  qed
  note alone = this
  show ?thesis
    unfolding leader_self_vote_def g Let_def prod.case
    using alone [of "perform (SignVote (make_vote (ee_deps env) s h Vote None))
      (perform (SaveLastVote Vote (cs_current_view s) h) (e\<lparr>en_state := s\<rparr>))" "ee_deps env"]
    by (cases may) auto
qed

definition engine_proposal :: "('a, 'w) EngineEnv \<Rightarrow> ('a, 'w) Engine \<Rightarrow> Block option" where
  "engine_proposal env e =
     next_proposal (ee_deps env) (ee_now_ms env) (case en_evidence_store e of None \<Rightarrow> [] | Some s \<Rightarrow> pe_get_pending s)
       \<lparr> ec_previous_epoch = en_previous_epoch e, ec_in_flight_pending = None \<rparr>
       (en_state e) (en_store e) (en_app e)"

lemma try_propose_alone:
  assumes "vs_wf (cs_validator_set (en_state e))" "vc_votes (en_vote_collector e) = []"
    and "power_of (cs_validator_set (en_state e)) (cs_validator_id (en_state e)) < quorum_threshold (cs_validator_set (en_state e))"
    and "hash_ranked rank (en_store e)" "\<And>b. engine_proposal env e = Some b \<Longrightarrow> hash_fresh (en_store e) b"
  shows "\<exists>res. (\<forall>x. res = Inl x \<longrightarrow> x = Panic) \<and> (\<forall>adv. try_propose adv env e = res)"
proof -
  define evs where "evs = (case en_evidence_store e of None \<Rightarrow> [] | Some s \<Rightarrow> pe_get_pending s)"
  obtain s store a out res where p: "propose (ee_deps env) (ee_now_ms env) evs
      \<lparr> ec_previous_epoch = en_previous_epoch e, ec_in_flight_pending = None \<rparr>
      (en_state e) (en_store e) (en_app e) = (s, store, a, out, res)" using prod_cases5 by blast
  note eq = try_propose_def [of _ env e, folded evs_def, unfolded Let_def p prod.case]
  have "res \<noteq> Inl AncestorLoop"
    by (rule propose_returns [OF p assms(4)]) (use assms(5) in \<open>simp add: engine_proposal_def evs_def\<close>)
  then show ?thesis
  proof (cases res)
    case (Inl err)
    with \<open>res \<noteq> Inl AncestorLoop\<close> show ?thesis unfolding eq by (cases err) auto
  next
    case (Inr b)
    let ?e = "perform_all out (e\<lparr>en_state := s, en_store := store, en_app := a\<rparr>)"
    from propose_block [OF p [unfolded Inr]] have s: "s = (en_state e)\<lparr>cs_pending_vote_extensions := [], cs_step := CollectingVotes\<rparr>"
      by metis
    have "\<exists>x. \<forall>adv. leader_self_vote adv env (b_hash b) ?e = Inr x"
      by (rule self_vote_alone) (use assms s in simp_all)
    with Inr show ?thesis unfolding eq by auto
  qed
qed

lemma enter_new_view_empties:
  assumes "collectors_ok e" "enter_new_view env v trigger e = Inr e'"
  shows "vc_votes (en_vote_collector e') = []"
proof -
  define e1 where "e1 = e\<lparr>en_state := (en_state e)\<lparr>cs_pending_vote_extensions := trigger_extensions trigger e\<rparr>\<rparr>"
  have "vc_votes (en_vote_collector (clear_old_view e1)) = []"
    using assms(1)
    by (auto simp: e1_def clear_old_view_def collectors_ok_def vc_prune_before_def vc_clear_view_def Let_def filter_empty_conv)
  then have x: "vc_votes (en_vote_collector (epoch_transition env v (clear_old_view e1))) = []"
    by (simp add: epoch_transition_unfold vc_new_def split: option.split)
  with assms(2) show ?thesis
    by (auto simp: enter_new_view_def e1_def [symmetric] persist_state_def Let_def split: sum.splits prod.splits)
qed

lemma enter_new_view_store [simp]:
  assumes "enter_new_view env v trigger e = Inr e'"
  shows "en_store e' = en_store e"
proof -
  have "en_store (epoch_transition env v (clear_old_view x)) = en_store x" for x
    by (simp add: epoch_transition_def clear_old_view_def Let_def split: option.split)
  with assms show ?thesis
    by (auto simp: enter_new_view_def persist_state_def Let_def split: sum.splits prod.splits)
qed

section \<open>A concrete run\<close>

text \<open>Validator 2 leads view 1 of the sample set: it starts, proposes and votes for its block.\<close>

definition sample_env :: "(nat, unit) EngineEnv" where
  "sample_env = \<lparr> ee_deps = sample_deps, ee_wal = \<lparr> wo_intent = (\<lambda>h w. Some w), wo_done = (\<lambda>h w. w) \<rparr>,
     ee_f64_scale = (\<lambda>base n. of_nat base), ee_now = 0, ee_now_ms = 5 \<rparr>"

definition sample_engine :: "(nat, unit) Engine" where
  "sample_engine = engine_new (with_chain_id (\<lambda>m. hash_rep 9) 2 sample_set []) vb_new 0 0 None (Some pcs_new) None None None None"

definition sample_leader :: ConsensusState where
  "sample_leader = (with_chain_id (\<lambda>m. hash_rep 9) 2 sample_set [])
     \<lparr>cs_highest_qc := Some (genesis_qc (sample_state 2)), cs_current_view := 1, cs_step := WaitingForStatus, cs_role := Leader\<rparr>"

definition sample_own_vote :: Vote where
  "sample_own_vote = make_vote sample_deps (sample_state 2) (hash_rep 7) Vote None"

lemma sample_genesis:
  "enter_view sample_deps 1 TriggerGenesis ((with_chain_id (\<lambda>m. hash_rep 9) 2 sample_set [])
     \<lparr>cs_highest_qc := Some (genesis_qc (with_chain_id (\<lambda>m. hash_rep 9) 2 sample_set []))\<rparr>) = Inr (sample_leader, [])"
  by (simp add: enter_view_def sample_leader_def genesis_qc_def sample_defs is_leader_def leader_for_view_def validator_count_def Let_def)

lemma sample_leader_proposes:
  "propose sample_deps 5 [] \<lparr> ec_previous_epoch = None, ec_in_flight_pending = None \<rparr> sample_leader vb_new 0 =
     (sample_leader\<lparr>cs_step := CollectingVotes\<rparr>, put_block (pd_block sample_proposal) vb_new, 0,
      [Broadcast (Propose (pd_block sample_proposal) (genesis_qc (sample_state 2)) None [1] [])],
      Inr (pd_block sample_proposal))"
proof -
  have stop: "ancestor_walk store lim GENESIS_HASH [] = Some []" for store lim
    by (rule ancestor_walk_stop) simp
  have five: "max 5 (1 :: u64) = 5" by (simp add: max_def word_le_nat_alt)
  show ?thesis
    by (simp add: propose_def build_block_def sample_defs sample_leader_def genesis_qc_def vb_new_def get_block_def Let_def next_height_def checked_add_def
        compute_hash_def five put_block_def stop [unfolded GENESIS_HASH_def] GENESIS_HASH_def saturating_add_def)
qed

lemma sample_own_vote_added:
  "\<exists>c r. add_vote sample_set sample_own_vote 0 vc_new = (c, Inr r) \<and> vr_qc r = None \<and> vr_equivocation r = None"
proof -
  have f: "admissible sample_own_vote" "v_epoch sample_own_vote = 0" "v_validator sample_own_vote = 2"
    by (simp_all add: sample_own_vote_def sample_defs)
  have n: "v_validator sample_own_vote \<notin> v_validator ` set (bucket vc_new (key_of sample_own_vote))"
    by (simp add: bucket_def vc_new_def)
  have m: "get_validator sample_set (v_validator sample_own_vote) \<noteq> None" unfolding sample_members f(3) by simp
  obtain agg where a: "add_vote sample_set sample_own_vote (v_epoch sample_own_vote) vc_new =
      (set_bucket vc_new (key_of sample_own_vote) (bucket vc_new (key_of sample_own_vote) @ [sample_own_vote]),
       Inr (form_result sample_set (key_of sample_own_vote) agg
         (find_equivocation (v_epoch sample_own_vote) sample_own_vote (vc_votes vc_new))
         (bucket vc_new (key_of sample_own_vote) @ [sample_own_vote])))"
    using add_vote_fresh [OF sample_set_wf _ vc_wf_new f(1) n m, of "\<lambda>_. sample_set"] by auto
  have p: "power_of sample_set (v_validator sample_own_vote) < quorum_threshold sample_set"
    by (simp add: f(3) power_of_def get_validator_def sample_set_def sample_infos_def rebuild_index_def quorum_threshold_def)
  from add_vote_alone [OF sample_set_wf p _ a] a f(2) show ?thesis
    by (auto simp: vc_new_def form_result_def)
qed

lemma sample_run:
  "\<exists>e. engine_run 1 sample_env (0, GENESIS_HASH) [] sample_engine = Inr e \<and>
     map fst (en_log e) = [Broadcast (Propose (pd_block sample_proposal) (genesis_qc (sample_state 2)) None [1] []), SignVote sample_own_vote] \<and>
     snd (snd (en_log e ! 1)) = Some (save_last_vote Vote 1 (hash_rep 7) pcs_new)"
proof -
  obtain c r where a: "add_vote sample_set sample_own_vote 0 vc_new = (c, Inr r)" "vr_qc r = None" "vr_equivocation r = None"
    using sample_own_vote_added by blast
  have st: "cs_is_leader sample_leader" "sample_leader\<lparr>cs_step := WaitingForStatus\<rparr> = sample_leader"
    "cs_current_view sample_leader = 1" "vote_slot Vote sample_leader = None" "cs_validator_set sample_leader = sample_set"
    "ep_number (cs_current_epoch sample_leader) = 0" "b_hash (pd_block sample_proposal) = hash_rep 7"
    by (simp_all add: sample_leader_def cs_is_leader_def vote_slot_def with_chain_id_def epoch_genesis_def epoch_new_def sample_proposal_def)
  have v: "make_vote sample_deps (set_vote_slot Vote (Some (1, hash_rep 7)) (sample_leader\<lparr>cs_step := CollectingVotes\<rparr>)) (hash_rep 7) Vote None = sample_own_vote"
    by (simp add: sample_own_vote_def make_vote_def sample_leader_def sample_state_def with_chain_id_def set_vote_slot_def)
  have slot: "vote_slot Vote (sample_leader\<lparr>cs_step := CollectingVotes\<rparr>) = None" using st(4) by (simp add: vote_slot_def)
  have "cs_current_view (with_chain_id (\<lambda>m. hash_rep 9) 2 sample_set []) \<le> 1" by (simp add: with_chain_id_def)
  with sample_genesis sample_leader_proposes a st v slot show ?thesis
    by (simp add: engine_run_def engine_start_def sample_engine_def engine_new_def enter_genesis_view_def sample_env_def Let_def
        try_propose_def leader_self_vote_def check_and_record_vote_spec slot_admits_def perform_def collect_own_vote_def handle_equivocation_def)
qed

section \<open>Properties\<close>

text \<open>
  C2. No double vote across crashes. Take any run of the engine that starts with nothing sent, and any
  moment in it at which something left the engine. Whatever was on disk at that moment, if the node
  crashes then and restores its state from it, the double-sign guard grants no vote that contradicts
  a vote signed or sent up to that moment: for the phase and view of such a vote it admits only the
  same block.
\<close>

theorem votes_survive_crashes:
  assumes "engine_run n env info evs e0 = Inr e" "en_log e0 = []"
    and "k < length (en_log e)" "snd (snd (en_log e ! k)) = Some p"
    and "j \<le> k" "fst (en_log e ! j) = SignVote vote \<or> vote_sent (fst (en_log e ! j)) = Some vote"
    and "check_and_record_vote (v_vote_type vote) (v_view vote) h (restore_state blake3 i vs chain_id p) = (s, True)"
  shows "h = v_block_hash vote"
proof -
  let ?e = "if cs_current_view (en_state e0) \<le> 1
    then e0\<lparr>en_state := (en_state e0)\<lparr>cs_highest_qc := Some (genesis_qc (en_state e0)), cs_current_view := 1\<rparr>\<rparr> else e0"
  have "records_ok ?e" using assms(2) by (simp add: records_ok_def signed_votes_def durable_log_def)
  moreover have "run_inv ?e None e"
    by (rule run.engine_run_keeps [OF refl assms(1)]) (simp_all add: run_inv_def grows_def)
  ultimately have "durable_log (en_log e)" by (simp add: run_inv_def records_ok_def)
  moreover have "vote \<in> revealed (take (Suc k) (en_log e))"
  proof -
    have "take (Suc k) (en_log e) ! j = en_log e ! j" "j < length (take (Suc k) (en_log e))" using assms(3,5) by simp_all
    then have "en_log e ! j \<in> set (take (Suc k) (en_log e))" by (metis nth_mem)
    with assms(6) show ?thesis by (auto simp: revealed_def reveals_def)
  qed
  ultimately have "covers (load_last_vote (v_vote_type vote) p) vote" using assms(3,4) by (auto simp: durable_log_def)
  moreover have "vote_slot t (restore_state blake3 i vs chain_id p) = load_last_vote t p" for t
    by (cases t) (simp_all add: vote_slot_def restore_state_def Let_def)
  ultimately have "slot_admits (load_last_vote (v_vote_type vote) p) (v_view vote) h" "covers (load_last_vote (v_vote_type vote) p) vote"
    using assms(7) by (simp_all add: check_and_record_vote_spec split: if_splits)
  then show ?thesis by (auto simp: covers_def slot_admits_def)
qed

theorem votes_survive_crashes_witness:
  "\<exists>e p. engine_run 1 sample_env (0, GENESIS_HASH) [] sample_engine = Inr e \<and> snd (snd (en_log e ! 1)) = Some p \<and>
     check_and_record_vote Vote 1 (hash_rep 7) (restore_state (\<lambda>m. hash_rep 9) 2 sample_set [] p) =
       (restore_state (\<lambda>m. hash_rep 9) 2 sample_set [] p, True) \<and> hash_rep 7 = v_block_hash sample_own_vote"
proof -
  obtain e where e: "engine_run 1 sample_env (0, GENESIS_HASH) [] sample_engine = Inr e"
     "map fst (en_log e) = [Broadcast (Propose (pd_block sample_proposal) (genesis_qc (sample_state 2)) None [1] []), SignVote sample_own_vote]"
     "snd (snd (en_log e ! 1)) = Some (save_last_vote Vote 1 (hash_rep 7) pcs_new)"
    using sample_run by (elim exE conjE) (rule that)
  have l: "length (en_log e) = 2" using arg_cong [OF e(2), of length] by simp
  have "map fst (en_log e) ! 1 = SignVote sample_own_vote" unfolding e(2) by simp
  with l have s: "fst (en_log e ! 1) = SignVote sample_own_vote" by simp
  have v: "v_vote_type sample_own_vote = Vote" "v_view sample_own_vote = 1"
    by (simp_all add: sample_own_vote_def sample_state_def)
  let ?p = "save_last_vote Vote 1 (hash_rep 7) pcs_new"
  let ?s = "restore_state (\<lambda>m. hash_rep 9) 2 sample_set [] ?p"
  have g: "check_and_record_vote Vote 1 (hash_rep 7) ?s = (?s, True)"
    by (simp add: check_and_record_vote_def restore_state_def vote_slot_def Let_def)
  have "hash_rep 7 = v_block_hash sample_own_vote"
    by (rule votes_survive_crashes [OF e(1) _ _ e(3), of 1 sample_own_vote]) (use s g v l in \<open>simp_all add: sample_engine_def engine_new_def\<close>)
  with e(1,3) g show ?thesis by (intro exI [of _ e] exI [of _ ?p] conjI)
qed

text \<open>
  C3. Nothing goes back. Along any events the view, the views of the lock and of the highest
  certificate and the last committed height never decrease, and what was sent is not unsent.
\<close>

theorem engine_never_goes_back:
  assumes "run_events n env evs e = Inr e'"
  shows "cs_current_view (en_state e) \<le> cs_current_view (en_state e') \<and>
    view_le (cs_locked_qc (en_state e)) (cs_locked_qc (en_state e')) \<and>
    view_le (cs_highest_qc (en_state e)) (cs_highest_qc (en_state e')) \<and>
    cs_last_committed_height (en_state e) \<le> cs_last_committed_height (en_state e') \<and>
    (\<exists>new. en_log e' = en_log e @ new)"
proof -
  have "run_inv e None e'"
    by (rule run.run_keeps [OF _ _ refl assms]) (simp_all add: run_inv_def grows_def)
  then show ?thesis by (simp add: run_inv_def grows_def)
qed

lemma sample_power [simp]: "power_of sample_set 2 = 1" "quorum_threshold sample_set = 4"
  by (simp_all add: power_of_def get_validator_def sample_set_def sample_infos_def rebuild_index_def quorum_threshold_def)

lemma sample_timeout:
  "\<exists>e. run_events 1 sample_env [TimerFired 0 5] sample_engine = Inr e \<and> length (en_log e) = 1"
proof -
  let ?st = "with_chain_id (\<lambda>m. hash_rep 9) 2 sample_set []"
  have st: "cs_validator_set ?st = sample_set" "cs_validator_id ?st = 2" "next_view (cs_current_view ?st) = Some 1"
    by (simp_all add: with_chain_id_def next_view_def checked_add_def)
  have w: "snd (add_wish sample_set 1 2 hqc sg (pm_with_config 0 c)) = None" for hqc sg c
    by (simp add: add_wish_def wishes_for_def pm_with_config_def checked_add_def Let_def word_le_nat_alt)
  show ?thesis
    by (simp add: handle_timeout_def sample_engine_def engine_new_def at_time_def sample_env_def build_wish_def
        perform_def Let_def st case_prod_unfold w)
qed

theorem engine_never_goes_back_witness:
  "\<exists>e. run_events 1 sample_env [TimerFired 0 5] sample_engine = Inr e \<and>
     cs_current_view (en_state sample_engine) \<le> cs_current_view (en_state e) \<and> (\<exists>new. en_log e = en_log sample_engine @ new \<and> new \<noteq> [])"
proof -
  obtain e where e: "run_events 1 sample_env [TimerFired 0 5] sample_engine = Inr e" "length (en_log e) = 1"
    using sample_timeout by (elim exE conjE) (rule that)
  have "en_log sample_engine = []" by (simp add: sample_engine_def engine_new_def)
  with engine_never_goes_back [OF e(1)] e show ?thesis by (intro exI [of _ e]) auto
qed

text \<open>
  C4. What Byzantine peers can make the engine keep of votes and wishes for other views: in any run
  of a new engine the pacemaker holds wishes for at most three views and the collector votes of the
  current view only, however many messages arrive.
\<close>

theorem wishes_bounded:
  assumes "engine_run n env info evs (engine_new st store app now config persistence evidence wal pending previous) = Inr e"
  shows "card (dom (pm_wishes (en_pacemaker e))) \<le> 3 \<and>
    (\<forall>(key, votes) \<in> set (vc_votes (en_vote_collector e)). fst (snd key) = cs_current_view (en_state e))"
proof -
  let ?e0 = "engine_new st store app now config persistence evidence wal pending previous"
  let ?e = "if cs_current_view (en_state ?e0) \<le> 1
    then ?e0\<lparr>en_state := (en_state ?e0)\<lparr>cs_highest_qc := Some (genesis_qc (en_state ?e0)), cs_current_view := 1\<rparr>\<rparr> else ?e0"
  have "collectors_ok ?e" by (auto simp: collectors_ok_def engine_new_def vc_new_def pm_with_config_def Let_def)
  moreover have "run_inv ?e None e"
    by (rule run.engine_run_keeps [OF refl assms]) (simp_all add: run_inv_def grows_def)
  ultimately have c: "collectors_ok e" by (simp add: run_inv_def)
  then obtain x where "dom (pm_wishes (en_pacemaker e)) \<subseteq>
      set [x, cs_current_view (en_state e), saturating_add (cs_current_view (en_state e)) 1]"
    unfolding collectors_ok_def dom_def by auto
  then have "card (dom (pm_wishes (en_pacemaker e))) \<le> length [x, cs_current_view (en_state e), saturating_add (cs_current_view (en_state e)) 1]"
    by (intro order_trans [OF card_mono card_length]) simp_all
  with c show ?thesis by (simp add: collectors_ok_def)
qed

theorem wishes_bounded_witness:
  "\<exists>e. engine_run 1 sample_env (0, GENESIS_HASH) [] sample_engine = Inr e \<and> card (dom (pm_wishes (en_pacemaker e))) \<le> 3"
proof -
  obtain e where e: "engine_run 1 sample_env (0, GENESIS_HASH) [] sample_engine = Inr e"
    using sample_run by (elim exE conjE) (rule that)
  from wishes_bounded [OF e [unfolded sample_engine_def]] e show ?thesis by (intro exI [of _ e]) simp
qed

text \<open>
  C5. Advancing a view returns. Take a replica whose collector holds votes of its current view only (as
  in every run), whose own power is below the quorum of the well-formed set in force after the
  step, whose store has well-founded hash chains, and whose proposal, if it makes one, is a block with a
  fresh hash or one already stored. The call enters a view at most once: one unit of fuel is
  enough, more changes nothing, and the call gives the next state of the engine or panics (on an empty
  validator set or the last height); in particular the leader's walk over the ancestors of its proposal
  ends. (A validator with a quorum of power alone has no such bound on nesting: it certifies and commits
  its own block within the call and goes on to the next view.)
\<close>

theorem advance_view_returns:
  assumes "collectors_ok e" "hash_ranked rank (en_store e)"
    and "\<forall>e1. enter_new_view env v trigger e = Inr e1 \<longrightarrow>
           vs_wf (cs_validator_set (en_state e1)) \<and>
           power_of (cs_validator_set (en_state e1)) (cs_validator_id (en_state e1)) < quorum_threshold (cs_validator_set (en_state e1)) \<and>
           (\<forall>b. engine_proposal env e1 = Some b \<longrightarrow> hash_fresh (en_store e) b)"
  shows "advance_view_to (Suc n) env v trigger e = advance_view_to 1 env v trigger e \<and>
    (advance_view_to 1 env v trigger e = Inl Panic \<or> (\<exists>e'. advance_view_to 1 env v trigger e = Inr e'))"
proof (cases "v \<le> cs_current_view (en_state e)")
  case False
  show ?thesis
  proof (cases "enter_new_view env v trigger e")
    case (Inl x)
    then have "x = Panic" by (auto simp: enter_new_view_def Let_def split: sum.splits prod.splits)
    with Inl False show ?thesis by simp
  next
    case (Inr e1)
    from assms(2,3) Inr have "\<exists>res. (\<forall>x. res = Inl x \<longrightarrow> x = Panic) \<and> (\<forall>adv. try_propose adv env e1 = res)"
      by (intro try_propose_alone [where rank = rank] enter_new_view_empties [OF assms(1) Inr]) simp_all
    then obtain res where "\<forall>x. res = Inl x \<longrightarrow> x = Panic" "\<And>adv. try_propose adv env e1 = res" by blast
    with False Inr show ?thesis by (cases res) auto
  qed
qed simp

lemma enter_view_voter:
  "enter_view deps v trigger s = Inr (s', out) \<Longrightarrow>
     cs_validator_set s' = cs_validator_set s \<and> cs_validator_id s' = cs_validator_id s"
  by (auto simp: enter_view_def Let_def result_simps split: if_splits ViewEntryTrigger.splits option.splits)

lemma enter_new_view_voter:
  assumes "en_pending_epoch e = None" "enter_new_view env v trigger e = Inr e1"
  shows "cs_validator_set (en_state e1) = cs_validator_set (en_state e) \<and> cs_validator_id (en_state e1) = cs_validator_id (en_state e)"
  using assms
  by (auto simp: enter_new_view_def epoch_transition_unfold clear_old_view_def persist_state_def Let_def
      split: sum.splits prod.splits dest!: enter_view_voter)

definition sample_waiting :: "(nat, unit) Engine" where
  "sample_waiting = sample_engine\<lparr>en_state := (en_state sample_engine)
     \<lparr>cs_highest_qc := Some (genesis_qc (en_state sample_engine))\<rparr>\<rparr>"

theorem advance_view_returns_witness:
  "advance_view_to (Suc 4) sample_env 1 (TriggerTimeoutCert sample_tc) sample_waiting =
   advance_view_to 1 sample_env 1 (TriggerTimeoutCert sample_tc) sample_waiting \<and>
   (advance_view_to 1 sample_env 1 (TriggerTimeoutCert sample_tc) sample_waiting = Inl Panic \<or>
    (\<exists>e'. advance_view_to 1 sample_env 1 (TriggerTimeoutCert sample_tc) sample_waiting = Inr e'))"
proof -
  let ?t = "TriggerTimeoutCert sample_tc"
  have c: "collectors_ok sample_waiting"
    by (auto simp: sample_waiting_def collectors_ok_def sample_engine_def engine_new_def vc_new_def pm_with_config_def Let_def)
  have f: "en_pending_epoch sample_waiting = None" "cs_validator_set (en_state sample_waiting) = sample_set"
    "cs_validator_id (en_state sample_waiting) = 2" "en_store sample_waiting = vb_new"
    by (simp_all add: sample_waiting_def sample_engine_def engine_new_def with_chain_id_def Let_def)
  have p: "power_of sample_set 2 < quorum_threshold sample_set"
    by (simp add: power_of_def get_validator_def sample_set_def sample_infos_def rebuild_index_def quorum_threshold_def)
  have r: "hash_ranked (\<lambda>h. 0) vb_new"
    by (simp add: hash_ranked_def vb_new_def put_block_def get_block_def genesis_block_def)
  have g: "hash_fresh vb_new b" if "b_hash b = hash_rep 7" for b
    using that by (auto simp: hash_fresh_def vb_new_def put_block_def get_block_def genesis_block_def GENESIS_HASH_def split: if_splits)
  have h: "b_hash b = hash_rep 7" if "engine_proposal sample_env e1 = Some b" for e1 b
    using that by (auto simp: engine_proposal_def next_proposal_def build_block_def sample_env_def sample_deps_def
        compute_hash_def Let_def bind_eq_Some_conv case_prod_unfold)
  show ?thesis
    by (rule advance_view_returns [where rank = "\<lambda>h. 0"])
       (use c f p r g h sample_set_wf enter_new_view_voter [of sample_waiting sample_env 1 ?t] in auto)
qed

end
