(* ===== verification/Replica_Safety.thy ===== *)
theory Replica_Safety
  imports Engine_Inv
begin

text \<open>
  The safety invariant of one replica in a network with a fixed validator set. It says which
  certificates the replica holds, what every vote it signed rests on, and that the blocks its
  application executed form one chain from genesis whose last block has a second-phase certificate.
  The application is arbitrary, except that it asks for no validator updates and keeps a journal of
  the blocks committed to it (\<open>journal\<close>). Blocks are identified by their hash; that they can be is a
  hypothesis about the finitely many blocks the replica has received or proposed.
\<close>

section \<open>The network and the replica\<close>

text \<open>
  A network: its validator set, chain identifier, verifier and hash, and the signatures that occur in
  the messages received in it.
\<close>

record Net =
  nt_vs :: ValidatorSet
  nt_chain :: hash32
  nt_verify :: "PublicKey \<Rightarrow> bytes \<Rightarrow> Signature \<Rightarrow> bool"
  nt_blake3 :: "bytes \<Rightarrow> hash32"
  nt_sigs :: "Signature set"

definition journaled :: "'a Application \<Rightarrow> ('a \<Rightarrow> Block list) \<Rightarrow> bool" where
  "journaled app journal \<longleftrightarrow>
     (\<forall>ctx a. journal (snd (app_create_payload app ctx a)) = journal a) \<and>
     (\<forall>txs ctx a resp a'. app_execute_block app txs ctx a = Some (resp, a') \<longrightarrow>
        journal a' = journal a \<and> ebr_validator_updates resp = []) \<and>
     (\<forall>b ctx a a'. app_on_commit app b ctx a = Some a' \<longrightarrow> journal a' = journal a @ [b]) \<and>
     (\<forall>p a a'. app_on_evidence app p a = Some a' \<longrightarrow> journal a' = journal a) \<and>
     (\<forall>evs a. journal (app_on_offline_validators app evs a) = journal a)"

text \<open>A replica of the network: it checks with the network's functions and signs with its own key.\<close>

definition replica_ok :: "Net \<Rightarrow> ValidatorId \<Rightarrow> ('a \<Rightarrow> Block list) \<Rightarrow> 'a ViewDeps \<Rightarrow> bool" where
  "replica_ok N me journal deps \<longleftrightarrow>
     vs_wf (nt_vs N) \<and> vd_verify deps = nt_verify N \<and> vd_blake3 deps = nt_blake3 N \<and>
     journaled (vd_app deps) journal \<and>
     (\<forall>v m. get_validator (nt_vs N) me = Some v \<longrightarrow> nt_verify N (vi_public_key v) m (vd_sign deps m))"

section \<open>Certificates\<close>

text \<open>
  A certificate that passes the check. Each of its signatures was received, or belongs to a vote
  among \<open>V\<close>, the votes the replica that holds it has signed itself.
\<close>

definition provenance :: "Net \<Rightarrow> Vote set \<Rightarrow> VoteType \<Rightarrow> QuorumCertificate \<Rightarrow> bool" where
  "provenance N V t qc \<longleftrightarrow>
     (\<forall>k sg. agg_lookup (qc_aggregate_signature qc) k = Some sg \<longrightarrow>
        sg \<in> nt_sigs N \<or>
        (\<exists>vote \<in> V. index_of (nt_vs N) (v_validator vote) = Some k \<and> v_view vote = qc_view qc \<and>
           v_block_hash vote = qc_block_hash qc \<and> v_vote_type vote = t))"

definition qc_valid ::
    "Net \<Rightarrow> Vote set \<Rightarrow> VoteType \<Rightarrow> QuorumCertificate \<Rightarrow> (ValidatorId \<times> bytes) list \<Rightarrow> bool" where
  "qc_valid N V t qc exts \<longleftrightarrow>
     qc_epoch qc = 0 \<and>
     verify_vote_aggregate (nt_verify N) (nt_blake3 N) (nt_chain N)
       \<lparr> va_validator_set = nt_vs N, va_epoch = 0, va_view = qc_view qc, va_block_hash = qc_block_hash qc,
         va_vote_type = t, va_aggregate_signature = qc_aggregate_signature qc, va_extensions = exts \<rparr> \<and>
     provenance N V t qc"

definition justified :: "Net \<Rightarrow> Vote set \<Rightarrow> QuorumCertificate \<Rightarrow> bool" where
  "justified N V qc \<longleftrightarrow> is_genesis_qc qc \<or> qc_valid N V Vote qc []"

definition sound_vote :: "Net \<Rightarrow> Vote set \<Rightarrow> Vote \<Rightarrow> bool" where
  "sound_vote N V vote \<longleftrightarrow>
     (get_validator (nt_vs N) (v_validator vote) \<noteq> None \<longrightarrow>
        vote_valid (nt_verify N) (nt_blake3 N) (nt_chain N) (nt_vs N) vote \<and>
        (v_signature vote \<in> nt_sigs N \<or> vote \<in> V))"

text \<open>Received certificates and votes carry signatures of the network.\<close>

definition heard_qc :: "Net \<Rightarrow> QuorumCertificate \<Rightarrow> bool" where
  "heard_qc N qc \<longleftrightarrow> set (ag_signatures (qc_aggregate_signature qc)) \<subseteq> nt_sigs N"

definition heard_vote :: "Net \<Rightarrow> Vote \<Rightarrow> bool" where
  "heard_vote N vote \<longleftrightarrow> v_signature vote \<in> nt_sigs N"

section \<open>What a replica holds\<close>

definition conf :: "Net \<Rightarrow> ValidatorId \<Rightarrow> CommitResult option \<Rightarrow> ('a, 'w) Engine \<Rightarrow> bool" where
  "conf N me r e \<longleftrightarrow>
     cs_validator_set (en_state e) = nt_vs N \<and> cs_chain_id_hash (en_state e) = nt_chain N \<and>
     cs_validator_id (en_state e) = me \<and> ep_number (cs_current_epoch (en_state e)) = 0 \<and>
     en_pending_epoch e = None \<and> en_previous_epoch e = None \<and> 1 \<le> cs_current_view (en_state e) \<and>
     (\<forall>cr. r = Some cr \<longrightarrow> cr_pending_epoch cr = None \<and> cr_activated_epoch cr = None) \<and>
     (\<forall>vote \<in> signed_votes e. get_validator (nt_vs N) (v_validator vote) \<noteq> None \<longrightarrow>
        vote_valid (nt_verify N) (nt_blake3 N) (nt_chain N) (nt_vs N) vote)"

definition certs :: "Net \<Rightarrow> Vote set \<Rightarrow> ('a, 'w) Engine \<Rightarrow> bool" where
  "certs N V e \<longleftrightarrow>
     (\<forall>qc. cs_locked_qc (en_state e) = Some qc \<longrightarrow> qc_valid N V Vote qc []) \<and>
     (\<forall>qc. cs_highest_qc (en_state e) = Some qc \<longrightarrow> justified N V qc) \<and>
     (\<forall>qc. en_current_view_qc e = Some qc \<longrightarrow> qc_valid N V Vote qc []) \<and>
     view_le (cs_locked_qc (en_state e)) (cs_highest_qc (en_state e)) \<and>
     pm_wf (en_pacemaker e) \<and>
     (\<forall>v i qc sg. (i, Some qc, sg) \<in> set (wishes_for (en_pacemaker e) v) \<longrightarrow> justified N V qc) \<and>
     vc_wf (\<lambda>_. nt_vs N) (en_vote_collector e) \<and>
     (\<forall>vote \<in> stored (en_vote_collector e). get_validator (nt_vs N) (v_validator vote) \<noteq> None \<and> sound_vote N V vote)"

section \<open>Blocks\<close>

text \<open>The blocks a replica has received (\<open>IB\<close>) or proposed.\<close>

definition seen :: "Block set \<Rightarrow> (effect \<times> ConsensusState \<times> PersistentConsensusState option) list \<Rightarrow> Block set" where
  "seen IB log = IB \<union> {b. \<exists>justify dc sg ancestors. Broadcast (Propose b justify dc sg ancestors) \<in> fst ` set log}"

definition good_block :: "Net \<Rightarrow> Block \<Rightarrow> bool" where
  "good_block N b \<longleftrightarrow> b_hash b = compute_hash (nt_blake3 N) b \<and> 0 < b_height b"

text \<open>The hash tells blocks apart, and none has the hash reserved for genesis.\<close>

definition collision_free :: "Net \<Rightarrow> Block set \<Rightarrow> bool" where
  "collision_free N B \<longleftrightarrow>
     (\<forall>b \<in> B. \<forall>c \<in> B. good_block N b \<longrightarrow> good_block N c \<longrightarrow> b_hash b = b_hash c \<longrightarrow> b = c) \<and>
     (\<forall>b \<in> B. good_block N b \<longrightarrow> b_hash b \<noteq> GENESIS_HASH)"

definition known :: "Net \<Rightarrow> Block set \<Rightarrow> Block \<Rightarrow> bool" where
  "known N B b \<longleftrightarrow> b \<in> B \<and> good_block N b"

definition store_ok :: "Net \<Rightarrow> Block set \<Rightarrow> (BlockHash \<rightharpoonup> Block) \<Rightarrow> bool" where
  "store_ok N B bs \<longleftrightarrow>
     bs GENESIS_HASH = Some genesis_block \<and>
     (\<forall>h b. bs h = Some b \<longrightarrow> b_hash b = h \<and> (b = genesis_block \<or> known N B b))"

section \<open>Votes\<close>

text \<open>What a first-phase vote for a block rests on: its justifying certificate and its parent.\<close>

definition rests_on :: "Net \<Rightarrow> Vote set \<Rightarrow> Block set \<Rightarrow> Block \<Rightarrow> QuorumCertificate \<Rightarrow> bool" where
  "rests_on N V B b j \<longleftrightarrow>
     known N B b \<and> b_parent_hash b = qc_block_hash j \<and> justified N V j \<and>
     (\<exists>p. (p = genesis_block \<or> known N B p) \<and> b_hash p = qc_block_hash j \<and>
          unat (b_height b) = Suc (unat (b_height p)))"

definition signed_ok :: "Net \<Rightarrow> ValidatorId \<Rightarrow> Block set \<Rightarrow> QuorumCertificate option \<Rightarrow> Vote set \<Rightarrow> bool" where
  "signed_ok N me B locked V \<longleftrightarrow>
     (\<forall>vote \<in> V. v_validator vote = me \<and> v_epoch vote = 0 \<and> 1 \<le> v_view vote) \<and>
     (\<forall>v \<in> V. \<forall>w \<in> V. v_vote_type v = v_vote_type w \<longrightarrow> v_view v = v_view w \<longrightarrow> v_block_hash v = v_block_hash w) \<and>
     (\<forall>v \<in> V. v_vote_type v = Vote \<longrightarrow>
        (\<exists>b j. rests_on N V B b j \<and> b_hash b = v_block_hash v \<and>
           (\<forall>w \<in> V. v_vote_type w = Vote2 \<longrightarrow> v_view w < v_view v \<longrightarrow> v_view w \<le> qc_view j))) \<and>
     (\<forall>w \<in> V. v_vote_type w = Vote2 \<longrightarrow>
        (\<exists>qc. qc_valid N V Vote qc [] \<and> qc_view qc = v_view w \<and> qc_block_hash qc = v_block_hash w) \<and>
        (\<exists>l. locked = Some l \<and> v_view w \<le> qc_view l))"

section \<open>Executed blocks\<close>

definition tip :: "Block list \<Rightarrow> BlockHash" where
  "tip C = (if C = [] then GENESIS_HASH else b_hash (last C))"

fun chained :: "BlockHash \<Rightarrow> Block list \<Rightarrow> bool" where
  "chained h [] \<longleftrightarrow> True"
| "chained h (b # bs) \<longleftrightarrow> b_parent_hash b = h \<and> chained (b_hash b) bs"

definition executed_ok :: "Net \<Rightarrow> Vote set \<Rightarrow> Block set \<Rightarrow> Height \<Rightarrow> Block list \<Rightarrow> bool" where
  "executed_ok N V B h C \<longleftrightarrow>
     chained GENESIS_HASH C \<and> (\<forall>b \<in> set C. known N B b) \<and> unat h = length C \<and>
     (C \<noteq> [] \<longrightarrow> (\<exists>qc exts. qc_valid N V Vote2 qc exts \<and> qc_block_hash qc = b_hash (last C)))"

text \<open>
  The block index answers the last committed height with the last executed block, which a commit
  certificate pins; while a commit is being recorded it is the one about to be stored.
\<close>

definition pinned :: "VsdbBlockStore \<Rightarrow> Height \<Rightarrow> BlockHash \<Rightarrow> bool" where
  "pinned store h t \<longleftrightarrow>
     map_of (vb_by_height store) h = Some t \<and>
     (\<exists>b. vb_by_hash store t = Some b \<and> b_height b = h) \<and>
     (if h = 0 then (\<forall>qc. vb_commit_qcs store h = Some qc \<longrightarrow> qc_block_hash qc = t)
      else (\<exists>qc. vb_commit_qcs store h = Some qc \<and> qc_block_hash qc = t))"

definition recording :: "VsdbBlockStore \<Rightarrow> Height \<Rightarrow> BlockHash \<Rightarrow> CommitResult \<Rightarrow> bool" where
  "recording store h t cr \<longleftrightarrow>
     cr_committed_blocks cr \<noteq> [] \<and> qc_block_hash (cr_commit_qc cr) = t \<and>
     (\<forall>b \<in> set (cr_committed_blocks cr). vb_by_hash store (b_hash b) = Some b) \<and>
     b_hash (last (cr_committed_blocks cr)) = t \<and> b_height (last (cr_committed_blocks cr)) = h"

definition safe ::
    "Net \<Rightarrow> ValidatorId \<Rightarrow> ('a \<Rightarrow> Block list) \<Rightarrow> Block set \<Rightarrow> CommitResult option \<Rightarrow> ('a, 'w) Engine \<Rightarrow> bool" where
  "safe N me journal IB r e \<longleftrightarrow>
     (let B = seen IB (en_log e); C = journal (en_app e); h = cs_last_committed_height (en_state e)
      in store_ok N B (vb_by_hash (en_store e)) \<and>
         signed_ok N me B (cs_locked_qc (en_state e)) (signed_votes e) \<and>
         executed_ok N (signed_votes e) B h C \<and>
         (case r of None \<Rightarrow> pinned (en_store e) h (tip C) | Some cr \<Rightarrow> recording (en_store e) h (tip C) cr))"

text \<open>
  The invariant: the certificates need no hypothesis on hashes, the rest needs the blocks seen so
  far to be free of collisions. Vote records are those of \<open>records_ok\<close>.
\<close>

definition safety_inv ::
    "Net \<Rightarrow> ValidatorId \<Rightarrow> ('a \<Rightarrow> Block list) \<Rightarrow> Block set \<Rightarrow> 'a ViewDeps \<Rightarrow> CommitResult option \<Rightarrow> ('a, 'w) Engine \<Rightarrow> bool" where
  "safety_inv N me journal IB deps r e \<longleftrightarrow>
     (replica_ok N me journal deps \<longrightarrow>
        conf N me r e \<and> certs N (signed_votes e) e \<and> records_ok e \<and>
        (collision_free N (seen IB (en_log e)) \<longrightarrow> safe N me journal IB r e))"

section \<open>Monotonicity\<close>

lemma seen_mono: "seen IB log \<subseteq> seen IB (log @ new)"
  unfolding seen_def set_append image_Un by blast

lemma collision_free_mono: "\<lbrakk> collision_free N B'; B \<subseteq> B' \<rbrakk> \<Longrightarrow> collision_free N B"
  unfolding collision_free_def by blast

lemma known_mono: "\<lbrakk> known N B b; B \<subseteq> B' \<rbrakk> \<Longrightarrow> known N B' b"
  unfolding known_def by blast

lemma store_ok_mono: "\<lbrakk> store_ok N B bs; B \<subseteq> B' \<rbrakk> \<Longrightarrow> store_ok N B' bs"
  unfolding store_ok_def using known_mono by metis

lemma qc_valid_mono: "\<lbrakk> qc_valid N V t qc exts; V \<subseteq> V' \<rbrakk> \<Longrightarrow> qc_valid N V' t qc exts"
  unfolding qc_valid_def provenance_def by (meson subsetD)

lemma justified_mono: "\<lbrakk> justified N V qc; V \<subseteq> V' \<rbrakk> \<Longrightarrow> justified N V' qc"
  unfolding justified_def using qc_valid_mono by blast

lemma rests_on_mono: "\<lbrakk> rests_on N V B b j; B \<subseteq> B'; V \<subseteq> V' \<rbrakk> \<Longrightarrow> rests_on N V' B' b j"
  unfolding rests_on_def using known_mono justified_mono by metis

lemma executed_ok_mono: "\<lbrakk> executed_ok N V B h C; B \<subseteq> B'; V \<subseteq> V' \<rbrakk> \<Longrightarrow> executed_ok N V' B' h C"
  unfolding executed_ok_def using known_mono qc_valid_mono by metis

lemma certs_mono:
  assumes "certs N V e" "V \<subseteq> V'"
  shows "certs N V' e"
proof -
  have "sound_vote N V' vote" if "sound_vote N V vote" for vote using that assms(2) by (auto simp: sound_vote_def)
  with assms(1) qc_valid_mono [OF _ assms(2)] justified_mono [OF _ assms(2)] show ?thesis unfolding certs_def by meson
qed

lemma signed_ok_mono:
  assumes "signed_ok N me B l V" "B \<subseteq> B'" "view_le l l'"
  shows "signed_ok N me B' l' V"
proof -
  have l: "\<exists>x. l' = Some x \<and> v \<le> qc_view x" if "\<exists>y. l = Some y \<and> v \<le> qc_view y" for v
    using assms(3) that by (cases l') (auto simp: view_le_def)
  note s = assms(1) [unfolded signed_ok_def]
  show ?thesis
    unfolding signed_ok_def
  proof (intro conjI)
    show "\<forall>v \<in> V. v_vote_type v = Vote \<longrightarrow> (\<exists>b j. rests_on N V B' b j \<and> b_hash b = v_block_hash v \<and>
        (\<forall>w \<in> V. v_vote_type w = Vote2 \<longrightarrow> v_view w < v_view v \<longrightarrow> v_view w \<le> qc_view j))"
      using s rests_on_mono [OF _ assms(2) order_refl] by fast
    show "\<forall>w \<in> V. v_vote_type w = Vote2 \<longrightarrow>
        (\<exists>qc. qc_valid N V Vote qc [] \<and> qc_view qc = v_view w \<and> qc_block_hash qc = v_block_hash w) \<and>
        (\<exists>l. l' = Some l \<and> v_view w \<le> qc_view l)"
      using s l by fast
  qed (use s in fast)+
qed

lemma safe_mono:
  assumes "safe N me journal IB r e"
    and "seen IB (en_log e) \<subseteq> seen IB (en_log e')" "signed_votes e' = signed_votes e"
    and "vb_by_hash (en_store e') = vb_by_hash (en_store e)" "vb_by_height (en_store e') = vb_by_height (en_store e)"
    and "vb_commit_qcs (en_store e') = vb_commit_qcs (en_store e)" "journal (en_app e') = journal (en_app e)"
    and "cs_last_committed_height (en_state e') = cs_last_committed_height (en_state e)"
    and "view_le (cs_locked_qc (en_state e)) (cs_locked_qc (en_state e'))"
  shows "safe N me journal IB r e'"
  using assms(1) store_ok_mono [OF _ assms(2)] signed_ok_mono [OF _ assms(2,9)] executed_ok_mono [OF _ assms(2) order_refl]
  unfolding safe_def Let_def assms(3-8) pinned_def recording_def by (auto split: option.splits)

text \<open>A change that leaves blocks, votes and the application alone, or only adds to the log.\<close>

lemma safety_upd:
  assumes "safety_inv N me journal IB deps r e"
    and "en_log e' = en_log e \<or> (\<exists>x. en_log e' = en_log e @ x \<and> signed_votes e' = signed_votes e)"
    and "vb_by_hash (en_store e') = vb_by_hash (en_store e)" "vb_by_height (en_store e') = vb_by_height (en_store e)"
    and "vb_commit_qcs (en_store e') = vb_commit_qcs (en_store e)" "en_app e' = en_app e"
    and "cs_last_committed_height (en_state e') = cs_last_committed_height (en_state e)"
    and "view_le (cs_locked_qc (en_state e)) (cs_locked_qc (en_state e'))"
    and "\<lbrakk> replica_ok N me journal deps; conf N me r e \<rbrakk> \<Longrightarrow> conf N me r e'"
    and "\<lbrakk> replica_ok N me journal deps; conf N me r e; certs N (signed_votes e) e \<rbrakk> \<Longrightarrow> certs N (signed_votes e) e'"
    and "records_ok e \<Longrightarrow> records_ok e'"
  shows "safety_inv N me journal IB deps r e'"
proof -
  have sv: "signed_votes e' = signed_votes e" and sn: "seen IB (en_log e) \<subseteq> seen IB (en_log e')"
    using assms(2) seen_mono [of IB "en_log e"] by (elim disjE exE; force simp: signed_votes_def)+
  have "safe N me journal IB r e'" if "safe N me journal IB r e"
    by (rule safe_mono [OF that sn sv]) (use assms(3-8) in simp_all)
  with assms(1,9-11) collision_free_mono [OF _ sn] show ?thesis unfolding safety_inv_def sv by blast
qed

section \<open>Certificates that are checked or formed\<close>

lemma replica_deps:
  assumes "replica_ok N me journal deps"
  shows "vs_wf (nt_vs N)" "vd_verify deps = nt_verify N" "vd_blake3 deps = nt_blake3 N" "journaled (vd_app deps) journal"
  using assms by (simp_all add: replica_ok_def)

lemma agg_lookup_mem: "\<lbrakk> agg_wf n agg; agg_lookup agg k = Some sg \<rbrakk> \<Longrightarrow> sg \<in> set (ag_signatures agg)"
proof -
  assume a: "agg_wf n agg" "agg_lookup agg k = Some sg"
  then have k: "k < length (ag_signers agg)" "ag_signers agg ! k" by (auto simp: agg_lookup_def split: if_splits)
  have "count_true (take k (ag_signers agg)) < length (ag_signatures agg)"
    using a(1) count_true_split [OF k(1)] k(2) by (simp add: agg_wf_def)
  with a show ?thesis by (auto simp: agg_lookup_def split: if_splits)
qed

lemma heard_provenance:
  assumes "heard_qc N qc"
    and "verify_vote_aggregate (nt_verify N) (nt_blake3 N) (nt_chain N)
       \<lparr> va_validator_set = nt_vs N, va_epoch = 0, va_view = v, va_block_hash = h,
         va_vote_type = t', va_aggregate_signature = qc_aggregate_signature qc, va_extensions = exts \<rparr>"
  shows "provenance N V t qc"
proof -
  have "agg_wf (validator_count (nt_vs N)) (qc_aggregate_signature qc)"
    using assms(2) by (simp add: verify_vote_aggregate_iff)
  from agg_lookup_mem [OF this] assms(1) show ?thesis unfolding provenance_def heard_qc_def by blast
qed

lemma verified_qc_valid:
  "\<lbrakk> heard_qc N qc; conf N me r e;
     verify_vote_qc (nt_verify N) (nt_blake3 N) (en_state e) (en_previous_epoch e) qc t \<rbrakk> \<Longrightarrow> qc_valid N {} t qc []"
  using heard_provenance [of N qc "qc_view qc" "qc_block_hash qc" t "[]" "{}" t]
  by (auto simp: verify_vote_qc_def validator_set_for_epoch_def qc_valid_def conf_def split: if_splits)

lemma verified_justified:
  "\<lbrakk> heard_qc N qc; conf N me r e;
     verify_justify_qc (nt_verify N) (nt_blake3 N) (en_state e) (en_previous_epoch e) qc \<rbrakk> \<Longrightarrow> justified N {} qc"
  using verified_qc_valid [of N qc me r e Vote] by (auto simp: verify_justify_qc_def justified_def split: if_splits)

lemma verified_double_valid:
  assumes "heard_qc N (dc_inner_qc dc)" "heard_qc N (dc_outer_qc dc)" "conf N me r e"
    and "validate_double_cert (nt_verify N) (nt_blake3 N) (en_state e) (en_previous_epoch e) dc"
  shows "justified N {} (dc_inner_qc dc) \<and> (\<exists>exts. qc_valid N {} Vote2 (dc_outer_qc dc) exts)"
  using assms(3,4) heard_provenance [OF assms(1)] heard_provenance [OF assms(2)]
  by (auto simp: validate_double_cert_def Let_def validator_set_for_epoch_def qc_valid_def justified_def conf_def
      split: if_splits option.splits)

lemma verified_tc_justified:
  assumes "vs_wf (nt_vs N)" "conf N me r e"
    and "verify_content (nt_verify N) (nt_blake3 N) (en_state e) (en_previous_epoch e) (TimeoutCert tc)"
    and "highest_qc_of_tc tc = Some qc" "heard_qc N qc"
  shows "justified N {} qc"
proof -
  have "verify_tc (nt_verify N) (nt_blake3 N) (en_state e) (en_previous_epoch e) tc (nt_vs N)"
    using assms(2,3) by (auto simp: conf_def split: if_splits)
  note tc = this [unfolded verify_tc_iff [OF assms(1)]]
  obtain i where i: "i < length (ag_signers (tc_aggregate_signature tc))" "ag_signers (tc_aggregate_signature tc) ! i"
    "tc_highest_qcs tc ! i = Some qc" using highest_qc_of_tc_mem [OF assms(4)] by blast
  then obtain sg where "agg_lookup (tc_aggregate_signature tc) i = Some sg" by (auto simp: agg_lookup_def)
  with tc i(3) have "verify_justify_qc (nt_verify N) (nt_blake3 N) (en_state e) (en_previous_epoch e) qc" by blast
  with assms(5,2) show ?thesis by (rule verified_justified)
qed

lemma verified_vote_sound:
  "\<lbrakk> heard_vote N vote; conf N me r e; verify_vote (nt_verify N) (nt_blake3 N) (en_state e) (en_previous_epoch e) vote \<rbrakk>
     \<Longrightarrow> sound_vote N V vote"
  by (auto simp: verify_vote_def validator_set_for_epoch_def sound_vote_def vote_valid_def conf_def heard_vote_def
      split: if_splits option.splits)

lemma bucket_stored: "set (bucket c key) \<subseteq> stored c"
proof
  fix w assume "w \<in> set (bucket c key)"
  then obtain votes where "map_of (vc_votes c) key = Some votes" "w \<in> set votes"
    by (cases "map_of (vc_votes c) key") (auto simp: bucket_def)
  with map_of_SomeD show "w \<in> stored c" unfolding stored_def by fast
qed

lemma add_vote_stored:
  assumes "add_vote vs vote epoch c = (c', res)" "w \<in> stored c'"
  shows "w \<in> stored c \<or> w = vote \<and> get_validator vs (v_validator vote) \<noteq> None"
proof -
  have new: "w \<in> stored c \<or> w \<in> set votes" if "w \<in> stored (set_bucket c key votes)" for key votes
    using that by (auto simp: stored_def set_bucket_def dest!: set_AList_update)
  show ?thesis
    using assms new bucket_stored [of c]
    by (fastforce simp: add_vote_def Let_def split: if_splits sum.splits)
qed

text \<open>A vote added to the collector, and the certificate it completes.\<close>

lemma collect_certs:
  assumes "vs_wf (nt_vs N)" "certs N V e" "sound_vote N V vote"
    and "add_vote (nt_vs N) vote 0 (en_vote_collector e) = (c, res)"
  shows "certs N V (e\<lparr>en_vote_collector := c\<rparr>)"
    "\<lbrakk> res = Inr result; vr_qc result = Some qc \<rbrakk> \<Longrightarrow>
       qc_valid N V (v_vote_type vote) qc (if v_vote_type vote = Vote then [] else vr_extensions result)"
proof -
  let ?c = "en_vote_collector e"
  define ok where "ok w \<longleftrightarrow> get_validator (nt_vs N) (v_validator w) \<noteq> None \<and> sound_vote N V w" for w
  have old: "ok w" if "w \<in> stored ?c" for w using assms(2) that by (simp add: certs_def ok_def)
  have wf: "vc_wf (\<lambda>_. nt_vs N) ?c" using assms(2) by (simp add: certs_def)
  have "vc_wf (\<lambda>_. nt_vs N) c"
    using add_vote_wf [of "\<lambda>_. nt_vs N" 0, OF assms(1) wf, of vote] assms(4) by simp
  moreover have "ok w" if "w \<in> stored c" for w
    using add_vote_stored [OF assms(4) that] old assms(3) by (auto simp: ok_def)
  ultimately show "certs N V (e\<lparr>en_vote_collector := c\<rparr>)" using assms(2) by (simp add: certs_def ok_def)
  assume r: "res = Inr result" "vr_qc result = Some qc"
  note a = assms(4) [unfolded r(1)]
  show "qc_valid N V (v_vote_type vote) qc (if v_vote_type vote = Vote then [] else vr_extensions result)"
  proof (cases rule: add_vote_Inr_cases [of "\<lambda>_. nt_vs N" 0, OF assms(1) wf a])
    case 1
    with r show ?thesis by simp
  next
    case (2 agg)
    let ?votes = "bucket ?c (key_of vote) @ [vote]"
    have k: "\<forall>w \<in> set ?votes. ok w"
      using old bucket_stored [of ?c "key_of vote"] assms(3) 2(4) by (auto simp: ok_def)
    then have vv: "\<forall>w \<in> set ?votes. vote_valid (nt_verify N) (nt_blake3 N) (nt_chain N) (nt_vs N) w"
      by (simp add: ok_def sound_vote_def)
    have key: "key_of w = key_of vote" if "w \<in> set ?votes" for w using 2(7) that unfolding bucket_ok_def by blast
    have q: "qc = \<lparr> qc_block_hash = v_block_hash vote, qc_view = v_view vote, qc_aggregate_signature = agg, qc_epoch = 0 \<rparr>"
      using 2(10) r(2) by (simp split: if_splits)
    have pr: "provenance N V (v_vote_type vote) qc"
      unfolding provenance_def
    proof (intro allI impI)
      fix k sg assume "agg_lookup (qc_aggregate_signature qc) k = Some sg"
      with q 2(9) obtain w where w: "w \<in> set ?votes" "index_of (nt_vs N) (v_validator w) = Some k" "v_signature w = sg" by auto
      with k key [OF w(1)] have "sg \<in> nt_sigs N \<or> w \<in> V" by (auto simp: ok_def sound_vote_def)
      with w(2) key [OF w(1)] q show "sg \<in> nt_sigs N \<or> (\<exists>w \<in> V. index_of (nt_vs N) (v_validator w) = Some k \<and>
          v_view w = qc_view qc \<and> v_block_hash w = qc_block_hash qc \<and> v_vote_type w = v_vote_type vote)"
        by (auto simp: key_of_def)
    qed
    note v = add_vote_qc_verified [of "\<lambda>_. nt_vs N" 0, OF assms(1) wf a r(2) vv]
    have "vr_extensions result = []" if t: "v_vote_type vote = Vote"
    proof -
      have "v_extension w = None" if "w \<in> set ?votes" for w
        using 2(7) [unfolded bucket_ok_def] that t by (metis key_of_def prod.inject)
      then have "vote_extensions_of ?votes = []"
        by (simp add: vote_extensions_of_def List.map_filter_def)
      with 2(11) show ?thesis by simp
    qed
    with v q pr show ?thesis by (cases "v_vote_type vote = Vote") (simp_all add: qc_valid_def)
  qed
qed

lemma wish_certs:
  assumes "vs_wf (nt_vs N)" "certs N V e" "\<And>qc. hqc = Some qc \<Longrightarrow> justified N V qc"
    and "add_wish (nt_vs N) target i hqc sg (en_pacemaker e) = (pm, made)"
  shows "certs N V (e\<lparr>en_pacemaker := pm\<rparr>)"
    "\<lbrakk> made = Some tc; highest_qc_of_tc tc = Some qc \<rbrakk> \<Longrightarrow> justified N V qc"
proof -
  let ?pm = "en_pacemaker e"
  have wf: "pm_wf ?pm" and old: "\<And>v i qc sg. (i, Some qc, sg) \<in> set (wishes_for ?pm v) \<Longrightarrow> justified N V qc"
    using assms(2) unfolding certs_def by blast+
  have "pm_wf pm" using pm_wf_preserved(2) [OF wf, of "nt_vs N" target i hqc sg] assms(4) by simp
  moreover have "justified N V qc" if "(j, Some qc, s) \<in> set (wishes_for pm v)" for v j qc s
    using that add_wish_wishes [of "nt_vs N" target i hqc sg ?pm v] assms(3,4) old by (auto split: if_splits)
  ultimately show "certs N V (e\<lparr>en_pacemaker := pm\<rparr>)" using assms(2) by (simp add: certs_def)
  assume t: "made = Some tc" "highest_qc_of_tc tc = Some qc"
  have s: "snd (add_wish (nt_vs N) target i hqc sg ?pm) = Some tc" using assms(4) t(1) by simp
  note tc = add_wish_tc [OF assms(1) wf s]
  obtain k where k: "k < length (ag_signers (tc_aggregate_signature tc))" "ag_signers (tc_aggregate_signature tc) ! k"
    "tc_highest_qcs tc ! k = Some qc" using highest_qc_of_tc_mem [OF t(2)] by blast
  then obtain x where "agg_lookup (tc_aggregate_signature tc) k = Some x" by (auto simp: agg_lookup_def)
  with tc(5) obtain vid h where "(vid, h, x) \<in> set (wishes_for ?pm target @ [(i, hqc, sg)])" "index_of (nt_vs N) vid = Some k"
    by blast
  with tc(6) k(3) old assms(3) show "justified N V qc" by fastforce
qed

section \<open>Votes\<close>

lemma unique_insert:
  assumes "\<forall>v \<in> V. \<forall>w \<in> V. v_vote_type v = v_vote_type w \<longrightarrow> v_view v = v_view w \<longrightarrow> v_block_hash v = v_block_hash w"
    and "\<And>v. \<lbrakk> v \<in> V; v_vote_type v = v_vote_type x; v_view v = v_view x \<rbrakk> \<Longrightarrow> v_block_hash v = v_block_hash x"
  shows "\<forall>v \<in> insert x V. \<forall>w \<in> insert x V. v_vote_type v = v_vote_type w \<longrightarrow> v_view v = v_view w \<longrightarrow> v_block_hash v = v_block_hash w"
  using assms by (metis insert_iff)

lemma signed_ok_vote1:
  assumes "signed_ok N me B l V" "rests_on N V B b j" "view_le l (Some j)"
    and "v_validator vote = me" "v_epoch vote = 0" "1 \<le> v_view vote" "v_vote_type vote = Vote" "v_block_hash vote = b_hash b"
    and "\<And>v. \<lbrakk> v \<in> V; v_vote_type v = Vote; v_view v = v_view vote \<rbrakk> \<Longrightarrow> v_block_hash v = v_block_hash vote"
  shows "signed_ok N me B l (insert vote V)"
proof -
  let ?V = "insert vote V"
  note s = assms(1) [unfolded signed_ok_def]
  note up = rests_on_mono [OF _ order_refl subset_insertI, of N V B] qc_valid_mono [OF _ subset_insertI, of N V Vote]
  have "v_view w \<le> qc_view j" if "w \<in> V" "v_vote_type w = Vote2" for w
    using s that assms(3) by (metis order_trans view_le_Some)
  then have new: "\<exists>b j. rests_on N ?V B b j \<and> b_hash b = v_block_hash vote \<and>
      (\<forall>w \<in> ?V. v_vote_type w = Vote2 \<longrightarrow> v_view w < v_view vote \<longrightarrow> v_view w \<le> qc_view j)"
    using up(1) [OF assms(2)] assms(7,8) by (intro exI [of _ b] exI [of _ j]) auto
  have old: "\<exists>b j. rests_on N ?V B b j \<and> b_hash b = v_block_hash v \<and>
      (\<forall>w \<in> ?V. v_vote_type w = Vote2 \<longrightarrow> v_view w < v_view v \<longrightarrow> v_view w \<le> qc_view j)"
    if "v \<in> V" "v_vote_type v = Vote" for v
  proof -
    from bspec [OF s [THEN conjunct2, THEN conjunct2, THEN conjunct1] that(1)] that(2) obtain b j where
      "rests_on N V B b j" "b_hash b = v_block_hash v"
      "\<forall>w \<in> V. v_vote_type w = Vote2 \<longrightarrow> v_view w < v_view v \<longrightarrow> v_view w \<le> qc_view j" by blast
    with up(1) assms(7) show ?thesis by (intro exI [of _ b] exI [of _ j]) simp
  qed
  show ?thesis
    unfolding signed_ok_def
  proof (intro conjI)
    show "\<forall>v \<in> ?V. \<forall>w \<in> ?V. v_vote_type v = v_vote_type w \<longrightarrow> v_view v = v_view w \<longrightarrow>
        v_block_hash v = v_block_hash w" by (rule unique_insert [OF s [THEN conjunct2, THEN conjunct1]]) (use assms(7,9) in simp)
    show "\<forall>v \<in> ?V. v_vote_type v = Vote \<longrightarrow> (\<exists>b j. rests_on N ?V B b j \<and> b_hash b = v_block_hash v \<and>
        (\<forall>w \<in> ?V. v_vote_type w = Vote2 \<longrightarrow> v_view w < v_view v \<longrightarrow> v_view w \<le> qc_view j))"
      using new old by blast
    show "\<forall>w \<in> ?V. v_vote_type w = Vote2 \<longrightarrow>
        (\<exists>qc. qc_valid N ?V Vote qc [] \<and> qc_view qc = v_view w \<and> qc_block_hash qc = v_block_hash w) \<and>
        (\<exists>x. l = Some x \<and> v_view w \<le> qc_view x)"
      using s [THEN conjunct2, THEN conjunct2, THEN conjunct2] assms(7) up(2) by (metis VoteType.distinct(1) insert_iff)
  qed (use s [THEN conjunct1] assms(4-6) in simp)
qed

lemma signed_ok_vote2:
  assumes "signed_ok N me B l V" "qc_valid N V Vote qc []" "view_le l l'" "view_le (Some qc) l'"
    and "v_validator vote = me" "v_epoch vote = 0" "1 \<le> v_view vote" "v_vote_type vote = Vote2"
    and "v_block_hash vote = qc_block_hash qc" "v_view vote = qc_view qc"
    and "\<And>v. \<lbrakk> v \<in> V; v_vote_type v = Vote2; v_view v = v_view vote \<rbrakk> \<Longrightarrow> v_block_hash v = v_block_hash vote"
    and "\<And>v. v \<in> V \<Longrightarrow> v_view v \<le> v_view vote"
  shows "signed_ok N me B l' (insert vote V)"
proof -
  let ?V = "insert vote V"
  note s = signed_ok_mono [OF assms(1) order_refl assms(3), unfolded signed_ok_def]
  note up = rests_on_mono [OF _ order_refl subset_insertI, of N V B] qc_valid_mono [OF _ subset_insertI, of N V Vote]
  have lock: "\<exists>x. l' = Some x \<and> v_view vote \<le> qc_view x" using assms(4,10) by (cases l') (auto simp: view_le_def)
  have old: "\<exists>b j. rests_on N ?V B b j \<and> b_hash b = v_block_hash v \<and>
      (\<forall>w \<in> ?V. v_vote_type w = Vote2 \<longrightarrow> v_view w < v_view v \<longrightarrow> v_view w \<le> qc_view j)"
    if "v \<in> V" "v_vote_type v = Vote" for v
  proof -
    have "\<not> v_view vote < v_view v" using assms(12) [OF that(1)] by (simp add: not_less)
    moreover from bspec [OF s [THEN conjunct2, THEN conjunct2, THEN conjunct1] that(1)] that(2) obtain b j where
      "rests_on N V B b j" "b_hash b = v_block_hash v"
      "\<forall>w \<in> V. v_vote_type w = Vote2 \<longrightarrow> v_view w < v_view v \<longrightarrow> v_view w \<le> qc_view j" by blast
    ultimately show ?thesis using up(1) by (intro exI [of _ b] exI [of _ j]) simp
  qed
  have qcs: "\<exists>qc. qc_valid N ?V Vote qc [] \<and> qc_view qc = v_view w \<and> qc_block_hash qc = v_block_hash w"
    if "w \<in> ?V" "v_vote_type w = Vote2" for w
  proof (cases "w = vote")
    case True
    with up(2) [OF assms(2)] assms(9,10) show ?thesis by auto
  next
    case False
    with that bspec [OF s [THEN conjunct2, THEN conjunct2, THEN conjunct2], of w] up(2) show ?thesis by auto
  qed
  show ?thesis
    unfolding signed_ok_def
  proof (intro conjI)
    show "\<forall>v \<in> ?V. \<forall>w \<in> ?V. v_vote_type v = v_vote_type w \<longrightarrow> v_view v = v_view w \<longrightarrow>
        v_block_hash v = v_block_hash w" by (rule unique_insert [OF s [THEN conjunct2, THEN conjunct1]]) (use assms(8,11) in simp)
    show "\<forall>v \<in> ?V. v_vote_type v = Vote \<longrightarrow> (\<exists>b j. rests_on N ?V B b j \<and> b_hash b = v_block_hash v \<and>
        (\<forall>w \<in> ?V. v_vote_type w = Vote2 \<longrightarrow> v_view w < v_view v \<longrightarrow> v_view w \<le> qc_view j))"
      using old assms(8) by (metis VoteType.distinct(1) insert_iff)
    show "\<forall>w \<in> ?V. v_vote_type w = Vote2 \<longrightarrow>
        (\<exists>qc. qc_valid N ?V Vote qc [] \<and> qc_view qc = v_view w \<and> qc_block_hash qc = v_block_hash w) \<and>
        (\<exists>l. l' = Some l \<and> v_view w \<le> qc_view l)"
      using qcs s [THEN conjunct2, THEN conjunct2, THEN conjunct2] lock by auto
  qed (use s [THEN conjunct1] assms(5-7) in simp)
qed

section \<open>Blocks stored\<close>

lemma store_ok_block: "\<lbrakk> store_ok N B bs; bs h = Some b \<rbrakk> \<Longrightarrow> b_hash b = h \<and> (b = genesis_block \<or> known N B b)"
  unfolding store_ok_def by blast

lemma store_ok_insert:
  assumes "store_ok N B bs" "known N B b" "collision_free N B"
  shows "store_ok N B (bs(b_hash b \<mapsto> b))"
proof -
  have "b_hash b \<noteq> GENESIS_HASH" using assms(2,3) unfolding known_def collision_free_def by blast
  with assms(1,2) show ?thesis unfolding store_ok_def by simp
qed

text \<open>The last committed block stays what its height answers, whatever is stored.\<close>

lemma pinned_put_block:
  assumes "pinned store h t"
    and "h = 0 \<Longrightarrow> 0 < b_height b"
    and "\<And>c. vb_by_hash store (b_hash b) = Some c \<Longrightarrow> c = b"
  shows "pinned (put_block b store) h t"
proof -
  have q: "vb_commit_qcs (put_block b store) = vb_commit_qcs store"
    "vb_by_hash (put_block b store) = (vb_by_hash store)(b_hash b \<mapsto> b)"
    by (simp_all add: put_block_def Let_def split: option.splits)
  have "map_of (vb_by_height (put_block b store)) h = Some t"
  proof (cases "b_height b = h")
    case True
    with assms(2) have "h \<noteq> 0" by auto
    with assms(1) obtain qc where "vb_commit_qcs store h = Some qc" "qc_block_hash qc = t" by (auto simp: pinned_def)
    with True assms(1) show ?thesis by (auto simp: put_block_def Let_def pinned_def)
  next
    case False
    with assms(1) show ?thesis by (auto simp: put_block_def Let_def pinned_def split: option.splits)
  qed
  moreover have "\<exists>c. vb_by_hash (put_block b store) t = Some c \<and> b_height c = h"
    using assms(1,3) unfolding q pinned_def by auto
  ultimately show "pinned (put_block b store) h t"
    using assms(1) unfolding pinned_def q by simp
qed

lemma pinned_put_qc:
  assumes "pinned store h t" "k = h \<Longrightarrow> qc_block_hash qc = t"
  shows "pinned (put_commit_qc k qc store) h t"
proof (cases "k = h")
  case False
  with assms(1) show ?thesis by (cases "h = 0") (auto simp: put_commit_qc_def Let_def pinned_def split: option.split)
next
  case True
  with assms show ?thesis by (auto simp: put_commit_qc_def Let_def pinned_def split: option.split)
qed

lemma put_by_hash:
  "vb_by_hash (put_block b store) = (vb_by_hash store)(b_hash b \<mapsto> b)"
  "vb_by_hash (put_commit_qc h qc store) = vb_by_hash store"
  by (simp_all add: put_block_def put_commit_qc_def Let_def split: option.splits)

section \<open>Blocks executed\<close>

lemma journal_steps:
  assumes "journaled app journal"
  shows "journal (snd (app_create_payload app ctx a)) = journal a"
    "app_execute_block app txs ctx a = Some (resp, a') \<Longrightarrow> journal a' = journal a \<and> ebr_validator_updates resp = []"
    "app_on_commit app b ctx a = Some a' \<Longrightarrow> journal a' = journal a @ [b]"
    "app_on_evidence app p a = Some a' \<Longrightarrow> journal a' = journal a"
  using assms unfolding journaled_def by blast+

lemma apply_evidence_journal:
  "\<lbrakk> journaled app journal; apply_evidence app ps a = Some a' \<rbrakk> \<Longrightarrow> journal a' = journal a"
proof (induction ps arbitrary: a)
  case (Cons p ps)
  then obtain a1 where "app_on_evidence app p a = Some a1" "apply_evidence app ps a1 = Some a'"
    by (cases "app_on_evidence app p a") auto
  with Cons journal_steps(4) [of app journal p a a1] show ?case by simp
qed simp

lemma execute_journal:
  assumes "journaled app journal"
  shows "execute_committed_block app b ctx a = Inr (resp, a') \<Longrightarrow> journal a' = journal a @ [b] \<and> ebr_validator_updates resp = []"
    "execute_committed_block app b ctx a = Inl err \<Longrightarrow> commit_panics err"
proof -
  assume "execute_committed_block app b ctx a = Inr (resp, a')"
  then obtain a1 a2 where a: "apply_evidence app (b_evidence b) a = Some a1"
    "app_execute_block app (decode_payload (b_payload b)) ctx a1 = Some (resp, a2)" "app_on_commit app b ctx a2 = Some a'"
    by (auto simp: execute_committed_block_def result_simps split: option.splits)
  with journal_steps(2) [OF assms a(2)] journal_steps(3) [OF assms a(3)] apply_evidence_journal [OF assms a(1)]
  show "journal a' = journal a @ [b] \<and> ebr_validator_updates resp = []" by simp
qed (auto simp: execute_committed_block_def rbind_def ok_or_def split: option.splits)

text \<open>Without validator updates no epoch becomes pending, and only a panic ends the loop early.\<close>

definition quiet_acc :: "'a commit_acc \<Rightarrow> bool" where
  "quiet_acc acc \<longleftrightarrow> ca_pending acc = None \<and> ca_activated acc = None"

lemma commit_one_journal:
  assumes "journaled app journal" "quiet_acc acc"
  shows "commit_one app b acc = Inr acc' \<Longrightarrow> quiet_acc acc' \<and> journal (ca_app acc') = journal (ca_app acc) @ [b]"
    "commit_one app b acc = Inl (err, acc') \<Longrightarrow> commit_panics err"
  using assms(2) execute_journal [OF assms(1)]
  by (auto simp: commit_one_def quiet_acc_def activate_pending_def pending_after_def Let_def
      split: sum.splits if_splits option.splits)

lemma commit_blocks_journal:
  assumes "journaled app journal"
  shows "\<lbrakk> quiet_acc acc; commit_blocks app bs acc = Inr acc' \<rbrakk>
      \<Longrightarrow> quiet_acc acc' \<and> journal (ca_app acc') = journal (ca_app acc) @ bs"
    "\<lbrakk> quiet_acc acc; commit_blocks app bs acc = Inl (err, acc') \<rbrakk> \<Longrightarrow> commit_panics err"
proof (induction bs arbitrary: acc)
  case (Cons b bs)
  {
    case 1
    then obtain acc1 where "commit_one app b acc = Inr acc1" "commit_blocks app bs acc1 = Inr acc'"
      by (auto simp: rbind_Inr)
    with 1(1) commit_one_journal [OF assms] Cons.IH(1) show ?case by (metis append.assoc append_Cons append_Nil)
  next
    case 2
    with commit_one_journal [OF assms 2(1), of b] Cons.IH(2) show ?case by (cases "commit_one app b acc") auto
  }
qed auto

lemma chained_append:
  "chained h (xs @ ys) \<longleftrightarrow> chained h xs \<and> chained (if xs = [] then h else b_hash (last xs)) ys"
  by (induction xs arbitrary: h) auto

lemma links_known:
  assumes "store_ok N B get" "links get p bs" "bs \<noteq> []" "get x = Some (last bs)"
  shows "chained (b_hash p) bs \<and> (\<forall>b \<in> set bs. known N B b \<and> get (b_hash b) = Some b)"
  using assms(2,3,4)
proof (induction bs arbitrary: p)
  case (Cons b bs)
  have p: "b_hash p = b_parent_hash b" using store_ok_block [OF assms(1)] Cons.prems(1) by auto
  have b: "get (b_hash b) = Some b"
  proof (cases bs)
    case Nil
    with Cons.prems(3) store_ok_block [OF assms(1) Cons.prems(3)] show ?thesis by simp
  next
    case (Cons c cs)
    with Cons.prems(1) store_ok_block [OF assms(1)] show ?thesis by auto
  qed
  have "b \<noteq> genesis_block" using Cons.prems(1) by (auto simp: genesis_block_def)
  with b store_ok_block [OF assms(1) b] have k: "known N B b" by simp
  show ?case
  proof (cases bs)
    case Nil
    with p b k show ?thesis by simp
  next
    case (Cons c cs)
    with Cons.IH [of b] Cons.prems p b k show ?thesis by simp
  qed
qed simp

section \<open>Commits recorded\<close>

lemma index_txs_keeps [simp]:
  "vb_by_hash (index_txs blake3 b store) = vb_by_hash store" "vb_by_height (index_txs blake3 b store) = vb_by_height store"
  "vb_commit_qcs (index_txs blake3 b store) = vb_commit_qcs store"
proof -
  have "vb_by_hash (fold (\<lambda>(i, tx). put_tx_index (blake3 tx) h (f i)) xs store) = vb_by_hash store \<and>
      vb_by_height (fold (\<lambda>(i, tx). put_tx_index (blake3 tx) h (f i)) xs store) = vb_by_height store \<and>
      vb_commit_qcs (fold (\<lambda>(i, tx). put_tx_index (blake3 tx) h (f i)) xs store) = vb_commit_qcs store" for h f and xs :: "(nat \<times> bytes) list"
    by (induction xs arbitrary: store) (auto simp: put_tx_index_def)
  then show "vb_by_hash (index_txs blake3 b store) = vb_by_hash store" "vb_by_height (index_txs blake3 b store) = vb_by_height store"
    "vb_commit_qcs (index_txs blake3 b store) = vb_commit_qcs store"
    by (simp_all add: index_txs_def)
qed

lemma pinned_cong:
  "\<lbrakk> vb_by_hash store' = vb_by_hash store; vb_by_height store' = vb_by_height store;
     vb_commit_qcs store' = vb_commit_qcs store \<rbrakk> \<Longrightarrow> pinned store' h t = pinned store h t"
  by (simp add: pinned_def)

text \<open>What \<open>store_committed\<close> does for one block, as far as the index is concerned.\<close>

lemma store_committed_step:
  obtains s3 where
    "store_committed blake3 qc resps i (b # bs) store = store_committed blake3 qc resps (Suc i) bs s3"
    "vb_by_hash s3 = vb_by_hash store"
    "\<forall>h t. pinned s3 h t =
       pinned (if qc_block_hash qc = b_hash b then put_commit_qc (b_height b) qc store else store) h t"
proof
  let ?s1 = "if qc_block_hash qc = b_hash b then put_commit_qc (b_height b) qc store else store"
  let ?s3 = "case nth_opt resps i of Some resp \<Rightarrow> put_block_results (b_height b) resp (index_txs blake3 b ?s1)
      | None \<Rightarrow> index_txs blake3 b ?s1"
  show "store_committed blake3 qc resps i (b # bs) store = store_committed blake3 qc resps (Suc i) bs ?s3"
    by (simp add: Let_def)
  show "vb_by_hash ?s3 = vb_by_hash store"
    by (simp add: put_block_results_def put_by_hash split: option.split)
  show "\<forall>h t. pinned ?s3 h t = pinned ?s1 h t"
    by (intro allI pinned_cong) (simp_all add: put_block_results_def split: option.split)
qed

lemma store_committed_hash: "vb_by_hash (store_committed blake3 qc resps i bs store) = vb_by_hash store"
proof (induction bs arbitrary: i store)
  case (Cons b bs)
  obtain s3 where "store_committed blake3 qc resps i (b # bs) store = store_committed blake3 qc resps (Suc i) bs s3"
    "vb_by_hash s3 = vb_by_hash store" by (rule store_committed_step [of blake3 qc resps i b bs store])
  with Cons.IH show ?case by simp
qed simp

lemma store_committed_pins:
  "\<lbrakk> bs \<noteq> []; \<forall>b \<in> set bs. vb_by_hash store (b_hash b) = Some b; b_hash (last bs) = t; b_height (last bs) = h;
     qc_block_hash qc = t \<rbrakk> \<Longrightarrow> pinned (store_committed blake3 qc resps i bs store) h t"
proof (induction bs arbitrary: i store)
  case (Cons b bs)
  obtain s3 where s: "store_committed blake3 qc resps i (b # bs) store = store_committed blake3 qc resps (Suc i) bs s3"
    "vb_by_hash s3 = vb_by_hash store" and p: "\<forall>h t. pinned s3 h t =
       pinned (if qc_block_hash qc = b_hash b then put_commit_qc (b_height b) qc store else store) h t"
    by (rule store_committed_step [of blake3 qc resps i b bs store])
  show ?case
  proof (cases "bs = []")
    case True
    with Cons.prems have "pinned (put_commit_qc (b_height b) qc store) h t"
      by (auto simp: pinned_def put_commit_qc_def Let_def)
    with True s p Cons.prems show ?thesis by simp
  next
    case False
    with Cons.prems Cons.IH [of s3 "Suc i"] s show ?thesis by simp
  qed
qed simp

section \<open>Every step keeps the invariant\<close>

text \<open>A block that is ready to be voted for.\<close>

definition votable ::
    "Net \<Rightarrow> ValidatorId \<Rightarrow> ('a \<Rightarrow> Block list) \<Rightarrow> Block set \<Rightarrow> 'a ViewDeps \<Rightarrow>
     (effect \<times> ConsensusState \<times> PersistentConsensusState option) list \<Rightarrow> QuorumCertificate option \<Rightarrow> Block \<Rightarrow> bool" where
  "votable N me journal IB deps log locked b \<longleftrightarrow>
     (replica_ok N me journal deps \<longrightarrow> collision_free N (seen IB log) \<longrightarrow>
        (\<exists>j. rests_on N {vote. SignVote vote \<in> fst ` set log} (seen IB log) b j \<and> view_le locked (Some j)))"

lemma seen_append [simp]: "vote_effect eff \<Longrightarrow> seen IB (log @ [(eff, x)]) = seen IB log"
  by (cases eff) (auto simp: seen_def)

lemma vote_slot_leaves [simp]:
  "cs_validator_id (set_vote_slot t x s) = cs_validator_id s" "cs_validator_set (set_vote_slot t x s) = cs_validator_set s"
  "cs_chain_id_hash (set_vote_slot t x s) = cs_chain_id_hash s" "cs_current_epoch (set_vote_slot t x s) = cs_current_epoch s"
  "cs_current_view (set_vote_slot t x s) = cs_current_view s" "cs_locked_qc (set_vote_slot t x s) = cs_locked_qc s"
  "cs_highest_qc (set_vote_slot t x s) = cs_highest_qc s"
  "cs_last_committed_height (set_vote_slot t x s) = cs_last_committed_height s"
  by (cases t; simp add: set_vote_slot_def)+

text \<open>A granted vote: what is recorded and signed.\<close>

lemma granted_vote:
  assumes "records_ok e" "check_and_record_vote t (cs_current_view (en_state e)) h (en_state e) = (s, True)"
  shows "s = set_vote_slot t (Some (cs_current_view (en_state e), h)) (en_state e)"
    "signed_votes (sign_vote deps t h ext (e\<lparr>en_state := s\<rparr>)) = insert (make_vote deps s h t ext) (signed_votes e)"
    "seen IB (en_log (sign_vote deps t h ext (e\<lparr>en_state := s\<rparr>))) = seen IB (en_log e)"
    "\<lbrakk> v \<in> signed_votes e; v_vote_type v = t; v_view v = cs_current_view (en_state e) \<rbrakk> \<Longrightarrow> v_block_hash v = h"
proof -
  from assms(2) have g: "slot_admits (vote_slot t (en_state e)) (cs_current_view (en_state e)) h"
    and s: "s = set_vote_slot t (Some (cs_current_view (en_state e), h)) (en_state e)"
    by (auto simp: check_and_record_vote_spec split: if_splits)
  show "s = set_vote_slot t (Some (cs_current_view (en_state e), h)) (en_state e)" by (rule s)
  show "signed_votes (sign_vote deps t h ext (e\<lparr>en_state := s\<rparr>)) = insert (make_vote deps s h t ext) (signed_votes e)"
    by (auto simp: sign_vote_unfold signed_votes_def Let_def)
  show "seen IB (en_log (sign_vote deps t h ext (e\<lparr>en_state := s\<rparr>))) = seen IB (en_log e)"
    by (simp add: sign_vote_unfold Let_def)
  assume v: "v \<in> signed_votes e" "v_vote_type v = t" "v_view v = cs_current_view (en_state e)"
  with assms(1) have "covers (vote_slot t (en_state e)) v" by (auto simp: records_ok_def)
  with g v(3) show "v_block_hash v = h" by (auto simp: covers_def slot_admits_def)
qed

lemma conf_sign:
  assumes "replica_ok N me journal deps" "conf N me r e"
    and "signed_votes e' = insert (make_vote deps s h t ext) (signed_votes e)"
    and "cs_validator_id s = cs_validator_id (en_state e)" "cs_chain_id_hash s = cs_chain_id_hash (en_state e)"
    and "cs_validator_id (en_state e') = cs_validator_id (en_state e)" "cs_chain_id_hash (en_state e') = cs_chain_id_hash (en_state e)"
    and "cs_validator_set (en_state e') = cs_validator_set (en_state e)" "cs_current_epoch (en_state e') = cs_current_epoch (en_state e)"
    and "cs_current_view (en_state e') = cs_current_view (en_state e)"
    and "en_pending_epoch e' = en_pending_epoch e" "en_previous_epoch e' = en_previous_epoch e"
  shows "conf N me r e'"
proof -
  have "vote_valid (nt_verify N) (nt_blake3 N) (nt_chain N) (nt_vs N) (make_vote deps s h t ext)"
    if "get_validator (nt_vs N) (v_validator (make_vote deps s h t ext)) \<noteq> None"
    using that assms(1,2,4,5) by (auto simp: vote_valid_def make_vote_def replica_ok_def conf_def)
  with assms(2) show ?thesis unfolding conf_def assms(3,6-12) by simp
qed

lemma safety_vote1:
  assumes inv: "safety_inv N me journal IB deps r e"
    and b: "votable N me journal IB deps (en_log e) (cs_locked_qc (en_state e)) b"
    and g: "check_and_record_vote Vote (cs_current_view (en_state e)) (b_hash b) (en_state e) = (s, True)"
  shows "safety_inv N me journal IB deps r (sign_vote deps Vote (b_hash b) None (e\<lparr>en_state := s\<rparr>))"
    (is "safety_inv _ _ _ _ _ _ ?e")
  unfolding safety_inv_def
proof (intro impI conjI)
  assume ok: "replica_ok N me journal deps"
  with inv have c: "conf N me r e" "certs N (signed_votes e) e" "records_ok e" unfolding safety_inv_def by blast+
  note v = granted_vote [OF c(3) g]
  have st: "en_state ?e = s" by (simp add: sign_vote_def)
  show "conf N me r ?e" by (rule conf_sign [OF ok c(1) v(2)]) (simp_all add: sign_vote_def v(1))
  have sub: "signed_votes e \<subseteq> signed_votes ?e" unfolding v(2) by (rule subset_insertI)
  show "certs N (signed_votes ?e) ?e"
    using certs_mono [OF c(2) sub] by (simp add: certs_def sign_vote_def v(1))
  show "records_ok ?e" by (rule records_ok_sign [OF c(3) g])
  assume "collision_free N (seen IB (en_log ?e))"
  then have cf: "collision_free N (seen IB (en_log e))" by (simp add: v(3))
  with inv ok have sf: "safe N me journal IB r e" unfolding safety_inv_def by blast
  from b ok cf obtain j where j: "rests_on N (signed_votes e) (seen IB (en_log e)) b j"
    "view_le (cs_locked_qc (en_state e)) (Some j)" unfolding votable_def signed_votes_def by blast
  have "signed_ok N me (seen IB (en_log e)) (cs_locked_qc (en_state e))
      (insert (make_vote deps s (b_hash b) Vote None) (signed_votes e))"
    by (rule signed_ok_vote1 [OF _ j]) (use sf c(1) v in \<open>simp_all add: safe_def Let_def conf_def\<close>)
  moreover have "en_store ?e = en_store e" "en_app ?e = en_app e" "cs_locked_qc s = cs_locked_qc (en_state e)"
    "cs_last_committed_height s = cs_last_committed_height (en_state e)" by (simp_all add: v(1) sign_vote_def)
  moreover have "executed_ok N (signed_votes ?e) (seen IB (en_log e)) (cs_last_committed_height (en_state e)) (journal (en_app e))"
    using sf executed_ok_mono [OF _ order_refl sub] by (simp add: safe_def Let_def)
  ultimately show "safe N me journal IB r ?e" using sf by (simp only: safe_def Let_def v(2,3) st)
qed

lemma safety_vote2:
  assumes inv: "safety_inv N me journal IB deps r e"
    and qc: "replica_ok N me journal deps \<Longrightarrow> qc_valid N (signed_votes e) Vote qc []" "qc_view qc = cs_current_view (en_state e)"
    and le: "view_le (Some qc) (cs_highest_qc (en_state e))"
    and g: "check_and_record_vote Vote2 (cs_current_view (en_state e)) (qc_block_hash qc) (en_state e) = (s, True)"
  shows "safety_inv N me journal IB deps r
      ((sign_vote deps Vote2 (qc_block_hash qc) ext (e\<lparr>en_state := s\<rparr>))\<lparr>en_state := update_locked_qc qc s\<rparr>)"
    (is "safety_inv _ _ _ _ _ _ (?x\<lparr>en_state := _\<rparr>)")
  unfolding safety_inv_def
proof (intro impI conjI)
  let ?e = "?x\<lparr>en_state := update_locked_qc qc s\<rparr>"
  assume ok: "replica_ok N me journal deps"
  with inv have c: "conf N me r e" "certs N (signed_votes e) e" "records_ok e" unfolding safety_inv_def by blast+
  note v = granted_vote [OF c(3) g]
  have up: "cs_validator_id (update_locked_qc qc s) = cs_validator_id s"
    "cs_validator_set (update_locked_qc qc s) = cs_validator_set s" "cs_chain_id_hash (update_locked_qc qc s) = cs_chain_id_hash s"
    "cs_current_epoch (update_locked_qc qc s) = cs_current_epoch s" "cs_current_view (update_locked_qc qc s) = cs_current_view s"
    "cs_highest_qc (update_locked_qc qc s) = cs_highest_qc s" "cs_last_vote1 (update_locked_qc qc s) = cs_last_vote1 s"
    "cs_last_vote2 (update_locked_qc qc s) = cs_last_vote2 s"
    "cs_last_committed_height (update_locked_qc qc s) = cs_last_committed_height s"
    by (simp_all add: update_locked_qc_def)
  have sv: "signed_votes ?e = insert (make_vote deps s (qc_block_hash qc) Vote2 ext) (signed_votes e)"
    by (simp add: v(2))
  show "conf N me r ?e" by (rule conf_sign [OF ok c(1) sv]) (simp_all add: sign_vote_def up, simp_all add: v(1))
  have sub: "signed_votes e \<subseteq> signed_votes ?e" unfolding sv by (rule subset_insertI)
  show "certs N (signed_votes ?e) ?e"
    using certs_mono [OF c(2) sub] qc_valid_mono [OF qc(1) [OF ok] sub] le
    by (auto simp: certs_def sign_vote_def v(1) up update_locked_qc_slot)
  show "records_ok ?e"
    by (rule records_ok_upd [OF records_ok_sign [OF c(3) g, of deps ext]]) (simp_all add: sign_vote_def up)
  assume "collision_free N (seen IB (en_log ?e))"
  then have cf: "collision_free N (seen IB (en_log e))" by (simp add: v(3))
  with inv ok have sf: "safe N me journal IB r e" unfolding safety_inv_def by blast
  have lk: "view_le (cs_locked_qc (en_state e)) (cs_locked_qc (update_locked_qc qc s))"
    using update_locked_qc_mono(1) [of s qc] by (simp add: v(1))
  have "signed_ok N me (seen IB (en_log e)) (cs_locked_qc (update_locked_qc qc s))
      (insert (make_vote deps s (qc_block_hash qc) Vote2 ext) (signed_votes e))"
    by (rule signed_ok_vote2 [OF _ qc(1) [OF ok] lk update_locked_qc_mono(2)])
       (use sf c qc(2) v in \<open>simp_all add: safe_def Let_def conf_def records_ok_def\<close>)
  moreover note sv
  moreover have "executed_ok N (signed_votes ?e) (seen IB (en_log e)) (cs_last_committed_height (en_state e)) (journal (en_app e))"
    using sf executed_ok_mono [OF _ order_refl sub] by (simp add: safe_def Let_def)
  moreover have "seen IB (en_log ?e) = seen IB (en_log e)" by (simp add: v(3))
  moreover have "en_state ?e = update_locked_qc qc s" "en_store ?e = en_store e" "en_app ?e = en_app e"
    "cs_last_committed_height (update_locked_qc qc s) = cs_last_committed_height (en_state e)"
    by (simp_all add: v(1) up sign_vote_def) (simp add: update_locked_qc_def)
  ultimately show "safe N me journal IB r ?e" using sf by (simp only: safe_def Let_def)
qed

lemma safe_put_block:
  assumes "safe N me journal IB None e" "collision_free N (seen IB (en_log e))" "known N (seen IB (en_log e)) b"
  shows "safe N me journal IB None (e\<lparr>en_store := put_block b (en_store e)\<rparr>)"
proof -
  let ?B = "seen IB (en_log e)" and ?st = "en_store e"
  have sf: "store_ok N ?B (vb_by_hash ?st)" "pinned ?st (cs_last_committed_height (en_state e)) (tip (journal (en_app e)))"
    using assms(1) by (simp_all add: safe_def Let_def)
  have "c = b" if c: "vb_by_hash ?st (b_hash b) = Some c" for c
  proof -
    have "b_hash b \<noteq> GENESIS_HASH" using assms(2,3) unfolding known_def collision_free_def by blast
    with store_ok_block [OF sf(1) c] have "known N ?B c" "b_hash c = b_hash b" by (auto simp: genesis_block_def)
    with assms(2,3) show ?thesis unfolding known_def collision_free_def by blast
  qed
  moreover have "0 < b_height b" using assms(3) by (simp add: known_def good_block_def)
  ultimately have "pinned (put_block b ?st) (cs_last_committed_height (en_state e)) (tip (journal (en_app e)))"
    by (intro pinned_put_block [OF sf(2)])
  moreover have "store_ok N ?B (vb_by_hash (put_block b ?st))"
    unfolding put_by_hash by (rule store_ok_insert [OF sf(1) assms(3,2)])
  ultimately show ?thesis using assms(1) by (simp add: safe_def Let_def signed_votes_def)
qed

lemma safety_put_block:
  assumes "safety_inv N me journal IB deps None e" "b \<in> IB" "b_hash b = compute_hash (vd_blake3 deps) b" "0 < b_height b"
  shows "safety_inv N me journal IB deps None (e\<lparr>en_store := put_block b (en_store e)\<rparr>)"
proof -
  have "known N (seen IB (en_log e)) b" if "replica_ok N me journal deps"
    using assms(2-4) replica_deps(3) [OF that] by (simp add: known_def good_block_def seen_def)
  with assms(1) safe_put_block [of N me journal IB e b] show ?thesis
    by (simp add: safety_inv_def conf_def certs_def records_ok_def signed_votes_def)
qed

lemma safety_put_qc:
  assumes "safety_inv N me journal IB deps None e" "get_block (en_store e) (qc_block_hash qc) = Some b"
    and "get_commit_qc (en_store e) (b_height b) = None"
  shows "safety_inv N me journal IB deps None (e\<lparr>en_store := put_commit_qc (b_height b) qc (en_store e)\<rparr>)"
proof -
  let ?B = "seen IB (en_log e)" and ?st = "en_store e" and ?h = "cs_last_committed_height (en_state e)"
  have "safe N me journal IB None (e\<lparr>en_store := put_commit_qc (b_height b) qc (en_store e)\<rparr>)"
    if sf: "safe N me journal IB None e"
  proof -
    have st: "store_ok N ?B (vb_by_hash ?st)" and pin: "pinned ?st ?h (tip (journal (en_app e)))"
      and ex: "executed_ok N (signed_votes e) ?B ?h (journal (en_app e))" using sf by (simp_all add: safe_def Let_def)
    have "qc_block_hash qc = tip (journal (en_app e))" if h: "b_height b = ?h"
    proof (cases "?h = 0")
      case True
      with ex have "tip (journal (en_app e)) = GENESIS_HASH" by (auto simp: executed_ok_def tip_def)
      moreover have "\<not> known N ?B b" using h True by (simp add: known_def good_block_def)
      ultimately show ?thesis
        using store_ok_block [OF st assms(2) [unfolded get_block_def]] by (auto simp: genesis_block_def)
    next
      case False
      with pin assms(3) h show ?thesis by (auto simp: pinned_def get_commit_qc_def)
    qed
    then have "pinned (put_commit_qc (b_height b) qc ?st) ?h (tip (journal (en_app e)))" by (rule pinned_put_qc [OF pin])
    with sf show ?thesis by (simp add: safe_def Let_def put_by_hash signed_votes_def)
  qed
  with assms(1) show ?thesis by (simp add: safety_inv_def conf_def certs_def records_ok_def signed_votes_def)
qed

text \<open>A block with a stored parent one height below and a certificate for it rests on the certificate.\<close>

lemma rests_on_stored:
  assumes "store_ok N B bs" "known N B b" "b_parent_hash b = qc_block_hash j" "justified N V j"
    and "bs (qc_block_hash j) = Some p" "next_height (b_height p) = Some (b_height b)"
  shows "rests_on N V B b j"
proof -
  have "unat (b_height b) = Suc (unat (b_height p))"
    using assms(6) by (auto simp: next_height_def checked_add_1_Some unat_word_ariths)
  with assms(1-4) store_ok_block [OF assms(1,5)] show ?thesis unfolding rests_on_def by blast
qed

lemma dominates_view: "justify_dominates qc st \<Longrightarrow> view_le (cs_locked_qc st) (Some qc)"
  by (auto simp: justify_dominates_def qc_rank_def view_le_def split: option.splits)

lemma safety_highest:
  assumes "safety_inv N me journal IB deps r e" "replica_ok N me journal deps \<Longrightarrow> justified N (signed_votes e) qc"
  shows "safety_inv N me journal IB deps r (e\<lparr>en_state := update_highest_qc qc (en_state e)\<rparr>)"
proof (rule safety_upd [OF assms(1)])
  let ?e = "e\<lparr>en_state := update_highest_qc qc (en_state e)\<rparr>"
  have up: "cs_locked_qc (update_highest_qc qc (en_state e)) = cs_locked_qc (en_state e)" by (simp add: update_highest_qc_def)
  show "certs N (signed_votes e) ?e" if "certs N (signed_votes e) e" "replica_ok N me journal deps"
    using that assms(2) view_le_trans [OF _ update_highest_qc_mono(1) [of "en_state e" qc]]
    by (auto simp: certs_def up update_highest_qc_slot)
  show "records_ok e \<Longrightarrow> records_ok ?e"
    by (erule records_ok_upd) (simp_all add: update_highest_qc_def)
qed (simp_all add: update_highest_qc_def conf_def)

lemma safety_accept:
  assumes inv: "safety_inv N me journal IB deps None e" and "b \<in> IB" and qc: "replica_ok N me journal deps \<Longrightarrow> justified N (signed_votes e) qc"
    and "check_proposal deps now_ms b qc epochs (en_state e) (en_store e) (en_app e) = Inr ()"
  shows "safety_inv N me journal IB deps None
      (e\<lparr>en_store := put_block b (en_store e), en_state := update_highest_qc qc (en_state e)\<rparr>)"
    "votable N me journal IB deps (en_log e) (cs_locked_qc (en_state e)) b"
proof -
  have v: "proposal_valid deps now_ms b qc epochs (en_state e) (en_store e) (en_app e)"
    using assms(4) by (simp add: check_proposal_Inr)
  then obtain p where p: "get_block (en_store e) (qc_block_hash qc) = Some p" "next_height (b_height p) = Some (b_height b)"
    and b: "b_hash b = compute_hash (vd_blake3 deps) b" "b_parent_hash b = qc_block_hash qc"
    and d: "justify_dominates qc (en_state e)"
    unfolding proposal_valid_def by blast
  note pos = next_height_pos [OF p(2)]
  have "safety_inv N me journal IB deps None (e\<lparr>en_store := put_block b (en_store e)\<rparr>)"
    by (rule safety_put_block [OF inv assms(2) b(1) pos])
  from safety_highest [OF this, of qc] qc
  show "safety_inv N me journal IB deps None
      (e\<lparr>en_store := put_block b (en_store e), en_state := update_highest_qc qc (en_state e)\<rparr>)" by simp
  show "votable N me journal IB deps (en_log e) (cs_locked_qc (en_state e)) b"
    unfolding votable_def
  proof (intro impI exI conjI)
    assume ok: "replica_ok N me journal deps" and cf: "collision_free N (seen IB (en_log e))"
    have "store_ok N (seen IB (en_log e)) (vb_by_hash (en_store e))"
      using inv ok cf by (simp add: safety_inv_def safe_def Let_def)
    moreover have "known N (seen IB (en_log e)) b"
      using assms(2) b(1) pos replica_deps(3) [OF ok] by (simp add: known_def good_block_def seen_def)
    ultimately show "rests_on N {vote. SignVote vote \<in> fst ` set (en_log e)} (seen IB (en_log e)) b qc"
      unfolding signed_votes_def [symmetric]
      by (rule rests_on_stored [where bs = "vb_by_hash (en_store e)", OF _ _ b(2) qc [OF ok] p(1) [unfolded get_block_def] p(2)])
    show "view_le (cs_locked_qc (en_state e)) (Some qc)"
      by (rule dominates_view [OF d])
  qed
qed

lemma safety_propose:
  assumes inv: "safety_inv N me journal IB deps None e"
    and "propose deps now_ms evs epochs (en_state e) (en_store e) (en_app e) = (s, store, a, out, Inr b)"
  shows "safety_inv N me journal IB deps None (perform_all out (e\<lparr>en_state := s, en_store := store, en_app := a\<rparr>))"
      (is "safety_inv _ _ _ _ _ _ ?e")
    "votable N me journal IB deps (en_log (perform_all out (e\<lparr>en_state := s, en_store := store, en_app := a\<rparr>)))
      (cs_locked_qc s) b"
proof -
  obtain j p sg ancestors where j: "cs_highest_qc (en_state e) = Some j"
    and p: "get_block (en_store e) (qc_block_hash j) = Some p" "next_height (b_height p) = Some (b_height b)"
    and b: "b_parent_hash b = qc_block_hash j" "b_hash b = compute_hash (vd_blake3 deps) b"
    and st: "store = put_block b (en_store e)"
      "out = [Broadcast (Propose b j (cs_highest_double_cert (en_state e)) sg ancestors)]"
      "s = (en_state e)\<lparr>cs_pending_vote_extensions := [], cs_step := CollectingVotes\<rparr>"
    using propose_block [OF assms(2)] by metis
  let ?m = "Broadcast (Propose b j (cs_highest_double_cert (en_state e)) sg ancestors)"
  let ?x = "(?m, s, en_persistence e)"
  have e: "?e = e\<lparr>en_state := s, en_store := put_block b (en_store e), en_app := a, en_log := en_log e @ [?x]\<rparr>"
    by (simp add: st(1,2) perform_log)
  let ?B = "seen IB (en_log e)" and ?B' = "seen IB (en_log e @ [?x])"
  have sub: "?B \<subseteq> ?B'" by (rule seen_mono)
  have sv: "signed_votes (e\<lparr>en_log := en_log e @ [?x]\<rparr>) = signed_votes e" by (simp add: signed_votes_append)
  then have sv': "signed_votes ?e = signed_votes e" by (simp add: signed_votes_def e)
  have k: "known N ?B' b" if "replica_ok N me journal deps"
    using b(2) next_height_pos [OF p(2)] replica_deps(3) [OF that] by (auto simp: known_def good_block_def seen_def)
  have up: "en_state ?e = s" "en_log ?e = en_log e @ [?x]" by (simp_all add: e)
  have le: "view_le (cs_locked_qc s) (Some j)" "justified N (signed_votes e) j" if "replica_ok N me journal deps"
    using inv that j by (auto simp: safety_inv_def certs_def st(3))
  show "safety_inv N me journal IB deps None ?e"
    unfolding safety_inv_def
  proof (intro impI conjI)
    assume ok: "replica_ok N me journal deps"
    with inv have c: "conf N me None e" "certs N (signed_votes e) e" "records_ok e" unfolding safety_inv_def by blast+
    show "conf N me None ?e" using c(1) unfolding conf_def sv' by (simp add: e st(3))
    show "certs N (signed_votes ?e) ?e" using c(2) sv' by (simp add: certs_def e st(3))
    have "records_ok (e\<lparr>en_state := s, en_store := store, en_app := a\<rparr>)"
      by (rule records_ok_upd [OF c(3)]) (simp_all add: st(3))
    then have "records_ok (perform ?m (e\<lparr>en_state := s, en_store := store, en_app := a\<rparr>))"
      by (rule records_ok_emit) simp_all
    then show "records_ok ?e" by (simp add: st(2))
    assume cf: "collision_free N (seen IB (en_log ?e))"
    with inv ok sub have sf: "safe N me journal IB None e"
      using collision_free_mono unfolding safety_inv_def up by blast
    have a: "journal a = journal (en_app e)"
      using propose_app [OF assms(2)] journal_steps(1) [OF replica_deps(4) [OF ok]] by auto
    have "safe N me journal IB None (e\<lparr>en_state := s, en_app := a, en_log := en_log e @ [?x]\<rparr>)"
      by (rule safe_mono [OF sf]) (use sub sv a in \<open>simp_all add: st(3) signed_votes_def\<close>)
    then have "safe N me journal IB None ((e\<lparr>en_state := s, en_app := a, en_log := en_log e @ [?x]\<rparr>)\<lparr>
        en_store := put_block b (en_store e)\<rparr>)"
      using safe_put_block [of N me journal IB "e\<lparr>en_state := s, en_app := a, en_log := en_log e @ [?x]\<rparr>" b] cf k [OF ok]
      by (simp add: up)
    moreover have "?e = (e\<lparr>en_state := s, en_app := a, en_log := en_log e @ [?x]\<rparr>)\<lparr>
        en_store := put_block b (en_store e)\<rparr>" by (simp add: e)
    ultimately show "safe N me journal IB None ?e" by (simp only:)
  qed
  show "votable N me journal IB deps (en_log ?e) (cs_locked_qc s) b"
    unfolding votable_def up
  proof (intro impI exI conjI)
    assume ok: "replica_ok N me journal deps" and cf: "collision_free N ?B'"
    have "store_ok N ?B (vb_by_hash (en_store e))"
      using inv ok collision_free_mono [OF cf sub] by (simp add: safety_inv_def safe_def Let_def)
    then have "store_ok N ?B' (vb_by_hash (en_store e))" using sub by (rule store_ok_mono)
    moreover have "{vote. SignVote vote \<in> fst ` set (en_log e @ [?x])} = signed_votes e"
      using sv by (simp add: signed_votes_def)
    ultimately show "rests_on N {vote. SignVote vote \<in> fst ` set (en_log e @ [?x])} ?B' b j"
      using le(2) [OF ok] by (simp only:) (rule rests_on_stored [where bs = "vb_by_hash (en_store e)", OF _ k [OF ok] b(1) _ p(1) [unfolded get_block_def] p(2)])
    show "view_le (cs_locked_qc s) (Some j)" by (rule le(1) [OF ok])
  qed
qed

text \<open>Commits.\<close>

lemma pinned_committed:
  assumes "store_ok N B (vb_by_hash store)" "pinned store h t" "committed_at (get_block_by_height store) h p"
  shows "b_hash p = t"
proof -
  from assms(2) obtain b where b: "map_of (vb_by_height store) h = Some t" "vb_by_hash store t = Some b"
    by (auto simp: pinned_def)
  with assms(3) have "b_hash b = b_hash p" by (auto simp: committed_at_def get_block_by_height_def)
  with store_ok_block [OF assms(1) b(2)] show ?thesis by simp
qed

lemma executed_extends:
  assumes "executed_ok N V B h C" "chained (tip C) bs" "bs \<noteq> []" "\<forall>b \<in> set bs. known N B b"
    and "unat (b_height (last bs)) = length C + length bs" "qc_valid N V Vote2 qc exts" "qc_block_hash qc = b_hash (last bs)"
  shows "executed_ok N V B (b_height (last bs)) (C @ bs)"
  using assms unfolding executed_ok_def tip_def by (auto simp: chained_append)

lemma safety_commit:
  assumes inv: "safety_inv N me journal IB deps None e"
    and outer: "replica_ok N me journal deps \<Longrightarrow> qc_valid N (signed_votes e) Vote2 outer exts"
      "qc_block_hash outer = qc_block_hash (dc_inner_qc dc)"
    and t: "try_commit (vd_app deps) (get_block (en_store e)) (get_block_by_height (en_store e)) dc
        (cs_current_epoch (en_state e)) (en_previous_epoch e) (en_pending_epoch e)
        (cs_last_committed_height (en_state e)) (en_app e) = (h, a, res)"
    and res: "res = Inl err \<and> \<not> commit_panics err \<and> r = None \<or>
        res = Inr cr \<and> r = (if cr_committed_blocks cr = [] then None else Some cr)"
  shows "safety_inv N me journal IB deps r (e\<lparr>en_app := a, en_state := (en_state e)\<lparr>cs_last_committed_height := h\<rparr>\<rparr>)"
proof -
  let ?h = "cs_last_committed_height (en_state e)" and ?B = "seen IB (en_log e)" and ?C = "journal (en_app e)"
  let ?tc = "try_commit (vd_app deps) (get_block (en_store e)) (get_block_by_height (en_store e)) dc
        (cs_current_epoch (en_state e)) (en_previous_epoch e) (en_pending_epoch e) ?h (en_app e)"
  have same: ?thesis if "h = ?h" "a = en_app e" "r = None" using inv that by simp
  show ?thesis
  proof (cases rule: try_commit_cases [of "get_block (en_store e)" dc "vd_app deps" "get_block_by_height (en_store e)"
        "cs_current_epoch (en_state e)" "en_previous_epoch e" "en_pending_epoch e" ?h "en_app e"])
    case (chain p bs)
    let ?acc = "initial_acc (cs_current_epoch (en_state e)) (en_previous_epoch e) (en_pending_epoch e) ?h (en_app e)"
    note c = try_commit_chain [OF chain, of "vd_app deps" "cs_current_epoch (en_state e)" "en_previous_epoch e"
        "en_pending_epoch e" "en_app e", unfolded t]
    show ?thesis
      unfolding safety_inv_def
    proof (intro impI)
      assume ok: "replica_ok N me journal deps"
      with inv have i: "conf N me None e" "certs N (signed_votes e) e" "records_ok e" unfolding safety_inv_def by blast+
      have q: "quiet_acc ?acc" using i(1) by (simp add: quiet_acc_def initial_acc_def conf_def)
      note j = commit_blocks_journal [OF replica_deps(4) [OF ok] q]
      obtain acc where acc: "commit_blocks (vd_app deps) bs ?acc = Inr acc"
      proof (cases "commit_blocks (vd_app deps) bs ?acc")
        case (Inl x)
        with j(2) [of bs "fst x" "snd x"] c res have False by (auto split: prod.splits)
        then show ?thesis ..
      qed (rule that)
      with c res have r: "r = Some cr" "cr = result_of dc bs acc" and ha: "h = ca_height acc" "a = ca_app acc"
        using chain(3) by (auto simp: result_of_def)
      have cr: "cr_committed_blocks cr = bs" "cr_commit_qc cr = dc_inner_qc dc" by (simp_all add: r(2) result_of_def)
      from j(1) [OF acc] have jr: "quiet_acc acc" "journal a = ?C @ bs" by (simp_all add: ha initial_acc_def)
      have h: "h = b_height (last bs)" using commit_blocks_Inr [OF acc] chain(3) ha by simp
      show "conf N me r (e\<lparr>en_app := a, en_state := (en_state e)\<lparr>cs_last_committed_height := h\<rparr>\<rparr>) \<and>
        certs N (signed_votes (e\<lparr>en_app := a, en_state := (en_state e)\<lparr>cs_last_committed_height := h\<rparr>\<rparr>))
          (e\<lparr>en_app := a, en_state := (en_state e)\<lparr>cs_last_committed_height := h\<rparr>\<rparr>) \<and>
        records_ok (e\<lparr>en_app := a, en_state := (en_state e)\<lparr>cs_last_committed_height := h\<rparr>\<rparr>) \<and>
        (collision_free N (seen IB (en_log (e\<lparr>en_app := a, en_state := (en_state e)\<lparr>cs_last_committed_height := h\<rparr>\<rparr>))) \<longrightarrow>
         safe N me journal IB r (e\<lparr>en_app := a, en_state := (en_state e)\<lparr>cs_last_committed_height := h\<rparr>\<rparr>))"
      proof (intro conjI impI)
        let ?e = "e\<lparr>en_app := a, en_state := (en_state e)\<lparr>cs_last_committed_height := h\<rparr>\<rparr>"
        show "conf N me r ?e" using i(1) jr(1) by (simp add: conf_def r result_of_def quiet_acc_def)
        show "certs N (signed_votes ?e) ?e" using i(2) by (simp add: certs_def)
        show "records_ok ?e" by (rule records_ok_upd [OF i(3)]) simp_all
        assume "collision_free N (seen IB (en_log ?e))"
        with inv ok have sf: "safe N me journal IB None e" by (simp add: safety_inv_def)
        then have st: "store_ok N ?B (vb_by_hash (en_store e))" and pin: "pinned (en_store e) ?h (tip ?C)"
          and ex: "executed_ok N (signed_votes e) ?B ?h ?C" by (simp_all add: safe_def Let_def)
        have g: "get_block (en_store e) = vb_by_hash (en_store e)" by (rule ext) (simp add: get_block_def)
        note l = links_known [OF st chain(2) [unfolded g] chain(3) chain(1) [unfolded g]]
        have p: "b_hash p = tip ?C" by (rule pinned_committed [OF st pin chain(4)])
        have hash: "qc_block_hash (dc_inner_qc dc) = b_hash (last bs)"
          using store_ok_block [OF st chain(1) [unfolded g]] by simp
        have "unat (b_height (last bs)) = length ?C + length bs"
          using links_last_height [OF chain(2,3)] chain(4) ex by (simp add: committed_at_def executed_ok_def)
        then have "executed_ok N (signed_votes e) ?B h (?C @ bs)"
          using executed_extends [OF ex _ chain(3) _ _ outer(1) [OF ok]] l p outer(2) hash by (simp add: h)
        moreover have "recording (en_store e) h (tip (?C @ bs)) cr"
          using chain(3) l hash by (simp add: recording_def cr tip_def h)
        ultimately show "safe N me journal IB r ?e"
          using sf jr(2) by (simp add: safe_def Let_def r(1) signed_votes_def)
      qed
    qed
  qed (use same t res in auto)
qed

lemma safety_record:
  assumes inv: "safety_inv N me journal IB (ee_deps env) (Some cr) e" and ne: "cr_committed_blocks cr \<noteq> []"
  shows "safety_inv N me journal IB (ee_deps env) None (process_commit_result env cr (adopt_commit_epoch cr e))"
    (is "safety_inv _ _ _ _ _ _ ?e")
  unfolding safety_inv_def
proof (intro impI conjI)
  assume ok: "replica_ok N me journal (ee_deps env)"
  with inv have c: "conf N me (Some cr) e" "certs N (signed_votes e) e" "records_ok e" unfolding safety_inv_def by blast+
  have st: "en_state (adopt_commit_epoch cr e) = en_state e" "cr_pending_epoch cr = None"
    "en_previous_epoch (adopt_commit_epoch cr e) = en_previous_epoch e"
    using c(1) by (simp_all add: adopt_commit_state conf_def)
  have sv: "signed_votes ?e = signed_votes e" by (simp add: signed_votes_def)
  show "conf N me None ?e" using c(1) by (simp add: conf_def st sv)
  show "certs N (signed_votes ?e) ?e" using c(2) by (simp add: certs_def st sv)
  show "records_ok ?e"
    by (rule records_ok_upd [OF c(3)]) (auto simp: st process_commit_effect [OF ne])
  assume "collision_free N (seen IB (en_log ?e))"
  with inv ok have sf: "safe N me journal IB (Some cr) e" by (simp add: safety_inv_def)
  let ?store = "store_committed (vd_blake3 (ee_deps env)) (cr_commit_qc cr) (cr_block_responses cr) 0
      (cr_committed_blocks cr) (en_store e)"
  let ?h = "cs_last_committed_height (en_state e)" and ?t = "tip (journal (en_app e))"
  have "recording (en_store e) ?h ?t cr" using sf by (simp add: safe_def Let_def)
  then have "pinned ?store ?h ?t" unfolding recording_def by (intro store_committed_pins) blast+
  moreover have "en_store ?e = ?store" by (simp add: process_commit_effect [OF ne])
  moreover note sv
  ultimately show "safe N me journal IB None ?e"
    using sf by (simp add: safe_def Let_def st store_committed_hash)
qed

lemma certs_clear:
  assumes "certs N V e"
  shows "certs N V (clear_old_view e)"
proof -
  let ?v = "cs_current_view (en_state e)" and ?c = "en_vote_collector e" and ?pm = "en_pacemaker e"
  let ?c' = "vc_prune_before ?v (vc_clear_view ?v ?c)" and ?pm' = "pm_prune_before ?v (pm_clear_view ?v ?pm)"
  have "pm_wf ?pm'" using assms by (intro pm_wf_preserved) (simp add: certs_def)
  moreover have "justified N V qc" if "(i, Some qc, sg) \<in> set (wishes_for ?pm' u)" for u i qc sg
  proof -
    from that have "(i, Some qc, sg) \<in> set (wishes_for ?pm u)"
      by (auto simp: wishes_for_def pm_prune_before_def pm_clear_view_def split: option.splits if_splits)
    with assms show ?thesis unfolding certs_def by blast
  qed
  moreover have "vc_wf (\<lambda>_. nt_vs N) ?c'" using assms by (intro vc_prune_wf vc_clear_wf) (simp add: certs_def)
  moreover have "stored ?c' \<subseteq> stored ?c" by (auto simp: stored_def vc_prune_before_def vc_clear_view_def)
  moreover have "en_pacemaker (clear_old_view e) = ?pm'" "en_vote_collector (clear_old_view e) = ?c'"
    "en_state (clear_old_view e) = en_state e" "en_current_view_qc (clear_old_view e) = None"
    by (simp_all add: clear_old_view_def Let_def)
  ultimately show ?thesis using assms unfolding certs_def by (simp only:) blast
qed

lemma certs_same:
  assumes "certs N V e" "pm_wishes (en_pacemaker e') = pm_wishes (en_pacemaker e)"
    and "en_vote_collector e' = en_vote_collector e" "en_current_view_qc e' = en_current_view_qc e"
    and "cs_locked_qc (en_state e') = cs_locked_qc (en_state e)" "cs_highest_qc (en_state e') = cs_highest_qc (en_state e)"
  shows "certs N V e'"
proof -
  have "wishes_for (en_pacemaker e') = wishes_for (en_pacemaker e)" using assms(2) by (intro ext) (simp add: wishes_for_def)
  with assms show ?thesis by (simp add: certs_def pm_wf_def)
qed

lemma safety_lock:
  assumes inv: "safety_inv N me journal IB deps r e" and qc: "replica_ok N me journal deps \<Longrightarrow> qc_valid N (signed_votes e) Vote qc []"
  shows "safety_inv N me journal IB deps r (e\<lparr>en_state := update_highest_qc qc (update_locked_qc qc (en_state e))\<rparr>)"
    (is "safety_inv _ _ _ _ _ _ (e\<lparr>en_state := ?s\<rparr>)")
proof (rule safety_upd [OF inv])
  have l: "cs_locked_qc ?s = cs_locked_qc (update_locked_qc qc (en_state e))"
    and h: "cs_highest_qc ?s = cs_highest_qc (update_highest_qc qc (en_state e))"
    by (simp_all add: update_highest_qc_def update_locked_qc_def)
  show "view_le (cs_locked_qc (en_state e)) (cs_locked_qc (en_state (e\<lparr>en_state := ?s\<rparr>)))"
    by (simp add: l update_locked_qc_mono)
  show "certs N (signed_votes e) (e\<lparr>en_state := ?s\<rparr>)" if c: "certs N (signed_votes e) e" and ok: "replica_ok N me journal deps"
  proof -
    have "view_le (cs_locked_qc ?s) (cs_highest_qc ?s)"
      using c view_le_trans [OF _ update_highest_qc_mono(1) [of "en_state e" qc]] update_highest_qc_mono(2) [of qc "en_state e"]
      by (auto simp: l h update_locked_qc_slot certs_def)
    with c qc [OF ok] show ?thesis
      by (auto simp: certs_def l h update_locked_qc_slot update_highest_qc_slot justified_def)
  qed
  show "records_ok (e\<lparr>en_state := ?s\<rparr>)" if "records_ok e"
    by (rule records_ok_upd [OF that]) (simp_all add: update_highest_qc_def update_locked_qc_def)
qed (simp_all add: update_highest_qc_def update_locked_qc_def conf_def)

lemma safety_emit:
  assumes "safety_inv N me journal IB deps r e" "\<not> vote_effect eff" "\<forall>vote. vote_sent eff = Some vote \<longrightarrow> vote \<in> signed_votes e"
  shows "safety_inv N me journal IB deps r (perform eff e)"
proof (rule safety_upd [OF assms(1)])
  have sv: "signed_votes (perform eff e) = signed_votes e"
    using assms(2) by (auto simp: perform_log signed_votes_append split: effect.splits)
  then show "en_log (perform eff e) = en_log e \<or>
      (\<exists>x. en_log (perform eff e) = en_log e @ x \<and> signed_votes (perform eff e) = signed_votes e)"
    using assms(2) by (simp add: perform_log)
  show "records_ok e \<Longrightarrow> records_ok (perform eff e)" by (rule records_ok_emit [OF _ assms(2,3)])
  show "conf N me r e \<Longrightarrow> conf N me r (perform eff e)" by (simp add: conf_def sv)
qed (simp_all add: certs_def)

lemma safety_quiet:
  assumes "safety_inv N me journal IB deps r e" "same_core e e'"
  shows "safety_inv N me journal IB deps r e'"
proof -
  note c = assms(2) [unfolded core_simps, simplified]
  show ?thesis
  proof (rule safety_upd [OF assms(1)])
    show "certs N (signed_votes e) e \<Longrightarrow> certs N (signed_votes e) e'" by (rule certs_same) (use c in simp_all)
    show "records_ok e \<Longrightarrow> records_ok e'" by (erule records_ok_upd) (use c in simp_all)
    have "signed_votes e' = signed_votes e" using c by (simp add: signed_votes_def)
    then show "conf N me r e \<Longrightarrow> conf N me r e'" using c by (simp add: conf_def)
  qed (use c in simp_all)
qed

text \<open>While the validator set does not change, no epoch is pending and the epoch step does nothing.\<close>

lemma safety_epoch:
  assumes "safety_inv N me journal IB deps r e"
  shows "safety_inv N me journal IB deps r (epoch_transition env v e)"
proof (cases "replica_ok N me journal deps")
  case True
  with assms have "en_pending_epoch e = None" by (simp add: safety_inv_def conf_def)
  with assms show ?thesis by (simp add: epoch_transition_def)
qed (simp add: safety_inv_def)

lemma safety_collector:
  assumes "safety_inv N me journal IB deps r e" "\<lbrakk> replica_ok N me journal deps; certs N (signed_votes e) e; conf N me r e \<rbrakk> \<Longrightarrow> certs N (signed_votes e) (e\<lparr>en_vote_collector := c\<rparr>)"
  shows "safety_inv N me journal IB deps r (e\<lparr>en_vote_collector := c\<rparr>)"
  by (rule safety_upd [OF assms(1)]) (use assms(2) in \<open>simp_all add: conf_def\<close>)

lemma own_votes_sound: "\<lbrakk> conf N me r e; vote \<in> signed_votes e \<rbrakk> \<Longrightarrow> sound_vote N (signed_votes e) vote"
  by (auto simp: sound_vote_def conf_def)

interpretation replica: engine_rules deps "safety_inv N me journal IB deps"
    "\<lambda>V t qc exts. replica_ok N me journal deps \<longrightarrow> qc_valid N V t qc exts"
    "\<lambda>V qc. replica_ok N me journal deps \<longrightarrow> justified N V qc"
    "\<lambda>V vote. replica_ok N me journal deps \<longrightarrow> sound_vote N V vote"
    "\<lambda>b. b \<in> IB" "heard_qc N" "heard_vote N" "\<lambda>log locked highest m b. votable N me journal IB deps log locked b"
  for deps :: "'a ViewDeps" and N me journal IB
proof (unfold_locales, goal_cases)
  case (19 r e vote c res)
  have k: "vs_wf (nt_vs N)" "certs N (signed_votes e) e" "sound_vote N (signed_votes e) vote"
    "add_vote (nt_vs N) vote 0 (en_vote_collector e) = (c, res)" if "replica_ok N me journal deps"
    using 19 that by (auto simp: safety_inv_def conf_def replica_deps)
  show ?case
    using safety_collector [OF 19(1)] collect_certs [OF k] by blast
next
  case (20 r e hqc target i sg pm made)
  have k: "vs_wf (nt_vs N)" "certs N (signed_votes e) e" "\<And>qc. hqc = Some qc \<Longrightarrow> justified N (signed_votes e) qc"
    "add_wish (nt_vs N) target i hqc sg (en_pacemaker e) = (pm, made)" if "replica_ok N me journal deps"
    using 20 that by (auto simp: safety_inv_def conf_def replica_deps)
  have "safety_inv N me journal IB deps r (e\<lparr>en_pacemaker := pm\<rparr>)"
    by (rule safety_upd [OF 20(1)]) (use wish_certs(1) [OF k] in \<open>simp_all add: conf_def\<close>)
  with wish_certs(2) [OF k] show ?case by blast
next
  case (32 e v)
  show ?case
  proof (rule safety_upd [OF 32(1)])
    have "1 \<le> v" if "1 \<le> cs_current_view (en_state e)" using that 32(3) by (metis le_less_trans less_imp_le)
    then show "conf N me None (e\<lparr>en_state := (en_state e)\<lparr>cs_current_view := v\<rparr>\<rparr>)" if "conf N me None e"
      using that by (simp add: conf_def)
    show "records_ok e \<Longrightarrow> records_ok (e\<lparr>en_state := (en_state e)\<lparr>cs_current_view := v\<rparr>\<rparr>)"
      by (erule records_ok_upd) (use 32(3) in simp_all)
  qed (simp_all add: certs_def)
next
  case (15 r e q)
  show ?case by (rule safety_upd [OF 15(1)]) (use 15(2) in \<open>auto simp: conf_def certs_def records_ok_def signed_votes_def split: option.splits\<close>)
next
  case (3 r e)
  show ?case
  proof (rule safety_upd [OF 3])
    show "records_ok e \<Longrightarrow> records_ok (persist_state e)" by (erule records_ok_upd) (auto simp: persist_state_def)
  qed (simp_all add: persist_state_def conf_def certs_def signed_votes_def)
next
  case (30 e)
  show ?case
  proof (rule safety_upd [OF 30])
    show "records_ok e \<Longrightarrow> records_ok (clear_old_view e)" by (erule records_ok_upd) (simp_all add: clear_old_view_def Let_def)
    show "certs N (signed_votes e) e \<Longrightarrow> certs N (signed_votes e) (clear_old_view e)" by (rule certs_clear)
  qed (simp_all add: clear_old_view_def conf_def Let_def signed_votes_def)
next
  case (23 e b)
  have "0 < b_height b" using 23(4) by (metis le_less_trans word_zero_le)
  with 23 safety_put_block show ?case by blast
next
  case (29 cr e env)
  with safety_record [of N me journal IB env cr e] show ?case by simp
next
  case (27 e outer exts dc ht a cr)
  show ?case by (rule safety_commit [OF 27(1) _ 27(3,4)]) (use 27(2) in auto)
next
  case (28 e outer exts dc ht a err)
  show ?case by (rule safety_commit [OF 28(1) _ 28(3,4)]) (use 28(2,5) in auto)
next
  case (17 r e vote)
  then show ?case using verified_vote_sound replica_deps(2,3) by (metis safety_inv_def)
next
  case (18 r e vote)
  then show ?case using own_votes_sound by (metis safety_inv_def)
next
  case (7 r e qc)
  then show ?case using verified_qc_valid replica_deps(2,3) by (metis safety_inv_def)
next
  case (8 r e qc)
  then show ?case using verified_justified replica_deps(2,3) by (metis safety_inv_def)
next
  case (9 r e dc)
  then show ?case using verified_double_valid replica_deps(2,3) by (metis safety_inv_def)
next
  case (10 r e tc qc)
  then show ?case using verified_tc_justified replica_deps(1-3) by (metis safety_inv_def)
next
  case (11 r e qc)
  then show ?case by (simp add: safety_inv_def certs_def)
next
  case (12 r e qc)
  then show ?case by (simp add: safety_inv_def certs_def justified_def)
next
  case (13 r e qc)
  then show ?case by (simp add: safety_inv_def certs_def justified_def)
next
  case (25 e b qc now_ms)
  with safety_accept [of N me journal IB deps e b qc] show ?case by blast
next
  case (26 e now_ms evs s store a out b)
  with safety_propose [of N me journal IB deps e] show ?case by blast
next
  case (4 V t qc exts V')
  then show ?case using qc_valid_mono by blast
next
  case (5 V qc V')
  then show ?case using justified_mono by blast
qed (simp_all add: justified_def safety_quiet safety_emit safety_highest safety_lock safety_vote1 safety_vote2
    safety_put_qc safety_epoch)

end
