(* ===== verification/Fork_Attempt.thy ===== *)
theory Fork_Attempt
  imports Engine_Rules
begin

text \<open>
  A concrete run against a faulty leader. Validator 2 of the sample set, which leads view 1, proposes
  one block to validators 1 and 4 and another to validator 3, and sends 1 and 4 a certificate of the
  first block and the second votes for it. The engines of 1 and 4 commit that block, the engine of 3
  votes for the other.
\<close>

section \<open>Blocks and messages\<close>

definition fork_content :: "bytes \<Rightarrow> Block" where
  "fork_content payload = genesis_block\<lparr>b_height := 1, b_view := 1, b_proposer := 2, b_timestamp := 5, b_payload := payload\<rparr>"

definition fork_hash :: "bytes \<Rightarrow> hash32" where
  "fork_hash m = (if m = block_preimage (fork_content []) then hash_rep 8
                  else if m = block_preimage (fork_content [1]) then hash_rep 9 else hash_rep 7)"

definition fork_block :: Block where
  "fork_block = (fork_content [])\<lparr>b_hash := hash_rep 8\<rparr>"

definition other_block :: Block where
  "other_block = (fork_content [1])\<lparr>b_hash := hash_rep 9\<rparr>"

definition list_app :: "Block list Application" where
  "list_app =
     \<lparr> app_create_payload = (\<lambda>_ a. ([], a)), app_validate_block = (\<lambda>_ _ _. True),
       app_execute_block = (\<lambda>txs ctx a. Some (default_EndBlockResponse, a)),
       app_on_commit = (\<lambda>b _ a. Some (a @ [b])), app_on_evidence = (\<lambda>_ a. Some a),
       app_on_offline_validators = (\<lambda>_ a. a), app_extend_vote = (\<lambda>_ _ _. None),
       app_verify_vote_extension = (\<lambda>_ _ _ _. True), app_tracks_app_hash = False \<rparr>"

definition fork_env :: "(Block list, unit) EngineEnv" where
  "fork_env =
     \<lparr> ee_deps = \<lparr> vd_app = list_app, vd_sign = (\<lambda>m. m), vd_verify = (\<lambda>pk m sg. sg = m), vd_blake3 = fork_hash \<rparr>,
       ee_wal = \<lparr> wo_intent = (\<lambda>h w. Some w), wo_done = (\<lambda>h w. w) \<rparr>,
       ee_f64_scale = (\<lambda>base n. of_nat base), ee_now = 0, ee_now_ms = 5 \<rparr>"

definition fork_vote :: "ValidatorId \<Rightarrow> BlockHash \<Rightarrow> VoteType \<Rightarrow> Vote" where
  "fork_vote i h t = \<lparr> v_epoch = 0, v_block_hash = h, v_view = 1, v_validator = i,
     v_signature = vote_signing_bytes fork_hash (hash_rep 7) 0 1 i h t None, v_vote_type = t, v_extension = None \<rparr>"

definition fork_genesis_qc :: QuorumCertificate where
  "fork_genesis_qc = \<lparr> qc_block_hash = GENESIS_HASH, qc_view = 0, qc_aggregate_signature = agg_new (validator_count sample_set), qc_epoch = 0 \<rparr>"

definition fork_qc :: QuorumCertificate where
  "fork_qc = \<lparr> qc_block_hash = hash_rep 8, qc_view = 1,
     qc_aggregate_signature = \<lparr> ag_signers = [True, True, False, True],
       ag_signatures = map (\<lambda>i. v_signature (fork_vote i (hash_rep 8) Vote)) [1, 2, 4] \<rparr>, qc_epoch = 0 \<rparr>"

definition fork_propose :: "Block \<Rightarrow> engine_event" where
  "fork_propose b = Received 0 5 None (Propose b fork_genesis_qc None (proposal_signing_bytes (hash_rep 7) 0 b fork_genesis_qc) [])"

definition fork_prepare :: engine_event where
  "fork_prepare = Received 0 5 None (Prepare fork_qc (prepare_signing_bytes (hash_rep 7) 0 fork_qc))"

definition fork_vote2 :: "ValidatorId \<Rightarrow> engine_event" where
  "fork_vote2 i = Received 0 5 None (Vote2Msg (fork_vote i (hash_rep 8) Vote2))"

definition fork_new :: "ValidatorId \<Rightarrow> (Block list, unit) Engine" where
  "fork_new i = engine_new (with_chain_id fork_hash i sample_set []) vb_new [] 0 None None None None None None"

section \<open>Hashes\<close>

lemma preimage_not_Nil [simp]: "block_preimage b \<noteq> []"
  by (simp add: block_preimage_def)

lemma fork_preimages: "block_preimage (fork_content [1]) \<noteq> block_preimage (fork_content [])"
proof -
  have "block_sized (fork_content [1])" "block_sized (fork_content [])"
    by (simp_all add: block_sized_def fork_content_def genesis_block_def fits_def)
  from block_preimage_eq_iff [OF this, of GENESIS_HASH] show ?thesis by (simp add: fork_content_def genesis_block_def)
qed

lemma fork_hashes:
  "b_hash fork_block = hash_rep 8" "b_hash other_block = hash_rep 9" "compute_hash fork_hash fork_block = hash_rep 8" "compute_hash fork_hash other_block = hash_rep 9" "fork_hash [] = hash_rep 7"
proof -
  have "block_preimage fork_block = block_preimage (fork_content [])" "block_preimage other_block = block_preimage (fork_content [1])"
    by (simp_all add: fork_block_def other_block_def block_preimage_def)
  then show "b_hash fork_block = hash_rep 8" "b_hash other_block = hash_rep 9"
    "compute_hash fork_hash fork_block = hash_rep 8" "compute_hash fork_hash other_block = hash_rep 9"
    using fork_preimages by (simp_all add: compute_hash_def fork_hash_def) (simp_all add: fork_block_def other_block_def)
  have "[] \<noteq> block_preimage b" for b using preimage_not_Nil [of b] by (rule not_sym)
  then show "fork_hash [] = hash_rep 7" by (simp add: fork_hash_def)
qed

section \<open>The steps\<close>

text \<open>What the steps below read of an engine.\<close>

definition stage ::
    "(Block list, unit) Engine \<Rightarrow> ConsensusState \<Rightarrow> VsdbBlockStore \<Rightarrow> Block list \<Rightarrow> VoteCollector \<Rightarrow> effect list \<Rightarrow> bool" where
  "stage e st store a c log \<longleftrightarrow>
     en_state e = st \<and> en_store e = store \<and> en_app e = a \<and> en_vote_collector e = c \<and> en_current_view_qc e = None \<and>
     en_pending_epoch e = None \<and> en_previous_epoch e = None \<and> en_wal e = None \<and> en_persistence e = None \<and>
     en_evidence_store e = None \<and> map fst (en_log e) = log"

definition fork_state :: "ValidatorId \<Rightarrow> ConsensusState" where
  "fork_state i = (with_chain_id fork_hash i sample_set [])
     \<lparr>cs_highest_qc := Some fork_genesis_qc, cs_current_view := 1, cs_step := WaitingForProposal\<rparr>"

lemmas fork_set_defs = with_chain_id_def sample_set_def sample_infos_def epoch_genesis_def epoch_new_def

lemma fork_starts:
  assumes "i \<in> {1, 3, 4}"
  shows "\<exists>e. engine_start 1 fork_env (0, GENESIS_HASH) (fork_new i) = Inr e \<and> stage e (fork_state i) vb_new [] vc_new []"
  using assms
  by (elim insertE) (simp_all add: stage_def fork_new_def fork_state_def fork_genesis_qc_def engine_start_def engine_new_def
     enter_genesis_view_def fork_env_def Let_def enter_view_def genesis_qc_def fork_set_defs
     is_leader_def leader_for_view_def validator_count_def perform_def cs_is_leader_def)

lemma fork_state_simps [simp]:
  "cs_validator_set (fork_state i) = sample_set" "cs_validator_id (fork_state i) = i" "cs_chain_id_hash (fork_state i) = hash_rep 7"
  "cs_current_view (fork_state i) = 1" "cs_step (fork_state i) = WaitingForProposal" "cs_locked_qc (fork_state i) = None"
  "cs_highest_qc (fork_state i) = Some fork_genesis_qc" "cs_last_vote1 (fork_state i) = None" "cs_last_vote2 (fork_state i) = None"
  "cs_current_epoch (fork_state i) = epoch_genesis sample_set" "cs_last_committed_height (fork_state i) = 0"
  "cs_highest_double_cert (fork_state i) = None" "cs_role (fork_state i) = Replica"
  by (simp_all add: fork_state_def with_chain_id_def fork_hashes)

lemma fork_env_simps [simp]:
  "at_time 0 5 fork_env = fork_env" "vd_app (ee_deps fork_env) = list_app" "vd_sign (ee_deps fork_env) m = m"
  "vd_verify (ee_deps fork_env) pk m sg \<longleftrightarrow> sg = m" "vd_blake3 (ee_deps fork_env) = fork_hash" "ee_now_ms fork_env = 5"
  by (simp_all add: at_time_def fork_env_def)

lemma list_app_simps [simp]:
  "app_validate_block list_app b ctx a" "\<not> app_tracks_app_hash list_app" "app_extend_vote list_app b ctx a = None"
  "app_execute_block list_app txs ctx a = Some (default_EndBlockResponse, a)" "app_on_commit list_app b ctx a = Some (a @ [b])"
  by (simp_all add: list_app_def)

lemma fork_epoch [simp]: "ep_number (epoch_genesis sample_set) = 0" "ep_validator_set (epoch_genesis sample_set) = sample_set"
  by (simp_all add: epoch_genesis_def epoch_new_def)

lemma fork_vote_eq:
  "\<lbrakk> cs_current_view s = 1; cs_chain_id_hash s = hash_rep 7; ep_number (cs_current_epoch s) = 0 \<rbrakk> \<Longrightarrow>
     make_vote (ee_deps fork_env) s h t None = fork_vote (cs_validator_id s) h t"
  by (simp add: make_vote_def fork_vote_def)

lemma fork_leaders:
  "leader_for_view sample_set 1 = Some (sample_infos ! 1)" "next_leader sample_set 1 = Some 3"
  by (simp_all add: leader_for_view_def next_leader_def next_view_def checked_add_def sample_set_def sample_infos_def)

lemma fork_members: "get_validator sample_set 2 = Some (sample_infos ! 1)"
  by (simp add: get_validator_def sample_set_def sample_infos_def rebuild_index_def)

lemma fork_power: "i \<in> {1, 3, 4} \<Longrightarrow> power_of sample_set i > 0"
  by (auto simp: power_of_def get_validator_def sample_set_def sample_infos_def rebuild_index_def)

lemma get_genesis: "get_block vb_new GENESIS_HASH = Some genesis_block"
  by (simp add: vb_new_def put_block_def get_block_def genesis_block_def)

definition voted_state :: "ValidatorId \<Rightarrow> BlockHash \<Rightarrow> ConsensusState" where
  "voted_state i h = (fork_state i)\<lparr>cs_last_vote1 := Some (1, h), cs_step := Voted\<rparr>"

lemma fork_proposal:
  assumes "i \<in> {1, 3, 4}" "b \<in> {fork_block, other_block}" "stage e (fork_state i) vb_new [] vc_new []"
  shows "\<exists>e'. run_event 1 fork_env (fork_propose b) e = Inr e' \<and>
    stage e' (voted_state i (b_hash b)) (put_block b vb_new) [] vc_new
      [SignVote (fork_vote i (b_hash b) Vote), SendTo 2 (VoteMsg (fork_vote i (b_hash b) Vote))]"
proof -
  have b: "b_height b = 1" "b_view b = 1" "b_proposer b = 2" "b_timestamp b = 5" "b_evidence b = []" "b_parent_hash b = GENESIS_HASH"
    using assms(2) by (auto simp: fork_block_def other_block_def fork_content_def genesis_block_def)
  have bh: "compute_hash fork_hash b = b_hash b"
    using assms(2) by (elim insertE) (simp_all add: fork_hashes)
  have e: "en_state e = fork_state i" "en_store e = vb_new" "en_app e = []" "en_vote_collector e = vc_new" "en_current_view_qc e = None"
    "en_pending_epoch e = None" "en_previous_epoch e = None" "en_wal e = None" "en_persistence e = None" "en_evidence_store e = None"
    "en_log e = []" using assms(3) by (simp_all add: stage_def)
  have gq: "is_genesis_qc fork_genesis_qc" "qc_block_hash fork_genesis_qc = GENESIS_HASH" "agg_count (qc_aggregate_signature fork_genesis_qc) = 0"
    by (simp_all add: is_genesis_qc_def fork_genesis_qc_def agg_new_def agg_count_def)
  let ?p = "\<lparr> pd_block = b, pd_justify = fork_genesis_qc, pd_double_cert = None \<rparr>"
  have check: "check_proposal (ee_deps fork_env) 5 b fork_genesis_qc \<lparr> ec_previous_epoch = None, ec_in_flight_pending = None \<rparr>
      (fork_state i) vb_new [] = Inr ()"
    by (simp add: check_proposal_def justify_dominates_def b bh fork_leaders sample_infos_def gq get_genesis)
       (simp add: genesis_block_def next_height_def checked_add_def check_timestamp_def b MAX_FUTURE_DRIFT_MS_def validate_block_evidence_def)
  have hq: "update_highest_qc fork_genesis_qc (fork_state i) = fork_state i"
    by (simp add: update_highest_qc_def)
  obtain s' where on: "on_proposal (ee_deps fork_env) 5 ?p \<lparr> ec_previous_epoch = None, ec_in_flight_pending = None \<rparr> (fork_state i) vb_new [] =
      (s', put_block b vb_new, [], [SaveLastVote Vote 1 (b_hash b), SignVote (fork_vote i (b_hash b) Vote), SendTo 2 (VoteMsg (fork_vote i (b_hash b) Vote))],
       Inr \<lparr> pr_pending_epoch = None, pr_commit_result = None \<rparr>)" "s' = voted_state i (b_hash b)"
    using fork_power [OF assms(1)]
    by (simp add: on_proposal_def check fast_forward_def hq cast_vote1_def check_and_record_vote_spec vote_slot_def slot_admits_def fork_leaders
        sample_infos_def Let_def set_vote_slot_def fork_vote_eq voted_state_def)
  show ?thesis
    by (simp add: fork_propose_def handle_message_def rate_limit_def verify_message_def e b fork_members verification_epochs_def
       verify_justify_qc_def gq dispatch_def handle_propose_def store_ancestors_def handle_current_proposal_def Let_def on stage_def perform_def)
qed

lemma fork_qc_valid:
  assumes "cs_validator_set st = sample_set" "cs_current_epoch st = epoch_genesis sample_set" "cs_chain_id_hash st = hash_rep 7"
  shows "verify_vote_qc (vd_verify (ee_deps fork_env)) fork_hash st None fork_qc Vote"
proof -
  have "has_quorum sample_set (qc_aggregate_signature fork_qc)"
    by (simp add: has_quorum_iff [OF sample_set_wf] signer_infos_def fork_qc_def) (simp add: sample_set_def sample_infos_def)
  moreover have "validator_set_for_epoch st None (qc_epoch fork_qc) = Some sample_set"
    using assms by (simp add: validator_set_for_epoch_def fork_qc_def)
  ultimately show ?thesis
    using assms
    by (simp add: verify_vote_qc_def verify_vote_aggregate_def Let_def fork_qc_def validator_count_def fork_vote_def)
       (simp add: sample_set_def sample_infos_def)
qed

definition prepared_state :: "ValidatorId \<Rightarrow> ConsensusState" where
  "prepared_state i = (voted_state i (hash_rep 8))
     \<lparr>cs_locked_qc := Some fork_qc, cs_highest_qc := Some fork_qc, cs_last_vote2 := Some (1, hash_rep 8), cs_step := SentVote2\<rparr>"

lemma fork_prepared:
  assumes "i \<in> {1, 4}" "stage e (voted_state i (hash_rep 8)) store [] vc_new log"
  shows "\<exists>e'. run_event 1 fork_env fork_prepare e = Inr e' \<and>
    stage e' (prepared_state i) store [] vc_new
      (log @ [SignVote (fork_vote i (hash_rep 8) Vote2), SendTo 3 (Vote2Msg (fork_vote i (hash_rep 8) Vote2))])"
proof -
  have e: "en_state e = voted_state i (hash_rep 8)" "en_store e = store" "en_app e = []" "en_vote_collector e = vc_new" "en_current_view_qc e = None"
    "en_pending_epoch e = None" "en_previous_epoch e = None" "en_wal e = None" "en_persistence e = None" "en_evidence_store e = None"
    "map fst (en_log e) = log" using assms(2) by (simp_all add: stage_def)
  have q: "qc_view fork_qc = 1" "qc_block_hash fork_qc = hash_rep 8" "qc_view fork_genesis_qc = 0"
    by (simp_all add: fork_qc_def fork_genesis_qc_def)
  have s: "update_highest_qc fork_qc (update_locked_qc fork_qc (voted_state i (hash_rep 8))) =
      (voted_state i (hash_rep 8))\<lparr>cs_locked_qc := Some fork_qc, cs_highest_qc := Some fork_qc\<rparr>"
    by (simp add: update_highest_qc_def update_locked_qc_def voted_state_def q)
  have v: "verify_vote_qc (vd_verify (ee_deps fork_env)) fork_hash (voted_state i (hash_rep 8)) None fork_qc Vote"
    by (rule fork_qc_valid) (simp_all add: voted_state_def)
  have w: "make_vote (ee_deps fork_env) (voted_state i (hash_rep 8)) (hash_rep 8) Vote2 None = fork_vote i (hash_rep 8) Vote2"
    by (simp add: fork_vote_eq voted_state_def)
  have "power_of sample_set i > 0" using fork_power [of i] assms(1) by auto
  then have on: "on_prepare (ee_deps fork_env) fork_qc None (voted_state i (hash_rep 8)) =
      Inr (prepared_state i, [SaveLastVote Vote2 1 (hash_rep 8), SignVote (fork_vote i (hash_rep 8) Vote2)],
           Some (3, fork_vote i (hash_rep 8) Vote2))"
    using w s by (simp add: on_prepare_spec q Let_def)
       (simp add: voted_state_def slot_admits_def fork_leaders prepared_state_def set_vote_slot_def)
  have x: "block_vote_extension fork_env h e = None" for h
    by (simp add: block_vote_extension_def split: bind_split)
  show ?thesis
    using v
    by (simp add: fork_prepare_def handle_message_def rate_limit_def verify_message_def e q dispatch_def handle_prepare_def x on
         persist_state_def Let_def stage_def perform_def)
       (simp add: voted_state_def fork_leaders verification_epochs_def)
qed

section \<open>The second votes\<close>

abbreviation fork_key :: vote_key where
  "fork_key \<equiv> (0, 1, hash_rep 8, Vote2)"

definition fork_collector :: "ValidatorId list \<Rightarrow> VoteCollector" where
  "fork_collector js = \<lparr> vc_votes = [(fork_key, map (\<lambda>j. fork_vote j (hash_rep 8) Vote2) js)] \<rparr>"

definition fork_agg :: "ValidatorId list \<Rightarrow> bool list \<Rightarrow> AggregateSignature" where
  "fork_agg js signers = \<lparr> ag_signers = signers, ag_signatures = map (\<lambda>j. v_signature (fork_vote j (hash_rep 8) Vote2)) js \<rparr>"

lemma fork_vote_fields [simp]:
  "v_epoch (fork_vote i h t) = 0" "v_block_hash (fork_vote i h t) = h" "v_view (fork_vote i h t) = 1"
  "v_validator (fork_vote i h t) = i" "v_vote_type (fork_vote i h t) = t" "v_extension (fork_vote i h t) = None"
  by (simp_all add: fork_vote_def)

lemma fork_indices:
  "index_of sample_set 1 = Some 0" "index_of sample_set 2 = Some 1" "index_of sample_set 4 = Some 3"
  "get_validator sample_set 1 = Some (sample_infos ! 0)" "get_validator sample_set 2 = Some (sample_infos ! 1)"
  "get_validator sample_set 4 = Some (sample_infos ! 3)" "validator_count sample_set = 4"
  by (simp_all add: index_of_def get_validator_def validator_count_def sample_set_def sample_infos_def rebuild_index_def)

lemma fork_quorum:
  "\<not> has_quorum sample_set (fork_agg js [True, False, False, False])" "\<not> has_quorum sample_set (fork_agg js [True, True, False, False])"
  "has_quorum sample_set (fork_agg js [True, True, False, True])"
  by (simp_all add: has_quorum_iff [OF sample_set_wf] signer_infos_def fork_agg_def) (simp_all add: sample_set_def sample_infos_def)

lemma fork_aggregates:
  "aggregate_votes sample_set (map (\<lambda>j. fork_vote j (hash_rep 8) Vote2) [1]) = Inr (fork_agg [1] [True, False, False, False])"
  "aggregate_votes sample_set (map (\<lambda>j. fork_vote j (hash_rep 8) Vote2) [1, 2]) = Inr (fork_agg [1, 2] [True, True, False, False])"
  "aggregate_votes sample_set (map (\<lambda>j. fork_vote j (hash_rep 8) Vote2) [1, 2, 4]) = Inr (fork_agg [1, 2, 4] [True, True, False, True])"
  by (simp_all add: aggregate_votes_def fork_indices agg_new_def agg_add_def vec_insert_def count_true_def fork_agg_def Let_def numeral_eq_Suc rbind_def ok_or_def)

definition fork_outer_qc :: QuorumCertificate where
  "fork_outer_qc = \<lparr> qc_block_hash = hash_rep 8, qc_view = 1, qc_aggregate_signature = fork_agg [1, 2, 4] [True, True, False, True], qc_epoch = 0 \<rparr>"

lemma fork_adds:
  "add_vote sample_set (fork_vote 1 (hash_rep 8) Vote2) 0 vc_new =
     (fork_collector [1], Inr \<lparr> vr_qc = None, vr_equivocation = None, vr_extensions = [] \<rparr>)"
  "add_vote sample_set (fork_vote 2 (hash_rep 8) Vote2) 0 (fork_collector [1]) =
     (fork_collector [1, 2], Inr \<lparr> vr_qc = None, vr_equivocation = None, vr_extensions = [] \<rparr>)"
  "add_vote sample_set (fork_vote 4 (hash_rep 8) Vote2) 0 (fork_collector [1, 2]) =
     (fork_collector [1, 2, 4], Inr \<lparr> vr_qc = Some fork_outer_qc, vr_equivocation = None, vr_extensions = [] \<rparr>)"
  using fork_aggregates fork_quorum
  by (simp_all add: add_vote_def Let_def bucket_def set_bucket_def fork_collector_def vc_new_def fork_indices form_result_def fork_outer_qc_def vote_extensions_of_def, auto)

lemma prepared_state_simps [simp]:
  "cs_validator_set (prepared_state i) = sample_set" "cs_validator_id (prepared_state i) = i" "cs_chain_id_hash (prepared_state i) = hash_rep 7"
  "cs_current_view (prepared_state i) = 1" "cs_locked_qc (prepared_state i) = Some fork_qc"
  "cs_highest_qc (prepared_state i) = Some fork_qc"
  "cs_current_epoch (prepared_state i) = epoch_genesis sample_set" "cs_last_committed_height (prepared_state i) = 0"
  by (simp_all add: prepared_state_def voted_state_def)

lemma fork_vote2_checked:
  assumes "stage e (prepared_state i) store [] c log" "j \<in> {1, 2, 4}"
  shows "run_event 1 fork_env (fork_vote2 j) e =
    rbind (collect_vote (fork_vote j (hash_rep 8) Vote2) (on_double_cert_formed (advance_view 1 fork_env) fork_env) e) (\<lambda>(e', err). Inr e')"
proof -
  have "verify_vote (vd_verify (ee_deps fork_env)) fork_hash (prepared_state i) None (fork_vote j (hash_rep 8) Vote2)"
    using assms(2) by (auto simp: verify_vote_def validator_set_for_epoch_def fork_indices) (simp_all add: fork_vote_def)
  with assms(1) show ?thesis
    by (simp add: fork_vote2_def handle_message_def rate_limit_def verify_message_def stage_def dispatch_def handle_vote2_def)
qed

lemma fork_vote2_collected:
  assumes "stage e (prepared_state i) store [] c log" "j \<in> {1, 2, 4}"
    and "add_vote sample_set (fork_vote j (hash_rep 8) Vote2) 0 c =
      (c', Inr \<lparr> vr_qc = None, vr_equivocation = None, vr_extensions = [] \<rparr>)"
  shows "\<exists>e'. run_event 1 fork_env (fork_vote2 j) e = Inr e' \<and> stage e' (prepared_state i) store [] c' log"
  using assms(1,3) unfolding fork_vote2_checked [OF assms(1,2)]
  by (simp add: stage_def collect_vote_def handle_equivocation_def)

section \<open>The commit\<close>

definition fork_dc :: DoubleCertificate where
  "fork_dc = \<lparr> dc_inner_qc = fork_qc, dc_outer_qc = fork_outer_qc, dc_vote_extensions = [] \<rparr>"

lemma fork_try_commit:
  fixes get by_height
  assumes "get = get_block (put_block fork_block vb_new)" "by_height = get_block_by_height (put_block fork_block vb_new)"
  shows "\<exists>h r. try_commit list_app get by_height fork_dc (epoch_genesis sample_set) None None 0 [] = (h, [fork_block], Inr r) \<and>
    cr_pending_epoch r = None \<and> cr_activated_epoch r = None"
proof -
  have f: "b_height fork_block = 1" "b_parent_hash fork_block = GENESIS_HASH" "b_view fork_block = 1" "b_payload fork_block = []" "b_evidence fork_block = []"
    by (simp_all add: fork_block_def fork_content_def genesis_block_def)
  have g: "get (qc_block_hash (dc_inner_qc fork_dc)) = Some (last [fork_block])"
    by (simp add: assms get_put_block fork_dc_def fork_qc_def fork_hashes)
  have "hash_rep 8 \<noteq> GENESIS_HASH" by (simp add: GENESIS_HASH_def)
  then have l: "links get genesis_block [fork_block]"
    by (simp add: assms get_put_block f fork_hashes get_genesis) (simp add: genesis_block_def)
  have c: "committed_at by_height 0 genesis_block"
    by (simp add: committed_at_def assms get_block_by_height_def vb_new_def put_block_def genesis_block_def f Let_def)
  show ?thesis
    unfolding try_commit_chain [OF g l _ c, simplified]
    by (simp add: commit_one_def initial_acc_def activate_pending_def execute_committed_block_def f
        pending_after_def default_EndBlockResponse_def result_of_def)
qed

lemma fork_apply_commit:
  assumes "stage e (prepared_state i) (put_block fork_block vb_new) [] c log"
  shows "\<exists>e'. apply_commit fork_env fork_dc e = Inr e' \<and> en_app e' = [fork_block] \<and> map fst (en_log e') = log \<and>
    en_pending_epoch e' = None \<and> cs_validator_set (en_state e') = sample_set \<and> cs_validator_id (en_state e') = i \<and>
    cs_current_view (en_state e') = 1"
proof -
  obtain h r where "try_commit list_app (get_block (en_store e)) (get_block_by_height (en_store e)) fork_dc (epoch_genesis sample_set) None None 0 [] =
      (h, [fork_block], Inr r)" "cr_pending_epoch r = None" "cr_activated_epoch r = None"
    using fork_try_commit assms by (metis stage_def)
  with assms show ?thesis
    by (simp add: apply_commit_def stage_def Let_def adopt_commit_epoch_def process_commit_result_def persist_state_def finish_wal_intent_def)
qed

lemma fork_commits:
  assumes "i \<in> {1, 4}" "stage e (prepared_state i) (put_block fork_block vb_new) [] (fork_collector [1, 2]) log"
  shows "\<exists>e' msg. run_event 1 fork_env (fork_vote2 4) e = Inr e' \<and> en_app e' = [fork_block] \<and>
    map fst (en_log e') = log @ [SendTo 3 msg]"
proof -
  let ?e = "e\<lparr>en_vote_collector := fork_collector [1, 2, 4], en_current_view_qc := None\<rparr>"
  have "stage ?e (prepared_state i) (put_block fork_block vb_new) [] (fork_collector [1, 2, 4]) log"
    using assms(2) by (simp add: stage_def)
  from fork_apply_commit [OF this] obtain e1 where e1: "apply_commit fork_env fork_dc ?e = Inr e1" "en_app e1 = [fork_block]"
    "map fst (en_log e1) = log" "en_pending_epoch e1 = None" "cs_validator_set (en_state e1) = sample_set" "cs_validator_id (en_state e1) = i"
    "cs_current_view (en_state e1) = 1" by blast
  have two: "\<not> (2 :: ViewNumber) \<le> 1" by (simp add: word_le_nat_alt)
  have l: "leader_for_view sample_set 2 = Some (sample_infos ! 2)" by (simp add: leader_for_view_def sample_set_def sample_infos_def)
  have "\<exists>e' msg. advance_view 1 fork_env (TriggerDoubleCert fork_dc) (e1\<lparr>en_state := (en_state e1)\<lparr>cs_highest_double_cert := Some fork_dc\<rparr>\<rparr>) = Inr e' \<and>
      en_app e' = [fork_block] \<and> map fst (en_log e') = log @ [SendTo 3 msg]"
    using assms(1) e1 fork_power [of 1] fork_power [of 4] two
    by (auto simp: advance_view_def trigger_view_def next_view_def checked_add_def enter_new_view_def Let_def epoch_transition_def
      clear_old_view_def enter_view_def send_status_def l is_leader_def update_highest_qc_def perform_def perform_all_def persist_state_def sample_infos_def
      cs_is_leader_def split: option.splits)
  then obtain e' msg where adv: "advance_view 1 fork_env (TriggerDoubleCert fork_dc) (e1\<lparr>en_state := (en_state e1)\<lparr>cs_highest_double_cert := Some fork_dc\<rparr>\<rparr>) = Inr e'"
    "en_app e' = [fork_block]" "map fst (en_log e') = log @ [SendTo 3 msg]" by blast
  have "matching_inner_qc fork_outer_qc (e\<lparr>en_vote_collector := fork_collector [1, 2, 4]\<rparr>) = Some fork_qc"
    using assms(2) by (simp add: matching_inner_qc_def stage_def fork_outer_qc_def) (simp add: fork_qc_def)
  then have on: "on_double_cert_formed (advance_view 1 fork_env) fork_env fork_outer_qc [] (e\<lparr>en_vote_collector := fork_collector [1, 2, 4]\<rparr>) = Inr e'"
    using e1(1) adv(1) by (simp add: on_double_cert_formed_def fork_dc_def [symmetric])
  have four: "(4 :: ValidatorId) \<in> {1, 2, 4}" by simp
  have "run_event 1 fork_env (fork_vote2 4) e = Inr e'"
    unfolding fork_vote2_checked [OF assms(2) four]
    using assms(2) fork_adds(3) on by (simp add: collect_vote_def stage_def handle_equivocation_def)
  with adv show ?thesis by blast
qed

section \<open>The runs\<close>

definition fork_events :: "ValidatorId \<Rightarrow> engine_event list" where
  "fork_events i = (if i = 3 then [fork_propose other_block]
                    else [fork_propose fork_block, fork_prepare, fork_vote2 1, fork_vote2 2, fork_vote2 4])"

definition fork_engine :: "ValidatorId \<Rightarrow> (Block list, unit) Engine" where
  "fork_engine i = projr (engine_run 1 fork_env (0, GENESIS_HASH) (fork_events i) (fork_new i))"

lemma fork_run_committed:
  assumes "i \<in> {1, 4}"
  shows "\<exists>msg. engine_run 1 fork_env (0, GENESIS_HASH) (fork_events i) (fork_new i) = Inr (fork_engine i) \<and>
    en_app (fork_engine i) = [fork_block] \<and>
    map fst (en_log (fork_engine i)) =
      [SignVote (fork_vote i (hash_rep 8) Vote), SendTo 2 (VoteMsg (fork_vote i (hash_rep 8) Vote)),
       SignVote (fork_vote i (hash_rep 8) Vote2), SendTo 3 (Vote2Msg (fork_vote i (hash_rep 8) Vote2)), SendTo 3 msg]"
proof -
  have i: "i \<in> {1, 3, 4}" using assms by blast
  from fork_starts [OF i] obtain e1 where e1: "engine_start 1 fork_env (0, GENESIS_HASH) (fork_new i) = Inr e1"
    "stage e1 (fork_state i) vb_new [] vc_new []" by blast
  from fork_proposal [OF i _ e1(2), of fork_block] obtain e2 where e2: "run_event 1 fork_env (fork_propose fork_block) e1 = Inr e2"
    "stage e2 (voted_state i (hash_rep 8)) (put_block fork_block vb_new) [] vc_new
      [SignVote (fork_vote i (hash_rep 8) Vote), SendTo 2 (VoteMsg (fork_vote i (hash_rep 8) Vote))]"
    by (auto simp: fork_hashes)
  from fork_prepared [OF assms e2(2)] obtain e3 where e3: "run_event 1 fork_env fork_prepare e2 = Inr e3"
    and s3: "stage e3 (prepared_state i) (put_block fork_block vb_new) [] vc_new
      [SignVote (fork_vote i (hash_rep 8) Vote), SendTo 2 (VoteMsg (fork_vote i (hash_rep 8) Vote)),
       SignVote (fork_vote i (hash_rep 8) Vote2), SendTo 3 (Vote2Msg (fork_vote i (hash_rep 8) Vote2))]" by auto
  from fork_vote2_collected [OF s3 _ fork_adds(1)] obtain e4 where e4: "run_event 1 fork_env (fork_vote2 1) e3 = Inr e4"
    and s4: "stage e4 (prepared_state i) (put_block fork_block vb_new) [] (fork_collector [1]) (map fst (en_log e3))"
    using s3 by (auto simp: stage_def)
  from fork_vote2_collected [OF s4 _ fork_adds(2)] obtain e5 where e5: "run_event 1 fork_env (fork_vote2 2) e4 = Inr e5"
    and s5: "stage e5 (prepared_state i) (put_block fork_block vb_new) [] (fork_collector [1, 2]) (map fst (en_log e3))" by auto
  from fork_commits [OF assms s5] obtain e6 msg where e6: "run_event 1 fork_env (fork_vote2 4) e5 = Inr e6" "en_app e6 = [fork_block]"
    "map fst (en_log e6) = map fst (en_log e3) @ [SendTo 3 msg]" by blast
  have "fork_events i = [fork_propose fork_block, fork_prepare, fork_vote2 1, fork_vote2 2, fork_vote2 4]"
    using assms by (auto simp: fork_events_def)
  then have "engine_run 1 fork_env (0, GENESIS_HASH) (fork_events i) (fork_new i) = Inr e6"
    unfolding engine_run_def e1(1) by (simp only: run_events.simps e2(1) e3 e4 e5 e6(1) rbind_simps)
  moreover from this have "fork_engine i = e6" by (simp add: fork_engine_def)
  ultimately show ?thesis using e6(2,3) s3 by (simp add: stage_def)
qed

lemma fork_run_other:
  "engine_run 1 fork_env (0, GENESIS_HASH) (fork_events 3) (fork_new 3) = Inr (fork_engine 3)"
  "en_app (fork_engine 3) = []"
  "map fst (en_log (fork_engine 3)) =
    [SignVote (fork_vote 3 (hash_rep 9) Vote), SendTo 2 (VoteMsg (fork_vote 3 (hash_rep 9) Vote))]"
proof -
  obtain e1 where e1: "engine_start 1 fork_env (0, GENESIS_HASH) (fork_new 3) = Inr e1" "stage e1 (fork_state 3) vb_new [] vc_new []"
    using fork_starts [of 3] by auto
  obtain e2 where e2: "run_event 1 fork_env (fork_propose other_block) e1 = Inr e2" "en_app e2 = []"
    "map fst (en_log e2) = [SignVote (fork_vote 3 (hash_rep 9) Vote), SendTo 2 (VoteMsg (fork_vote 3 (hash_rep 9) Vote))]"
    using fork_proposal [OF _ _ e1(2), of other_block] by (auto simp: fork_hashes stage_def)
  have "engine_run 1 fork_env (0, GENESIS_HASH) (fork_events 3) (fork_new 3) = Inr e2"
    unfolding engine_run_def e1(1) fork_events_def by (simp only: run_events.simps e2(1) rbind_simps if_True simp_thms)
  moreover from this have "fork_engine 3 = e2" by (simp add: fork_engine_def)
  ultimately show "engine_run 1 fork_env (0, GENESIS_HASH) (fork_events 3) (fork_new 3) = Inr (fork_engine 3)"
    "en_app (fork_engine 3) = []"
    "map fst (en_log (fork_engine 3)) =
      [SignVote (fork_vote 3 (hash_rep 9) Vote), SendTo 2 (VoteMsg (fork_vote 3 (hash_rep 9) Vote))]"
    using e2 by simp_all
qed

end
