(* ===== verification/Agreement.thy ===== *)
theory Agreement
  imports Replica_Safety Fork_Attempt "HOL-Library.Sublist"
begin

text \<open>
  Agreement between replicas. Every honest replica runs the engine of \<open>Engine\<close> once from a fresh start, on
  messages in any order, with any content, delivered to it in any way; the others are not modelled at
  all. Certificates of quorum weight overlap in an honest validator, so a block with a second-phase
  certificate is an ancestor of every block certified in a later view, and the chains that two honest
  replicas executed never fork.
\<close>

section \<open>Chains of blocks\<close>

inductive extends :: "Net \<Rightarrow> Block set \<Rightarrow> BlockHash \<Rightarrow> BlockHash \<Rightarrow> bool" for N B h where
  extends_refl: "extends N B h h"
| extends_step: "\<lbrakk> known N B b; extends N B h (b_parent_hash b) \<rbrakk> \<Longrightarrow> extends N B h (b_hash b)"

lemma known_unique: "\<lbrakk> collision_free N B; known N B b; known N B c; b_hash b = b_hash c \<rbrakk> \<Longrightarrow> b = c"
  unfolding collision_free_def known_def by blast

lemma known_not_genesis: "\<lbrakk> collision_free N B; known N B b \<rbrakk> \<Longrightarrow> b_hash b \<noteq> GENESIS_HASH"
  unfolding collision_free_def known_def by blast

lemma extends_genesis: "\<lbrakk> collision_free N B; extends N B h GENESIS_HASH \<rbrakk> \<Longrightarrow> h = GENESIS_HASH"
  using known_not_genesis by (metis extends.cases)

definition chain_of :: "Net \<Rightarrow> Block set \<Rightarrow> Block list \<Rightarrow> bool" where
  "chain_of N B C \<longleftrightarrow> chained GENESIS_HASH C \<and> (\<forall>b \<in> set C. known N B b)"

lemma chain_of_snoc:
  "chain_of N B (C @ [b]) \<longleftrightarrow> chain_of N B C \<and> known N B b \<and> b_parent_hash b = tip C"
  by (auto simp: chain_of_def chained_append tip_def)

lemma tip_snoc [simp]: "tip (C @ [b]) = b_hash b"
  by (simp add: tip_def)

lemma tip_genesis:
  assumes "collision_free N B" "chain_of N B C"
  shows "tip C = GENESIS_HASH \<longleftrightarrow> C = []"
  using assms known_not_genesis [of N B "last C"] by (auto simp: tip_def chain_of_def)

text \<open>A chain is determined by its last block, and every ancestor of the last block is on it.\<close>

lemma chain_unique:
  assumes "collision_free N B"
  shows "\<lbrakk> chain_of N B C; chain_of N B D; tip C = tip D \<rbrakk> \<Longrightarrow> C = D"
proof (induction C arbitrary: D rule: rev_induct)
  case Nil
  with tip_genesis [OF assms Nil.prems(2)] show ?case by (simp add: tip_def)
next
  case (snoc b C)
  have "tip D \<noteq> GENESIS_HASH" using snoc.prems tip_genesis [OF assms snoc.prems(1)] by auto
  then obtain d D' where d: "D = D' @ [d]" using tip_genesis [OF assms snoc.prems(2)] by (cases D rule: rev_cases) auto
  with snoc.prems have "b = d" using known_unique [OF assms, of b d] by (simp add: chain_of_snoc)
  with d snoc show ?case by (simp add: chain_of_snoc)
qed

lemma ancestor_on_chain:
  assumes "collision_free N B" "h \<noteq> GENESIS_HASH"
  shows "\<lbrakk> chain_of N B C; extends N B h (tip C) \<rbrakk> \<Longrightarrow> \<exists>D. prefix D C \<and> tip D = h"
proof (induction C rule: rev_induct)
  case Nil
  with extends_genesis [OF assms(1)] assms(2) show ?case by (auto simp: tip_def)
next
  case (snoc b C)
  have c: "chain_of N B C" "known N B b" "b_parent_hash b = tip C" using snoc.prems(1) by (simp_all add: chain_of_snoc)
  from snoc.prems(2) have "h = b_hash b \<or> extends N B h (tip C)"
  proof cases
    case (extends_step b')
    with known_unique [OF assms(1), of b' b] c show ?thesis by simp
  qed simp
  then show ?case
  proof
    assume "h = b_hash b"
    then show ?thesis by (intro exI [of _ "C @ [b]"]) simp
  next
    assume "extends N B h (tip C)"
    with snoc.IH c(1) show ?thesis by (meson prefixI prefix_order.trans)
  qed
qed

lemma chain_prefix:
  assumes "collision_free N B" "chain_of N B C" "chain_of N B D" "C \<noteq> []" "extends N B (tip C) (tip D)"
  shows "prefix C D"
proof -
  have "tip C \<noteq> GENESIS_HASH" using tip_genesis [OF assms(1,2)] assms(4) by simp
  from ancestor_on_chain [OF assms(1) this assms(3,5)] obtain D' where d: "prefix D' D" "tip D' = tip C" by blast
  have "chain_of N B D'" using d(1) assms(3) by (auto simp: prefix_def chain_of_def chained_append)
  from chain_unique [OF assms(1) this assms(2) d(2)] d(1) show ?thesis by simp
qed

section \<open>Honest runs\<close>

text \<open>
  A run of the engine of validator \<open>i\<close> from a fresh start. The blocks in the messages it received are
  among \<open>B\<close>, the signatures among those of the network.
\<close>

definition honest_run ::
    "Net \<Rightarrow> bytes \<Rightarrow> Block set \<Rightarrow> ValidatorId \<Rightarrow> ('a \<Rightarrow> Block list) \<Rightarrow> ('a, 'w) EngineEnv \<Rightarrow> ('a, 'w) Engine \<Rightarrow> bool" where
  "honest_run N chain_id B i journal env e \<longleftrightarrow>
     replica_ok N i journal (ee_deps env) \<and> nt_chain N = nt_blake3 N chain_id \<and>
     (\<exists>fuel info evs app now config persistence evidence wal.
        journal app = [] \<and>
        (\<forall>ev \<in> set evs. \<forall>msg \<in> event_msgs ev. made_of (\<lambda>b. b \<in> B) (heard_qc N) (heard_vote N) msg) \<and>
        engine_run fuel env info evs
          (engine_new (with_chain_id (nt_blake3 N) i (nt_vs N) chain_id) vb_new app now config persistence evidence wal None None) =
        Inr e)"

text \<open>
  A signature in the network that verifies under the key of an honest validator, for a vote of it, was
  made by it: it signed that vote in its run.
\<close>

definition unforgeable :: "Net \<Rightarrow> ValidatorId set \<Rightarrow> (ValidatorId \<Rightarrow> ('a, 'w) Engine) \<Rightarrow> bool" where
  "unforgeable N H e \<longleftrightarrow>
     (\<forall>i \<in> H. \<forall>v sg t view h ext.
        get_validator (nt_vs N) i = Some v \<longrightarrow> sg \<in> nt_sigs N \<longrightarrow>
        nt_verify N (vi_public_key v) (vote_signing_bytes (nt_blake3 N) (nt_chain N) 0 view i h t ext) sg \<longrightarrow>
        (\<exists>vote \<in> signed_votes (e i). v_view vote = view \<and> v_block_hash vote = h \<and> v_vote_type vote = t))"

definition all_blocks :: "Block set \<Rightarrow> ValidatorId set \<Rightarrow> (ValidatorId \<Rightarrow> ('a, 'w) Engine) \<Rightarrow> Block set" where
  "all_blocks B H e = B \<union> (\<Union>i \<in> H. seen B (en_log (e i)))"

record ('a, 'w) NetRun =
  rn_net :: Net
  rn_chain_id :: bytes
  rn_received :: "Block set"
  rn_honest :: "ValidatorId set"
  rn_journal :: "ValidatorId \<Rightarrow> 'a \<Rightarrow> Block list"
  rn_env :: "ValidatorId \<Rightarrow> ('a, 'w) EngineEnv"
  rn_engine :: "ValidatorId \<Rightarrow> ('a, 'w) Engine"

definition rn_blocks :: "('a, 'w) NetRun \<Rightarrow> Block set" where
  "rn_blocks R = all_blocks (rn_received R) (rn_honest R) (rn_engine R)"

text \<open>At most the tolerated power is faulty, signatures are not forged, hashes tell blocks apart.\<close>

definition network :: "('a, 'w) NetRun \<Rightarrow> bool" where
  "network R \<longleftrightarrow>
     vs_wf (nt_vs (rn_net R)) \<and>
     (\<forall>i \<in> rn_honest R. honest_run (rn_net R) (rn_chain_id R) (rn_received R) i (rn_journal R i) (rn_env R i) (rn_engine R i)) \<and>
     set_power {v \<in> set (vs_validators (nt_vs (rn_net R))). vi_id v \<notin> rn_honest R} \<le> unat (max_faulty_power (nt_vs (rn_net R))) \<and>
     unforgeable (rn_net R) (rn_honest R) (rn_engine R) \<and> collision_free (rn_net R) (rn_blocks R)"

lemma fresh_safe:
  assumes "nt_chain N = nt_blake3 N chain_id" "journal app = []"
    and e_def: "e = engine_new (with_chain_id (nt_blake3 N) i (nt_vs N) chain_id) vb_new app now config persistence evidence wal None None"
  shows "safety_inv N i journal B deps None
    (e\<lparr>en_state := (en_state e)\<lparr>cs_highest_qc := Some (genesis_qc (en_state e)), cs_current_view := 1\<rparr>\<rparr>)"
    (is "safety_inv _ _ _ _ _ _ ?e")
proof -
  have log: "en_log ?e = []" and sv: "signed_votes ?e = {}" by (simp_all add: e_def engine_new_def Let_def signed_votes_def)
  have "conf N i None ?e"
    unfolding conf_def sv by (simp add: e_def engine_new_def with_chain_id_def assms(1) epoch_genesis_def epoch_new_def Let_def)
  moreover have "certs N (signed_votes ?e) ?e"
  proof -
    have "justified N {} (genesis_qc (en_state e))"
      by (simp add: justified_def is_genesis_qc_def genesis_qc_def agg_new_def agg_count_def e_def engine_new_def with_chain_id_def
          epoch_genesis_def epoch_new_def Let_def)
    then show ?thesis
      unfolding certs_def sv
      by (simp add: e_def engine_new_def with_chain_id_def pm_wf_preserved Let_def)
         (simp add: pm_with_config_def wishes_for_def stored_def vc_new_def Let_def)
  qed
  moreover have "records_ok ?e" unfolding records_ok_def log sv by (simp add: durable_log_def)
  moreover have "safe N i journal B None ?e"
    unfolding safe_def Let_def log sv
    by (simp add: e_def engine_new_def with_chain_id_def assms(2) store_ok_def vb_new_def put_block_def genesis_block_def
        signed_ok_def executed_ok_def pinned_def tip_def Let_def)
  ultimately show ?thesis by (simp add: safety_inv_def)
qed

lemma honest_run_safe:
  assumes "honest_run N chain_id B i journal env e"
  shows "safety_inv N i journal B (ee_deps env) None e"
proof -
  from assms obtain fuel info evs app now config persistence evidence wal where
    r: "journal app = []" "\<forall>ev \<in> set evs. \<forall>msg \<in> event_msgs ev. made_of (\<lambda>b. b \<in> B) (heard_qc N) (heard_vote N) msg"
    "engine_run fuel env info evs (engine_new (with_chain_id (nt_blake3 N) i (nt_vs N) chain_id) vb_new app now config
       persistence evidence wal None None) = Inr e" and c: "nt_chain N = nt_blake3 N chain_id"
    unfolding honest_run_def by (elim conjE exE) (rule that)
  show ?thesis
    by (rule replica.engine_run_keeps [OF refl r(3,2)])
       (use fresh_safe [of N chain_id journal app, OF c r(1) refl] in \<open>simp add: engine_new_def with_chain_id_def Let_def\<close>)
qed

section \<open>Votes and certificates of the network\<close>

definition voted :: "(ValidatorId \<Rightarrow> ('a, 'w) Engine) \<Rightarrow> ValidatorId \<Rightarrow> VoteType \<Rightarrow> ViewNumber \<Rightarrow> BlockHash \<Rightarrow> bool" where
  "voted e i t v h \<longleftrightarrow> (\<exists>vote \<in> signed_votes (e i). v_view vote = v \<and> v_block_hash vote = h \<and> v_vote_type vote = t)"

text \<open>A quorum of which the honest members voted.\<close>

definition certified ::
    "Net \<Rightarrow> ValidatorId set \<Rightarrow> (ValidatorId \<Rightarrow> ('a, 'w) Engine) \<Rightarrow> VoteType \<Rightarrow> ViewNumber \<Rightarrow> BlockHash \<Rightarrow> bool" where
  "certified N H e t v h \<longleftrightarrow>
     (\<exists>Q \<subseteq> set (vs_validators (nt_vs N)). unat (quorum_threshold (nt_vs N)) \<le> set_power Q \<and>
        (\<forall>u \<in> Q. vi_id u \<in> H \<longrightarrow> voted e (vi_id u) t v h))"

lemma certified_overlap:
  assumes "vs_wf (nt_vs N)"
    and "set_power {v \<in> set (vs_validators (nt_vs N)). vi_id v \<notin> H} \<le> unat (max_faulty_power (nt_vs N))"
    and "certified N H e t v h" "certified N H e t' v' h'"
  shows "\<exists>i \<in> H. voted e i t v h \<and> voted e i t' v' h'"
proof -
  from assms(3,4) obtain P Q where p: "P \<subseteq> set (vs_validators (nt_vs N))" "unat (quorum_threshold (nt_vs N)) \<le> set_power P"
      "\<forall>u \<in> P. vi_id u \<in> H \<longrightarrow> voted e (vi_id u) t v h"
    and q: "Q \<subseteq> set (vs_validators (nt_vs N))" "unat (quorum_threshold (nt_vs N)) \<le> set_power Q"
      "\<forall>u \<in> Q. vi_id u \<in> H \<longrightarrow> voted e (vi_id u) t' v' h'"
    unfolding certified_def by blast
  have f: "{v. vi_id v \<notin> H} \<inter> set (vs_validators (nt_vs N)) = {v \<in> set (vs_validators (nt_vs N)). vi_id v \<notin> H}" by blast
  have "\<exists>v \<in> P \<inter> Q. v \<notin> {v. vi_id v \<notin> H}"
    by (rule quorum_has_honest [OF assms(1) p(1,2) q(1,2)]) (use assms(2) f in simp)
  with p(3) q(3) show ?thesis by blast
qed

text \<open>A certificate that an honest replica holds is one in this sense.\<close>

lemma valid_certified:
  assumes "vs_wf (nt_vs N)" "unforgeable N H e" "j \<in> H" "\<forall>vote \<in> signed_votes (e j). v_validator vote = j"
    and "qc_valid N (signed_votes (e j)) t qc exts"
  shows "certified N H e t (qc_view qc) (qc_block_hash qc)"
proof -
  let ?agg = "qc_aggregate_signature qc" and ?vs = "nt_vs N"
  have ok: "has_quorum ?vs ?agg" and sigs: "\<forall>k sg. agg_lookup ?agg k = Some sg \<longrightarrow>
      k < validator_count ?vs \<and> nt_verify N (vi_public_key (vs_validators ?vs ! k))
        (vote_signing_bytes (nt_blake3 N) (nt_chain N) 0 (qc_view qc) (vi_id (vs_validators ?vs ! k)) (qc_block_hash qc) t
           (map_of (rev exts) (vi_id (vs_validators ?vs ! k)))) sg"
    using assms(5) by (simp_all add: qc_valid_def verify_vote_aggregate_iff vote_bytes_of_def)
  have "voted e (vi_id u) t (qc_view qc) (qc_block_hash qc)" if u: "u \<in> set (signer_infos ?vs ?agg)" "vi_id u \<in> H" for u
  proof -
    from u(1) obtain k where k: "k < length (ag_signers ?agg)" "ag_signers ?agg ! k" "k < length (vs_validators ?vs)"
      "vs_validators ?vs ! k = u" by (auto simp: mem_signer_infos)
    then obtain sg where sg: "agg_lookup ?agg k = Some sg" by (auto simp: agg_lookup_def)
    consider "sg \<in> nt_sigs N" | vote where "vote \<in> signed_votes (e j)" "index_of ?vs (v_validator vote) = Some k"
        "v_view vote = qc_view qc" "v_block_hash vote = qc_block_hash qc" "v_vote_type vote = t"
      using assms(5) sg unfolding qc_valid_def provenance_def by blast
    then show ?thesis
    proof cases
      case 1
      have "get_validator ?vs (vi_id u) = Some u" using get_validator_nth [OF assms(1) k(3)] k(4) by simp
      with assms(2) u(2) 1 sigs [rule_format, OF sg] k(4) show ?thesis unfolding unforgeable_def voted_def by blast
    next
      case 2
      with assms(4) index_of_Some [OF assms(1)] k(4) have "vi_id u = j" by auto
      with 2 show ?thesis by (auto simp: voted_def)
    qed
  qed
  moreover have "set (signer_infos ?vs ?agg) \<subseteq> set (vs_validators ?vs)" using distinct_signer_infos(2) [OF assms(1)] .
  ultimately show ?thesis
    using ok unfolding certified_def has_quorum_set [OF assms(1)] by (intro exI [of _ "set (signer_infos ?vs ?agg)"]) simp
qed

section \<open>The agreement argument\<close>

text \<open>
  What the argument needs of the replicas of a run \<open>n\<close>: two certificates share an honest voter, an
  honest validator votes once per phase and view, its first-phase vote rests on a certificate for the
  parent that is at least as new as every second-phase vote it cast before, and its second-phase vote
  on a first-phase certificate for the same block.
\<close>

locale voting =
  fixes good :: "'n \<Rightarrow> bool" and honest :: "'n \<Rightarrow> ValidatorId set"
    and cert :: "'n \<Rightarrow> VoteType \<Rightarrow> ViewNumber \<Rightarrow> BlockHash \<Rightarrow> bool"
    and vote :: "'n \<Rightarrow> ValidatorId \<Rightarrow> VoteType \<Rightarrow> ViewNumber \<Rightarrow> BlockHash \<Rightarrow> bool"
    and net :: "'n \<Rightarrow> Net" and blocks :: "'n \<Rightarrow> Block set"
  assumes hashes: "good n \<Longrightarrow> collision_free (net n) (blocks n)"
    and overlap: "\<lbrakk> good n; cert n t v h; cert n t' v' h' \<rbrakk> \<Longrightarrow> \<exists>i \<in> honest n. vote n i t v h \<and> vote n i t' v' h'"
    and once: "\<lbrakk> good n; i \<in> honest n; vote n i t v h; vote n i t v h' \<rbrakk> \<Longrightarrow> h = h'"
    and first: "\<lbrakk> good n; i \<in> honest n; vote n i Vote v h \<rbrakk> \<Longrightarrow>
        \<exists>b p w. known (net n) (blocks n) b \<and> b_hash b = h \<and> b_parent_hash b = b_hash p \<and>
          unat (b_height b) = Suc (unat (b_height p)) \<and> (p = genesis_block \<or> known (net n) (blocks n) p) \<and>
          (w = 0 \<or> cert n Vote w (b_parent_hash b)) \<and> (\<forall>u g. vote n i Vote2 u g \<longrightarrow> u < v \<longrightarrow> u \<le> w)"
    and second: "\<lbrakk> good n; i \<in> honest n; vote n i Vote2 v h \<rbrakk> \<Longrightarrow> 1 \<le> v \<and> cert n Vote v h"
begin

lemma certified_block:
  assumes "good n" "cert n Vote v h"
  obtains b where "known (net n) (blocks n) b" "b_hash b = h"
  using overlap [OF assms(1,2,2)] first [OF assms(1)] by blast

lemma certified_view: "\<lbrakk> good n; cert n Vote2 v h \<rbrakk> \<Longrightarrow> 1 \<le> v \<and> cert n Vote v h"
  using overlap [of n Vote2 v h Vote2 v h] second by blast

text \<open>A block certified in the second phase is an ancestor of all blocks certified from that view on.\<close>

lemma certified_extends:
  assumes "good n" "cert n Vote2 v h"
  shows "\<lbrakk> cert n Vote v' h'; v \<le> v'; known (net n) (blocks n) b; b_hash b = h' \<rbrakk> \<Longrightarrow> extends (net n) (blocks n) h h'"
proof (induction "unat (b_height b)" arbitrary: b v' h' rule: less_induct)
  case less
  note hs = hashes [OF assms(1)]
  show ?case
  proof (cases "v = v'")
    case True
    with certified_view [OF assms] overlap [OF assms(1), of Vote v h Vote v' h'] once [OF assms(1)] less.prems(1)
    have "h = h'" by blast
    then show ?thesis by (simp add: extends_refl)
  next
    case False
    with less.prems(2) have lt: "v < v'" by simp
    from overlap [OF assms less.prems(1)] obtain i where i: "i \<in> honest n" "vote n i Vote2 v h" "vote n i Vote v' h'" by blast
    from first [OF assms(1) i(1,3)] obtain c p w where c: "known (net n) (blocks n) c" "b_hash c = h'"
      "b_parent_hash c = b_hash p" "unat (b_height c) = Suc (unat (b_height p))" "p = genesis_block \<or> known (net n) (blocks n) p"
      "w = 0 \<or> cert n Vote w (b_parent_hash c)" "v \<le> w" using i(2) lt by blast
    have "c = b" using known_unique [OF hs c(1) less.prems(3)] c(2) less.prems(4) by simp
    have "w \<noteq> 0" using c(7) certified_view [OF assms] by auto
    with c(6) have w: "cert n Vote w (b_hash p)" using c(3) by simp
    have "p \<noteq> genesis_block"
    proof
      assume "p = genesis_block"
      with w have "cert n Vote w GENESIS_HASH" by (simp add: genesis_block_def)
      from certified_block [OF assms(1) this] known_not_genesis [OF hs] show False by blast
    qed
    with c(5) have p: "known (net n) (blocks n) p" by simp
    have "extends (net n) (blocks n) h (b_hash p)"
      by (rule less.hyps [OF _ w c(7) p refl]) (use c(4) \<open>c = b\<close> in simp)
    with c(1-3) show ?thesis using extends_step by metis
  qed
qed

theorem no_fork:
  assumes "good n" "cert n Vote2 v h" "cert n Vote2 v' h'"
  shows "extends (net n) (blocks n) h h' \<or> extends (net n) (blocks n) h' h"
proof -
  have one: "extends (net n) (blocks n) x y" if "cert n Vote2 u x" "cert n Vote2 u' y" "u \<le> u'" for u u' x y
  proof -
    have c: "cert n Vote u' y" using certified_view [OF assms(1) that(2)] by simp
    from certified_block [OF assms(1) c] obtain b where "known (net n) (blocks n) b" "b_hash b = y" by blast
    with certified_extends [OF assms(1) that(1) c that(3)] show ?thesis by blast
  qed
  with assms(2,3) show ?thesis using linear [of v v'] by blast
qed

theorem chains_agree:
  assumes "good n" "chain_of (net n) (blocks n) C" "chain_of (net n) (blocks n) D"
    and "C \<noteq> [] \<Longrightarrow> \<exists>v. cert n Vote2 v (tip C)" "D \<noteq> [] \<Longrightarrow> \<exists>v. cert n Vote2 v (tip D)"
  shows "prefix C D \<or> prefix D C"
proof (cases "C = [] \<or> D = []")
  case False
  with assms(4,5) obtain v v' where "cert n Vote2 v (tip C)" "cert n Vote2 v' (tip D)" by blast
  from no_fork [OF assms(1) this] chain_prefix [OF hashes [OF assms(1)]] assms(2,3) False show ?thesis by blast
qed auto

end

section \<open>The replicas of a network\<close>

definition executed :: "('a, 'w) NetRun \<Rightarrow> ValidatorId \<Rightarrow> Block list" where
  "executed R i = rn_journal R i (en_app (rn_engine R i))"

lemma network_replica:
  assumes "network R" "i \<in> rn_honest R"
  shows "signed_ok (rn_net R) i (rn_blocks R) (cs_locked_qc (en_state (rn_engine R i))) (signed_votes (rn_engine R i))"
    "executed_ok (rn_net R) (signed_votes (rn_engine R i)) (rn_blocks R)
      (cs_last_committed_height (en_state (rn_engine R i))) (executed R i)"
proof -
  let ?N = "rn_net R" and ?e = "rn_engine R i"
  have run: "honest_run ?N (rn_chain_id R) (rn_received R) i (rn_journal R i) (rn_env R i) ?e"
    and cf: "collision_free ?N (rn_blocks R)" using assms by (simp_all add: network_def)
  have sub: "seen (rn_received R) (en_log ?e) \<subseteq> rn_blocks R" using assms(2) by (auto simp: rn_blocks_def all_blocks_def)
  have "replica_ok ?N i (rn_journal R i) (ee_deps (rn_env R i))" using run by (simp add: honest_run_def)
  with honest_run_safe [OF run] collision_free_mono [OF cf sub] have "safe ?N i (rn_journal R i) (rn_received R) None ?e"
    by (simp add: safety_inv_def)
  then show "signed_ok ?N i (rn_blocks R) (cs_locked_qc (en_state ?e)) (signed_votes ?e)"
    "executed_ok ?N (signed_votes ?e) (rn_blocks R) (cs_last_committed_height (en_state ?e)) (executed R i)"
    using signed_ok_mono [OF _ sub view_le_refl] executed_ok_mono [OF _ sub order_refl]
    by (simp_all add: safe_def Let_def executed_def)
qed

lemma network_certified:
  assumes "network R" "i \<in> rn_honest R" "qc_valid (rn_net R) (signed_votes (rn_engine R i)) t qc exts"
  shows "certified (rn_net R) (rn_honest R) (rn_engine R) t (qc_view qc) (qc_block_hash qc)"
  by (rule valid_certified [where e = "rn_engine R", OF _ _ assms(2) _ assms(3)])
     (use assms(1) network_replica(1) [OF assms(1,2)] in \<open>simp_all add: network_def signed_ok_def\<close>)

interpretation replicas: voting network rn_honest "\<lambda>R. certified (rn_net R) (rn_honest R) (rn_engine R)"
    "\<lambda>R. voted (rn_engine R)" rn_net rn_blocks
proof (unfold_locales, goal_cases)
  case (1 R)
  then show ?case by (simp add: network_def)
next
  case (2 R t v h t' v' h')
  then show ?case by (intro certified_overlap) (simp_all add: network_def)
next
  case (3 R i t v h h')
  with network_replica(1) [OF 3(1,2)] show ?case unfolding voted_def signed_ok_def by metis
next
  case (4 R i v h)
  let ?V = "signed_votes (rn_engine R i)"
  note s = network_replica(1) [OF 4(1,2), unfolded signed_ok_def]
  from 4(3) obtain x where x: "x \<in> ?V" "v_view x = v" "v_block_hash x = h" "v_vote_type x = Vote" by (auto simp: voted_def)
  from bspec [OF s [THEN conjunct2, THEN conjunct2, THEN conjunct1] x(1)] x(4) obtain b j where
    r: "rests_on (rn_net R) ?V (rn_blocks R) b j" "b_hash b = v_block_hash x"
      "\<forall>w \<in> ?V. v_vote_type w = Vote2 \<longrightarrow> v_view w < v_view x \<longrightarrow> v_view w \<le> qc_view j" by blast
  from r(1) obtain p where p: "known (rn_net R) (rn_blocks R) b" "b_parent_hash b = qc_block_hash j" "justified (rn_net R) ?V j"
    "p = genesis_block \<or> known (rn_net R) (rn_blocks R) p" "b_hash p = qc_block_hash j"
    "unat (b_height b) = Suc (unat (b_height p))" unfolding rests_on_def by blast
  from p(3) have "qc_view j = 0 \<or> certified (rn_net R) (rn_honest R) (rn_engine R) Vote (qc_view j) (b_parent_hash b)"
    using network_certified [OF 4(1,2)] p(2) by (auto simp: justified_def is_genesis_qc_def)
  moreover have "\<forall>u g. voted (rn_engine R) i Vote2 u g \<longrightarrow> u < v \<longrightarrow> u \<le> qc_view j" using r(3) x(2) by (auto simp: voted_def)
  ultimately show ?case using p r(2) x(3) by (intro exI [of _ b] exI [of _ p] exI [of _ "qc_view j"]) simp
next
  case (5 R i v h)
  note s = network_replica(1) [OF 5(1,2), unfolded signed_ok_def]
  from 5(3) obtain x where x: "x \<in> signed_votes (rn_engine R i)" "v_view x = v" "v_block_hash x = h" "v_vote_type x = Vote2"
    by (auto simp: voted_def)
  from bspec [OF s [THEN conjunct2, THEN conjunct2, THEN conjunct2] x(1)] x(4) obtain qc where
    "qc_valid (rn_net R) (signed_votes (rn_engine R i)) Vote qc []" "qc_view qc = v_view x" "qc_block_hash qc = v_block_hash x" by blast
  with network_certified [OF 5(1,2)] x s [THEN conjunct1] show ?case by metis
qed

lemma executed_chain:
  assumes "network R" "i \<in> rn_honest R"
  shows "chain_of (rn_net R) (rn_blocks R) (executed R i)"
    "executed R i \<noteq> [] \<Longrightarrow> \<exists>v. certified (rn_net R) (rn_honest R) (rn_engine R) Vote2 v (tip (executed R i))"
proof -
  note x = network_replica(2) [OF assms, unfolded executed_ok_def]
  then show "chain_of (rn_net R) (rn_blocks R) (executed R i)" by (simp add: chain_of_def)
  assume "executed R i \<noteq> []"
  with x obtain qc exts where "qc_valid (rn_net R) (signed_votes (rn_engine R i)) Vote2 qc exts"
    "qc_block_hash qc = tip (executed R i)" by (auto simp: tip_def)
  with network_certified [OF assms] show "\<exists>v. certified (rn_net R) (rn_honest R) (rn_engine R) Vote2 v (tip (executed R i))" by metis
qed

section \<open>A concrete network\<close>

text \<open>
  The network of \<open>Fork_Attempt\<close>: validators 1, 3 and 4 are honest, and validator 2, which leads view 1,
  proposes one block to 1 and 4 and another to 3. The signatures that were received are those of the
  two phases of votes for the first block.
\<close>

definition fork_net :: Net where
  "fork_net = \<lparr> nt_vs = sample_set, nt_chain = hash_rep 7, nt_verify = (\<lambda>pk m sg. sg = m), nt_blake3 = fork_hash,
     nt_sigs = {v_signature (fork_vote j (hash_rep 8) t) |j t. j \<in> {1, 2, 4}} \<rparr>"

lemma fork_heard:
  assumes "ev \<in> set (fork_events i)" "msg \<in> event_msgs ev"
  shows "made_of (\<lambda>b. b \<in> {fork_block, other_block}) (heard_qc fork_net) (heard_vote fork_net) msg"
proof -
  have q: "heard_qc fork_net fork_genesis_qc" "heard_qc fork_net fork_qc"
    by (auto simp: heard_qc_def fork_net_def fork_genesis_qc_def fork_qc_def agg_new_def)
  have v: "heard_vote fork_net (fork_vote j (hash_rep 8) Vote2)" if "j \<in> {1, 2, 4}" for j
    using that by (auto simp: heard_vote_def fork_net_def)
  have "ev \<in> {fork_propose fork_block, fork_propose other_block, fork_prepare} \<union> fork_vote2 ` {1, 2, 4}"
    using assms(1) unfolding fork_events_def by (cases "i = 3") (simp_all, blast?)
  then consider (propose) b where "b \<in> {fork_block, other_block}" "ev = fork_propose b" | (prepare) "ev = fork_prepare"
    | (vote2) j where "j \<in> {1, 2, 4}" "ev = fork_vote2 j" by blast
  then show ?thesis
  proof cases
    case propose
    then show ?thesis using assms(2) q by (simp add: fork_propose_def made_of_def)
  next
    case prepare
    then show ?thesis using assms(2) q by (simp add: fork_prepare_def made_of_def)
  next
    case vote2
    then show ?thesis using assms(2) v by (simp add: fork_vote2_def made_of_def)
  qed
qed

lemma fork_honest:
  assumes "i \<in> {1, 3, 4}"
  shows "honest_run fork_net [] {fork_block, other_block} i (\<lambda>a. a) fork_env (fork_engine i)"
proof -
  have ok: "replica_ok fork_net i (\<lambda>a. a) (ee_deps fork_env)"
    using sample_set_wf by (auto simp: replica_ok_def fork_net_def fork_env_def list_app_def journaled_def default_EndBlockResponse_def)
  have run: "engine_run 1 fork_env (0, GENESIS_HASH) (fork_events i) (fork_new i) = Inr (fork_engine i)"
    using assms fork_run_committed [of i] fork_run_other(1) by auto
  show ?thesis
    unfolding honest_run_def
    by (intro conjI ok exI [of _ 1] exI [of _ "(0, GENESIS_HASH)"] exI [of _ "fork_events i"] exI [of _ "[]"] exI [of _ 0] exI [of _ None])
       (use run fork_heard in \<open>simp_all add: fork_net_def fork_hashes fork_new_def\<close>)
qed

lemma fork_unforgeable: "unforgeable fork_net {1, 3, 4} fork_engine"
proof -
  have signed: "fork_vote i (hash_rep 8) t \<in> signed_votes (fork_engine i)" if i: "i \<in> {1, 4}" for i t
  proof -
    obtain msg where "map fst (en_log (fork_engine i)) =
      [SignVote (fork_vote i (hash_rep 8) Vote), SendTo 2 (VoteMsg (fork_vote i (hash_rep 8) Vote)),
       SignVote (fork_vote i (hash_rep 8) Vote2), SendTo 3 (Vote2Msg (fork_vote i (hash_rep 8) Vote2)), SendTo 3 msg]"
      using fork_run_committed [OF i] by (elim exE conjE) (rule that)
    from arg_cong [OF this, of set] show ?thesis by (cases t) (simp_all add: signed_votes_def)
  qed
  have same: "i = j \<and> view = 1 \<and> h = hash_rep 8 \<and> t = t'"
    if "v_signature (fork_vote j (hash_rep 8) t') = vote_signing_bytes fork_hash (hash_rep 7) 0 view i h t ext" for i j view h t t' ext
    using that signed_bytes_eq_iff [of fork_hash "SVote (hash_rep 7) 0 1 j (hash_rep 8) t' None" "SVote (hash_rep 7) 0 view i h t ext"]
    by (simp add: fork_vote_def)
  show ?thesis
    unfolding unforgeable_def
  proof (intro ballI allI impI)
    fix i v sg t view h ext
    assume i: "i \<in> {1, 3, 4}" and sg: "sg \<in> nt_sigs fork_net"
      "nt_verify fork_net (vi_public_key v) (vote_signing_bytes (nt_blake3 fork_net) (nt_chain fork_net) 0 view i h t ext) sg"
    from sg(1) obtain j t' where j: "j \<in> {1, 2, 4}" "sg = v_signature (fork_vote j (hash_rep 8) t')"
      unfolding fork_net_def Net.simps by blast
    from sg(2) have "sg = vote_signing_bytes fork_hash (hash_rep 7) 0 view i h t ext" by (simp add: fork_net_def)
    from same [OF trans [OF j(2) [symmetric] this]] have s: "i = j \<and> view = 1 \<and> h = hash_rep 8 \<and> t = t'" .
    with j(1) i have "i \<in> {1, 4}" by auto
    from signed [OF this, of t] s
    show "\<exists>vote \<in> signed_votes (fork_engine i). v_view vote = view \<and> v_block_hash vote = h \<and> v_vote_type vote = t"
      by (intro bexI [of _ "fork_vote i (hash_rep 8) t"]) simp_all
  qed
qed

lemma fork_network:
  "\<forall>i \<in> {1, 3, 4}. honest_run fork_net [] {fork_block, other_block} i (\<lambda>a. a) fork_env (fork_engine i)"
  "set_power {v \<in> set (vs_validators (nt_vs fork_net)). vi_id v \<notin> {1, 3, 4}} \<le> unat (max_faulty_power (nt_vs fork_net))"
  "unforgeable fork_net {1, 3, 4} fork_engine"
  "collision_free fork_net (all_blocks {fork_block, other_block} {1, 3, 4} fork_engine)"
proof -
  show "\<forall>i \<in> {1, 3, 4}. honest_run fork_net [] {fork_block, other_block} i (\<lambda>a. a) fork_env (fork_engine i)"
    using fork_honest by blast
  show "unforgeable fork_net {1, 3, 4} fork_engine" by (rule fork_unforgeable)
  have "seen B (en_log (fork_engine i)) = B" if i: "i \<in> {1, 3, 4}" for B i
  proof -
    have "Broadcast m \<notin> set (map fst (en_log (fork_engine i)))" for m
    proof (cases "i = 3")
      case True
      then show ?thesis by (simp only: fork_run_other(3)) simp
    next
      case False
      with i have "i \<in> {1, 4}" by blast
      from fork_run_committed [OF this] show ?thesis by (elim exE conjE) (simp only: list.set, simp)
    qed
    then show ?thesis by (auto simp: seen_def)
  qed
  then have "all_blocks {fork_block, other_block} {1, 3, 4} fork_engine = {fork_block, other_block}" by (simp add: all_blocks_def)
  then show "collision_free fork_net (all_blocks {fork_block, other_block} {1, 3, 4} fork_engine)"
    by (auto simp: collision_free_def fork_hashes GENESIS_HASH_def)
  have "{v \<in> set (vs_validators sample_set). vi_id v \<notin> {1, 3, 4}} = {sample_infos ! 1}"
    by (auto simp: sample_set_def sample_infos_def)
  then show "set_power {v \<in> set (vs_validators (nt_vs fork_net)). vi_id v \<notin> {1, 3, 4}} \<le> unat (max_faulty_power (nt_vs fork_net))"
    by (simp add: fork_net_def set_power_def unat_max_faulty_power) (simp add: sample_set_def sample_infos_def)
qed

section \<open>Properties\<close>

text \<open>
  C1. Agreement, for one validator set and one uninterrupted run per validator. Let every validator of a
  set \<open>H\<close> run its engine once, from a fresh start at genesis and without a restart, on arbitrary messages
  and timeouts, with an application that records the blocks committed to it and never asks for a change
  of the validator set. Let the validators outside \<open>H\<close> have at most the tolerated power, let no vote
  signature of a validator of \<open>H\<close> among those that were received be forged, and let the hash tell apart the
  blocks that were received or proposed, none of which has the hash of genesis. Then of any two lists of
  blocks that the applications of two validators of \<open>H\<close> recorded one is a prefix of the other: the chain
  does not fork.
\<close>

theorem agreement:
  assumes "vs_wf (nt_vs N)"
    and "\<forall>i \<in> H. honest_run N chain_id B i (journal i) (env i) (e i)"
    and "set_power {v \<in> set (vs_validators (nt_vs N)). vi_id v \<notin> H} \<le> unat (max_faulty_power (nt_vs N))"
    and "unforgeable N H e" "collision_free N (all_blocks B H e)"
    and "i \<in> H" "j \<in> H"
  shows "prefix (journal i (en_app (e i))) (journal j (en_app (e j))) \<or>
         prefix (journal j (en_app (e j))) (journal i (en_app (e i)))"
proof -
  define R where "R = \<lparr> rn_net = N, rn_chain_id = chain_id, rn_received = B, rn_honest = H, rn_journal = journal,
    rn_env = env, rn_engine = e \<rparr>"
  have n: "network R" using assms(1-5) by (simp add: network_def rn_blocks_def R_def)
  have h: "i \<in> rn_honest R" "j \<in> rn_honest R" using assms(6,7) by (simp_all add: R_def)
  from replicas.chains_agree [OF n executed_chain(1) [OF n h(1)] executed_chain(1) [OF n h(2)]
      executed_chain(2) [OF n h(1)] executed_chain(2) [OF n h(2)]]
  show ?thesis by (simp add: executed_def R_def)
qed

theorem agreement_witness:
  "en_app (fork_engine 1) = [fork_block] \<and> en_app (fork_engine 4) = [fork_block] \<and>
   signed_votes (fork_engine 3) = {fork_vote 3 (b_hash other_block) Vote} \<and>
   (prefix (en_app (fork_engine 1)) (en_app (fork_engine 3)) \<or> prefix (en_app (fork_engine 3)) (en_app (fork_engine 1))) \<and>
   (prefix (en_app (fork_engine 1)) (en_app (fork_engine 4)) \<or> prefix (en_app (fork_engine 4)) (en_app (fork_engine 1)))"
proof (intro conjI)
  show "en_app (fork_engine 1) = [fork_block]" "en_app (fork_engine 4) = [fork_block]"
    using fork_run_committed [of 1] fork_run_committed [of 4] by auto
  show "signed_votes (fork_engine 3) = {fork_vote 3 (b_hash other_block) Vote}"
    using arg_cong [OF fork_run_other(3), of set] by (auto simp: signed_votes_def fork_hashes)
  show "prefix (en_app (fork_engine 1)) (en_app (fork_engine 3)) \<or> prefix (en_app (fork_engine 3)) (en_app (fork_engine 1))"
    "prefix (en_app (fork_engine 1)) (en_app (fork_engine 4)) \<or> prefix (en_app (fork_engine 4)) (en_app (fork_engine 1))"
    by (rule agreement [where journal = "\<lambda>i a. a", OF _ fork_network]; simp add: fork_net_def sample_set_wf)+
qed

end
