(* ===== verification/Wal.thy ===== *)
theory Wal
  imports Types
begin

text \<open>
  \<open>hotmint-storage/src/wal.rs\<close>: the write-ahead log of commits. A file is its bytes; the open
  handle adds the write position. The postcard codec of entries is a parameter, with its round trip
  as the hypothesis \<open>postcard_ok\<close>. File-system failures are not modelled: the operations here are the
  ones that succeed, or the prefix of one that a crash left behind.
\<close>

datatype WalEntry = CommitIntent Height | CommitDone Height

record Postcard =
  pc_encode :: "WalEntry \<Rightarrow> bytes"
  pc_decode :: "bytes \<Rightarrow> WalEntry option"

definition ENTRY_MAGIC :: bytes where
  "ENTRY_MAGIC = [0x57, 0x41, 0x4C, 0x31]"

record ConsensusWal =
  w_content :: bytes
  w_pos :: nat

datatype WalRecovery = Clean | NeedsReplay Height

section \<open>Writing\<close>

definition write_all :: "bytes \<Rightarrow> ConsensusWal \<Rightarrow> ConsensusWal" where
  "write_all data w =
     \<lparr> w_content = take (w_pos w) (w_content w) @ replicate (w_pos w - length (w_content w)) 0 @ data @
                   drop (w_pos w + length data) (w_content w),
       w_pos = w_pos w + length data \<rparr>"

definition write_entry :: "Postcard \<Rightarrow> WalEntry \<Rightarrow> ConsensusWal \<Rightarrow> ConsensusWal" where
  "write_entry pc entry w =
     (let payload = pc_encode pc entry;
          len = of_nat (length payload) :: u32
      in write_all payload (write_all (to_le_bytes_u32 len) (write_all ENTRY_MAGIC w)))"

definition wal_open :: "bytes option \<Rightarrow> ConsensusWal" where
  "wal_open file = (let content = (case file of None \<Rightarrow> [] | Some c \<Rightarrow> c)
                    in \<lparr> w_content = content, w_pos = length content \<rparr>)"

definition wal_truncate :: "ConsensusWal \<Rightarrow> ConsensusWal" where
  "wal_truncate w = w\<lparr>w_content := [], w_pos := 0\<rparr>"

definition log_commit_intent :: "Postcard \<Rightarrow> Height \<Rightarrow> ConsensusWal \<Rightarrow> ConsensusWal" where
  "log_commit_intent pc target_height w = write_entry pc (CommitIntent target_height) w"

definition log_commit_done :: "Postcard \<Rightarrow> Height \<Rightarrow> ConsensusWal \<Rightarrow> ConsensusWal" where
  "log_commit_done pc target_height w = wal_truncate (write_entry pc (CommitDone target_height) w)"

section \<open>Recovery\<close>

datatype DecodeResult = Entry WalEntry nat | Truncated | Invalid

definition decode_entry :: "Postcard \<Rightarrow> bytes \<Rightarrow> DecodeResult" where
  "decode_entry pc buf =
     (if length buf < 4
      then (if take (length buf) ENTRY_MAGIC = buf then Truncated else Invalid)
      else if take 4 buf \<noteq> ENTRY_MAGIC then Invalid
      else if length buf < 8 then Truncated
      else
        let len = unat (from_le_bytes_u32 (take 4 (drop 4 buf)))
        in if length buf < 8 + len then Truncated
           else case pc_decode pc (take len (drop 8 buf)) of
                  None \<Rightarrow> Invalid
                | Some entry \<Rightarrow> Entry entry (8 + len))"

lemma decode_entry_consumes: "decode_entry pc buf = Entry e n \<Longrightarrow> 0 < n"
  by (auto simp: decode_entry_def Let_def split: if_splits option.splits)

text \<open>
  The scan of the file: \<open>Inl\<close> the offset of an invalid entry, or the last entry together with the
  offset of a truncated tail, if there is one.
\<close>

function wal_scan ::
    "Postcard \<Rightarrow> bytes \<Rightarrow> nat \<Rightarrow> WalEntry option \<Rightarrow> nat + WalEntry option \<times> nat option" where
  "wal_scan pc buf offset last_entry =
     (if offset < length buf
      then case decode_entry pc (drop offset buf) of
             Entry entry consumed \<Rightarrow> wal_scan pc buf (offset + consumed) (Some entry)
           | Truncated \<Rightarrow> Inr (last_entry, Some offset)
           | Invalid \<Rightarrow> Inl offset
      else Inr (last_entry, None))"
  by pat_completeness auto
termination
  by (relation "measure (\<lambda>(pc, buf, offset, last). length buf - offset)")
     (auto dest: decode_entry_consumes)

declare wal_scan.simps [simp del]

text \<open>
  \<open>check_recovery_path\<close>: the file after the check, and \<open>Inl\<close> the offset of a corrupt entry or the
  verdict. A file that does not exist stays so.
\<close>

definition check_recovery_path ::
    "Postcard \<Rightarrow> bytes option \<Rightarrow> Height option \<Rightarrow> bytes option \<times> (nat + WalRecovery)" where
  "check_recovery_path pc file last_committed_height =
     (case file of
        None \<Rightarrow> (None, Inr Clean)
      | Some buf \<Rightarrow>
         (case wal_scan pc buf 0 None of
            Inl offset \<Rightarrow> (Some buf, Inl offset)
          | Inr (last_entry, tail) \<Rightarrow>
              let buf' = (case tail of None \<Rightarrow> buf | Some offset \<Rightarrow> take offset buf)
              in case last_entry of
                   Some (CommitIntent target_height) \<Rightarrow>
                     (case last_committed_height of
                        Some committed_height \<Rightarrow>
                          if committed_height \<ge> target_height then (Some [], Inr Clean)
                          else (Some buf', Inr (NeedsReplay target_height))
                      | None \<Rightarrow> (Some buf', Inr (NeedsReplay target_height)))
                 | Some (CommitDone _) \<Rightarrow> (Some [], Inr Clean)
                 | None \<Rightarrow> (Some buf', Inr Clean)))"

definition reconcile_with_committed_height ::
    "Postcard \<Rightarrow> Height \<Rightarrow> ConsensusWal \<Rightarrow> ConsensusWal \<times> (nat + WalRecovery)" where
  "reconcile_with_committed_height pc last_committed_height w =
     (case check_recovery_path pc (Some (w_content w)) (Some last_committed_height) of
        (file, Inl offset) \<Rightarrow> (w\<lparr>w_content := the file\<rparr>, Inl offset)
      | (file, Inr recovery) \<Rightarrow>
          (w\<lparr>w_content := the file, w_pos := length (the file)\<rparr>, Inr recovery))"

section \<open>The log as a list of entries\<close>

definition postcard_ok :: "Postcard \<Rightarrow> bool" where
  "postcard_ok pc \<longleftrightarrow> (\<forall>e. pc_decode pc (pc_encode pc e) = Some e \<and> length (pc_encode pc e) < 2 ^ 32)"

definition entry_bytes :: "Postcard \<Rightarrow> WalEntry \<Rightarrow> bytes" where
  "entry_bytes pc e = ENTRY_MAGIC @ to_le_bytes_u32 (of_nat (length (pc_encode pc e))) @ pc_encode pc e"

definition log_bytes :: "Postcard \<Rightarrow> WalEntry list \<Rightarrow> bytes" where
  "log_bytes pc es = concat (map (entry_bytes pc) es)"

lemma length_ENTRY_MAGIC [simp]: "length ENTRY_MAGIC = 4"
  by (simp add: ENTRY_MAGIC_def)

lemma log_bytes_simps [simp]:
  "log_bytes pc [] = []" "log_bytes pc (e # es) = entry_bytes pc e @ log_bytes pc es"
  "log_bytes pc (es @ es') = log_bytes pc es @ log_bytes pc es'"
  by (simp_all add: log_bytes_def)

lemma write_entry_at_end:
  assumes "w_pos w = length (w_content w)"
  shows "write_entry pc e w = \<lparr> w_content = w_content w @ entry_bytes pc e,
           w_pos = length (w_content w) + length (entry_bytes pc e) \<rparr>"
  using assms by (simp add: write_entry_def write_all_def entry_bytes_def Let_def)

lemma decode_entry_bytes:
  assumes "postcard_ok pc"
  shows "decode_entry pc (entry_bytes pc e @ rest) = Entry e (length (entry_bytes pc e))"
proof -
  have "length (pc_encode pc e) < 2 ^ 32" "pc_decode pc (pc_encode pc e) = Some e"
    using assms by (auto simp: postcard_ok_def)
  then show ?thesis by (simp add: decode_entry_def entry_bytes_def Let_def unat_of_nat)
qed

lemma decode_torn_entry:
  assumes "postcard_ok pc" "n < length (entry_bytes pc e)"
  shows "decode_entry pc (take n (entry_bytes pc e)) = Truncated"
proof -
  have len: "length (pc_encode pc e) < 2 ^ 32" using assms(1) by (auto simp: postcard_ok_def)
  consider "n < 4" | "4 \<le> n" "n < 8" | "8 \<le> n" by linarith
  then show ?thesis
  proof cases
    case 3
    then have "take 4 (take n (entry_bytes pc e)) = ENTRY_MAGIC"
      "take 4 (drop 4 (take n (entry_bytes pc e))) = to_le_bytes_u32 (of_nat (length (pc_encode pc e)))"
      by (simp_all add: entry_bytes_def take_drop min_def)
    with 3 len assms(2) show ?thesis
      by (simp add: decode_entry_def Let_def entry_bytes_def unat_of_nat)
  qed (auto simp: decode_entry_def entry_bytes_def min_def)
qed

lemma entry_bytes_nonempty [simp]: "entry_bytes pc e \<noteq> []"
  by (simp add: entry_bytes_def ENTRY_MAGIC_def)

text \<open>A tail is what a torn write leaves: a proper prefix of an entry, empty if none was started.\<close>

definition torn_tail :: "Postcard \<Rightarrow> bytes \<Rightarrow> bool" where
  "torn_tail pc t \<longleftrightarrow> (\<exists>e n. n < length (entry_bytes pc e) \<and> t = take n (entry_bytes pc e))"

definition last_of :: "'a list \<Rightarrow> 'a option \<Rightarrow> 'a option" where
  "last_of xs d = (if xs = [] then d else Some (last xs))"

lemma wal_scan_log:
  assumes "postcard_ok pc" "torn_tail pc t"
  shows "wal_scan pc (pre @ log_bytes pc es @ t) (length pre) l =
         Inr (last_of es l, if t = [] then None else Some (length pre + length (log_bytes pc es)))"
proof (induction es arbitrary: pre l)
  case Nil
  have "decode_entry pc t = Truncated" if "t \<noteq> []"
    using assms decode_torn_entry by (auto simp: torn_tail_def)
  then show ?case by (subst wal_scan.simps) (simp add: last_of_def)
next
  case (Cons e es)
  have "wal_scan pc (pre @ log_bytes pc (e # es) @ t) (length pre) l =
        wal_scan pc (pre @ log_bytes pc (e # es) @ t) (length pre + length (entry_bytes pc e)) (Some e)"
    by (subst wal_scan.simps) (simp add: decode_entry_bytes [OF assms(1)])
  with Cons.IH [of "pre @ entry_bytes pc e" "Some e"] show ?case by (simp add: last_of_def)
qed

text \<open>The verdict on a list of complete entries, and what it leaves of them.\<close>

definition verdict :: "WalEntry option \<Rightarrow> Height option \<Rightarrow> WalRecovery" where
  "verdict l committed =
     (case l of
        Some (CommitIntent h) \<Rightarrow>
          if (case committed of None \<Rightarrow> False | Some c \<Rightarrow> h \<le> c) then Clean else NeedsReplay h
      | _ \<Rightarrow> Clean)"

lemma check_recovery_log:
  assumes "postcard_ok pc" "torn_tail pc t"
  shows "check_recovery_path pc (Some (log_bytes pc es @ t)) committed =
    (Some (if es \<noteq> [] \<and> verdict (last_of es None) committed = Clean then [] else log_bytes pc es),
     Inr (verdict (last_of es None) committed))"
  using wal_scan_log [OF assms, of "[]" es None]
  by (auto simp: check_recovery_path_def verdict_def last_of_def split: option.splits WalEntry.splits)

text \<open>
  Recovery ignores a torn write. Whatever complete entries the log holds, if the file ends in a
  proper prefix of a further entry, the startup check succeeds, decides by the last complete entry
  alone and drops the torn bytes: it asks for a replay to the height of an open intent above the
  persisted height, and otherwise leaves an empty log.
\<close>

lemma recovery_ignores_torn_tail:
  assumes "postcard_ok pc" "n < length (entry_bytes pc e)"
  shows "check_recovery_path pc (Some (log_bytes pc es @ take n (entry_bytes pc e))) committed =
         check_recovery_path pc (Some (log_bytes pc es)) committed \<and>
         check_recovery_path pc (Some (log_bytes pc es)) committed =
           (Some (if es \<noteq> [] \<and> verdict (last_of es None) committed = Clean then [] else log_bytes pc es),
            Inr (verdict (last_of es None) committed))"
proof -
  have "torn_tail pc (take n (entry_bytes pc e))" "torn_tail pc []"
    using assms(2) by (auto simp: torn_tail_def intro: exI [of _ "0 :: nat"])
  with check_recovery_log [OF assms(1)] show ?thesis by (metis append_Nil2)
qed

definition sample_postcard :: Postcard where
  "sample_postcard =
     \<lparr> pc_encode = (\<lambda>e. case e of CommitIntent h \<Rightarrow> 0 # to_le_bytes h | CommitDone h \<Rightarrow> 1 # to_le_bytes h),
       pc_decode = (\<lambda>b. let h = of_nat (le_bytes_nat (tl b))
                        in if b = [] then None else if hd b = 0 then Some (CommitIntent h)
                           else if hd b = 1 then Some (CommitDone h) else None) \<rparr>"

lemma sample_postcard_ok: "postcard_ok sample_postcard"
  by (auto simp: postcard_ok_def sample_postcard_def Let_def split: WalEntry.splits)

section \<open>One commit under the log\<close>

text \<open>
  Where a crash can fall in a commit, and the bytes it leaves: inside a write, the old file and a
  proper prefix of the entry.
\<close>

datatype crash_point = InIntent nat | Committing | InDone nat | DoneWritten | Finished

fun crash_possible :: "Postcard \<Rightarrow> Height \<Rightarrow> crash_point \<Rightarrow> bool" where
  "crash_possible pc h (InIntent n) \<longleftrightarrow> n < length (entry_bytes pc (CommitIntent h))"
| "crash_possible pc h (InDone n) \<longleftrightarrow> n < length (entry_bytes pc (CommitDone h))"
| "crash_possible pc h _ \<longleftrightarrow> True"

definition crash_file :: "Postcard \<Rightarrow> Height \<Rightarrow> ConsensusWal \<Rightarrow> crash_point \<Rightarrow> bytes" where
  "crash_file pc h w p =
     (let w1 = log_commit_intent pc h w; w2 = write_entry pc (CommitDone h) w1
      in case p of
           InIntent n \<Rightarrow> take (length (w_content w) + n) (w_content w1)
         | Committing \<Rightarrow> w_content w1
         | InDone n \<Rightarrow> take (length (w_content w1) + n) (w_content w2)
         | DoneWritten \<Rightarrow> w_content w2
         | Finished \<Rightarrow> w_content (log_commit_done pc h w1))"

text \<open>
  C38. The log tells an interrupted commit from a finished one. From an empty log, after a crash at any
  byte of a commit to height \<open>h\<close>, the startup check asks for a replay to \<open>h\<close> exactly if the intent was
  written completely, the completion was not, and the persisted height is below \<open>h\<close>; in all other
  cases it reports a clean log and leaves it empty, as a finished commit does.
\<close>

theorem commit_crash_recovery:
  assumes "postcard_ok pc" "w = \<lparr> w_content = [], w_pos = 0 \<rparr>" "crash_possible pc h p"
  shows "check_recovery_path pc (Some (crash_file pc h w p)) (Some committed) =
    (if (p = Committing \<or> (\<exists>n. p = InDone n)) \<and> committed < h
     then (Some (entry_bytes pc (CommitIntent h)), Inr (NeedsReplay h))
     else (Some [], Inr Clean)) \<and>
    log_commit_done pc h (log_commit_intent pc h w) = w"
proof -
  have none: "torn_tail pc []" by (auto simp: torn_tail_def intro: exI [of _ "0 :: nat"])
  have bytes: "crash_file pc h w q =
    (case q of
       InIntent n \<Rightarrow> take n (entry_bytes pc (CommitIntent h))
     | Committing \<Rightarrow> entry_bytes pc (CommitIntent h)
     | InDone n \<Rightarrow> entry_bytes pc (CommitIntent h) @ take n (entry_bytes pc (CommitDone h))
     | DoneWritten \<Rightarrow> entry_bytes pc (CommitIntent h) @ entry_bytes pc (CommitDone h)
     | Finished \<Rightarrow> [])" for q
    by (cases q) (simp_all add: crash_file_def assms(2) log_commit_intent_def log_commit_done_def
        write_entry_at_end wal_truncate_def)
  have recovery: "check_recovery_path pc (Some (log_bytes pc es @ take n (entry_bytes pc e))) (Some committed) =
      (Some (if es \<noteq> [] \<and> verdict (last_of es None) (Some committed) = Clean then [] else log_bytes pc es),
       Inr (verdict (last_of es None) (Some committed)))" if "n < length (entry_bytes pc e)" for es n e
    by (rule check_recovery_log [OF assms(1)]) (use that in \<open>auto simp: torn_tail_def\<close>)
  have complete: "check_recovery_path pc (Some (log_bytes pc es)) (Some committed) =
      (Some (if es \<noteq> [] \<and> verdict (last_of es None) (Some committed) = Clean then [] else log_bytes pc es),
       Inr (verdict (last_of es None) (Some committed)))" for es
    using check_recovery_log [OF assms(1) none, of es "Some committed"] by simp
  note facts = verdict_def last_of_def not_le
  have "check_recovery_path pc (Some (crash_file pc h w p)) (Some committed) =
    (if (p = Committing \<or> (\<exists>n. p = InDone n)) \<and> committed < h
     then (Some (entry_bytes pc (CommitIntent h)), Inr (NeedsReplay h)) else (Some [], Inr Clean))"
  proof (cases p)
    case (InIntent n)
    with assms(3) recovery [of n "CommitIntent h" "[]"] show ?thesis by (simp add: bytes facts)
  next
    case Committing
    with complete [of "[CommitIntent h]"] show ?thesis by (auto simp: bytes facts)
  next
    case (InDone n)
    with assms(3) recovery [of n "CommitDone h" "[CommitIntent h]"] show ?thesis by (auto simp: bytes facts)
  next
    case DoneWritten
    with complete [of "[CommitIntent h, CommitDone h]"] show ?thesis by (simp add: bytes facts)
  next
    case Finished
    with complete [of "[]"] show ?thesis by (simp add: bytes facts)
  qed
  moreover have "log_commit_done pc h (log_commit_intent pc h w) = w"
    by (simp add: log_commit_done_def wal_truncate_def assms(2) log_commit_intent_def write_entry_at_end)
  ultimately show ?thesis by blast
qed

lemma commit_crash_recovery_witness:
  "check_recovery_path sample_postcard
     (Some (crash_file sample_postcard 4 \<lparr> w_content = [], w_pos = 0 \<rparr> (InDone 3))) (Some 3) =
   (Some (entry_bytes sample_postcard (CommitIntent 4)), Inr (NeedsReplay 4))"
  using commit_crash_recovery [OF sample_postcard_ok refl, of 4 "InDone 3" 3]
  by (simp add: entry_bytes_def sample_postcard_def)

end
