(* ===== verification/Mempool.thy ===== *)
theory Mempool
  imports Commit "HOL-Library.Sublist"
begin

text \<open>
  The transaction pool (\<open>hotmint-mempool/src/lib.rs\<close>). Every operation holds the lock on the entries
  from its first to its last access, so concurrent calls are sequences of the operations below. The
  ordered set of entries is a list sorted by the order of \<open>TxEntry\<close>. The hash is a parameter.
\<close>

section \<open>Entries\<close>

type_synonym TxHash = hash32

record TxEntry =
  te_tx :: bytes
  te_priority :: u64
  te_gas_wanted :: u64
  te_hash :: TxHash

text \<open>\<open>Ord\<close> and \<open>Eq\<close> of entries: by priority, then by hash.\<close>

definition entry_less :: "TxEntry \<Rightarrow> TxEntry \<Rightarrow> bool" where
  "entry_less a b \<longleftrightarrow> te_priority a < te_priority b \<or> te_priority a = te_priority b \<and> te_hash a < te_hash b"

definition entry_eq :: "TxEntry \<Rightarrow> TxEntry \<Rightarrow> bool" where
  "entry_eq a b \<longleftrightarrow> te_priority a = te_priority b \<and> te_hash a = te_hash b"

text \<open>Insertion into and removal from the ordered set; an equal entry that is present stays.\<close>

fun bset_insert :: "TxEntry \<Rightarrow> TxEntry list \<Rightarrow> TxEntry list" where
  "bset_insert e [] = [e]"
| "bset_insert e (x # xs) =
     (if entry_less e x then e # x # xs else if entry_eq e x then x # xs else x # bset_insert e xs)"

definition bset_remove :: "TxEntry \<Rightarrow> TxEntry list \<Rightarrow> TxEntry list" where
  "bset_remove e xs = filter (\<lambda>x. \<not> entry_eq e x) xs"

section \<open>The pool\<close>

record Mempool =
  mp_entries :: "TxEntry list"
  mp_seen :: "TxHash \<rightharpoonup> u64"
  mp_max_size :: nat
  mp_max_tx_bytes :: nat

definition mempool_new :: "nat \<Rightarrow> nat \<Rightarrow> Mempool" where
  "mempool_new max_size max_tx_bytes =
     \<lparr> mp_entries = [], mp_seen = Map.empty, mp_max_size = max_size, mp_max_tx_bytes = max_tx_bytes \<rparr>"

definition mempool_default :: Mempool where
  "mempool_default = mempool_new 10000 1048576"

definition add_tx_with_gas :: "(bytes \<Rightarrow> hash32) \<Rightarrow> bytes \<Rightarrow> u64 \<Rightarrow> u64 \<Rightarrow> Mempool \<Rightarrow> Mempool \<times> bool" where
  "add_tx_with_gas hash_tx tx priority gas_wanted m =
     (if mp_max_size m = 0 then (m, False)
      else if length tx > mp_max_tx_bytes m then (m, False)
      else
        let hash = hash_tx tx;
            entry = \<lparr> te_tx = tx, te_priority = priority, te_gas_wanted = gas_wanted, te_hash = hash \<rparr>;
            insert_entry = (\<lambda>m'. (m'\<lparr>mp_seen := (mp_seen m')(hash \<mapsto> priority),
                                     mp_entries := bset_insert entry (mp_entries m')\<rparr>, True))
        in case mp_seen m hash of
             Some existing_priority \<Rightarrow>
               if priority \<le> existing_priority then (m, False)
               else
                 let old = \<lparr> te_tx = tx, te_priority = existing_priority, te_gas_wanted = 0, te_hash = hash \<rparr>
                 in insert_entry (m\<lparr>mp_entries := bset_remove old (mp_entries m)\<rparr>)
           | None \<Rightarrow>
               if length (mp_entries m) \<ge> mp_max_size m
               then case mp_entries m of
                      lowest # rest \<Rightarrow>
                        if priority \<le> te_priority lowest then (m, False)
                        else insert_entry (m\<lparr>mp_entries := rest, mp_seen := (mp_seen m)(te_hash lowest := None)\<rparr>)
                    | [] \<Rightarrow> insert_entry m
               else insert_entry m)"

definition mp_add_tx :: "(bytes \<Rightarrow> hash32) \<Rightarrow> bytes \<Rightarrow> u64 \<Rightarrow> Mempool \<Rightarrow> Mempool \<times> bool" where
  "mp_add_tx hash_tx tx priority m = add_tx_with_gas hash_tx tx priority 0 m"

definition mp_size :: "Mempool \<Rightarrow> nat" where
  "mp_size m = length (mp_entries m)"

section \<open>Collecting a payload\<close>

definition MAX_SKIPPED :: nat where
  "MAX_SKIPPED = 200"

text \<open>
  The scan over the entries from the highest priority down. Lengths are natural numbers, so the
  checked addition of lengths always succeeds.
\<close>

fun collect_loop :: "nat \<Rightarrow> u64 \<Rightarrow> TxEntry list \<Rightarrow> bytes \<Rightarrow> u64 \<Rightarrow> nat \<Rightarrow> bytes" where
  "collect_loop max_bytes max_gas [] payload total_gas skipped = payload"
| "collect_loop max_bytes max_gas (entry # rest) payload total_gas skipped =
     (let tx_frame = 4 + length (te_tx entry);
          skip = (if Suc skipped \<ge> MAX_SKIPPED then payload
                  else collect_loop max_bytes max_gas rest payload total_gas (Suc skipped));
          take_entry = (\<lambda>gas. collect_loop max_bytes max_gas rest
             (payload @ to_le_bytes_u32 (of_nat (length (te_tx entry))) @ te_tx entry) gas skipped)
      in if tx_frame > max_bytes then collect_loop max_bytes max_gas rest payload total_gas skipped
         else if max_gas > 0 \<and> te_gas_wanted entry > max_gas
              then collect_loop max_bytes max_gas rest payload total_gas skipped
         else if length payload + tx_frame > max_bytes then skip
         else if max_gas > 0
              then case checked_add total_gas (te_gas_wanted entry) of
                     None \<Rightarrow> skip
                   | Some next_gas \<Rightarrow> if next_gas > max_gas then skip else take_entry next_gas
              else take_entry total_gas)"

definition collect_payload_with_gas :: "nat \<Rightarrow> u64 \<Rightarrow> Mempool \<Rightarrow> bytes" where
  "collect_payload_with_gas max_bytes max_gas m = collect_loop max_bytes max_gas (rev (mp_entries m)) [] 0 0"

definition collect_payload :: "nat \<Rightarrow> Mempool \<Rightarrow> bytes" where
  "collect_payload max_bytes m = collect_payload_with_gas max_bytes 0 m"

text \<open>The pool's own decoder, with the list of transactions as an accumulator.\<close>

function mp_decode_loop :: "bytes \<Rightarrow> nat \<Rightarrow> bytes list \<Rightarrow> bytes list" where
  "mp_decode_loop payload offset txs =
     (if offset + 4 \<le> length payload
      then let len = unat (from_le_bytes_u32 (take 4 (drop offset payload)));
               offset' = offset + 4
           in if offset' + len > length payload then txs
              else mp_decode_loop payload (offset' + len) (txs @ [take len (drop offset' payload)])
      else txs)"
  by pat_completeness auto
termination
  by (relation "measure (\<lambda>(payload, offset, txs). length payload - offset)") auto

declare mp_decode_loop.simps [simp del]

definition mp_decode_payload :: "bytes \<Rightarrow> bytes list" where
  "mp_decode_payload payload = mp_decode_loop payload 0 []"

section \<open>Rechecking after a commit\<close>

fun recheck_loop :: "(bytes \<Rightarrow> (u64 \<times> u64) option) \<Rightarrow> TxEntry list \<Rightarrow> Mempool \<Rightarrow> Mempool" where
  "recheck_loop validator [] m = m"
| "recheck_loop validator (entry # old) m =
     (case validator (te_tx entry) of
        Some (new_priority, new_gas) \<Rightarrow>
          recheck_loop validator old
            (m\<lparr>mp_seen := (mp_seen m)(te_hash entry \<mapsto> new_priority),
               mp_entries := bset_insert (entry\<lparr>te_priority := new_priority, te_gas_wanted := new_gas\<rparr>) (mp_entries m)\<rparr>)
      | None \<Rightarrow> recheck_loop validator old m)"

definition recheck :: "(bytes \<Rightarrow> (u64 \<times> u64) option) \<Rightarrow> Mempool \<Rightarrow> Mempool" where
  "recheck validator m = recheck_loop validator (mp_entries m) (m\<lparr>mp_entries := [], mp_seen := Map.empty\<rparr>)"

section \<open>The ordered set\<close>

lemma entry_order:
  "entry_less a b \<or> entry_eq a b \<or> entry_less b a" "\<not> entry_less a a"
  "\<lbrakk> entry_less a b; entry_less b c \<rbrakk> \<Longrightarrow> entry_less a c" "\<lbrakk> entry_eq a b; entry_less b c \<rbrakk> \<Longrightarrow> entry_less a c"
  "\<lbrakk> entry_less a b; entry_eq b c \<rbrakk> \<Longrightarrow> entry_less a c"
  by (auto simp: entry_less_def entry_eq_def)

lemma set_bset_insert:
  assumes "\<forall>x \<in> set xs. \<not> entry_eq e x"
  shows "set (bset_insert e xs) = insert e (set xs)" "length (bset_insert e xs) = Suc (length xs)"
  using assms by (induction e xs rule: bset_insert.induct) auto

lemma bset_insert_subset: "set (bset_insert e xs) \<subseteq> insert e (set xs)"
  by (induction e xs rule: bset_insert.induct) auto

lemma sorted_bset_insert:
  "sorted_wrt entry_less xs \<Longrightarrow> sorted_wrt entry_less (bset_insert e xs)"
proof (induction e xs rule: bset_insert.induct)
  case (2 e x xs)
  show ?case
  proof (cases "entry_less e x \<or> entry_eq e x")
    case True
    with 2(2) show ?thesis using entry_order(3) [of e x] by auto
  next
    case False
    with entry_order(1) [of e x] have "entry_less x e" by blast
    with False 2 bset_insert_subset [of e xs] show ?thesis by auto
  qed
qed simp

lemma sorted_bset_remove: "sorted_wrt entry_less xs \<Longrightarrow> sorted_wrt entry_less (bset_remove e xs)"
  by (simp add: bset_remove_def sorted_wrt_filter)

section \<open>The invariant\<close>

definition pool_wf :: "(bytes \<Rightarrow> hash32) \<Rightarrow> Mempool \<Rightarrow> bool" where
  "pool_wf hash_tx m \<longleftrightarrow>
     sorted_wrt entry_less (mp_entries m) \<and>
     (\<forall>e \<in> set (mp_entries m). te_hash e = hash_tx (te_tx e) \<and> length (te_tx e) \<le> mp_max_tx_bytes m) \<and>
     (\<forall>h p. mp_seen m h = Some p \<longleftrightarrow> (\<exists>e \<in> set (mp_entries m). te_hash e = h \<and> te_priority e = p)) \<and>
     length (mp_entries m) \<le> mp_max_size m"

lemma pool_unique:
  assumes "pool_wf hash_tx m" "a \<in> set (mp_entries m)" "b \<in> set (mp_entries m)" "te_hash a = te_hash b"
  shows "a = b"
proof -
  have "mp_seen m (te_hash a) = Some (te_priority a)" "mp_seen m (te_hash a) = Some (te_priority b)"
    using assms unfolding pool_wf_def by metis+
  then have "\<not> entry_less a b" "\<not> entry_less b a" using assms(4) by (auto simp: entry_less_def)
  moreover obtain i j where "i < length (mp_entries m)" "mp_entries m ! i = a" "j < length (mp_entries m)" "mp_entries m ! j = b"
    using assms(2,3) by (metis in_set_conv_nth)
  moreover have "sorted_wrt entry_less (mp_entries m)" using assms(1) by (simp add: pool_wf_def)
  ultimately show ?thesis by (metis linorder_neqE_nat sorted_wrt_nth_less)
qed

lemma pool_wf_new: "pool_wf hash_tx (mempool_new max_size max_tx_bytes)"
  by (simp add: pool_wf_def mempool_new_def)

text \<open>Inserting an entry under a hash that the pool does not hold.\<close>

lemma pool_wf_insert:
  assumes "pool_wf hash_tx m" "te_hash e = hash_tx (te_tx e)" "length (te_tx e) \<le> mp_max_tx_bytes m"
    and "mp_seen m (te_hash e) = None" "length (mp_entries m) < mp_max_size m"
  defines "m' \<equiv> m\<lparr>mp_seen := (mp_seen m)(te_hash e \<mapsto> te_priority e), mp_entries := bset_insert e (mp_entries m)\<rparr>"
  shows "pool_wf hash_tx m'" "set (mp_entries m') = insert e (set (mp_entries m))"
proof -
  have fresh: "te_hash x \<noteq> te_hash e" if "x \<in> set (mp_entries m)" for x
    using assms(1,4) that unfolding pool_wf_def by (metis option.distinct(1))
  then have ne: "\<forall>x \<in> set (mp_entries m). \<not> entry_eq e x" unfolding entry_eq_def by metis
  show st: "set (mp_entries m') = insert e (set (mp_entries m))" by (simp add: m'_def set_bset_insert [OF ne])
  have "mp_seen m' h = Some p \<longleftrightarrow> (\<exists>x \<in> set (mp_entries m'). te_hash x = h \<and> te_priority x = p)" for h p
    unfolding st using assms(1) fresh by (auto simp: m'_def pool_wf_def)
  then show "pool_wf hash_tx m'"
    using assms(1-3,5) sorted_bset_insert [of "mp_entries m" e] set_bset_insert [OF ne] by (auto simp: pool_wf_def m'_def)
qed

text \<open>Dropping the entry under one hash.\<close>

lemma pool_wf_drop:
  assumes "pool_wf hash_tx m" "x \<in> set (mp_entries m)" "sorted_wrt entry_less es" "length es < length (mp_entries m)"
    and "set es = set (mp_entries m) - {x}"
  shows "pool_wf hash_tx (m\<lparr>mp_entries := es, mp_seen := (mp_seen m)(te_hash x := None)\<rparr>)"
proof -
  have "((mp_seen m)(te_hash x := None)) h = Some p \<longleftrightarrow> (\<exists>e \<in> set es. te_hash e = h \<and> te_priority e = p)" for h p
  proof (cases "h = te_hash x")
    case True
    with pool_unique [OF assms(1,2)] assms(5) have "\<not> (\<exists>e \<in> set es. te_hash e = h)" by (metis DiffE singletonI)
    with True show ?thesis by auto
  next
    case False
    then have "((mp_seen m)(te_hash x := None)) h = Some p \<longleftrightarrow> (\<exists>e \<in> set (mp_entries m). te_hash e = h \<and> te_priority e = p)"
      using assms(1) by (simp add: pool_wf_def)
    with False assms(5) show ?thesis by auto
  qed
  with assms(1,3-5) show ?thesis by (simp add: pool_wf_def)
qed

section \<open>Admission\<close>

text \<open>
  What a transaction displaces: its own earlier submission, or else, when the pool is full, the least
  of the entries. It is admitted if it outbids what it displaces.
\<close>

definition displaced :: "TxHash \<Rightarrow> Mempool \<Rightarrow> TxEntry set" where
  "displaced hash m =
     (if mp_seen m hash \<noteq> None then {e \<in> set (mp_entries m). te_hash e = hash}
      else if mp_max_size m \<le> length (mp_entries m)
           then {e \<in> set (mp_entries m). \<forall>x \<in> set (mp_entries m). x = e \<or> entry_less e x}
      else {})"

definition admitted :: "(bytes \<Rightarrow> hash32) \<Rightarrow> bytes \<Rightarrow> u64 \<Rightarrow> Mempool \<Rightarrow> bool" where
  "admitted hash_tx tx priority m \<longleftrightarrow>
     0 < mp_max_size m \<and> length tx \<le> mp_max_tx_bytes m \<and> (\<forall>e \<in> displaced (hash_tx tx) m. te_priority e < priority)"

lemma least_entry:
  assumes "sorted_wrt entry_less (l # rest)"
  shows "{e \<in> set (l # rest). \<forall>x \<in> set (l # rest). x = e \<or> entry_less e x} = {l}" "l \<notin> set rest"
proof -
  have lt: "entry_less l x" if "x \<in> set rest" for x using assms that by simp
  then show "l \<notin> set rest" using entry_order(2) by blast
  have "e = l" if "e \<in> set (l # rest)" "\<forall>x \<in> set (l # rest). x = e \<or> entry_less e x" for e
  proof (rule ccontr)
    assume "e \<noteq> l"
    with that have "e \<in> set rest" "entry_less e l" by auto
    with lt entry_order(2,3) show False by blast
  qed
  with lt show "{e \<in> set (l # rest). \<forall>x \<in> set (l # rest). x = e \<or> entry_less e x} = {l}" by auto
qed

lemma add_tx_admission:
  assumes "pool_wf hash_tx m" "add_tx_with_gas hash_tx tx priority gas m = (m', ok)"
  shows "pool_wf hash_tx m' \<and> (ok \<longleftrightarrow> admitted hash_tx tx priority m) \<and>
    set (mp_entries m') =
      (if ok then insert \<lparr> te_tx = tx, te_priority = priority, te_gas_wanted = gas, te_hash = hash_tx tx \<rparr>
                    (set (mp_entries m) - displaced (hash_tx tx) m)
       else set (mp_entries m))"
proof (cases "mp_max_size m = 0 \<or> length tx > mp_max_tx_bytes m")
  case True
  then have "add_tx_with_gas hash_tx tx priority gas m = (m, False)" by (auto simp: add_tx_with_gas_def)
  with assms True show ?thesis by (auto simp: admitted_def)
next
  case False
  let ?h = "hash_tx tx"
  define e where "e = \<lparr> te_tx = tx, te_priority = priority, te_gas_wanted = gas, te_hash = ?h \<rparr>"
  have e: "te_hash e = ?h" "te_hash e = hash_tx (te_tx e)" "length (te_tx e) \<le> mp_max_tx_bytes m" "te_priority e = priority"
    using False by (auto simp: e_def)
  note wf = assms(1) [unfolded pool_wf_def]
  show ?thesis
  proof (cases "mp_seen m ?h")
    case (Some p)
    then obtain x where x: "x \<in> set (mp_entries m)" "te_hash x = ?h" "te_priority x = p" using wf by metis
    have uq: "y = x" if "y \<in> set (mp_entries m)" "te_hash y = ?h" for y
      by (rule pool_unique [OF assms(1) that(1) x(1)]) (simp add: that(2) x(2))
    have d: "displaced ?h m = {x}" unfolding displaced_def using Some x(1,2) by (auto dest: uq)
    let ?old = "\<lparr> te_tx = tx, te_priority = p, te_gas_wanted = 0, te_hash = ?h \<rparr>"
    let ?es = "bset_remove ?old (mp_entries m)"
    have eq: "entry_eq ?old y \<longleftrightarrow> y = x" if "y \<in> set (mp_entries m)" for y
      using x uq [OF that, OF sym] by (auto simp only: entry_eq_def TxEntry.simps)
    then have es: "set ?es = set (mp_entries m) - {x}" by (auto simp: bset_remove_def)
    have "length ?es < length (mp_entries m)"
      unfolding bset_remove_def by (rule length_filter_less [OF x(1)]) (simp add: eq [OF x(1)])
    then have drop: "pool_wf hash_tx (m\<lparr>mp_entries := ?es, mp_seen := (mp_seen m)(?h := None)\<rparr>)"
      using pool_wf_drop [OF assms(1) x(1) sorted_bset_remove _ es] wf x(2) by simp
    have "length ?es < mp_max_size m" using \<open>length ?es < length (mp_entries m)\<close> wf by simp
    note new = pool_wf_insert [OF drop e(2), simplified e(1,4), simplified, OF e(3) this]
    have "add_tx_with_gas hash_tx tx priority gas m =
        (if priority \<le> p then (m, False)
         else (m\<lparr>mp_seen := (mp_seen m)(?h \<mapsto> priority), mp_entries := bset_insert e ?es\<rparr>, True))"
      using False Some by (simp add: add_tx_with_gas_def Let_def e_def)
    with assms(2) have m': "(m', ok) = (if priority \<le> p then (m, False)
         else (m\<lparr>mp_seen := (mp_seen m)(?h \<mapsto> priority), mp_entries := bset_insert e ?es\<rparr>, True))" by simp
    have ad: "admitted hash_tx tx priority m \<longleftrightarrow> \<not> priority \<le> p" using False x(3) by (simp add: admitted_def d not_le not_less)
    show ?thesis
    proof (cases "priority \<le> p")
      case True
      with m' ad assms(1) show ?thesis by simp
    next
      case False
      with m' have "m' = m\<lparr>mp_seen := (mp_seen m)(?h \<mapsto> priority), mp_entries := bset_insert e ?es\<rparr>" "ok" by simp_all
      with new es False show ?thesis by (simp add: ad d e_def [symmetric])
    qed
  next
    case None
    show ?thesis
    proof (cases "mp_max_size m \<le> length (mp_entries m)")
      case True
      with False obtain l rest where l: "mp_entries m = l # rest" by (cases "mp_entries m") auto
      have srt: "sorted_wrt entry_less (l # rest)" using wf l by simp
      have d: "displaced ?h m = {l}" unfolding displaced_def using None True least_entry(1) [OF srt] by (simp add: l)
      have drop: "pool_wf hash_tx (m\<lparr>mp_entries := rest, mp_seen := (mp_seen m)(te_hash l := None)\<rparr>)"
        by (rule pool_wf_drop [OF assms(1)]) (use l srt least_entry(2) [OF srt] in auto)
      have "length rest < mp_max_size m" using wf l by simp
      moreover have "((mp_seen m)(te_hash l := None)) ?h = None" using None by simp
      ultimately have new: "pool_wf hash_tx (m\<lparr>mp_seen := (mp_seen m)(te_hash l := None, ?h \<mapsto> priority), mp_entries := bset_insert e rest\<rparr>)"
          "set (bset_insert e rest) = insert e (set rest)"
        using pool_wf_insert [OF drop e(2)] e by simp_all
      have "add_tx_with_gas hash_tx tx priority gas m =
          (if priority \<le> te_priority l then (m, False)
           else (m\<lparr>mp_seen := (mp_seen m)(te_hash l := None, ?h \<mapsto> priority), mp_entries := bset_insert e rest\<rparr>, True))"
        using False None True l by (simp add: add_tx_with_gas_def Let_def e_def)
      moreover have "set (mp_entries m) - {l} = set rest" using least_entry(2) [OF srt] l by auto
      ultimately show ?thesis using new assms(1,2) False d by (auto simp: admitted_def e_def not_le not_less split: if_splits)
    next
      case free: False
      then have d: "displaced ?h m = {}" using None by (simp add: displaced_def)
      have "add_tx_with_gas hash_tx tx priority gas m =
          (m\<lparr>mp_seen := (mp_seen m)(?h \<mapsto> priority), mp_entries := bset_insert e (mp_entries m)\<rparr>, True)"
        using False None free by (simp add: add_tx_with_gas_def Let_def e_def)
      with pool_wf_insert [OF assms(1) e(2,3)] e(1,4) assms(2) False None free d show ?thesis by (auto simp: admitted_def e_def)
    qed
  qed
qed
section \<open>Rechecking\<close>

definition revalued :: "(bytes \<Rightarrow> (u64 \<times> u64) option) \<Rightarrow> TxEntry set \<Rightarrow> TxEntry set" where
  "revalued validator E =
     {e\<lparr>te_priority := p, te_gas_wanted := g\<rparr> | e p g. e \<in> E \<and> validator (te_tx e) = Some (p, g)}"

lemma recheck_loop_wf:
  "\<lbrakk> pool_wf hash_tx m; distinct (map te_hash old); length (mp_entries m) + length old \<le> mp_max_size m;
     \<forall>e \<in> set old. te_hash e = hash_tx (te_tx e) \<and> length (te_tx e) \<le> mp_max_tx_bytes m \<and> mp_seen m (te_hash e) = None \<rbrakk> \<Longrightarrow>
   pool_wf hash_tx (recheck_loop validator old m) \<and>
   set (mp_entries (recheck_loop validator old m)) = set (mp_entries m) \<union> revalued validator (set old)"
proof (induction validator old m rule: recheck_loop.induct)
  case (1 validator m)
  then show ?case by (simp add: revalued_def)
next
  case (2 validator entry old m)
  show ?case
  proof (cases "validator (te_tx entry)")
    case None
    moreover have "revalued validator (set (entry # old)) = revalued validator (set old)" using None by (auto simp: revalued_def)
    moreover have "pool_wf hash_tx (recheck_loop validator old m) \<and>
      set (mp_entries (recheck_loop validator old m)) = set (mp_entries m) \<union> revalued validator (set old)"
      using "2.prems"(2-4) by (intro "2.IH"(1) [OF None "2.prems"(1)]) (simp, simp, meson list.set_intros(2))
    ultimately show ?thesis by simp
  next
    case (Some pg)
    then obtain p g where pg: "validator (te_tx entry) = Some (p, g)" by (cases pg) auto
    let ?e = "entry\<lparr>te_priority := p, te_gas_wanted := g\<rparr>"
    let ?m = "m\<lparr>mp_seen := (mp_seen m)(te_hash entry \<mapsto> p), mp_entries := bset_insert ?e (mp_entries m)\<rparr>"
    have wf: "pool_wf hash_tx ?m" "set (mp_entries ?m) = insert ?e (set (mp_entries m))"
      using pool_wf_insert [OF "2.prems"(1), of ?e] "2.prems"(3) bspec [OF "2.prems"(4), of entry] by auto
    have "te_hash x \<noteq> te_hash entry" if "x \<in> set (mp_entries m)" for x
      using "2.prems"(1,4) that unfolding pool_wf_def by (metis list.set_intros(1) option.distinct(1))
    then have "\<forall>x \<in> set (mp_entries m). \<not> entry_eq ?e x" by (force simp: entry_eq_def)
    note len = set_bset_insert(2) [OF this]
    have r: "revalued validator (set (entry # old)) = insert ?e (revalued validator (set old))" using pg by (auto simp: revalued_def)
    have "te_hash x \<noteq> te_hash entry" if "x \<in> set old" for x using "2.prems"(2) that by (metis distinct.simps(2) image_eqI list.map(2) set_map)
    then have seen: "mp_seen ?m (te_hash x) = None" if "x \<in> set old" for x
      using that bspec [OF "2.prems"(4), of x] by (auto simp: fun_upd_def)
    have "pool_wf hash_tx (recheck_loop validator old ?m) \<and>
      set (mp_entries (recheck_loop validator old ?m)) = set (mp_entries ?m) \<union> revalued validator (set old)"
      by (rule "2.IH"(2) [OF pg refl wf(1)]) (use "2.prems"(2-4) len in \<open>simp, simp, use seen "2.prems"(4) in fastforce\<close>)
    with wf(2) r pg show ?thesis by simp
  qed
qed

lemma recheck_effect:
  assumes "pool_wf hash_tx m"
  shows "pool_wf hash_tx (recheck validator m)" "set (mp_entries (recheck validator m)) = revalued validator (set (mp_entries m))"
proof -
  have "distinct (mp_entries m)" using assms entry_order(2) unfolding pool_wf_def
    by (metis distinct_conv_nth linorder_neqE_nat sorted_wrt_nth_less)
  moreover have "inj_on te_hash (set (mp_entries m))" using pool_unique [OF assms] by (blast intro: inj_onI)
  ultimately have d: "distinct (map te_hash (mp_entries m))" by (simp add: distinct_map)
  have "pool_wf hash_tx (m\<lparr>mp_entries := [], mp_seen := Map.empty\<rparr>)" by (simp add: pool_wf_def)
  from recheck_loop_wf [OF this d, of validator] assms
  show "pool_wf hash_tx (recheck validator m)" "set (mp_entries (recheck validator m)) = revalued validator (set (mp_entries m))"
    by (simp_all add: recheck_def pool_wf_def)
qed

text \<open>The pools that sequences of operations lead to.\<close>

inductive pool_reachable :: "(bytes \<Rightarrow> hash32) \<Rightarrow> nat \<Rightarrow> nat \<Rightarrow> Mempool \<Rightarrow> bool" for hash_tx max_size max_tx_bytes where
  pool_start: "pool_reachable hash_tx max_size max_tx_bytes (mempool_new max_size max_tx_bytes)"
| pool_add: "pool_reachable hash_tx max_size max_tx_bytes m \<Longrightarrow>
    pool_reachable hash_tx max_size max_tx_bytes (fst (add_tx_with_gas hash_tx tx priority gas m))"
| pool_recheck: "pool_reachable hash_tx max_size max_tx_bytes m \<Longrightarrow>
    pool_reachable hash_tx max_size max_tx_bytes (recheck validator m)"

lemma recheck_limits [simp]:
  "mp_max_size (recheck validator m) = mp_max_size m" "mp_max_tx_bytes (recheck validator m) = mp_max_tx_bytes m"
proof -
  have "mp_max_size (recheck_loop validator old m) = mp_max_size m \<and> mp_max_tx_bytes (recheck_loop validator old m) = mp_max_tx_bytes m"
    for old and m by (induction validator old m rule: recheck_loop.induct) (auto split: option.splits)
  then show "mp_max_size (recheck validator m) = mp_max_size m" "mp_max_tx_bytes (recheck validator m) = mp_max_tx_bytes m"
    by (simp_all add: recheck_def)
qed

lemma add_tx_limits [simp]:
  "mp_max_size (fst (add_tx_with_gas hash_tx tx priority gas m)) = mp_max_size m"
  "mp_max_tx_bytes (fst (add_tx_with_gas hash_tx tx priority gas m)) = mp_max_tx_bytes m"
  by (auto simp: add_tx_with_gas_def Let_def split: option.splits list.splits)

lemma pool_reachable_wf:
  "pool_reachable hash_tx max_size max_tx_bytes m \<Longrightarrow>
     pool_wf hash_tx m \<and> mp_max_size m = max_size \<and> mp_max_tx_bytes m = max_tx_bytes"
proof (induction rule: pool_reachable.induct)
  case pool_start
  show ?case by (simp add: pool_wf_new) (simp add: mempool_new_def)
next
  case (pool_add m tx priority gas)
  obtain m' ok where "add_tx_with_gas hash_tx tx priority gas m = (m', ok)" by fastforce
  with add_tx_admission [of hash_tx m tx priority gas m' ok] add_tx_limits [of hash_tx tx priority gas m] pool_add show ?case by simp
next
  case (pool_recheck m validator)
  with recheck_effect(1) [of hash_tx m validator] show ?case by simp
qed
section \<open>Collected payloads\<close>

lemma mp_decode_loop_eq: "mp_decode_loop payload offset txs = txs @ decode_from payload offset"
  by (induction payload offset txs rule: mp_decode_loop.induct)
     (subst mp_decode_loop.simps, subst decode_from.simps, simp add: Let_def)

lemma mp_decode_payload_eq: "mp_decode_payload payload = decode_payload payload"
  by (simp add: mp_decode_payload_def decode_payload_def mp_decode_loop_eq)

lemma length_encode_payload: "length (encode_payload txs) = (\<Sum>t \<leftarrow> txs. 4 + length t)"
  by (induction txs) (simp_all add: encode_payload_def)

lemma encode_payload_Cons [simp]: "encode_payload (t # txs) = to_le_bytes_u32 (of_nat (length t)) @ t @ encode_payload txs"
  by (simp add: encode_payload_def)

lemma encode_payload_Nil [simp]: "encode_payload [] = []"
  by (simp add: encode_payload_def)

definition gas_of :: "TxEntry list \<Rightarrow> nat" where
  "gas_of es = (\<Sum>e \<leftarrow> es. unat (te_gas_wanted e))"

text \<open>Could \<open>e\<close> go into a block that is empty, or has \<open>bytes\<close> bytes and \<open>gas\<close> gas in it already?\<close>

definition fits :: "nat \<Rightarrow> u64 \<Rightarrow> nat \<Rightarrow> nat \<Rightarrow> TxEntry \<Rightarrow> bool" where
  "fits max_bytes max_gas bytes gas e \<longleftrightarrow>
     bytes + 4 + length (te_tx e) \<le> max_bytes \<and> (0 < max_gas \<longrightarrow> gas + unat (te_gas_wanted e) \<le> unat max_gas)"

lemma fits_mono: "\<lbrakk> fits max_bytes max_gas b' g' e; b \<le> b'; g \<le> g' \<rbrakk> \<Longrightarrow> fits max_bytes max_gas b g e"
  by (auto simp: fits_def)

text \<open>The reference: every entry that still fits is taken.\<close>

fun greedy :: "nat \<Rightarrow> u64 \<Rightarrow> nat \<Rightarrow> nat \<Rightarrow> TxEntry list \<Rightarrow> TxEntry list" where
  "greedy max_bytes max_gas bytes gas [] = []"
| "greedy max_bytes max_gas bytes gas (e # es) =
     (if fits max_bytes max_gas bytes gas e
      then e # greedy max_bytes max_gas (bytes + 4 + length (te_tx e)) (gas + unat (te_gas_wanted e)) es
      else greedy max_bytes max_gas bytes gas es)"

lemma set_greedy: "set (greedy max_bytes max_gas bytes gas es) \<subseteq> set es"
  by (induction es arbitrary: bytes gas) (auto split: if_splits)

lemma greedy_bytes:
  "bytes \<le> max_bytes \<Longrightarrow> bytes + length (encode_payload (map te_tx (greedy max_bytes max_gas bytes gas es))) \<le> max_bytes"
proof (induction es arbitrary: bytes gas)
  case (Cons e es)
  show ?case
    using Cons.prems Cons.IH [of "bytes + 4 + length (te_tx e)" "gas + unat (te_gas_wanted e)"] Cons.IH [of bytes gas]
    by (simp add: fits_def add.assoc)
qed simp

lemma greedy_gas:
  "\<lbrakk> 0 < max_gas; gas \<le> unat max_gas \<rbrakk> \<Longrightarrow> gas + gas_of (greedy max_bytes max_gas bytes gas es) \<le> unat max_gas"
proof (induction es arbitrary: bytes gas)
  case (Cons e es)
  show ?case
    using Cons.prems Cons.IH [of "gas + unat (te_gas_wanted e)" "bytes + 4 + length (te_tx e)"] Cons.IH [of gas bytes]
    by (simp add: fits_def gas_of_def add.assoc)
qed (simp add: gas_of_def)

lemma greedy_no_gas: "greedy max_bytes 0 bytes g es = greedy max_bytes 0 bytes g' es"
  by (induction es arbitrary: bytes g g') (auto simp: fits_def)

text \<open>The entries passed over for lack of space left.\<close>

fun passed_over :: "nat \<Rightarrow> u64 \<Rightarrow> nat \<Rightarrow> nat \<Rightarrow> TxEntry list \<Rightarrow> nat" where
  "passed_over max_bytes max_gas bytes gas [] = 0"
| "passed_over max_bytes max_gas bytes gas (e # es) =
     (if fits max_bytes max_gas bytes gas e
      then passed_over max_bytes max_gas (bytes + 4 + length (te_tx e)) (gas + unat (te_gas_wanted e)) es
      else (if fits max_bytes max_gas 0 0 e then 1 else 0) + passed_over max_bytes max_gas bytes gas es)"

lemma passed_over_le: "passed_over max_bytes max_gas bytes gas es \<le> length es"
  by (induction es arbitrary: bytes gas) (auto intro: le_SucI)

lemma passed_over_no_gas: "passed_over max_bytes 0 bytes g es = passed_over max_bytes 0 bytes g' es"
  by (induction es arbitrary: bytes g g') (auto simp: fits_def)

lemma collect_loop_cases:
  assumes "0 < max_gas \<longrightarrow> unat total_gas \<le> unat max_gas"
  shows "collect_loop max_bytes max_gas (e # es) payload total_gas skipped =
    (if fits max_bytes max_gas (length payload) (unat total_gas) e
     then collect_loop max_bytes max_gas es (payload @ to_le_bytes_u32 (of_nat (length (te_tx e))) @ te_tx e)
            (if max_gas = 0 then total_gas else total_gas + te_gas_wanted e) skipped
     else if \<not> fits max_bytes max_gas 0 0 e then collect_loop max_bytes max_gas es payload total_gas skipped
     else if Suc skipped \<ge> MAX_SKIPPED then payload
     else collect_loop max_bytes max_gas es payload total_gas (Suc skipped))"
proof (cases "max_gas = 0")
  case True
  then show ?thesis by (auto simp: fits_def)
next
  case False
  then have pos: "0 < unat max_gas" by (metis gr0I unat_eq_zero)
  have lt: "unat total_gas + unat (te_gas_wanted e) < 2 ^ 64" if "unat total_gas + unat (te_gas_wanted e) \<le> unat max_gas"
    using that by (rule order.strict_trans1) simp
  show ?thesis
  proof (cases "unat total_gas + unat (te_gas_wanted e) < 2 ^ 64")
    case True
    then have "checked_add total_gas (te_gas_wanted e) = Some (total_gas + te_gas_wanted e)"
      "unat (total_gas + te_gas_wanted e) = unat total_gas + unat (te_gas_wanted e)" by (simp_all add: u64_arith)
    with False pos show ?thesis by (auto simp: fits_def word_less_nat_alt Let_def)
  next
    case None: False
    then have "checked_add total_gas (te_gas_wanted e) = None" by (simp add: u64_arith)
    with pos None lt show ?thesis by (auto simp: fits_def word_less_nat_alt Let_def)
  qed
qed

declare collect_loop.simps(2) [simp del]

lemma collect_loop_greedy:
  "\<lbrakk> 0 < max_gas \<longrightarrow> unat total_gas \<le> unat max_gas; skipped < MAX_SKIPPED \<rbrakk> \<Longrightarrow>
   \<exists>n. collect_loop max_bytes max_gas es payload total_gas skipped =
         payload @ encode_payload (map te_tx (greedy max_bytes max_gas (length payload) (unat total_gas) (take n es))) \<and>
       (n < length es \<longrightarrow> MAX_SKIPPED \<le> skipped + passed_over max_bytes max_gas (length payload) (unat total_gas) (take n es))"
proof (induction es arbitrary: payload total_gas skipped)
  case (Cons e es)
  note step = collect_loop_cases [OF Cons.prems(1)]
  show ?case
  proof (cases "fits max_bytes max_gas (length payload) (unat total_gas) e")
    case True
    let ?g = "if max_gas = 0 then total_gas else total_gas + te_gas_wanted e"
    have g: "0 < max_gas \<Longrightarrow> unat ?g = unat total_gas + unat (te_gas_wanted e) \<and> unat ?g \<le> unat max_gas"
    proof -
      assume "0 < max_gas"
      with True have le: "unat total_gas + unat (te_gas_wanted e) \<le> unat max_gas" by (simp add: fits_def)
      then have "unat total_gas + unat (te_gas_wanted e) < 2 ^ 64" by (rule order.strict_trans1) simp
      with le \<open>0 < max_gas\<close> show ?thesis by (simp add: u64_arith word_gt_0)
    qed
    define q where "q = payload @ to_le_bytes_u32 (of_nat (length (te_tx e))) @ te_tx e"
    have q: "length q = length payload + 4 + length (te_tx e)" by (simp add: q_def)
    have "0 < max_gas \<longrightarrow> unat ?g \<le> unat max_gas" using g by blast
    from Cons.IH [OF this Cons.prems(2), of q] obtain n where
      n: "collect_loop max_bytes max_gas es q ?g skipped =
        q @ encode_payload (map te_tx (greedy max_bytes max_gas (length payload + 4 + length (te_tx e)) (unat ?g) (take n es)))"
      "n < length es \<longrightarrow> MAX_SKIPPED \<le> skipped + passed_over max_bytes max_gas (length payload + 4 + length (te_tx e)) (unat ?g) (take n es)"
      unfolding q by blast
    have "greedy max_bytes max_gas b (unat ?g) xs = greedy max_bytes max_gas b (unat total_gas + unat (te_gas_wanted e)) xs"
      "passed_over max_bytes max_gas b (unat ?g) xs = passed_over max_bytes max_gas b (unat total_gas + unat (te_gas_wanted e)) xs" for b xs
      using g greedy_no_gas passed_over_no_gas by (cases "max_gas = 0"; auto simp: word_gt_0)+
    with n True step show ?thesis by (intro exI [of _ "Suc n"]) (simp add: q_def)
  next
    case no: False
    show ?thesis
    proof (cases "fits max_bytes max_gas 0 0 e")
      case False
      with Cons.IH [OF Cons.prems, of payload] obtain n where
        n: "collect_loop max_bytes max_gas es payload total_gas skipped =
         payload @ encode_payload (map te_tx (greedy max_bytes max_gas (length payload) (unat total_gas) (take n es)))"
       "n < length es \<longrightarrow> MAX_SKIPPED \<le> skipped + passed_over max_bytes max_gas (length payload) (unat total_gas) (take n es)" by blast
      with no False step show ?thesis by (intro exI [of _ "Suc n"]) simp
    next
      case True
      show ?thesis
      proof (cases "Suc skipped \<ge> MAX_SKIPPED")
        case stop: True
        with no True step show ?thesis by (intro exI [of _ 1]) simp
      next
        case False
        with Cons.IH [OF Cons.prems(1), of "Suc skipped" payload] obtain n where
          n: "collect_loop max_bytes max_gas es payload total_gas (Suc skipped) =
           payload @ encode_payload (map te_tx (greedy max_bytes max_gas (length payload) (unat total_gas) (take n es)))"
         "n < length es \<longrightarrow> MAX_SKIPPED \<le> Suc skipped + passed_over max_bytes max_gas (length payload) (unat total_gas) (take n es)" by auto
        with no True False step show ?thesis by (intro exI [of _ "Suc n"]) simp
      qed
    qed
  qed
qed simp

section \<open>A concrete pool\<close>

definition sample_hash :: "bytes \<Rightarrow> hash32" where
  "sample_hash tx = hash_rep (of_nat (length tx))"

definition sample_pool :: Mempool where
  "sample_pool = fst (add_tx_with_gas sample_hash [1, 2] 7 5 (fst (add_tx_with_gas sample_hash [9] 3 4 (mempool_new 2 100))))"

lemma sample_pool_reachable: "pool_reachable sample_hash 2 100 sample_pool"
  unfolding sample_pool_def by (intro pool_add pool_start)

lemma sample_pool_entries:
  "mp_entries sample_pool =
     [\<lparr> te_tx = [9], te_priority = 3, te_gas_wanted = 4, te_hash = hash_rep 1 \<rparr>,
      \<lparr> te_tx = [1, 2], te_priority = 7, te_gas_wanted = 5, te_hash = hash_rep 2 \<rparr>]"
  by (simp add: sample_pool_def add_tx_with_gas_def mempool_new_def sample_hash_def Let_def entry_less_def entry_eq_def)

section \<open>Properties\<close>

text \<open>
  C32. Admission to the pool: in every pool that operations lead to, a transaction is accepted exactly
  when the pool takes transactions of its size at all and it outbids what it displaces, which is its
  own earlier submission or else, in a full pool, the lowest entry. Then it replaces that, and nothing
  else changes; a refusal changes nothing. The pool stays within its size, holds every hash once, and
  its table of priorities agrees with its entries.
\<close>

theorem mempool_admission:
  assumes "pool_reachable hash_tx max_size max_tx_bytes m"
    and "add_tx_with_gas hash_tx tx priority gas m = (m', ok)"
  shows "(ok \<longleftrightarrow> 0 < max_size \<and> length tx \<le> max_tx_bytes \<and> (\<forall>e \<in> displaced (hash_tx tx) m. te_priority e < priority)) \<and>
    set (mp_entries m') =
      (if ok then insert \<lparr> te_tx = tx, te_priority = priority, te_gas_wanted = gas, te_hash = hash_tx tx \<rparr>
                    (set (mp_entries m) - displaced (hash_tx tx) m)
       else set (mp_entries m)) \<and>
    mp_size m' \<le> max_size \<and> inj_on te_hash (set (mp_entries m')) \<and>
    (\<forall>h p. mp_seen m' h = Some p \<longleftrightarrow> (\<exists>e \<in> set (mp_entries m'). te_hash e = h \<and> te_priority e = p))"
proof -
  have w: "pool_wf hash_tx m" "mp_max_size m = max_size" "mp_max_tx_bytes m = max_tx_bytes"
    using pool_reachable_wf [OF assms(1)] by simp_all
  note a = add_tx_admission [OF w(1) assms(2)]
  have "mp_max_size m' = max_size" using add_tx_limits(1) [of hash_tx tx priority gas m] assms(2) w(2) by simp
  moreover have "inj_on te_hash (set (mp_entries m'))" using a pool_unique [of hash_tx m'] by (blast intro: inj_onI)
  ultimately show ?thesis using a w by (simp add: admitted_def pool_wf_def mp_size_def)
qed

theorem mempool_admission_witness:
  "snd (add_tx_with_gas sample_hash [7, 7, 7] 6 0 sample_pool) \<and>
   set (mp_entries (fst (add_tx_with_gas sample_hash [7, 7, 7] 6 0 sample_pool))) =
     {\<lparr> te_tx = [7, 7, 7], te_priority = 6, te_gas_wanted = 0, te_hash = hash_rep 3 \<rparr>,
      \<lparr> te_tx = [1, 2], te_priority = 7, te_gas_wanted = 5, te_hash = hash_rep 2 \<rparr>}"
proof -
  let ?r = "add_tx_with_gas sample_hash [7, 7, 7] 6 0 sample_pool"
  note seen = pool_reachable_wf [OF sample_pool_reachable, THEN conjunct1, unfolded pool_wf_def sample_pool_entries]
  have "mp_seen sample_pool (hash_rep 3) = None" using seen by (cases "mp_seen sample_pool (hash_rep 3)") auto
  moreover have "mp_max_size sample_pool = 2" using pool_reachable_wf [OF sample_pool_reachable] by simp
  ultimately have d: "displaced (hash_rep 3) sample_pool = {mp_entries sample_pool ! 0}"
    by (auto simp: displaced_def sample_pool_entries entry_less_def)
  note adm = mempool_admission [OF sample_pool_reachable prod.collapse [symmetric], of "[7, 7, 7]" 6 0]
  have ok: "snd ?r" using adm [THEN conjunct1] d by (simp add: sample_hash_def sample_pool_entries)
  with adm [THEN conjunct2, THEN conjunct1] d show ?thesis by (auto simp: sample_hash_def sample_pool_entries)
qed

text \<open>
  C33. From pool to block: the payload a leader collects decodes, by the pool's decoder and by the one
  that commit uses, to the entries that a greedy choice takes from the pool in the order of their
  priority, highest first, within the limits for bytes and gas. The scan ends before the last entry
  only after passing over 200 entries that would fit into an empty block.
\<close>

theorem collected_payload_decodes:
  assumes "pool_reachable hash_tx max_size max_tx_bytes m" "max_tx_bytes < 2 ^ 32"
  shows "\<exists>n ys. ys = greedy max_bytes max_gas 0 0 (take n (rev (mp_entries m))) \<and>
    decode_payload (collect_payload_with_gas max_bytes max_gas m) = map te_tx ys \<and>
    mp_decode_payload (collect_payload_with_gas max_bytes max_gas m) = map te_tx ys \<and>
    length (collect_payload_with_gas max_bytes max_gas m) \<le> max_bytes \<and>
    (0 < max_gas \<longrightarrow> gas_of ys \<le> unat max_gas) \<and>
    (n < mp_size m \<longrightarrow> MAX_SKIPPED \<le> passed_over max_bytes max_gas 0 0 (take n (rev (mp_entries m))))"
proof -
  obtain n where n: "collect_payload_with_gas max_bytes max_gas m =
      encode_payload (map te_tx (greedy max_bytes max_gas 0 0 (take n (rev (mp_entries m)))))"
    "n < mp_size m \<longrightarrow> MAX_SKIPPED \<le> passed_over max_bytes max_gas 0 0 (take n (rev (mp_entries m)))"
    using collect_loop_greedy [of max_gas 0 0 max_bytes "rev (mp_entries m)" "[]"]
    by (auto simp: collect_payload_with_gas_def MAX_SKIPPED_def mp_size_def)
  let ?ys = "greedy max_bytes max_gas 0 0 (take n (rev (mp_entries m)))"
  have "set ?ys \<subseteq> set (mp_entries m)" using set_greedy set_take_subset by fastforce
  then have "\<forall>t \<in> set (map te_tx ?ys). length t < 2 ^ 32"
    using pool_reachable_wf [OF assms(1)] assms(2) by (force simp: pool_wf_def)
  from decode_encode_payload [OF this] n greedy_bytes [of 0 max_bytes max_gas 0] greedy_gas [of max_gas 0 max_bytes 0] show ?thesis
    by (intro exI [of _ n] exI [of _ ?ys]) (auto simp: mp_decode_payload_eq)
qed

theorem collected_payload_decodes_witness:
  "decode_payload (collect_payload_with_gas 9 20 sample_pool) = [[1, 2]]"
proof -
  from collected_payload_decodes [OF sample_pool_reachable, of 9 20] obtain n where
    n: "decode_payload (collect_payload_with_gas 9 20 sample_pool) = map te_tx (greedy 9 20 0 0 (take n (rev (mp_entries sample_pool))))"
      "n < mp_size sample_pool \<longrightarrow> MAX_SKIPPED \<le> passed_over 9 20 0 0 (take n (rev (mp_entries sample_pool)))" by auto
  have "passed_over 9 20 0 0 (take n (rev (mp_entries sample_pool))) \<le> 2"
    using passed_over_le [of 9 20 0 0 "take n (rev (mp_entries sample_pool))"] by (simp add: sample_pool_entries)
  with n(2) have "2 \<le> n" by (auto simp: MAX_SKIPPED_def mp_size_def sample_pool_entries)
  with n(1) show ?thesis by (simp add: sample_pool_entries fits_def)
qed

end
