(* ===== verification/Staking.thy ===== *)
theory Staking
  imports Signing Validator_Set "HOL-Library.Product_Lexorder" "HOL-Library.List_Lexorder" "HOL-Library.Multiset"
begin

text \<open>
  The staking library (\<open>hotmint-staking\<close>): its store, the manager's operations on stakes, unbondings,
  slashes and rewards, and the validator updates it computes for consensus. An operation returns the
  manager it leaves behind also when it fails. The manager's store is the in-memory one; what the
  lemmas use of it is the interface \<open>staking_store\<close>.
\<close>

section \<open>Types\<close>

datatype SlashReason = DoubleSign | Downtime

record AppliedSlash =
  as_evidence_id :: bytes
  as_reason :: SlashReason

record ValidatorState =
  st_id :: ValidatorId
  st_public_key :: PublicKey
  st_self_stake :: u64
  st_delegated_stake :: u64
  st_score :: u32
  st_jailed :: bool
  st_jail_until_height :: u64
  st_tombstoned :: bool
  st_applied_slashes :: "AppliedSlash list"

definition total_stake :: "ValidatorState \<Rightarrow> u64" where
  "total_stake v = saturating_add (st_self_stake v) (st_delegated_stake v)"

definition voting_power :: "ValidatorState \<Rightarrow> u64" where
  "voting_power v = (if st_jailed v \<or> st_tombstoned v then 0 else total_stake v)"

record StakeEntry =
  se_amount :: u64

record SlashResult =
  sr_self_slashed :: u64
  sr_delegated_slashed :: u64
  sr_jailed :: bool

record UnbondingEntry =
  ub_staker :: bytes
  ub_validator :: ValidatorId
  ub_amount :: u64
  ub_completion_height :: u64

record StakingConfig =
  sc_max_validators :: nat
  sc_min_self_stake :: u64
  sc_slash_rate_double_sign :: u32
  sc_slash_rate_downtime :: u32
  sc_jail_duration :: u64
  sc_initial_score :: u32
  sc_max_score :: u32
  sc_block_reward :: u64
  sc_unbonding_period :: u64

datatype staking_error =
    MaxValidatorsZero | SlashRateTooHigh SlashReason | InitialScoreTooHigh
  | AlreadyRegistered ValidatorId | InvalidKeyLength nat | DuplicateKey | BelowMinimum u64 u64
  | ValidatorNotFound ValidatorId | SlashableStakeRemains ValidatorId u64
  | ZeroAmount | Tombstoned ValidatorId | DelegatedOverflow ValidatorId | StakeEntryOverflow
  | NoStake ValidatorId | InsufficientDelegation u64 u64
  | EmptyEvidenceId | AlreadySlashed ValidatorId nat | NotJailed ValidatorId | JailedUntil ValidatorId u64 u64
  | RewardOverflow

definition staking_validate :: "StakingConfig \<Rightarrow> staking_error + unit" where
  "staking_validate c =
     (if sc_max_validators c = 0 then Inl MaxValidatorsZero
      else if sc_slash_rate_double_sign c > 10000 then Inl (SlashRateTooHigh DoubleSign)
      else if sc_slash_rate_downtime c > 10000 then Inl (SlashRateTooHigh Downtime)
      else if sc_initial_score c > sc_max_score c then Inl InitialScoreTooHigh
      else Inr ())"

definition default_StakingConfig :: StakingConfig where
  "default_StakingConfig =
     \<lparr> sc_max_validators = 100, sc_min_self_stake = 1000, sc_slash_rate_double_sign = 500,
       sc_slash_rate_downtime = 100, sc_jail_duration = 1000, sc_initial_score = 10000, sc_max_score = 10000,
       sc_block_reward = 100, sc_unbonding_period = 1000 \<rparr>"

section \<open>The in-memory store\<close>

record InMemoryStakingStore =
  ms_validators :: "(ValidatorId \<times> ValidatorState) list"
  ms_stakes :: "((bytes \<times> ValidatorId) \<times> StakeEntry) list"
  ms_unbondings :: "UnbondingEntry list"

definition ms_new :: InMemoryStakingStore where
  "ms_new = \<lparr> ms_validators = [], ms_stakes = [], ms_unbondings = [] \<rparr>"

definition ms_get_validator :: "InMemoryStakingStore \<Rightarrow> ValidatorId \<Rightarrow> ValidatorState option" where
  "ms_get_validator s vid = map_of (ms_validators s) vid"

definition ms_set_validator :: "ValidatorId \<Rightarrow> ValidatorState \<Rightarrow> InMemoryStakingStore \<Rightarrow> InMemoryStakingStore" where
  "ms_set_validator vid state s = s\<lparr>ms_validators := AList.update vid state (ms_validators s)\<rparr>"

definition ms_remove_validator :: "ValidatorId \<Rightarrow> InMemoryStakingStore \<Rightarrow> InMemoryStakingStore" where
  "ms_remove_validator vid s = s\<lparr>ms_validators := AList.delete vid (ms_validators s)\<rparr>"

definition ms_all_validator_ids :: "InMemoryStakingStore \<Rightarrow> ValidatorId list" where
  "ms_all_validator_ids s = map fst (ms_validators s)"

definition ms_get_stake :: "InMemoryStakingStore \<Rightarrow> bytes \<Rightarrow> ValidatorId \<Rightarrow> StakeEntry option" where
  "ms_get_stake s staker validator = map_of (ms_stakes s) (staker, validator)"

definition ms_set_stake :: "bytes \<Rightarrow> ValidatorId \<Rightarrow> StakeEntry \<Rightarrow> InMemoryStakingStore \<Rightarrow> InMemoryStakingStore" where
  "ms_set_stake staker validator entry s = s\<lparr>ms_stakes := AList.update (staker, validator) entry (ms_stakes s)\<rparr>"

definition ms_remove_stake :: "bytes \<Rightarrow> ValidatorId \<Rightarrow> InMemoryStakingStore \<Rightarrow> InMemoryStakingStore" where
  "ms_remove_stake staker validator s = s\<lparr>ms_stakes := AList.delete (staker, validator) (ms_stakes s)\<rparr>"

definition ms_stakers_of :: "InMemoryStakingStore \<Rightarrow> ValidatorId \<Rightarrow> (bytes \<times> StakeEntry) list" where
  "ms_stakers_of s validator =
     map (\<lambda>((addr, _), entry). (addr, entry)) (filter (\<lambda>((_, v), _). v = validator) (ms_stakes s))"

definition ms_push_unbonding :: "UnbondingEntry \<Rightarrow> InMemoryStakingStore \<Rightarrow> InMemoryStakingStore" where
  "ms_push_unbonding entry s = s\<lparr>ms_unbondings := ms_unbondings s @ [entry]\<rparr>"

definition ms_drain_mature_unbondings ::
    "u64 \<Rightarrow> InMemoryStakingStore \<Rightarrow> InMemoryStakingStore \<times> UnbondingEntry list" where
  "ms_drain_mature_unbondings current_height s =
     (let (mature, pending) = partition (\<lambda>e. ub_completion_height e \<le> current_height) (ms_unbondings s)
      in (s\<lparr>ms_unbondings := pending\<rparr>, mature))"

definition ms_replace_unbondings :: "UnbondingEntry list \<Rightarrow> InMemoryStakingStore \<Rightarrow> InMemoryStakingStore" where
  "ms_replace_unbondings entries s = s\<lparr>ms_unbondings := entries\<rparr>"

section \<open>The manager\<close>

record StakingManager =
  sm_store :: InMemoryStakingStore
  sm_config :: StakingConfig

definition sm_new :: "InMemoryStakingStore \<Rightarrow> StakingConfig \<Rightarrow> StakingManager" where
  "sm_new store config = \<lparr> sm_store = store, sm_config = config \<rparr>"

type_synonym 'r staking_op = "StakingManager \<Rightarrow> StakingManager \<times> (staking_error + 'r)"

abbreviation on_store :: "(InMemoryStakingStore \<Rightarrow> InMemoryStakingStore) \<Rightarrow> StakingManager \<Rightarrow> StakingManager" where
  "on_store f m \<equiv> m\<lparr>sm_store := f (sm_store m)\<rparr>"

abbreviation the_validator :: "StakingManager \<Rightarrow> ValidatorId \<Rightarrow> ValidatorState option" where
  "the_validator m vid \<equiv> ms_get_validator (sm_store m) vid"

definition ED25519_PUBLIC_KEY_LEN :: nat where
  "ED25519_PUBLIC_KEY_LEN = 32"

definition validate_public_key :: "StakingManager \<Rightarrow> PublicKey \<Rightarrow> staking_error + unit" where
  "validate_public_key m pubkey =
     (if length pubkey \<noteq> ED25519_PUBLIC_KEY_LEN then Inl (InvalidKeyLength (length pubkey))
      else if \<exists>v \<in> set (List.map_filter (the_validator m) (ms_all_validator_ids (sm_store m))). st_public_key v = pubkey
      then Inl DuplicateKey
      else Inr ())"

definition register_validator :: "ValidatorId \<Rightarrow> PublicKey \<Rightarrow> u64 \<Rightarrow> unit staking_op" where
  "register_validator vid pubkey self_stake m =
     (if the_validator m vid \<noteq> None then (m, Inl (AlreadyRegistered vid))
      else case validate_public_key m pubkey of
             Inl e \<Rightarrow> (m, Inl e)
           | Inr _ \<Rightarrow>
               if self_stake < sc_min_self_stake (sm_config m)
               then (m, Inl (BelowMinimum self_stake (sc_min_self_stake (sm_config m))))
               else
                 (on_store (ms_set_validator vid
                    \<lparr> st_id = vid, st_public_key = pubkey, st_self_stake = self_stake, st_delegated_stake = 0,
                      st_score = sc_initial_score (sm_config m), st_jailed = False, st_jail_until_height = 0,
                      st_tombstoned = False, st_applied_slashes = [] \<rparr>) m, Inr ()))"

definition has_pending_unbondings :: "StakingManager \<Rightarrow> ValidatorId \<Rightarrow> bool" where
  "has_pending_unbondings m vid \<longleftrightarrow> (\<exists>entry \<in> set (ms_unbondings (sm_store m)). ub_validator entry = vid \<and> ub_amount entry > 0)"

definition unregister_validator :: "ValidatorId \<Rightarrow> u64 staking_op" where
  "unregister_validator vid m =
     (case the_validator m vid of
        None \<Rightarrow> (m, Inl (ValidatorNotFound vid))
      | Some state \<Rightarrow>
          if total_stake state > 0 then (m, Inl (SlashableStakeRemains vid (total_stake state)))
          else if has_pending_unbondings m vid
          then (on_store (ms_set_validator vid (state\<lparr>st_tombstoned := True\<rparr>)) m, Inr 0)
          else (on_store (ms_remove_validator vid) m, Inr 0))"

section \<open>Delegation\<close>

definition delegate :: "bytes \<Rightarrow> ValidatorId \<Rightarrow> u64 \<Rightarrow> unit staking_op" where
  "delegate staker validator amount m =
     (if amount = 0 then (m, Inl ZeroAmount)
      else case the_validator m validator of
             None \<Rightarrow> (m, Inl (ValidatorNotFound validator))
           | Some vs \<Rightarrow>
               if st_tombstoned vs then (m, Inl (Tombstoned validator))
               else case checked_add (st_delegated_stake vs) amount of
                      None \<Rightarrow> (m, Inl (DelegatedOverflow validator))
                    | Some delegated \<Rightarrow>
                        let m1 = on_store (ms_set_validator validator (vs\<lparr>st_delegated_stake := delegated\<rparr>)) m;
                            entry = (case ms_get_stake (sm_store m1) staker validator of Some e \<Rightarrow> e | None \<Rightarrow> \<lparr> se_amount = 0 \<rparr>)
                        in case checked_add (se_amount entry) amount of
                             None \<Rightarrow> (m1, Inl StakeEntryOverflow)
                           | Some amount' \<Rightarrow> (on_store (ms_set_stake staker validator (entry\<lparr>se_amount := amount'\<rparr>)) m1, Inr ()))"

definition undelegate :: "bytes \<Rightarrow> ValidatorId \<Rightarrow> u64 \<Rightarrow> u64 \<Rightarrow> unit staking_op" where
  "undelegate staker validator amount current_height m =
     (if amount = 0 then (m, Inl ZeroAmount)
      else case the_validator m validator of
             None \<Rightarrow> (m, Inl (ValidatorNotFound validator))
           | Some vs \<Rightarrow>
               (case ms_get_stake (sm_store m) staker validator of
                  None \<Rightarrow> (m, Inl (NoStake validator))
                | Some entry \<Rightarrow>
                    if se_amount entry < amount then (m, Inl (InsufficientDelegation (se_amount entry) amount))
                    else
                      let left = se_amount entry - amount;
                          vs1 = vs\<lparr>st_delegated_stake := saturating_sub (st_delegated_stake vs) amount\<rparr>;
                          m1 = (if left = 0 then on_store (ms_remove_stake staker validator) m
                                else on_store (ms_set_stake staker validator (entry\<lparr>se_amount := left\<rparr>)) m);
                          m2 = on_store (ms_set_validator validator vs1) m1;
                          completion_height = saturating_add current_height (sc_unbonding_period (sm_config m))
                      in (on_store (ms_push_unbonding \<lparr> ub_staker = staker, ub_validator = validator, ub_amount = amount,
                             ub_completion_height = completion_height \<rparr>) m2, Inr ())))"

fun prune_loop :: "ValidatorId set \<Rightarrow> ValidatorId list \<Rightarrow> InMemoryStakingStore \<Rightarrow> InMemoryStakingStore" where
  "prune_loop pending [] s = s"
| "prune_loop pending (vid # ids) s =
     (case ms_get_validator s vid of
        None \<Rightarrow> prune_loop pending ids s
      | Some state \<Rightarrow>
          prune_loop pending ids
            (if st_tombstoned state \<and> total_stake state = 0 \<and> vid \<notin> pending then ms_remove_validator vid s else s))"

definition prune_tombstoned_validators :: "StakingManager \<Rightarrow> StakingManager" where
  "prune_tombstoned_validators m =
     (let pending = ub_validator ` {entry \<in> set (ms_unbondings (sm_store m)). ub_amount entry > 0}
      in on_store (prune_loop pending (ms_all_validator_ids (sm_store m))) m)"

definition process_unbonding :: "u64 \<Rightarrow> StakingManager \<Rightarrow> StakingManager \<times> UnbondingEntry list" where
  "process_unbonding current_height m =
     (let (store, mature) = ms_drain_mature_unbondings current_height (sm_store m)
      in (prune_tombstoned_validators (m\<lparr>sm_store := store\<rparr>), mature))"

section \<open>Slashing\<close>

definition slash_rate :: "StakingManager \<Rightarrow> SlashReason \<Rightarrow> u32" where
  "slash_rate m reason =
     (case reason of DoubleSign \<Rightarrow> sc_slash_rate_double_sign (sm_config m)
                   | Downtime \<Rightarrow> sc_slash_rate_downtime (sm_config m))"

text \<open>\<open>(x as u128 * y as u128 / z) as u64\<close>.\<close>

definition mul_div :: "u64 \<Rightarrow> u64 \<Rightarrow> u64 \<Rightarrow> u64" where
  "mul_div x y z = ucast ((ucast x :: u128) * ucast y div ucast z)"

fun slash_stakers ::
    "ValidatorId \<Rightarrow> u64 \<Rightarrow> u64 \<Rightarrow> (bytes \<times> StakeEntry) list \<Rightarrow> u64 \<Rightarrow> u64 \<Rightarrow> InMemoryStakingStore \<Rightarrow> InMemoryStakingStore" where
  "slash_stakers vid del_slash total_del [] slashed_so_far cumulative_stake s = s"
| "slash_stakers vid del_slash total_del ((addr, entry) # stakers) slashed_so_far cumulative_stake s =
     (let cumulative_stake' = cumulative_stake + se_amount entry;
          cumulative_slash = mul_div cumulative_stake' del_slash total_del;
          staker_slash = cumulative_slash - slashed_so_far;
          left = saturating_sub (se_amount entry) staker_slash
      in slash_stakers vid del_slash total_del stakers cumulative_slash cumulative_stake'
           (if left = 0 then ms_remove_stake addr vid s else ms_set_stake addr vid (entry\<lparr>se_amount := left\<rparr>) s))"

definition slash_delegators :: "ValidatorId \<Rightarrow> u64 \<Rightarrow> InMemoryStakingStore \<Rightarrow> InMemoryStakingStore" where
  "slash_delegators vid del_slash s =
     (if del_slash > 0 then
        let stakers = sort_key fst (ms_stakers_of s vid);
            total_del = sum_list (map (\<lambda>(_, e). se_amount e) stakers)
        in if total_del > 0 then slash_stakers vid del_slash total_del stakers 0 0 s else s
      else s)"

fun slash_unbondings :: "ValidatorId \<Rightarrow> u32 \<Rightarrow> UnbondingEntry list \<Rightarrow> u64 \<Rightarrow> UnbondingEntry list \<times> u64" where
  "slash_unbondings vid rate [] slashed = ([], slashed)"
| "slash_unbondings vid rate (e # es) slashed =
     (let ub_slash = mul_div (ub_amount e) (ucast rate) 10000;
          (e', slashed') =
            (if ub_validator e = vid \<and> ub_amount e > 0
             then (e\<lparr>ub_amount := saturating_sub (ub_amount e) ub_slash\<rparr>, saturating_add slashed ub_slash)
             else (e, slashed));
          (es', slashed'') = slash_unbondings vid rate es slashed'
      in (if ub_amount e' > 0 then e' # es' else es', slashed''))"

definition slash_with_evidence :: "ValidatorId \<Rightarrow> bytes \<Rightarrow> SlashReason \<Rightarrow> u64 \<Rightarrow> SlashResult staking_op" where
  "slash_with_evidence vid evidence_id reason current_height m =
     (if evidence_id = [] then (m, Inl EmptyEvidenceId)
      else case the_validator m vid of
             None \<Rightarrow> (m, Inl (ValidatorNotFound vid))
           | Some vs \<Rightarrow>
               if \<exists>applied \<in> set (st_applied_slashes vs). as_evidence_id applied = evidence_id
               then (m, Inl (AlreadySlashed vid (length evidence_id)))
               else
                 let rate = slash_rate m reason;
                     self_slash = mul_div (st_self_stake vs) (ucast rate) 10000;
                     del_slash = mul_div (st_delegated_stake vs) (ucast rate) 10000;
                     vs1 = vs\<lparr>st_self_stake := saturating_sub (st_self_stake vs) self_slash,
                              st_delegated_stake := saturating_sub (st_delegated_stake vs) del_slash,
                              st_jailed := True,
                              st_jail_until_height := max (st_jail_until_height vs)
                                 (saturating_add current_height (sc_jail_duration (sm_config m))),
                              st_score := saturating_sub (st_score vs) (sc_max_score (sm_config m) div 10),
                              st_applied_slashes := st_applied_slashes vs @ [\<lparr> as_evidence_id = evidence_id, as_reason = reason \<rparr>]\<rparr>;
                     store1 = slash_delegators vid del_slash (sm_store m);
                     store2 = ms_set_validator vid vs1 store1;
                     (updated, unbonding_slashed) = slash_unbondings vid rate (ms_unbondings store2) 0
                 in (m\<lparr>sm_store := ms_replace_unbondings updated store2\<rparr>,
                     Inr \<lparr> sr_self_slashed = self_slash, sr_delegated_slashed = saturating_add del_slash unbonding_slashed,
                           sr_jailed = True \<rparr>))"

definition default_evidence_id :: "SlashReason \<Rightarrow> bytes" where
  "default_evidence_id reason =
     (case reason of DoubleSign \<Rightarrow> ascii ''reason:double-sign'' | Downtime \<Rightarrow> ascii ''reason:downtime'')"

definition slash :: "ValidatorId \<Rightarrow> SlashReason \<Rightarrow> u64 \<Rightarrow> SlashResult staking_op" where
  "slash vid reason current_height m = slash_with_evidence vid (default_evidence_id reason) reason current_height m"

definition unjail :: "ValidatorId \<Rightarrow> u64 \<Rightarrow> unit staking_op" where
  "unjail vid current_height m =
     (case the_validator m vid of
        None \<Rightarrow> (m, Inl (ValidatorNotFound vid))
      | Some vs \<Rightarrow>
          if st_tombstoned vs then (m, Inl (Tombstoned vid))
          else if \<not> st_jailed vs then (m, Inl (NotJailed vid))
          else if current_height < st_jail_until_height vs then (m, Inl (JailedUntil vid (st_jail_until_height vs) current_height))
          else (on_store (ms_set_validator vid (vs\<lparr>st_jailed := False, st_jail_until_height := 0\<rparr>)) m, Inr ()))"

section \<open>Scores and rewards\<close>

definition increment_score :: "ValidatorId \<Rightarrow> u32 \<Rightarrow> StakingManager \<Rightarrow> StakingManager" where
  "increment_score vid delta m =
     (case the_validator m vid of
        None \<Rightarrow> m
      | Some vs \<Rightarrow>
          on_store (ms_set_validator vid
            (vs\<lparr>st_score := min (saturating_add (st_score vs) delta) (sc_max_score (sm_config m))\<rparr>)) m)"

definition decrement_score :: "ValidatorId \<Rightarrow> u32 \<Rightarrow> StakingManager \<Rightarrow> StakingManager" where
  "decrement_score vid delta m =
     (case the_validator m vid of
        None \<Rightarrow> m
      | Some vs \<Rightarrow> on_store (ms_set_validator vid (vs\<lparr>st_score := saturating_sub (st_score vs) delta\<rparr>)) m)"

definition proposer_reward :: "StakingConfig \<Rightarrow> u64" where
  "proposer_reward config = sc_block_reward config"

definition reward_proposer :: "ValidatorId \<Rightarrow> u64 staking_op" where
  "reward_proposer proposer m =
     (let reward = proposer_reward (sm_config m)
      in if reward = 0 then (m, Inr 0)
         else case the_validator m proposer of
                None \<Rightarrow> (m, Inl (ValidatorNotFound proposer))
              | Some vs \<Rightarrow>
                  if st_tombstoned vs then (m, Inl (Tombstoned proposer))
                  else case checked_add (st_self_stake vs) reward of
                         None \<Rightarrow> (m, Inl RewardOverflow)
                       | Some stake \<Rightarrow>
                           (on_store (ms_set_validator proposer (vs\<lparr>st_self_stake := stake\<rparr>)) m, Inr reward))"

section \<open>Queries and validator updates\<close>

definition staked_power :: "StakingManager \<Rightarrow> ValidatorId \<Rightarrow> u64" where
  "staked_power m vid = (case the_validator m vid of Some vs \<Rightarrow> voting_power vs | None \<Rightarrow> 0)"

definition total_staked :: "StakingManager \<Rightarrow> u64" where
  "total_staked m =
     foldl saturating_add 0
       (map total_stake (List.map_filter (the_validator m) (ms_all_validator_ids (sm_store m))))"

definition formal_validator_list :: "StakingManager \<Rightarrow> ValidatorState list" where
  "formal_validator_list m =
     (let active = filter (\<lambda>vs. \<not> st_jailed vs \<and> \<not> st_tombstoned vs \<and> st_self_stake vs \<ge> sc_min_self_stake (sm_config m))
                     (List.map_filter (the_validator m) (ms_all_validator_ids (sm_store m)))
      in take (sc_max_validators (sm_config m)) (sort_key (\<lambda>v. (- int (unat (voting_power v)), st_id v)) active))"

fun formal_total :: "u64 \<Rightarrow> ValidatorState list \<Rightarrow> u64 option" where
  "formal_total acc [] = Some acc"
| "formal_total acc (vs # rest) =
     (case checked_add acc (voting_power vs) of Some t \<Rightarrow> formal_total t rest | None \<Rightarrow> None)"

definition compute_validator_updates :: "StakingManager \<Rightarrow> ValidatorSet \<Rightarrow> ValidatorUpdate list" where
  "compute_validator_updates m current_set =
     (let formal = formal_validator_list m
      in if formal = [] then []
         else case formal_total 0 formal of
                None \<Rightarrow> []
              | Some _ \<Rightarrow>
                  List.map_filter (\<lambda>vs.
                    let unchanged = (case get_validator current_set (st_id vs) of
                          Some current \<Rightarrow> vi_power current = voting_power vs \<and> vi_public_key current = st_public_key vs
                        | None \<Rightarrow> False)
                    in if unchanged then None
                       else Some \<lparr> vu_id = st_id vs, vu_public_key = st_public_key vs, vu_power = voting_power vs \<rparr>) formal @
                  List.map_filter (\<lambda>vi.
                    if \<exists>f \<in> set formal. st_id f = vi_id vi then None
                    else Some \<lparr> vu_id = vi_id vi, vu_public_key = vi_public_key vi, vu_power = 0 \<rparr>)
                    (vs_validators current_set))"

section \<open>Sums of stakes\<close>

definition stake_value :: "StakeEntry option \<Rightarrow> nat" where
  "stake_value x = (case x of Some e \<Rightarrow> unat (se_amount e) | None \<Rightarrow> 0)"

lemma stake_value_simps [simp]: "stake_value None = 0" "stake_value (Some e) = unat (se_amount e)"
  by (simp_all add: stake_value_def)

definition mass :: "('k \<rightharpoonup> StakeEntry) \<Rightarrow> nat" where
  "mass f = (\<Sum>a \<in> dom f. stake_value (f a))"

lemma mass_superset: "\<lbrakk> finite A; dom f \<subseteq> A \<rbrakk> \<Longrightarrow> mass f = (\<Sum>a \<in> A. stake_value (f a))"
  unfolding mass_def by (rule sum.mono_neutral_left) (auto simp: domIff)

lemma mass_upd:
  assumes "finite (dom f)"
  shows "mass (f(a := x)) + stake_value (f a) = mass f + stake_value x"
proof -
  let ?A = "insert a (dom f)"
  have "mass (f(a := x)) = (\<Sum>b \<in> ?A. stake_value ((f(a := x)) b))" "mass f = (\<Sum>b \<in> ?A. stake_value (f b))"
    using assms by (intro mass_superset; auto split: if_splits)+
  moreover have "(\<Sum>b \<in> ?A. stake_value ((f(a := x)) b)) = stake_value x + (\<Sum>b \<in> ?A - {a}. stake_value (f b))"
    "(\<Sum>b \<in> ?A. stake_value (f b)) = stake_value (f a) + (\<Sum>b \<in> ?A - {a}. stake_value (f b))"
    using assms by (subst sum.remove [of _ a]; auto intro!: sum.cong)+
  ultimately show ?thesis by simp
qed

lemma stake_value_le_mass: "finite (dom f) \<Longrightarrow> stake_value (f a) \<le> mass f"
  using mass_upd [of f a None] by simp

lemma mass_empty: "finite (dom f) \<Longrightarrow> mass f = 0 \<longleftrightarrow> (\<forall>a. stake_value (f a) = 0)"
  by (auto simp: mass_def) (metis domIff stake_value_simps(1))

lemma mass_list:
  assumes "distinct (map fst xs)" "\<And>a e. (a, e) \<in> set xs \<longleftrightarrow> f a = Some e"
  shows "mass f = (\<Sum>(a, e) \<leftarrow> xs. unat (se_amount e))"
proof -
  have d: "dom f = fst ` set xs" using assms(2) by (force simp: domIff)
  have inj: "inj_on fst (set xs)" using assms(1) by (simp add: distinct_map)
  have "mass f = (\<Sum>x \<in> set xs. stake_value (f (fst x)))" unfolding mass_def d by (rule sum.reindex_cong [OF inj]) auto
  also have "\<dots> = (\<Sum>x \<in> set xs. unat (se_amount (snd x)))" by (rule sum.cong) (use assms(2) in \<open>auto simp: split_paired_all\<close>)
  also have "\<dots> = (\<Sum>x \<leftarrow> xs. unat (se_amount (snd x)))"
    using assms(1) by (simp add: sum_list_distinct_conv_sum_set distinct_map)
  finally show ?thesis by (simp add: case_prod_unfold)
qed

section \<open>The interface of the store\<close>

locale staking_store =
  fixes ok :: "'s \<Rightarrow> bool"
    and get_validator :: "'s \<Rightarrow> ValidatorId \<Rightarrow> ValidatorState option"
    and set_validator :: "ValidatorId \<Rightarrow> ValidatorState \<Rightarrow> 's \<Rightarrow> 's"
    and remove_validator :: "ValidatorId \<Rightarrow> 's \<Rightarrow> 's"
    and all_validator_ids :: "'s \<Rightarrow> ValidatorId list"
    and get_stake :: "'s \<Rightarrow> bytes \<Rightarrow> ValidatorId \<Rightarrow> StakeEntry option"
    and set_stake :: "bytes \<Rightarrow> ValidatorId \<Rightarrow> StakeEntry \<Rightarrow> 's \<Rightarrow> 's"
    and remove_stake :: "bytes \<Rightarrow> ValidatorId \<Rightarrow> 's \<Rightarrow> 's"
    and stakers_of :: "'s \<Rightarrow> ValidatorId \<Rightarrow> (bytes \<times> StakeEntry) list"
  assumes get_set_validator: "get_validator (set_validator i v s) = (get_validator s)(i \<mapsto> v)"
    and get_remove_validator: "get_validator (remove_validator i s) = (get_validator s)(i := None)"
    and get_set_stake: "get_stake (set_stake a i e s) = (get_stake s)(a := (get_stake s a)(i \<mapsto> e))"
    and get_remove_stake: "get_stake (remove_stake a i s) = (get_stake s)(a := (get_stake s a)(i := None))"
    and validator_frame: "get_stake (set_validator i v s) = get_stake s" "get_stake (remove_validator i s) = get_stake s"
    and stake_frame: "get_validator (set_stake a i e s) = get_validator s" "get_validator (remove_stake a i s) = get_validator s"
    and validator_ids: "ok s \<Longrightarrow> distinct (all_validator_ids s) \<and> set (all_validator_ids s) = dom (get_validator s)"
    and stakers: "ok s \<Longrightarrow> distinct (map fst (stakers_of s i))" "ok s \<Longrightarrow> (a, e) \<in> set (stakers_of s i) \<longleftrightarrow> get_stake s a i = Some e"
    and ok_preserved: "ok s \<Longrightarrow> ok (set_validator i v s)" "ok s \<Longrightarrow> ok (remove_validator i s)"
      "ok s \<Longrightarrow> ok (set_stake a i e s)" "ok s \<Longrightarrow> ok (remove_stake a i s)"
begin

lemma finite_stakers: "ok s \<Longrightarrow> finite (dom (\<lambda>a. get_stake s a i))"
proof -
  assume "ok s"
  then have "dom (\<lambda>a. get_stake s a i) = fst ` set (stakers_of s i)" using stakers(2) by (force simp: domIff)
  then show ?thesis by simp
qed

lemma bonded_stakers: "ok s \<Longrightarrow> mass (\<lambda>a. get_stake s a i) = (\<Sum>(a, e) \<leftarrow> stakers_of s i. unat (se_amount e))"
  by (rule mass_list [OF stakers(1)]) (simp_all add: stakers(2))

lemma bonded_set_stake:
  "ok s \<Longrightarrow> mass (\<lambda>b. get_stake (set_stake a i e s) b j) + (if j = i then stake_value (get_stake s a i) else 0) =
     mass (\<lambda>b. get_stake s b j) + (if j = i then unat (se_amount e) else 0)"
proof -
  assume ok: "ok s"
  have "(\<lambda>b. get_stake (set_stake a i e s) b j) = (if j = i then (\<lambda>b. get_stake s b j)(a \<mapsto> e) else (\<lambda>b. get_stake s b j))"
    by (auto simp: get_set_stake)
  then show ?thesis using mass_upd [OF finite_stakers [OF ok, of j], of a "Some e"] by auto
qed

lemma bonded_remove_stake:
  "ok s \<Longrightarrow> mass (\<lambda>b. get_stake (remove_stake a i s) b j) + (if j = i then stake_value (get_stake s a i) else 0) =
     mass (\<lambda>b. get_stake s b j)"
proof -
  assume ok: "ok s"
  have "(\<lambda>b. get_stake (remove_stake a i s) b j) = (if j = i then (\<lambda>b. get_stake s b j)(a := None) else (\<lambda>b. get_stake s b j))"
    by (auto simp: get_remove_stake)
  then show ?thesis using mass_upd [OF finite_stakers [OF ok, of j], of a None] by auto
qed

lemma registered: "ok s \<Longrightarrow> set (List.map_filter (get_validator s) (all_validator_ids s)) = ran (get_validator s)"
  using validator_ids [of s] by (auto simp: set_map_filter ran_def) blast

end

definition ms_ok :: "InMemoryStakingStore \<Rightarrow> bool" where
  "ms_ok s \<longleftrightarrow> distinct (map fst (ms_validators s)) \<and> distinct (map fst (ms_stakes s))"

interpretation mem: staking_store ms_ok ms_get_validator ms_set_validator ms_remove_validator ms_all_validator_ids
    ms_get_stake ms_set_stake ms_remove_stake ms_stakers_of
proof (unfold_locales, goal_cases)
  case (9 s)
  then show ?case by (simp add: ms_ok_def ms_all_validator_ids_def ms_get_validator_def [abs_def] dom_map_of_conv_image_fst)
next
  case (10 s i)
  have "distinct (map fst (filter (\<lambda>((_, v), _). v = i) (ms_stakes s)))" using 10 by (simp add: ms_ok_def distinct_map_filter)
  then have "distinct (map (fst \<circ> fst) (filter (\<lambda>((_, v), _). v = i) (ms_stakes s)))"
    unfolding distinct_map by (auto simp: inj_on_def)
  then show ?case by (simp add: ms_stakers_of_def comp_def case_prod_unfold)
next
  case (11 s a e i)
  then show ?case by (auto simp: ms_ok_def ms_stakers_of_def ms_get_stake_def image_iff split: prod.splits)
qed (auto simp: ms_get_validator_def ms_set_validator_def ms_remove_validator_def ms_get_stake_def ms_set_stake_def
  ms_remove_stake_def ms_ok_def update_conv delete_conv distinct_update distinct_delete fun_eq_iff)
section \<open>Proportional slashes\<close>

lemma unat_mul_div:
  assumes "y \<le> z" "0 < z"
  shows "unat (mul_div x y z) = unat x * unat y div unat z" "unat x * unat y div unat z \<le> unat x"
proof -
  have u: "unat (ucast w :: u128) = unat w" for w :: u64
  proof -
    have "unat w < 2 ^ 128" by (rule less_trans [of _ "2 ^ 64"]) simp_all
    then show ?thesis by (simp add: unsigned_ucast_eq take_bit_nat_eq_self)
  qed
  have pos: "0 < unat z" using assms(2) by (simp add: word_less_nat_alt)
  have "unat x * unat y \<le> unat x * unat z" using assms(1) by (simp add: word_le_nat_alt)
  then have "unat x * unat y div unat z \<le> unat x * unat z div unat z" by (rule div_le_mono)
  then show le: "unat x * unat y div unat z \<le> unat x" using pos by simp
  have b: "unat w \<le> 18446744073709551615" for w :: u64 using unat_u64_less [of w] by linarith
  have "unat x * unat y \<le> 18446744073709551615 * 18446744073709551615" by (rule mult_mono) (simp_all add: b)
  then have "unat (ucast x :: u128) * unat (ucast y :: u128) < 2 ^ 128" by (simp add: u)
  then have "unat ((ucast x :: u128) * ucast y) = unat x * unat y" by (simp add: unat_word_ariths u)
  then have "unat ((ucast x :: u128) * ucast y div ucast z) = unat x * unat y div unat z" by (simp add: unat_div u)
  moreover have "unat x * unat y div unat z < 2 ^ 64" using le by (rule order.strict_trans1) simp
  ultimately show "unat (mul_div x y z) = unat x * unat y div unat z" by (simp add: mul_div_def unsigned_ucast_eq take_bit_nat_eq_self)
qed

text \<open>Shares rounded along the running total: nobody pays more than their stake, and the shares add up.\<close>

lemma share_le: "\<lbrakk> D \<le> T; 0 < T \<rbrakk> \<Longrightarrow> (C + x) * D div T \<le> C * D div T + (x :: nat)"
proof -
  assume "D \<le> T" "0 < T"
  then have "(C + x) * D \<le> C * D + x * T" by (simp add: add_mult_distrib)
  then have "(C + x) * D div T \<le> (C * D + x * T) div T" by (rule div_le_mono)
  with \<open>0 < T\<close> show ?thesis by simp
qed

definition bonded :: "InMemoryStakingStore \<Rightarrow> ValidatorId \<Rightarrow> nat" where
  "bonded s i = mass (\<lambda>a. ms_get_stake s a i)"

lemmas bonded_upd = mem.bonded_set_stake [folded bonded_def] mem.bonded_remove_stake [folded bonded_def]

definition no_dust :: "InMemoryStakingStore \<Rightarrow> bool" where
  "no_dust s \<longleftrightarrow> (\<forall>a i e. ms_get_stake s a i = Some e \<longrightarrow> 0 < se_amount e)"

lemma no_dust_upd:
  "\<lbrakk> no_dust s; 0 < se_amount e \<rbrakk> \<Longrightarrow> no_dust (ms_set_stake a i e s)" "no_dust s \<Longrightarrow> no_dust (ms_remove_stake a i s)"
  by (auto simp: no_dust_def mem.get_set_stake mem.get_remove_stake)

text \<open>Setting a stake to what is left of it, dropping it at zero.\<close>

lemma set_left:
  assumes "ms_ok s" "ms_get_stake s a i = Some e"
    and s'_def: "s' = (if left = 0 then ms_remove_stake a i s else ms_set_stake a i (e\<lparr>se_amount := left\<rparr>) s)"
  shows "ms_ok s'" "bonded s' j + (if j = i then unat (se_amount e) else 0) = bonded s j + (if j = i then unat left else 0)"
    "ms_get_validator s' = ms_get_validator s" "ms_unbondings s' = ms_unbondings s" "no_dust s \<Longrightarrow> no_dust s'"
    "ms_get_stake s' b k \<noteq> None \<Longrightarrow> ms_get_stake s b k \<noteq> None" "b \<noteq> a \<Longrightarrow> ms_get_stake s' b = ms_get_stake s b"
  using assms(1,2) bonded_upd(1) [OF assms(1), of a i "e\<lparr>se_amount := left\<rparr>" j] bonded_upd(2) [OF assms(1), of a i j]
  by (auto simp: s'_def mem.ok_preserved mem.stake_frame no_dust_upd word_gt_0 mem.get_remove_stake mem.get_set_stake split: if_splits)
     (simp_all add: ms_remove_stake_def ms_set_stake_def)

definition same_but_stakes :: "InMemoryStakingStore \<Rightarrow> InMemoryStakingStore \<Rightarrow> bool" where
  "same_but_stakes s s' \<longleftrightarrow>
     (ms_ok s \<longrightarrow> ms_ok s') \<and> ms_get_validator s' = ms_get_validator s \<and> ms_unbondings s' = ms_unbondings s \<and>
     (no_dust s \<longrightarrow> no_dust s') \<and> (\<forall>b k. ms_get_stake s' b k \<noteq> None \<longrightarrow> ms_get_stake s b k \<noteq> None)"

lemma same_but_stakes_trans: "\<lbrakk> same_but_stakes s s'; same_but_stakes s' s'' \<rbrakk> \<Longrightarrow> same_but_stakes s s''"
  by (auto simp: same_but_stakes_def)

lemma slash_stakers_effect:
  assumes D: "D \<le> T" "0 < T"
  shows "\<lbrakk> ms_ok s; distinct (map fst xs); \<forall>(a, e) \<in> set xs. ms_get_stake s a i = Some e;
      unat cum + (\<Sum>(a, e) \<leftarrow> xs. unat (se_amount e)) \<le> unat T; s' = slash_stakers i D T xs (mul_div cum D T) cum s \<rbrakk> \<Longrightarrow>
    same_but_stakes s s' \<and>
    (\<forall>j. bonded s' j + (if j = i then (unat cum + (\<Sum>(a, e) \<leftarrow> xs. unat (se_amount e))) * unat D div unat T else 0) =
       bonded s j + (if j = i then unat cum * unat D div unat T else 0))"
proof (induction xs arbitrary: cum s)
  case Nil
  then show ?case by (simp add: same_but_stakes_def)
next
  case (Cons x xs)
  obtain a e where x: "x = (a, e)" by fastforce
  let ?C = "unat cum" and ?e = "unat (se_amount e)" and ?S = "\<Sum>(a, e) \<leftarrow> xs. unat (se_amount e)"
  define cum' where "cum' = cum + se_amount e"
  define left where "left = saturating_sub (se_amount e) (mul_div cum' D T - mul_div cum D T)"
  define s1 where "s1 = (if left = 0 then ms_remove_stake a i s else ms_set_stake a i (e\<lparr>se_amount := left\<rparr>) s)"
  have tot: "?C + ?e + ?S \<le> unat T" using Cons.prems(4) x by simp
  then have "?C + ?e < 18446744073709551616" using unat_u64_less [of T] by linarith
  then have c: "unat cum' = ?C + ?e" by (simp add: cum'_def u64_arith)
  have lo: "?C * unat D div unat T \<le> (?C + ?e) * unat D div unat T" by (rule div_le_mono) simp
  have hi: "(?C + ?e) * unat D div unat T \<le> ?C * unat D div unat T + ?e"
    using share_le [of "unat D" "unat T" ?C ?e] D by (simp add: word_le_nat_alt word_less_nat_alt)
  have le: "mul_div cum D T \<le> mul_div cum' D T" using lo by (simp add: word_le_nat_alt unat_mul_div [OF D] c)
  have l: "unat left = ?e - ((?C + ?e) * unat D div unat T - ?C * unat D div unat T)"
    using le by (simp add: left_def unat_saturating_sub unat_sub_no_underflow unat_mul_div [OF D] c)
  have st: "ms_get_stake s a i = Some e" using Cons.prems(3) x by simp
  note e1 = set_left [OF Cons.prems(1) st s1_def]
  have same: "same_but_stakes s s1" using e1 by (simp add: same_but_stakes_def)
  have rec: "s' = slash_stakers i D T xs (mul_div cum' D T) cum' s1"
    using Cons.prems(5) by (simp add: x cum'_def left_def s1_def Let_def)
  have mem: "\<forall>(b, f) \<in> set xs. ms_get_stake s1 b i = Some f"
    using Cons.prems(2,3) e1(7) x by (fastforce simp: image_iff)
  have IH: "same_but_stakes s1 s' \<and>
    (\<forall>j. bonded s' j + (if j = i then (unat cum' + ?S) * unat D div unat T else 0) =
       bonded s1 j + (if j = i then unat cum' * unat D div unat T else 0))"
    by (rule Cons.IH [OF e1(1) _ mem _ rec]) (use Cons.prems(2) tot c in simp_all)
  have "bonded s' j + (if j = i then (?C + (?e + ?S)) * unat D div unat T else 0) =
       bonded s j + (if j = i then ?C * unat D div unat T else 0)" for j
  proof (cases "j = i")
    case True
    have "bonded s' i + (?C + (?e + ?S)) * unat D div unat T = bonded s1 i + (?C + ?e) * unat D div unat T"
      using IH [THEN conjunct2, THEN spec, of i] by (simp add: c add.assoc)
    moreover have "bonded s1 i + ?e = bonded s i + unat left" using e1(2) [of i] by simp
    ultimately show ?thesis using l lo hi True by simp
  next
    case False
    then show ?thesis using IH [THEN conjunct2, THEN spec, of j] e1(2) [of j] by simp
  qed
  with same_but_stakes_trans [OF same IH [THEN conjunct1]] show ?case by (simp only: x list.map sum_list.Cons prod.case simp_thms)
qed

definition pledged :: "UnbondingEntry list \<Rightarrow> ValidatorId \<Rightarrow> nat" where
  "pledged es i = (\<Sum>u \<leftarrow> es. if ub_validator u = i then unat (ub_amount u) else 0)"

lemma slash_le:
  assumes "rate \<le> (10000 :: u32)"
  shows "unat (mul_div x (ucast rate) 10000) \<le> unat x"
proof -
  have "unat rate < 2 ^ 64" by (rule less_trans [OF unsigned_less [of rate]]) simp
  then have "unat (ucast rate :: u64) = unat rate" by (simp add: unsigned_ucast_eq take_bit_nat_eq_self)
  then have "(ucast rate :: u64) \<le> 10000" using assms by (simp add: word_le_nat_alt)
  from unat_mul_div [OF this, of x] show ?thesis by simp
qed

lemma slash_unbondings_effect:
  "\<lbrakk> rate \<le> 10000; slash_unbondings i rate es acc = (es', slashed) \<rbrakk> \<Longrightarrow>
     (\<forall>u \<in> set es'. 0 < ub_amount u \<and> ub_validator u \<in> ub_validator ` set es) \<and>
     (\<forall>j. j \<noteq> i \<longrightarrow> pledged es' j = pledged es j) \<and>
     (\<exists>d. pledged es' i + d = pledged es i \<and> unat slashed = min (unat acc + d) (2 ^ 64 - 1))"
proof (induction es arbitrary: acc es' slashed)
  case Nil
  moreover have "unat slashed \<le> 18446744073709551615" using unat_u64_less [of slashed] by linarith
  ultimately show ?case by (auto simp: pledged_def)
next
  case (Cons e es)
  let ?x = "mul_div (ub_amount e) (ucast rate) 10000"
  define e' where "e' = (if ub_validator e = i \<and> ub_amount e > 0 then e\<lparr>ub_amount := saturating_sub (ub_amount e) ?x\<rparr> else e)"
  define acc' where "acc' = (if ub_validator e = i \<and> ub_amount e > 0 then saturating_add acc ?x else acc)"
  obtain rest where rest: "slash_unbondings i rate es acc' = (rest, slashed)" "es' = (if ub_amount e' > 0 then e' # rest else rest)"
    using Cons.prems(2) by (auto simp: e'_def acc'_def Let_def split: prod.splits if_splits)
  have x: "unat ?x \<le> unat (ub_amount e)" using slash_le [OF Cons.prems(1)] .
  have e': "ub_validator e' = ub_validator e" by (simp add: e'_def)
  have IH: "(\<forall>u \<in> set rest. 0 < ub_amount u \<and> ub_validator u \<in> ub_validator ` set es) \<and> (\<forall>j. j \<noteq> i \<longrightarrow> pledged rest j = pledged es j) \<and>
     (\<exists>d. pledged rest i + d = pledged es i \<and> unat slashed = min (unat acc' + d) (2 ^ 64 - 1))"
    by (rule Cons.IH [OF Cons.prems(1) rest(1)])
  then obtain d where d: "pledged rest i + d = pledged es i" "unat slashed = min (unat acc' + d) (2 ^ 64 - 1)" by blast
  have p: "pledged es' j = (if ub_validator e = j then unat (ub_amount e') else 0) + pledged rest j" for j
    using e' by (auto simp: rest(2) pledged_def word_gt_0)
  have q: "pledged (e # es) j = (if ub_validator e = j then unat (ub_amount e) else 0) + pledged es j" for j
    by (simp add: pledged_def)
  have "\<exists>d. pledged es' i + d = pledged (e # es) i \<and> unat slashed = min (unat acc + d) (2 ^ 64 - 1)"
  proof (cases "ub_validator e = i \<and> ub_amount e > 0")
    case True
    then have "unat (ub_amount e') + unat ?x = unat (ub_amount e)" using x by (simp add: e'_def unat_saturating_sub)
    moreover have "unat acc' = min (unat acc + unat ?x) (2 ^ 64 - 1)" using True by (simp add: acc'_def unat_saturating_add)
    ultimately show ?thesis using d True p [of i] q [of i] by (intro exI [of _ "unat ?x + d"]) auto
  next
    case False
    with d p [of i] q [of i] show ?thesis by (intro exI [of _ d]) (auto simp: e'_def acc'_def)
  qed
  moreover have "pledged es' j = pledged (e # es) j" if "j \<noteq> i" for j
    using IH that p [of j] q [of j] by (auto simp: e'_def)
  ultimately show ?case using IH e' by (auto simp: rest(2))
qed

section \<open>The books\<close>

definition books_ok :: "StakingManager \<Rightarrow> bool" where
  "books_ok m \<longleftrightarrow>
     ms_ok (sm_store m) \<and> no_dust (sm_store m) \<and>
     (\<forall>i v. the_validator m i = Some v \<longrightarrow>
        st_id v = i \<and> length (st_public_key v) = 32 \<and> unat (st_delegated_stake v) = bonded (sm_store m) i \<and>
        st_score v \<le> sc_max_score (sm_config m) \<and> (st_tombstoned v \<longrightarrow> total_stake v = 0) \<and>
        distinct (map as_evidence_id (st_applied_slashes v))) \<and>
     (\<forall>i j v w. the_validator m i = Some v \<longrightarrow> the_validator m j = Some w \<longrightarrow> st_public_key v = st_public_key w \<longrightarrow> i = j) \<and>
     (\<forall>a i. ms_get_stake (sm_store m) a i \<noteq> None \<longrightarrow> the_validator m i \<noteq> None) \<and>
     (\<forall>u \<in> set (ms_unbondings (sm_store m)). 0 < ub_amount u \<and> the_validator m (ub_validator u) \<noteq> None)"

lemma books_okD:
  assumes "books_ok m"
  shows "ms_ok (sm_store m)" "no_dust (sm_store m)"
    "the_validator m i = Some v \<Longrightarrow> st_id v = i" "the_validator m i = Some v \<Longrightarrow> length (st_public_key v) = 32"
    "the_validator m i = Some v \<Longrightarrow> unat (st_delegated_stake v) = bonded (sm_store m) i"
    "the_validator m i = Some v \<Longrightarrow> st_score v \<le> sc_max_score (sm_config m)"
    "\<lbrakk> the_validator m i = Some v; st_tombstoned v \<rbrakk> \<Longrightarrow> total_stake v = 0"
    "the_validator m i = Some v \<Longrightarrow> distinct (map as_evidence_id (st_applied_slashes v))"
    "\<lbrakk> the_validator m i = Some v; the_validator m j = Some w; st_public_key v = st_public_key w \<rbrakk> \<Longrightarrow> i = j"
    "ms_get_stake (sm_store m) a i \<noteq> None \<Longrightarrow> the_validator m i \<noteq> None"
    "u \<in> set (ms_unbondings (sm_store m)) \<Longrightarrow> 0 < ub_amount u"
    "u \<in> set (ms_unbondings (sm_store m)) \<Longrightarrow> the_validator m (ub_validator u) \<noteq> None"
  using assms unfolding books_ok_def by meson+

text \<open>A change to one validator, its stakes and its unbondings.\<close>

lemma books_change:
  assumes "books_ok m" "the_validator m i = Some v"
    and "ms_ok s" "no_dust s" "ms_get_validator s = (ms_get_validator (sm_store m))(i \<mapsto> v')"
    and "st_id v' = st_id v" "st_public_key v' = st_public_key v" "st_score v' \<le> sc_max_score (sm_config m)"
    and "st_tombstoned v' \<Longrightarrow> total_stake v' = 0" "distinct (map as_evidence_id (st_applied_slashes v'))"
    and "unat (st_delegated_stake v') = bonded s i" "\<And>j. j \<noteq> i \<Longrightarrow> bonded s j = bonded (sm_store m) j"
    and "\<And>a j. ms_get_stake s a j \<noteq> None \<Longrightarrow> ms_get_stake (sm_store m) a j \<noteq> None \<or> j = i"
    and "\<And>u. u \<in> set (ms_unbondings s) \<Longrightarrow>
           0 < ub_amount u \<and> (ub_validator u = i \<or> ub_validator u \<in> ub_validator ` set (ms_unbondings (sm_store m)))"
  shows "books_ok (m\<lparr>sm_store := s\<rparr>)"
proof -
  note b = books_okD [OF assms(1)]
  have get: "the_validator (m\<lparr>sm_store := s\<rparr>) j = (if j = i then Some v' else the_validator m j)" for j by (simp add: assms(5))
  have keys: "\<exists>x. the_validator m j = Some x \<and> st_public_key x = st_public_key w" if "the_validator (m\<lparr>sm_store := s\<rparr>) j = Some w" for j w
    using that assms(2,7) get by (auto split: if_splits)
  show ?thesis
    unfolding books_ok_def
  proof (intro conjI allI impI ballI)
    fix j w assume w: "the_validator (m\<lparr>sm_store := s\<rparr>) j = Some w"
    show "st_id w = j" "length (st_public_key w) = 32" "unat (st_delegated_stake w) = bonded (sm_store (m\<lparr>sm_store := s\<rparr>)) j"
      "st_score w \<le> sc_max_score (sm_config (m\<lparr>sm_store := s\<rparr>))" "st_tombstoned w \<Longrightarrow> total_stake w = 0"
      "distinct (map as_evidence_id (st_applied_slashes w))"
      using w b(3-8) [of j w] b(3,4) [OF assms(2)] assms(6-12) unfolding get by (cases "j = i"; simp)+
  next
    fix j k w x assume "the_validator (m\<lparr>sm_store := s\<rparr>) j = Some w" "the_validator (m\<lparr>sm_store := s\<rparr>) k = Some x" "st_public_key w = st_public_key x"
    with keys b(9) show "j = k" by metis
  next
    fix a j assume "ms_get_stake (sm_store (m\<lparr>sm_store := s\<rparr>)) a j \<noteq> None"
    with assms(13) [of a j] b(10) [of a j] get [of j] show "the_validator (m\<lparr>sm_store := s\<rparr>) j \<noteq> None" by (cases "j = i") simp_all
  next
    fix u assume "u \<in> set (ms_unbondings (sm_store (m\<lparr>sm_store := s\<rparr>)))"
    then have u: "0 < ub_amount u" "ub_validator u = i \<or> ub_validator u \<in> ub_validator ` set (ms_unbondings (sm_store m))"
      using assms(14) [of u] by simp_all
    then show "0 < ub_amount u" by simp
    from u(2) b(12) get show "the_validator (m\<lparr>sm_store := s\<rparr>) (ub_validator u) \<noteq> None" by force
  qed (use assms(3,4) in simp_all)
qed

lemma frames [simp]:
  "ms_unbondings (ms_set_validator i v s) = ms_unbondings s" "ms_unbondings (ms_remove_validator i s) = ms_unbondings s"
  "ms_unbondings (ms_set_stake a i e s) = ms_unbondings s"
  "bonded (ms_set_validator i v s) j = bonded s j" "bonded (ms_remove_validator i s) j = bonded s j"
  "no_dust (ms_set_validator i v s) \<longleftrightarrow> no_dust s" "no_dust (ms_remove_validator i s) \<longleftrightarrow> no_dust s"
  "ms_get_validator (ms_push_unbonding u s) = ms_get_validator s" "ms_get_stake (ms_push_unbonding u s) = ms_get_stake s"
  "ms_unbondings (ms_push_unbonding u s) = ms_unbondings s @ [u]" "ms_ok (ms_push_unbonding u s) \<longleftrightarrow> ms_ok s"
  "ms_get_validator (ms_replace_unbondings us s) = ms_get_validator s" "ms_get_stake (ms_replace_unbondings us s) = ms_get_stake s"
  "ms_unbondings (ms_replace_unbondings us s) = us" "ms_ok (ms_replace_unbondings us s) \<longleftrightarrow> ms_ok s"
  by (simp_all add: bonded_def no_dust_def mem.validator_frame ms_ok_def)
     (simp_all add: ms_set_validator_def ms_remove_validator_def ms_set_stake_def ms_push_unbonding_def ms_replace_unbondings_def
       ms_get_validator_def [abs_def] ms_get_stake_def [abs_def])

lemma frames_unbonding [simp]:
  "bonded (ms_push_unbonding u s) j = bonded s j" "no_dust (ms_push_unbonding u s) \<longleftrightarrow> no_dust s"
  "bonded (ms_replace_unbondings us s) j = bonded s j" "no_dust (ms_replace_unbondings us s) \<longleftrightarrow> no_dust s"
  by (simp_all add: bonded_def no_dust_def)

declare mem.get_set_validator [simp] mem.get_remove_validator [simp] mem.validator_frame [simp] mem.stake_frame [simp] mem.ok_preserved [simp]

lemma books_touch:
  assumes "books_ok m" "the_validator m i = Some v"
    and "st_id v' = st_id v" "st_public_key v' = st_public_key v" "st_score v' \<le> sc_max_score (sm_config m)"
    and "st_tombstoned v' \<Longrightarrow> total_stake v' = 0" "st_applied_slashes v' = st_applied_slashes v"
    and "st_delegated_stake v' = st_delegated_stake v"
  shows "books_ok (on_store (ms_set_validator i v') m)"
  using assms books_okD [OF assms(1)] by (intro books_change [OF assms(1,2)]) auto

lemma books_scores:
  assumes "books_ok m"
  shows "books_ok (increment_score i delta m)" "books_ok (decrement_score i delta m)"
proof -
  have d: "saturating_sub (st_score v) delta \<le> sc_max_score (sm_config m)" if "the_validator m i = Some v" for v
    using books_okD(6) [OF assms that] by (simp add: word_le_nat_alt unat_saturating_sub)
  show "books_ok (increment_score i delta m)" "books_ok (decrement_score i delta m)"
    using assms books_okD(6,7) [OF assms] d
    by (auto simp: increment_score_def decrement_score_def total_stake_def split: option.splits intro!: books_touch [OF assms])
qed

lemma books_unjail: "books_ok m \<Longrightarrow> books_ok (fst (unjail i height m))"
  using books_okD(6) [of m i]
  by (auto simp: unjail_def total_stake_def split: option.splits intro!: books_touch)

lemma books_reward: "books_ok m \<Longrightarrow> books_ok (fst (reward_proposer i m))"
  using books_okD(6) [of m i]
  by (auto simp: reward_proposer_def Let_def total_stake_def split: option.splits intro!: books_touch)

lemma books_delegate:
  assumes "books_ok m"
  shows "books_ok (fst (delegate a i amount m))"
proof (cases "amount = 0 \<or> the_validator m i = None \<or> (\<exists>v. the_validator m i = Some v \<and> (st_tombstoned v \<or> checked_add (st_delegated_stake v) amount = None))")
  case True
  with assms show ?thesis by (auto simp: delegate_def split: option.splits)
next
  case False
  then obtain v d where v: "amount \<noteq> 0" "the_validator m i = Some v" "\<not> st_tombstoned v" "checked_add (st_delegated_stake v) amount = Some d" by auto
  note b = books_okD [OF assms]
  let ?s = "ms_set_validator i (v\<lparr>st_delegated_stake := d\<rparr>) (sm_store m)"
  define e where "e = (case ms_get_stake ?s a i of Some e \<Rightarrow> e | None \<Rightarrow> \<lparr> se_amount = 0 \<rparr>)"
  have se: "unat (se_amount e) = stake_value (ms_get_stake (sm_store m) a i)" by (simp add: e_def split: option.splits)
  also have "\<dots> \<le> bonded (sm_store m) i"
    unfolding bonded_def using stake_value_le_mass [OF mem.finite_stakers [OF b(1), of i], of a] by simp
  finally have le: "unat (se_amount e) \<le> unat (st_delegated_stake v)" using b(5) [OF v(2)] by simp
  have d: "unat d = unat (st_delegated_stake v) + unat amount" using v(4) by (rule checked_add_unat)
  then have "unat (se_amount e) + unat amount < 18446744073709551616" using le unat_u64_less [of d] by linarith
  then have t: "checked_add (se_amount e) amount = Some (se_amount e + amount)"
    "unat (se_amount e + amount) = unat (se_amount e) + unat amount" by (simp_all add: u64_arith)
  have res: "fst (delegate a i amount m) = m\<lparr>sm_store := ms_set_stake a i (e\<lparr>se_amount := se_amount e + amount\<rparr>) ?s\<rparr>"
    using v t by (simp add: delegate_def e_def Let_def)
  have pos: "0 < se_amount e + amount" using t(2) v(1) by (simp add: word_less_nat_alt unat_gt_0)
  have bd: "bonded (ms_set_stake a i (e\<lparr>se_amount := se_amount e + amount\<rparr>) ?s) j = bonded (sm_store m) j + (if j = i then unat amount else 0)" for j
    using bonded_upd(1) [of ?s a i "e\<lparr>se_amount := se_amount e + amount\<rparr>" j] b(1) se t(2) by (auto split: if_splits)
  show ?thesis
    unfolding res
    by (rule books_change [OF assms v(2), where v' = "v\<lparr>st_delegated_stake := d\<rparr>"])
       (use v(2,3) b bd d pos in \<open>auto simp: no_dust_upd mem.get_set_stake split: if_splits\<close>)
qed

lemma total_stake_0: "total_stake v = 0 \<longleftrightarrow> st_self_stake v = 0 \<and> st_delegated_stake v = 0"
proof -
  have "total_stake v = 0 \<longleftrightarrow> unat (total_stake v) = 0" by (simp add: word_unat_eq_iff)
  then show ?thesis by (auto simp: total_stake_def unat_saturating_add word_unat_eq_iff)
qed

lemma books_undelegate:
  assumes "books_ok m"
  shows "books_ok (fst (undelegate a i amount height m))"
proof (cases "amount = 0 \<or> the_validator m i = None \<or> ms_get_stake (sm_store m) a i = None \<or>
    (\<exists>e. ms_get_stake (sm_store m) a i = Some e \<and> se_amount e < amount)")
  case True
  with assms show ?thesis by (auto simp: undelegate_def split: option.splits)
next
  case False
  then obtain v e where v: "amount \<noteq> 0" "the_validator m i = Some v" "ms_get_stake (sm_store m) a i = Some e" "amount \<le> se_amount e"
    by (auto simp: not_less)
  note b = books_okD [OF assms]
  define s where "s = (if se_amount e - amount = 0 then ms_remove_stake a i (sm_store m)
      else ms_set_stake a i (e\<lparr>se_amount := se_amount e - amount\<rparr>) (sm_store m))"
  note e1 = set_left [OF b(1) v(3) s_def]
  define v' where "v' = v\<lparr>st_delegated_stake := saturating_sub (st_delegated_stake v) amount\<rparr>"
  define u where "u = \<lparr> ub_staker = a, ub_validator = i, ub_amount = amount,
      ub_completion_height = saturating_add height (sc_unbonding_period (sm_config m)) \<rparr>"
  have res: "fst (undelegate a i amount height m) = m\<lparr>sm_store := ms_push_unbonding u (ms_set_validator i v' s)\<rparr>"
    using v by (simp add: undelegate_def s_def v'_def u_def Let_def)
  have left: "unat (se_amount e - amount) = unat (se_amount e) - unat amount" using v(4) by (rule unat_sub)
  have am: "unat amount \<le> unat (se_amount e)" using v(4) by (simp add: word_le_nat_alt)
  have sb: "bonded s j + (if j = i then unat amount else 0) = bonded (sm_store m) j" for j
    using e1(2) [of j] am left by (cases "j = i") auto
  have vd: "unat (st_delegated_stake v') = bonded s i"
    using sb [of i] b(5) [OF v(2)] by (simp add: v'_def unat_saturating_sub)
  have ts: "st_tombstoned v' \<Longrightarrow> total_stake v' = 0"
    using b(7) [OF v(2)] by (auto simp: v'_def total_stake_0 saturating_sub_def)
  show ?thesis
    unfolding res
  proof (rule books_change [OF assms v(2), where v' = v'])
    show "bonded (ms_push_unbonding u (ms_set_validator i v' s)) j = bonded (sm_store m) j" if "j \<noteq> i" for j using sb [of j] that by simp
    show "ms_get_stake (sm_store m) c j \<noteq> None \<or> j = i" if "ms_get_stake (ms_push_unbonding u (ms_set_validator i v' s)) c j \<noteq> None" for c j
      using e1(6) [of c j] that by simp
    show "0 < ub_amount w \<and> (ub_validator w = i \<or> ub_validator w \<in> ub_validator ` set (ms_unbondings (sm_store m)))"
      if "w \<in> set (ms_unbondings (ms_push_unbonding u (ms_set_validator i v' s)))" for w
      using that e1(4) b(11) v(1) by (auto simp: u_def word_gt_0)
  qed (use e1(1,3,5) b(2) b(6,8) [OF v(2)] vd ts in \<open>simp_all add: v'_def\<close>)
qed

lemma validated_rates:
  "staking_validate c = Inr () \<Longrightarrow> sc_slash_rate_double_sign c \<le> 10000 \<and> sc_slash_rate_downtime c \<le> 10000"
  by (auto simp: staking_validate_def not_less split: if_splits)

text \<open>Slashing the delegations of a validator takes exactly the rounded amount off them.\<close>

lemma slash_delegations:
  assumes "books_ok m" "the_validator m i = Some v" "D \<le> st_delegated_stake v" and s'_def: "s' = slash_delegators i D (sm_store m)"
  shows "same_but_stakes (sm_store m) s' \<and> (\<forall>j. bonded s' j + (if j = i then unat D else 0) = bonded (sm_store m) j)"
proof (cases "D > 0")
  case False
  then show ?thesis by (simp add: s'_def slash_delegators_def same_but_stakes_def word_gt_0)
next
  case True
  define xs where "xs = sort_key fst (ms_stakers_of (sm_store m) i)"
  define T where "T = sum_list (map (\<lambda>(_, e). se_amount e) xs)"
  note b = books_okD [OF assms(1)]
  have xs: "mset xs = mset (ms_stakers_of (sm_store m) i)" by (simp add: xs_def)
  have su: "(\<Sum>(a, e) \<leftarrow> xs. unat (se_amount e)) = unat (st_delegated_stake v)"
    using mem.bonded_stakers [OF b(1), of i, folded bonded_def] b(5) [OF assms(2)] xs
    by (metis (no_types, lifting) mset_map sum_mset_sum_list)
  have T: "unat T = unat (st_delegated_stake v)"
  proof -
    have gen: "(\<Sum>(a, e) \<leftarrow> ys. unat (se_amount e)) < 2 ^ 64 \<Longrightarrow>
        unat (sum_list (map (\<lambda>(_, e). se_amount e) ys)) = (\<Sum>(a, e) \<leftarrow> ys. unat (se_amount e))" for ys :: "(bytes \<times> StakeEntry) list"
      by (induction ys) (auto simp: u64_arith)
    show ?thesis using gen [of xs] unfolding su T_def by simp
  qed
  then have Teq: "T = st_delegated_stake v" by (simp add: word_unat_eq_iff)
  have pos: "0 < T" using assms(3) True Teq by simp
  have d: "distinct (map fst xs)" using mem.stakers(1) [OF b(1), of i] xs by (metis distinct_map mset_eq_imp_distinct_iff mset_map)
  have me: "\<forall>(a, e) \<in> set xs. ms_get_stake (sm_store m) a i = Some e" using mem.stakers(2) [OF b(1)] by (auto simp: xs_def)
  have z: "mul_div 0 D T = 0" by (simp add: mul_div_def)
  have s': "s' = slash_stakers i D T xs (mul_div 0 D T) 0 (sm_store m)" using True pos z by (simp add: s'_def slash_delegators_def xs_def [symmetric] T_def [symmetric])
  have DT: "D \<le> T" using assms(3) Teq by simp
  have eff: "same_but_stakes (sm_store m) s' \<and>
    (\<forall>j. bonded s' j + (if j = i then (unat (0 :: u64) + (\<Sum>(a, e) \<leftarrow> xs. unat (se_amount e))) * unat D div unat T else 0) =
       bonded (sm_store m) j + (if j = i then unat (0 :: u64) * unat D div unat T else 0))"
    by (rule slash_stakers_effect [OF DT pos b(1) d me _ s']) (simp add: su T)
  have "0 < unat (st_delegated_stake v)" using pos by (simp add: word_less_nat_alt T)
  then have q: "(unat (0 :: u64) + (\<Sum>(a, e) \<leftarrow> xs. unat (se_amount e))) * unat D div unat T = unat D" by (simp add: su T)
  have "bonded s' j + (if j = i then unat D else 0) = bonded (sm_store m) j" for j
    using eff [THEN conjunct2, THEN spec, of j] unfolding q by (cases "j = i") simp_all
  with eff show ?thesis by simp
qed

definition slashable :: "StakingManager \<Rightarrow> ValidatorId \<Rightarrow> nat" where
  "slashable m i =
     (case the_validator m i of Some v \<Rightarrow> unat (st_self_stake v) + unat (st_delegated_stake v) | None \<Rightarrow> 0) +
     pledged (ms_unbondings (sm_store m)) i"

lemma slash_effect:
  assumes "books_ok m" "staking_validate (sm_config m) = Inr ()"
    and "slash_with_evidence i evidence reason height m = (m', Inr r)"
  shows "books_ok m'" "sm_config m' = sm_config m"
    "\<exists>v'. the_validator m' i = Some v' \<and> st_jailed v' \<and> evidence \<in> as_evidence_id ` set (st_applied_slashes v')"
    "j \<noteq> i \<Longrightarrow> slashable m' j = slashable m j \<and> the_validator m' j = the_validator m j"
    "\<exists>a b. slashable m' i + a + b = slashable m i \<and> unat (sr_self_slashed r) = a \<and> unat (sr_delegated_slashed r) = min b (2 ^ 64 - 1)"
proof -
  note b = books_okD [OF assms(1)]
  obtain v where v: "the_validator m i = Some v" and fresh: "evidence \<notin> as_evidence_id ` set (st_applied_slashes v)"
    using assms(3) by (auto simp: slash_with_evidence_def image_iff split: if_splits option.splits)
  define rate where "rate = slash_rate m reason"
  have rate: "rate \<le> 10000" using validated_rates [OF assms(2)] by (simp add: rate_def slash_rate_def split: SlashReason.splits)
  define S where "S = mul_div (st_self_stake v) (ucast rate) 10000"
  define D where "D = mul_div (st_delegated_stake v) (ucast rate) 10000"
  have S: "S \<le> st_self_stake v" and D: "D \<le> st_delegated_stake v"
    using slash_le [OF rate] by (simp_all add: S_def D_def word_le_nat_alt)
  define v' where "v' = v\<lparr>st_self_stake := saturating_sub (st_self_stake v) S, st_delegated_stake := saturating_sub (st_delegated_stake v) D,
      st_jailed := True, st_jail_until_height := max (st_jail_until_height v) (saturating_add height (sc_jail_duration (sm_config m))),
      st_score := saturating_sub (st_score v) (sc_max_score (sm_config m) div 10),
      st_applied_slashes := st_applied_slashes v @ [\<lparr> as_evidence_id = evidence, as_reason = reason \<rparr>]\<rparr>"
  define s1 where "s1 = slash_delegators i D (sm_store m)"
  note slash_delegations [OF assms(1) v D s1_def]
  then have same: "same_but_stakes (sm_store m) s1" and bal: "bonded s1 j + (if j = i then unat D else 0) = bonded (sm_store m) j" for j by simp_all
  obtain us ubs where us: "slash_unbondings i rate (ms_unbondings (sm_store m)) 0 = (us, ubs)" by fastforce
  have un: "ms_unbondings s1 = ms_unbondings (sm_store m)" using same by (simp add: same_but_stakes_def)
  have res: "m' = m\<lparr>sm_store := ms_replace_unbondings us (ms_set_validator i v' s1)\<rparr>"
    "r = \<lparr> sr_self_slashed = S, sr_delegated_slashed = saturating_add D ubs, sr_jailed = True \<rparr>"
  proof -
    have ne: "evidence \<noteq> []" using assms(3) by (auto simp: slash_with_evidence_def)
    have "\<not> (\<exists>applied \<in> set (st_applied_slashes v). as_evidence_id applied = evidence)" using fresh by auto
    with ne v us un have "slash_with_evidence i evidence reason height m =
        (m\<lparr>sm_store := ms_replace_unbondings us (ms_set_validator i v' s1)\<rparr>,
         Inr \<lparr> sr_self_slashed = S, sr_delegated_slashed = saturating_add D ubs, sr_jailed = True \<rparr>)"
      by (simp add: slash_with_evidence_def rate_def [symmetric] S_def [symmetric] D_def [symmetric] v'_def [symmetric] s1_def [symmetric] Let_def)
    with assms(3) show "m' = m\<lparr>sm_store := ms_replace_unbondings us (ms_set_validator i v' s1)\<rparr>"
      "r = \<lparr> sr_self_slashed = S, sr_delegated_slashed = saturating_add D ubs, sr_jailed = True \<rparr>" by simp_all
  qed
  have ub: "\<forall>u \<in> set us. 0 < ub_amount u \<and> ub_validator u \<in> ub_validator ` set (ms_unbondings (sm_store m))"
      "\<And>j. j \<noteq> i \<Longrightarrow> pledged us j = pledged (ms_unbondings (sm_store m)) j"
    and "\<exists>d. pledged us i + d = pledged (ms_unbondings (sm_store m)) i \<and> unat ubs = min (unat (0 :: u64) + d) (2 ^ 64 - 1)"
    using slash_unbondings_effect [OF rate us] by simp_all
  then obtain d where d: "pledged us i + d = pledged (ms_unbondings (sm_store m)) i" "unat ubs = min d (2 ^ 64 - 1)" by auto
  have v': "unat (st_self_stake v') + unat S = unat (st_self_stake v)" "unat (st_delegated_stake v') + unat D = unat (st_delegated_stake v)"
    using S D by (simp_all add: v'_def unat_saturating_sub word_le_nat_alt)
  show "books_ok m'"
    unfolding res
  proof (rule books_change [OF assms(1) v, where v' = v'])
    show "unat (st_delegated_stake v') = bonded (ms_replace_unbondings us (ms_set_validator i v' s1)) i"
      using v'(2) bal [of i] b(5) [OF v] by simp
    show "bonded (ms_replace_unbondings us (ms_set_validator i v' s1)) j = bonded (sm_store m) j" if "j \<noteq> i" for j using bal [of j] that by simp
    show "st_tombstoned v' \<Longrightarrow> total_stake v' = 0" using b(7) [OF v] by (auto simp: v'_def total_stake_0 saturating_sub_def)
    show "distinct (map as_evidence_id (st_applied_slashes v'))" using b(8) [OF v] fresh by (simp add: v'_def)
    show "st_score v' \<le> sc_max_score (sm_config m)"
      using b(6) [OF v] by (simp add: v'_def word_le_nat_alt unat_saturating_sub)
  qed (use same b(1,2) ub(1) in \<open>auto simp: v'_def same_but_stakes_def\<close>)
  have get: "the_validator m' j = (if j = i then Some v' else the_validator m j)" for j
    using same by (simp add: res same_but_stakes_def)
  have unb: "ms_unbondings (sm_store m') = us" by (simp add: res)
  show "sm_config m' = sm_config m" by (simp add: res)
  show "\<exists>v'. the_validator m' i = Some v' \<and> st_jailed v' \<and> evidence \<in> as_evidence_id ` set (st_applied_slashes v')"
    using get [of i] by (simp add: v'_def)
  show "slashable m' j = slashable m j \<and> the_validator m' j = the_validator m j" if "j \<noteq> i"
    using get [of j] ub(2) that by (simp add: slashable_def unb)
  have "slashable m' i + unat S + (unat D + d) = slashable m i" using get [of i] v v' d(1) by (simp add: slashable_def unb)
  moreover have "unat (sr_delegated_slashed r) = min (unat D + d) (2 ^ 64 - 1)" by (simp add: res(2) unat_saturating_add d(2))
  ultimately show "\<exists>a b. slashable m' i + a + b = slashable m i \<and> unat (sr_self_slashed r) = a \<and> unat (sr_delegated_slashed r) = min b (2 ^ 64 - 1)"
    by (auto simp: res(2))
qed

lemma bonded_none:
  assumes "books_ok m"
  shows "bonded (sm_store m) i = 0 \<longleftrightarrow> (\<forall>a. ms_get_stake (sm_store m) a i = None)"
proof -
  have "stake_value (ms_get_stake (sm_store m) a i) = 0 \<longleftrightarrow> ms_get_stake (sm_store m) a i = None" for a
    using books_okD(2) [OF assms] by (cases "ms_get_stake (sm_store m) a i") (auto simp: no_dust_def word_gt_0 unat_eq_zero)
  then show ?thesis using mass_empty [OF mem.finite_stakers [OF books_okD(1) [OF assms], of i]] by (simp add: bonded_def)
qed

lemma books_register:
  assumes "books_ok m" "sc_initial_score (sm_config m) \<le> sc_max_score (sm_config m)"
  shows "books_ok (fst (register_validator i key stake m))"
proof (cases "the_validator m i \<noteq> None \<or> validate_public_key m key \<noteq> Inr () \<or> stake < sc_min_self_stake (sm_config m)")
  case True
  with assms(1) show ?thesis by (auto simp: register_validator_def split: sum.splits)
next
  case False
  note b = books_okD [OF assms(1)]
  define v where "v = \<lparr> st_id = i, st_public_key = key, st_self_stake = stake, st_delegated_stake = 0,
      st_score = sc_initial_score (sm_config m), st_jailed = False, st_jail_until_height = 0,
      st_tombstoned = False, st_applied_slashes = [] \<rparr>"
  have res: "fst (register_validator i key stake m) = on_store (ms_set_validator i v) m"
    using False by (simp add: register_validator_def v_def)
  have key: "length key = 32" "\<forall>w \<in> ran (ms_get_validator (sm_store m)). st_public_key w \<noteq> key"
    using False mem.registered [OF b(1)] by (auto simp: validate_public_key_def ED25519_PUBLIC_KEY_LEN_def split: if_splits)
  have z: "bonded (sm_store m) i = 0" using bonded_none [OF assms(1)] b(10) False by blast
  have get: "the_validator (on_store (ms_set_validator i v) m) j = (if j = i then Some v else the_validator m j)" for j by simp
  show ?thesis
    unfolding res books_ok_def
  proof (intro conjI allI impI ballI)
    fix j w assume w: "the_validator (on_store (ms_set_validator i v) m) j = Some w"
    show "st_id w = j" "length (st_public_key w) = 32" "unat (st_delegated_stake w) = bonded (sm_store (on_store (ms_set_validator i v) m)) j"
      "st_score w \<le> sc_max_score (sm_config (on_store (ms_set_validator i v) m))" "st_tombstoned w \<Longrightarrow> total_stake w = 0"
      "distinct (map as_evidence_id (st_applied_slashes w))"
      using w b(3-8) [of j w] z key(1) assms(2) unfolding get by (cases "j = i"; auto simp: v_def)+
  next
    fix j k w x assume "the_validator (on_store (ms_set_validator i v) m) j = Some w" "the_validator (on_store (ms_set_validator i v) m) k = Some x"
      "st_public_key w = st_public_key x"
    then show "j = k" unfolding get using b(9) [of j w k x] key(2) by (auto simp: v_def ran_def split: if_splits)
  next
    fix a j assume "ms_get_stake (sm_store (on_store (ms_set_validator i v) m)) a j \<noteq> None"
    then show "the_validator (on_store (ms_set_validator i v) m) j \<noteq> None" unfolding get using b(10) [of a j] by simp
  next
    fix u assume "u \<in> set (ms_unbondings (sm_store (on_store (ms_set_validator i v) m)))"
    then show "0 < ub_amount u" "the_validator (on_store (ms_set_validator i v) m) (ub_validator u) \<noteq> None"
      unfolding get using b(11,12) [of u] by simp_all
  qed (use b(1,2) in simp_all)
qed

text \<open>A validator without stake and unbondings can go, and unbondings can be paid out.\<close>

lemma books_shrink:
  assumes "books_ok m" "ms_ok s" "ms_get_stake s = ms_get_stake (sm_store m)" "set (ms_unbondings s) \<subseteq> set (ms_unbondings (sm_store m))"
    and "\<And>j. ms_get_validator s j = the_validator m j \<or>
       (ms_get_validator s j = None \<and> bonded (sm_store m) j = 0 \<and> (\<forall>u \<in> set (ms_unbondings s). ub_validator u \<noteq> j))"
  shows "books_ok (m\<lparr>sm_store := s\<rparr>)"
proof -
  note b = books_okD [OF assms(1)]
  have bd: "bonded s j = bonded (sm_store m) j" "no_dust s" for j using assms(3) b(2) by (simp_all add: bonded_def no_dust_def)
  have old: "the_validator m j = Some w" if "ms_get_validator s j = Some w" for j w using assms(5) [of j] that by auto
  show ?thesis
    unfolding books_ok_def
  proof (intro conjI allI impI ballI)
    fix j w assume "the_validator (m\<lparr>sm_store := s\<rparr>) j = Some w"
    then show "st_id w = j" "length (st_public_key w) = 32" "unat (st_delegated_stake w) = bonded (sm_store (m\<lparr>sm_store := s\<rparr>)) j"
      "st_score w \<le> sc_max_score (sm_config (m\<lparr>sm_store := s\<rparr>))" "st_tombstoned w \<Longrightarrow> total_stake w = 0"
      "distinct (map as_evidence_id (st_applied_slashes w))"
      using b(3-8) [of j w] old bd by simp_all
  next
    fix j k w x assume "the_validator (m\<lparr>sm_store := s\<rparr>) j = Some w" "the_validator (m\<lparr>sm_store := s\<rparr>) k = Some x" "st_public_key w = st_public_key x"
    then show "j = k" using b(9) [of j w k x] old by simp
  next
    fix a j assume "ms_get_stake (sm_store (m\<lparr>sm_store := s\<rparr>)) a j \<noteq> None"
    then show "the_validator (m\<lparr>sm_store := s\<rparr>) j \<noteq> None"
      using b(10) [of a j] assms(3) assms(5) [of j] bonded_none [OF assms(1), of j] by auto
  next
    fix u assume "u \<in> set (ms_unbondings (sm_store (m\<lparr>sm_store := s\<rparr>)))"
    then have u: "u \<in> set (ms_unbondings s)" "u \<in> set (ms_unbondings (sm_store m))" using assms(4) by auto
    from b(11) [OF u(2)] show "0 < ub_amount u" .
    from b(12) [OF u(2)] assms(5) [of "ub_validator u"] u(1) show "the_validator (m\<lparr>sm_store := s\<rparr>) (ub_validator u) \<noteq> None" by auto
  qed (use assms(2) bd in simp_all)
qed

lemma books_unregister:
  assumes "books_ok m"
  shows "books_ok (fst (unregister_validator i m))"
proof (cases "the_validator m i")
  case None
  with assms show ?thesis by (simp add: unregister_validator_def)
next
  case (Some v)
  note b = books_okD [OF assms]
  consider "0 < total_stake v" | "total_stake v = 0" "has_pending_unbondings m i" | "total_stake v = 0" "\<not> has_pending_unbondings m i"
    by (metis word_gt_0)
  then show ?thesis
  proof cases
    case 1
    with Some assms show ?thesis by (simp add: unregister_validator_def)
  next
    case 2
    with Some b(6) [OF Some] show ?thesis
      by (simp add: unregister_validator_def) (rule books_touch [OF assms Some], simp_all add: total_stake_def)
  next
    case 3
    have "bonded (sm_store m) i = 0" using b(5) [OF Some] 3(1) by (simp add: total_stake_0)
    moreover have "\<forall>u \<in> set (ms_unbondings (sm_store m)). ub_validator u \<noteq> i"
      using 3(2) b(11) by (auto simp: has_pending_unbondings_def)
    ultimately have "books_ok (m\<lparr>sm_store := ms_remove_validator i (sm_store m)\<rparr>)"
      using b(1) by (intro books_shrink [OF assms]) auto
    with Some 3 show ?thesis by (simp add: unregister_validator_def)
  qed
qed

lemma prune_loop_effect:
  "\<lbrakk> ms_ok s; s' = prune_loop pending ids s \<rbrakk> \<Longrightarrow>
     ms_ok s' \<and> ms_get_stake s' = ms_get_stake s \<and> ms_unbondings s' = ms_unbondings s \<and>
     (\<forall>j. ms_get_validator s' j = ms_get_validator s j \<or>
        (ms_get_validator s' j = None \<and> (\<exists>v. ms_get_validator s j = Some v \<and> total_stake v = 0) \<and> j \<notin> pending))"
proof (induction pending ids s arbitrary: s' rule: prune_loop.induct)
  case (2 pending i ids s)
  show ?case
  proof (cases "ms_get_validator s i")
    case None
    with 2 show ?thesis by simp
  next
    case (Some v)
    let ?t = "if st_tombstoned v \<and> total_stake v = 0 \<and> i \<notin> pending then ms_remove_validator i s else s"
    have ok: "ms_ok ?t" using "2.prems"(1) by simp
    have t: "ms_get_stake ?t = ms_get_stake s \<and> ms_unbondings ?t = ms_unbondings s \<and>
      (\<forall>j. ms_get_validator ?t j = ms_get_validator s j \<or>
        (ms_get_validator ?t j = None \<and> (\<exists>v. ms_get_validator s j = Some v \<and> total_stake v = 0) \<and> j \<notin> pending))"
      using Some by simp
    have "s' = prune_loop pending ids ?t" using "2.prems"(2) Some by simp
    from "2.IH"(2) [OF Some ok this] t show ?thesis by (metis (no_types, lifting))
  qed
qed simp

lemma books_process_unbonding:
  assumes "books_ok m"
  shows "books_ok (fst (process_unbonding height m))"
proof -
  let ?P = "\<lambda>e. ub_completion_height e \<le> height"
  define s0 where "s0 = (sm_store m)\<lparr>ms_unbondings := filter (Not \<circ> ?P) (ms_unbondings (sm_store m))\<rparr>"
  have s0: "ms_ok s0" "ms_get_stake s0 = ms_get_stake (sm_store m)" "ms_get_validator s0 = ms_get_validator (sm_store m)"
    "set (ms_unbondings s0) \<subseteq> set (ms_unbondings (sm_store m))"
    using books_okD(1) [OF assms] by (auto simp: s0_def ms_ok_def ms_get_stake_def [abs_def] ms_get_validator_def [abs_def])
  have b0: "books_ok (m\<lparr>sm_store := s0\<rparr>)" by (rule books_shrink [OF assms s0(1,2,4)]) (simp add: s0(3))
  define pending where "pending = ub_validator ` {u \<in> set (ms_unbondings s0). ub_amount u > 0}"
  define s1 where "s1 = prune_loop pending (ms_all_validator_ids s0) s0"
  note p = prune_loop_effect [OF s0(1) s1_def]
  have res: "fst (process_unbonding height m) = m\<lparr>sm_store := s0\<rparr>\<lparr>sm_store := s1\<rparr>"
    by (simp add: process_unbonding_def ms_drain_mature_unbondings_def prune_tombstoned_validators_def s1_def pending_def s0_def Let_def)
  have pend: "ub_validator u \<in> pending" if "u \<in> set (ms_unbondings s0)" for u
    using books_okD(11) [OF b0, of u] that by (auto simp: pending_def)
  show ?thesis
    unfolding res
  proof (rule books_shrink [OF b0])
    show "ms_get_validator s1 j = the_validator (m\<lparr>sm_store := s0\<rparr>) j \<or>
       (ms_get_validator s1 j = None \<and> bonded (sm_store (m\<lparr>sm_store := s0\<rparr>)) j = 0 \<and> (\<forall>u \<in> set (ms_unbondings s1). ub_validator u \<noteq> j))" for j
      using p pend books_okD(5) [OF b0, of j] by (fastforce simp: total_stake_0)
  qed (use p in simp_all)
qed

section \<open>Reachable books\<close>

inductive staking_reachable :: "StakingConfig \<Rightarrow> StakingManager \<Rightarrow> bool" for config where
  sr_start: "staking_reachable config (sm_new ms_new config)"
| sr_register: "staking_reachable config m \<Longrightarrow> staking_reachable config (fst (register_validator i key stake m))"
| sr_unregister: "staking_reachable config m \<Longrightarrow> staking_reachable config (fst (unregister_validator i m))"
| sr_delegate: "staking_reachable config m \<Longrightarrow> staking_reachable config (fst (delegate staker i amount m))"
| sr_undelegate: "staking_reachable config m \<Longrightarrow> staking_reachable config (fst (undelegate staker i amount height m))"
| sr_process: "staking_reachable config m \<Longrightarrow> staking_reachable config (fst (process_unbonding height m))"
| sr_slash: "staking_reachable config m \<Longrightarrow> staking_reachable config (fst (slash_with_evidence i evidence reason height m))"
| sr_unjail: "staking_reachable config m \<Longrightarrow> staking_reachable config (fst (unjail i height m))"
| sr_increment: "staking_reachable config m \<Longrightarrow> staking_reachable config (increment_score i delta m)"
| sr_decrement: "staking_reachable config m \<Longrightarrow> staking_reachable config (decrement_score i delta m)"
| sr_reward: "staking_reachable config m \<Longrightarrow> staking_reachable config (fst (reward_proposer i m))"

lemma sm_config_kept [simp]:
  "sm_config (fst (register_validator i key stake m)) = sm_config m" "sm_config (fst (unregister_validator i m)) = sm_config m"
  "sm_config (fst (delegate staker i amount m)) = sm_config m" "sm_config (fst (undelegate staker i amount height m)) = sm_config m"
  "sm_config (fst (process_unbonding height m)) = sm_config m"
  "sm_config (fst (slash_with_evidence i evidence reason height m)) = sm_config m"
  "sm_config (fst (unjail i height m)) = sm_config m" "sm_config (increment_score i delta m) = sm_config m"
  "sm_config (decrement_score i delta m) = sm_config m" "sm_config (fst (reward_proposer i m)) = sm_config m"
  by (auto simp: register_validator_def unregister_validator_def delegate_def undelegate_def process_unbonding_def
      prune_tombstoned_validators_def slash_with_evidence_def unjail_def increment_score_def decrement_score_def reward_proposer_def Let_def
      split: sum.splits option.splits prod.splits)

lemma books_slash:
  assumes "books_ok m" "staking_validate (sm_config m) = Inr ()"
  shows "books_ok (fst (slash_with_evidence i evidence reason height m))"
proof (cases "slash_with_evidence i evidence reason height m")
  case (Pair m' res)
  show ?thesis
  proof (cases res)
    case (Inr r)
    with slash_effect(1) [OF assms] Pair show ?thesis by simp
  next
    case (Inl e)
    with Pair have "m' = m" by (auto simp: slash_with_evidence_def Let_def split: if_splits option.splits prod.splits)
    with Pair assms(1) show ?thesis by simp
  qed
qed

lemma staking_reachable_books:
  assumes "staking_validate config = Inr ()" "staking_reachable config m"
  shows "books_ok m \<and> sm_config m = config"
  using assms(2)
proof (induction rule: staking_reachable.induct)
  case sr_start
  show ?case by (simp add: books_ok_def sm_new_def ms_new_def ms_ok_def no_dust_def ms_get_stake_def ms_get_validator_def)
next
  case (sr_register m i key stake)
  moreover have "sc_initial_score config \<le> sc_max_score config" using assms(1) by (auto simp: staking_validate_def split: if_splits)
  ultimately show ?case using books_register [of m] by simp
qed (use assms(1) in \<open>simp_all add: books_unregister books_delegate books_undelegate books_process_unbonding books_slash books_unjail
  books_scores books_reward\<close>)

section \<open>Validator updates\<close>

definition info_of :: "ValidatorState \<Rightarrow> ValidatorInfo" where
  "info_of v = \<lparr> vi_id = st_id v, vi_public_key = st_public_key v, vi_power = voting_power v \<rparr>"

lemma info_of_simps [simp]:
  "vi_id (info_of v) = st_id v" "vi_public_key (info_of v) = st_public_key v" "vi_power (info_of v) = voting_power v"
  by (simp_all add: info_of_def)

lemma registered_ids:
  assumes "books_ok m"
  shows "map st_id (List.map_filter (the_validator m) (ms_all_validator_ids (sm_store m))) = ms_all_validator_ids (sm_store m)"
proof -
  have "set ids \<subseteq> dom (ms_get_validator (sm_store m)) \<Longrightarrow> map st_id (List.map_filter (the_validator m) ids) = ids" for ids
    using books_okD(3) [OF assms] by (induction ids) (auto simp: List.map_filter_def)
  then show ?thesis using mem.validator_ids [OF books_okD(1) [OF assms]] by simp
qed

lemma formal_facts:
  assumes "books_ok m"
  shows "distinct (map st_id (formal_validator_list m))" "distinct (map st_public_key (formal_validator_list m))"
    "v \<in> set (formal_validator_list m) \<Longrightarrow> length (st_public_key v) = 32"
    "\<lbrakk> v \<in> set (formal_validator_list m); 0 < sc_min_self_stake (sm_config m) \<rbrakk> \<Longrightarrow> 0 < voting_power v"
proof -
  let ?regs = "List.map_filter (the_validator m) (ms_all_validator_ids (sm_store m))"
  let ?F = "formal_validator_list m"
  have mem: "v \<in> set ?regs" "\<not> st_jailed v" "\<not> st_tombstoned v" "sc_min_self_stake (sm_config m) \<le> st_self_stake v"
    if "v \<in> set ?F" for v
    using that set_take_subset by (fastforce simp: formal_validator_list_def Let_def)+
  have reg: "the_validator m (st_id v) = Some v" if "v \<in> set ?regs" for v
    using that books_okD(3) [OF assms] by (auto simp: set_map_filter)
  have "distinct (map st_id ?regs)" using registered_ids [OF assms] mem.validator_ids [OF books_okD(1) [OF assms]] by simp
  then have "distinct ?regs" and inj: "inj_on st_id (set ?regs)" by (simp_all add: distinct_map)
  then have d: "distinct ?F" by (simp add: formal_validator_list_def Let_def)
  have "inj_on st_id (set ?F)" using inj mem(1) by (meson inj_on_subset subsetI)
  with d show "distinct (map st_id ?F)" by (simp add: distinct_map)
  have "inj_on st_public_key (set ?F)"
    using books_okD(9) [OF assms reg reg] mem(1) reg by (metis (no_types, lifting) inj_onI option.sel)
  with d show "distinct (map st_public_key ?F)" by (simp add: distinct_map)
  show "length (st_public_key v) = 32" if "v \<in> set ?F" using books_okD(4) [OF assms reg [OF mem(1) [OF that]]] .
  show "0 < voting_power v" if "v \<in> set ?F" "0 < sc_min_self_stake (sm_config m)"
  proof -
    have "st_self_stake v \<noteq> 0" using mem(4) [OF that(1)] that(2) by auto
    then show ?thesis using mem(2,3) [OF that(1)] by (simp add: voting_power_def word_gt_0 total_stake_0)
  qed
qed

lemma formal_total_Some: "formal_total acc F \<noteq> None \<longleftrightarrow> unat acc + (\<Sum>v \<leftarrow> F. unat (voting_power v)) < 2 ^ 64"
proof (induction F arbitrary: acc)
  case Nil
  show ?case using unat_u64_less [of acc] by simp
next
  case (Cons v F)
  show ?case
  proof (cases "checked_add acc (voting_power v)")
    case None
    then have "2 ^ 64 \<le> unat acc + unat (voting_power v)" by (simp add: u64_arith)
    with None show ?thesis by simp
  next
    case (Some t)
    with Cons.IH [of t] checked_add_unat [OF Some] show ?thesis by (simp add: add.assoc)
  qed
qed

lemma foldl_spec_update:
  "distinct (map vu_id us) \<Longrightarrow> foldl spec_update f us i =
     (case map_of (map (\<lambda>u. (vu_id u, u)) us) i of
        None \<Rightarrow> f i
      | Some u \<Rightarrow> if vu_power u = 0 then None else Some (vu_public_key u, vu_power u))"
proof (induction us arbitrary: f)
  case (Cons u us)
  show ?case
  proof (cases "i = vu_id u")
    case True
    then have "map_of (map (\<lambda>u. (vu_id u, u)) us) i = None" using Cons.prems by (auto simp: map_of_eq_None_iff)
    with Cons True show ?thesis by (simp add: spec_update_def)
  next
    case False
    with Cons show ?thesis by (simp add: spec_update_def split: option.splits)
  qed
qed simp

lemma map_filter_ids:
  assumes "\<And>x y. x \<in> set xs \<Longrightarrow> f x = Some y \<Longrightarrow> k y = h x" "distinct (map h xs)"
  shows "distinct (map k (List.map_filter f xs))" "k ` set (List.map_filter f xs) = h ` {x \<in> set xs. f x \<noteq> None}"
  using assms by (induction xs) (force simp: List.map_filter_def)+

lemma updates_lookup:
  assumes "books_ok m" "vs_wf cur" "0 < sc_min_self_stake (sm_config m)" "formal_validator_list m \<noteq> []"
    and "(\<Sum>v \<leftarrow> formal_validator_list m. unat (voting_power v)) < 2 ^ 64"
  shows "foldl spec_update (vs_lookup cur) (compute_validator_updates m cur) i =
    map_of (map (\<lambda>v. (st_id v, (st_public_key v, voting_power v))) (formal_validator_list m)) i"
proof -
  let ?F = "formal_validator_list m" and ?C = "vs_validators cur"
  note F = formal_facts [OF assms(1)]
  define unchanged where "unchanged v = (case get_validator cur (st_id v) of
      Some current \<Rightarrow> vi_power current = voting_power v \<and> vi_public_key current = st_public_key v | None \<Rightarrow> False)" for v
  define f where "f v = (if unchanged v then None
      else Some \<lparr> vu_id = st_id v, vu_public_key = st_public_key v, vu_power = voting_power v \<rparr>)" for v
  define g where "g vi = (if \<exists>v \<in> set ?F. st_id v = vi_id vi then None
      else Some \<lparr> vu_id = vi_id vi, vu_public_key = vi_public_key vi, vu_power = 0 \<rparr>)" for vi :: ValidatorInfo
  define us where "us = List.map_filter f ?F @ List.map_filter g ?C"
  have "formal_total 0 ?F \<noteq> None" using formal_total_Some [of 0 ?F] assms(5) by simp
  then have us: "compute_validator_updates m cur = us"
    using assms(4) by (auto simp: compute_validator_updates_def us_def f_def [abs_def] g_def [abs_def] unchanged_def Let_def)
  have dC: "distinct (map vi_id ?C)" using vs_wf_distinct [OF assms(2)] by simp
  have A: "distinct (map vu_id (List.map_filter f ?F))" "vu_id ` set (List.map_filter f ?F) = st_id ` {v \<in> set ?F. f v \<noteq> None}"
    by (rule map_filter_ids [OF _ F(1)]; auto simp: f_def split: if_splits)+
  have B: "distinct (map vu_id (List.map_filter g ?C))" "vu_id ` set (List.map_filter g ?C) = vi_id ` {vi \<in> set ?C. g vi \<noteq> None}"
    by (rule map_filter_ids [OF _ dC]; auto simp: g_def split: if_splits)+
  have d: "distinct (map vu_id us)" using A B by (auto simp: us_def g_def split: if_splits)
  have hit: "foldl spec_update (vs_lookup cur) us (vu_id u) = (if vu_power u = 0 then None else Some (vu_public_key u, vu_power u))"
    if "u \<in> set us" for u
    using that d by (simp add: foldl_spec_update [OF d] comp_def map_of_is_SomeI [of "map (\<lambda>u. (vu_id u, u)) us" "vu_id u" u])
  have miss: "foldl spec_update (vs_lookup cur) us i = vs_lookup cur i" if "i \<notin> vu_id ` set us"
  proof -
    have "map_of (map (\<lambda>u. (vu_id u, u)) us) i = None" using that by (auto simp: map_of_eq_None_iff)
    then show ?thesis by (simp add: foldl_spec_update [OF d])
  qed
  show ?thesis
    unfolding us
  proof (cases "i \<in> st_id ` set ?F")
    case True
    then obtain v where v: "v \<in> set ?F" "st_id v = i" by auto
    have rhs: "map_of (map (\<lambda>v. (st_id v, (st_public_key v, voting_power v))) ?F) i = Some (st_public_key v, voting_power v)"
      using v F(1) by (intro map_of_is_SomeI) (auto simp: comp_def)
    show "foldl spec_update (vs_lookup cur) us i = map_of (map (\<lambda>v. (st_id v, (st_public_key v, voting_power v))) ?F) i"
    proof (cases "unchanged v")
      case True
      have "i \<notin> vu_id ` set us"
      proof
        assume "i \<in> vu_id ` set us"
        then have "i \<in> st_id ` {v \<in> set ?F. f v \<noteq> None} \<or> i \<in> vi_id ` {vi \<in> set ?C. g vi \<noteq> None}"
          unfolding us_def set_append image_Un A(2) B(2) by blast
        moreover have False if "w \<in> set ?F" "st_id w = i" "f w \<noteq> None" for w
        proof -
          have "w = v" using F(1) v that(1,2) by (simp add: distinct_map inj_on_def)
          with that(3) True show False by (simp add: f_def)
        qed
        moreover have False if "vi_id vi = i" "g vi \<noteq> None" for vi using that v by (simp add: g_def split: if_splits)
        ultimately show False by blast
      qed
      from miss [OF this] True rhs v(2) show ?thesis by (auto simp: unchanged_def vs_lookup_def split: option.splits)
    next
      case False
      then have u: "\<lparr> vu_id = st_id v, vu_public_key = st_public_key v, vu_power = voting_power v \<rparr> \<in> set us"
        using v(1) by (auto simp: us_def set_map_filter f_def)
      from hit [OF u] F(4) [OF v(1) assms(3)] rhs v(2) show ?thesis by simp
    qed
  next
    case False
    then have rhs: "map_of (map (\<lambda>v. (st_id v, (st_public_key v, voting_power v))) ?F) i = None"
      by (auto simp: map_of_eq_None_iff)
    show "foldl spec_update (vs_lookup cur) us i = map_of (map (\<lambda>v. (st_id v, (st_public_key v, voting_power v))) ?F) i"
    proof (cases "i \<in> vi_id ` set ?C")
      case True
      then obtain vi where vi: "vi \<in> set ?C" "vi_id vi = i" by auto
      then have u: "\<lparr> vu_id = vi_id vi, vu_public_key = vi_public_key vi, vu_power = 0 \<rparr> \<in> set us"
      proof -
        have "g vi = Some \<lparr> vu_id = vi_id vi, vu_public_key = vi_public_key vi, vu_power = 0 \<rparr>"
          using False vi(2) by (auto simp: g_def image_iff)
        with vi(1) show ?thesis by (auto simp: us_def set_map_filter)
      qed
      from hit [OF u] vi(2) rhs show ?thesis by simp
    next
      case no: False
      then have "i \<notin> vu_id ` set us" unfolding us_def set_append image_Un A(2) B(2) using False by blast
      from miss [OF this] no rhs assms(2) show ?thesis by (simp add: vs_lookup_infos_map infos_map_None)
    qed
  qed
qed

lemma foldl_apply_update_ids: "distinct (map vi_id infos) \<Longrightarrow> distinct (map vi_id (foldl apply_update infos us))"
proof (induction us arbitrary: infos)
  case (Cons u us)
  have "distinct (map vi_id (apply_update infos u))"
    using Cons.prems by (auto simp: apply_update_cases distinct_map_filter)
  with Cons.IH show ?case by simp
qed simp

lemma infos_map_Some:
  assumes "distinct (map vi_id infos)"
  shows "infos_map infos i = Some (k, p) \<longleftrightarrow> \<lparr> vi_id = i, vi_public_key = k, vi_power = p \<rparr> \<in> set infos"
proof -
  have v: "v = \<lparr> vi_id = i, vi_public_key = k, vi_power = p \<rparr>" if "vi_id v = i" "vi_public_key v = k" "vi_power v = p" for v :: ValidatorInfo
    using that by (cases v) simp
  have "infos_map infos i = Some (k, p) \<longleftrightarrow> (i, k, p) \<in> (\<lambda>v. (vi_id v, vi_public_key v, vi_power v)) ` set infos"
    unfolding infos_map_def using assms by (subst map_of_eq_Some_iff) (simp_all add: comp_def)
  also have "\<dots> \<longleftrightarrow> \<lparr> vi_id = i, vi_public_key = k, vi_power = p \<rparr> \<in> set infos"
  proof
    assume "(i, k, p) \<in> (\<lambda>v. (vi_id v, vi_public_key v, vi_power v)) ` set infos"
    then obtain w where w: "w \<in> set infos" "vi_id w = i" "vi_public_key w = k" "vi_power w = p" by auto
    from v [OF w(2-4)] w(1) show "\<lparr> vi_id = i, vi_public_key = k, vi_power = p \<rparr> \<in> set infos" by metis
  next
    assume "\<lparr> vi_id = i, vi_public_key = k, vi_power = p \<rparr> \<in> set infos"
    then show "(i, k, p) \<in> (\<lambda>v. (vi_id v, vi_public_key v, vi_power v)) ` set infos" by (rule rev_image_eqI) simp
  qed
  finally show ?thesis .
qed

lemma updates_infos:
  assumes "books_ok m" "vs_wf cur" "0 < sc_min_self_stake (sm_config m)" "formal_validator_list m \<noteq> []"
    and "(\<Sum>v \<leftarrow> formal_validator_list m. unat (voting_power v)) < 2 ^ 64"
  shows "mset (foldl apply_update (vs_validators cur) (compute_validator_updates m cur)) = mset (map info_of (formal_validator_list m))"
proof -
  let ?F = "formal_validator_list m" and ?I = "foldl apply_update (vs_validators cur) (compute_validator_updates m cur)"
  note F = formal_facts [OF assms(1)]
  have dI: "distinct (map vi_id ?I)" using foldl_apply_update_ids vs_wf_distinct [OF assms(2)] by simp
  have dF: "distinct (map vi_id (map info_of ?F))" using F(1) by (simp add: comp_def)
  have "infos_map ?I = map_of (map (\<lambda>v. (st_id v, (st_public_key v, voting_power v))) ?F)"
    using updates_lookup [OF assms] vs_lookup_infos_map [OF assms(2)] by (auto simp: infos_map_foldl)
  then have eq: "infos_map ?I = infos_map (map info_of ?F)" by (simp add: infos_map_def comp_def)
  have "x \<in> set ?I \<longleftrightarrow> x \<in> set (map info_of ?F)" for x
    using infos_map_Some [OF dI, of "vi_id x" "vi_public_key x" "vi_power x"] infos_map_Some [OF dF, of "vi_id x" "vi_public_key x" "vi_power x"]
    by (simp only: eq) (cases x, simp)
  then have "set ?I = set (map info_of ?F)" by blast
  moreover have "distinct ?I" "distinct (map info_of ?F)" using dI dF unfolding distinct_map [of vi_id] by blast+
  ultimately show ?thesis by (simp only: set_eq_iff_mset_eq_distinct)
qed

lemma valid_infos_mset: "mset xs = mset ys \<Longrightarrow> valid_infos xs \<longleftrightarrow> valid_infos ys"
proof -
  assume eq: "mset xs = mset ys"
  have "distinct (map vi_id xs) \<longleftrightarrow> distinct (map vi_id ys)" "distinct (map vi_public_key xs) \<longleftrightarrow> distinct (map vi_public_key ys)"
    by (rule mset_eq_imp_distinct_iff; simp add: eq)+
  moreover have "power_sum xs = power_sum ys"
    unfolding power_sum_def by (simp only: sum_mset_sum_list [symmetric] mset_map eq)
  moreover have "set xs = set ys" using eq by (metis set_mset_mset)
  ultimately show ?thesis unfolding valid_infos_def by (metis set_empty)
qed

lemma updates_applied:
  assumes "books_ok m" "vs_wf cur" "0 < sc_min_self_stake (sm_config m)" "formal_validator_list m \<noteq> []"
    and "(\<Sum>v \<leftarrow> formal_validator_list m. unat (voting_power v)) < 2 ^ 64"
  shows "\<exists>vs. try_apply_updates cur (compute_validator_updates m cur) = Inr vs \<and> vs_wf vs \<and>
    vs_lookup vs = map_of (map (\<lambda>v. (st_id v, (st_public_key v, voting_power v))) (formal_validator_list m))"
proof -
  let ?F = "formal_validator_list m" and ?us = "compute_validator_updates m cur"
  note F = formal_facts [OF assms(1)]
  have ps: "power_sum (map info_of ?F) = (\<Sum>v \<leftarrow> ?F. unat (voting_power v))" by (simp add: power_sum_def comp_def)
  have "0 < power_sum (map info_of ?F)"
  proof -
    obtain v rest where "?F = v # rest" using assms(4) by (cases ?F) auto
    then show ?thesis using F(4) [of v] assms(3) by (simp add: word_less_nat_alt)
  qed
  then have "valid_infos (map info_of ?F)" using F(1-3) assms(5) by (simp add: valid_infos_def ps comp_def)
  then have "valid_infos (foldl apply_update (vs_validators cur) ?us)" using valid_infos_mset [OF updates_infos [OF assms]] by simp
  then obtain vs where vs: "try_apply_updates cur ?us = Inr vs" by (auto simp: try_apply_updates_def try_new_Inr)
  have "vs_lookup vs = map_of (map (\<lambda>v. (st_id v, (st_public_key v, voting_power v))) ?F)"
    using try_apply_updates_lookup [OF assms(2) vs] updates_lookup [OF assms] by auto
  with vs try_apply_updates_wf [OF vs] show ?thesis by blast
qed

section \<open>Concrete books\<close>

definition sample_stakes :: StakingManager where
  "sample_stakes = fst (undelegate [7] 1 500 10 (fst (delegate [7] 1 4500
     (fst (register_validator 1 (replicate 32 1) 5000 (sm_new ms_new default_StakingConfig))))))"

lemma sample_config: "staking_validate default_StakingConfig = Inr ()"
  by (simp add: staking_validate_def default_StakingConfig_def)

lemma sample_stakes_reachable: "staking_reachable default_StakingConfig sample_stakes"
  unfolding sample_stakes_def by (intro sr_undelegate sr_delegate sr_register sr_start)

definition sample_validator :: ValidatorState where
  "sample_validator = \<lparr> st_id = 1, st_public_key = replicate 32 1, st_self_stake = 5000, st_delegated_stake = 4000,
     st_score = 10000, st_jailed = False, st_jail_until_height = 0, st_tombstoned = False, st_applied_slashes = [] \<rparr>"

lemma sample_store:
  "sm_store sample_stakes = \<lparr> ms_validators = [(1, sample_validator)], ms_stakes = [(([7], 1), \<lparr> se_amount = 4000 \<rparr>)],
     ms_unbondings = [\<lparr> ub_staker = [7], ub_validator = 1, ub_amount = 500, ub_completion_height = 1010 \<rparr>] \<rparr>"
proof -
  have key: "validate_public_key (sm_new ms_new default_StakingConfig) (replicate 32 1) = Inr ()"
    by (simp add: validate_public_key_def ED25519_PUBLIC_KEY_LEN_def sm_new_def ms_new_def ms_all_validator_ids_def List.map_filter_def)
  show ?thesis
    by (simp add: sample_stakes_def register_validator_def key)
       (simp add: sm_new_def ms_new_def ms_get_validator_def ms_set_validator_def default_StakingConfig_def delegate_def checked_add_def
          ms_get_stake_def ms_set_stake_def undelegate_def saturating_sub_def saturating_add_def ms_push_unbonding_def sample_validator_def Let_def)
qed

section \<open>Properties\<close>

text \<open>
  C34. The books balance: under a validated configuration, whatever operations are made on an empty
  store, each validator's delegated stake is the sum of the stakes its stakers hold, no stake is
  empty or held with an unregistered validator, every unbonding that is still locked belongs to a
  registered validator and so can be slashed, public keys are 32 bytes and unique, scores stay in
  range, a validator retained as a tombstone has no stake, and no evidence was applied twice.
\<close>

theorem staking_books:
  assumes "staking_validate config = Inr ()" "staking_reachable config m"
  shows "books_ok m \<and>
    (\<forall>i v. the_validator m i = Some v \<longrightarrow>
       unat (st_delegated_stake v) = (\<Sum>(a, e) \<leftarrow> ms_stakers_of (sm_store m) i. unat (se_amount e)))"
proof -
  have b: "books_ok m" using staking_reachable_books [OF assms] by simp
  with books_okD(5) [OF b] mem.bonded_stakers [OF books_okD(1) [OF b]] show ?thesis by (simp add: bonded_def)
qed

theorem staking_books_witness:
  "books_ok sample_stakes \<and> the_validator sample_stakes 1 = Some sample_validator \<and>
   unat (st_delegated_stake sample_validator) = (\<Sum>(a, e) \<leftarrow> ms_stakers_of (sm_store sample_stakes) 1. unat (se_amount e))"
proof -
  have "the_validator sample_stakes 1 = Some sample_validator" by (simp add: sample_store ms_get_validator_def)
  with staking_books [OF sample_config sample_stakes_reachable] show ?thesis by blast
qed

text \<open>
  C35. A slash takes exactly what it reports: a successful slash of a validator lowers its slashable
  stake (its own, what is delegated to it, and what is still unbonding from it) by the two amounts it
  returns, leaves every other validator's as it was, jails the validator, and records the evidence, so
  that a second slash for the same evidence is refused and changes nothing.
\<close>

theorem slash_takes_what_it_reports:
  assumes "staking_validate config = Inr ()" "staking_reachable config m" "slashable m i < 2 ^ 64"
    and "slash_with_evidence i evidence reason height m = (m', Inr r)"
  shows "slashable m' i + unat (sr_self_slashed r) + unat (sr_delegated_slashed r) = slashable m i \<and>
    (\<forall>j. j \<noteq> i \<longrightarrow> slashable m' j = slashable m j \<and> the_validator m' j = the_validator m j) \<and>
    (\<exists>v. the_validator m' i = Some v \<and> st_jailed v \<and> voting_power v = 0) \<and>
    slash_with_evidence i evidence reason' height' m' = (m', Inl (AlreadySlashed i (length evidence)))"
proof -
  have b: "books_ok m" "staking_validate (sm_config m) = Inr ()" using staking_reachable_books [OF assms(1,2)] assms(1) by simp_all
  note e = slash_effect [OF b assms(4)]
  from e(5) obtain x y where xy: "slashable m' i + x + y = slashable m i" "unat (sr_self_slashed r) = x"
    "unat (sr_delegated_slashed r) = min y (2 ^ 64 - 1)" by blast
  with assms(3) have "unat (sr_delegated_slashed r) = y" by simp
  moreover from e(3) obtain v where v: "the_validator m' i = Some v" "st_jailed v" "evidence \<in> as_evidence_id ` set (st_applied_slashes v)" by blast
  moreover have "evidence \<noteq> []" using assms(4) by (auto simp: slash_with_evidence_def)
  ultimately show ?thesis using xy e(4) by (auto simp: slash_with_evidence_def voting_power_def)
qed

theorem slash_takes_what_it_reports_witness:
  "\<exists>m' r. slash_with_evidence 1 [1] DoubleSign 20 sample_stakes = (m', Inr r) \<and>
     slashable m' 1 + unat (sr_self_slashed r) + unat (sr_delegated_slashed r) = 9500 \<and>
     slash_with_evidence 1 [1] Downtime 30 m' = (m', Inl (AlreadySlashed 1 1))"
proof -
  have v: "the_validator sample_stakes 1 = Some sample_validator" by (simp add: sample_store ms_get_validator_def)
  then have sl: "slashable sample_stakes 1 = 9500" by (simp add: slashable_def sample_store pledged_def) (simp add: sample_validator_def)
  have "\<exists>m' r. slash_with_evidence 1 [1] DoubleSign 20 sample_stakes = (m', Inr r)"
    using v by (simp add: slash_with_evidence_def Let_def split: prod.splits) (simp add: sample_validator_def)
  then obtain m' r where s: "slash_with_evidence 1 [1] DoubleSign 20 sample_stakes = (m', Inr r)" by blast
  from slash_takes_what_it_reports [OF sample_config sample_stakes_reachable _ s, of Downtime 30] sl s show ?thesis by auto
qed

text \<open>
  C36. From stakes to the validator set, for a configuration that demands some self-stake
  (\<open>0 < min_self_stake\<close>): in every state reachable under it, the updates computed for consensus,
  applied to any well-formed set by \<open>try_apply_updates\<close>, are accepted and turn it into exactly the
  formal list, with each validator's key and its stake as power. If the list is empty or its power does
  not fit 64 bits, no updates are made and the current set stays. Without the demand, which
  \<open>StakingConfig::validate\<close> does not make, the list may hold validators of power 0 only and the updates
  then remove every member.
\<close>

theorem staking_updates_apply:
  assumes "staking_validate config = Inr ()" "staking_reachable config m" "0 < sc_min_self_stake config" "vs_wf current"
  shows "(if formal_validator_list m = [] \<or> 2 ^ 64 \<le> (\<Sum>v \<leftarrow> formal_validator_list m. unat (voting_power v))
      then compute_validator_updates m current = []
      else \<exists>vs. try_apply_updates current (compute_validator_updates m current) = Inr vs \<and> vs_wf vs \<and>
        vs_lookup vs = map_of (map (\<lambda>v. (st_id v, (st_public_key v, voting_power v))) (formal_validator_list m)))"
proof (cases "formal_validator_list m = [] \<or> 2 ^ 64 \<le> (\<Sum>v \<leftarrow> formal_validator_list m. unat (voting_power v))")
  case True
  then have "formal_validator_list m = [] \<or> formal_total 0 (formal_validator_list m) = None"
    using formal_total_Some [of 0 "formal_validator_list m"] by auto
  with True show ?thesis by (auto simp: compute_validator_updates_def Let_def)
next
  case False
  have "books_ok m" "sm_config m = config" using staking_reachable_books [OF assms(1,2)] by simp_all
  with updates_applied [OF _ assms(4), of m] assms(3) False show ?thesis by simp
qed

theorem staking_updates_apply_witness:
  "\<exists>vs. try_apply_updates sample_set (compute_validator_updates sample_stakes sample_set) = Inr vs \<and>
     vs_lookup vs = [1 \<mapsto> (replicate 32 1, 9000)]"
proof -
  have "sm_config sample_stakes = default_StakingConfig" using staking_reachable_books [OF sample_config sample_stakes_reachable] by simp
  then have f: "formal_validator_list sample_stakes = [sample_validator]"
    by (simp add: formal_validator_list_def sample_store ms_all_validator_ids_def ms_get_validator_def List.map_filter_def default_StakingConfig_def)
       (simp add: sample_validator_def)
  have "voting_power sample_validator = 9000" "st_id sample_validator = 1" "st_public_key sample_validator = replicate 32 1"
    by (simp_all add: sample_validator_def voting_power_def total_stake_def saturating_add_def)
  with f staking_updates_apply [OF sample_config sample_stakes_reachable _ sample_set_wf] show ?thesis
    by (simp add: default_StakingConfig_def) blast
qed

end
