(* ===== verification/Sync.thy ===== *)
theory Sync
  imports Engine
begin

text \<open>
  Block sync (\<open>hotmint-consensus/src/sync.rs\<close>): a node that is behind checks the blocks a peer sends
  and replays them. The answers of the peer are a list of events; its end is the closing of the
  channel. A step returns the state it leaves behind also when it fails. Requests can always be sent.
\<close>

section \<open>Requests and responses\<close>

definition MAX_SYNC_BATCH :: u64 where
  "MAX_SYNC_BATCH = 100"

record SnapshotInfo =
  sn_height :: Height
  sn_chunks :: u32
  sn_hash :: hash32

datatype SyncRequest =
    GetBlocks Height Height
  | GetStatus
  | GetSnapshots
  | GetSnapshotChunk Height u32

datatype SyncResponse =
    BlocksResponse "(Block \<times> QuorumCertificate option) list"
  | StatusResponse Height ViewNumber EpochNumber
  | ErrorResponse string
  | SnapshotsResponse "SnapshotInfo list"
  | SnapshotChunkResponse Height u32 bytes

text \<open>What waiting for a response ends with; \<open>SyncTimeout\<close> is the expiry of \<open>SYNC_TIMEOUT\<close>.\<close>

datatype sync_event = Received SyncResponse | SyncTimeout

datatype sync_error =
    CommittedHeightOverflow Height
  | SyncHeightDiscontinuity u64 Height
  | MissingLastCommitted Height
  | ChainDiscontinuity Height BlockHash BlockHash
  | SyncQcHashMismatch Height
  | SyncQcInvalid Height
  | MissingCommitQc Height
  | WrongProposer Height ValidatorId ValidatorId
  | SyncHashMismatch Height BlockHash BlockHash
  | SyncAppHashMismatch Height BlockHash BlockHash
  | SyncEvidence evidence_error
  | WalIntentFailed Height
  | AppRejected Height
  | SyncUpdates commit_error
  | WalDoneFailed Height
  | SyncPanic commit_error
  | PeerError string
  | UnexpectedResponse
  | SyncChannelClosed
  | SyncTimedOut

section \<open>Certificates\<close>

record SyncVoteAggregate =
  sv_validator_set :: ValidatorSet
  sv_epoch :: EpochNumber
  sv_view :: ViewNumber
  sv_block_hash :: BlockHash
  sv_vote_type :: VoteType
  sv_aggregate_signature :: AggregateSignature

definition sync_verify_vote_aggregate ::
    "(PublicKey \<Rightarrow> bytes \<Rightarrow> Signature \<Rightarrow> bool) \<Rightarrow> (bytes \<Rightarrow> hash32) \<Rightarrow> hash32 \<Rightarrow> SyncVoteAggregate \<Rightarrow> bool" where
  "sync_verify_vote_aggregate verify blake3 chain_id_hash a =
     (let vs = sv_validator_set a; agg = sv_aggregate_signature a
      in if length (ag_signers agg) \<noteq> validator_count vs then False
         else case signer_walk
                     (\<lambda>_ v s. verify (vi_public_key v)
                        (vote_signing_bytes blake3 chain_id_hash (sv_epoch a) (sv_view a) (vi_id v)
                           (sv_block_hash a) (sv_vote_type a) None) s)
                     (vs_validators vs) (ag_signatures agg) 0 0 (ag_signers agg) of
                None \<Rightarrow> False
              | Some sig_idx \<Rightarrow> sig_idx = length (ag_signatures agg) \<and> has_quorum vs agg)"

definition sync_verify_vote_qc ::
    "(PublicKey \<Rightarrow> bytes \<Rightarrow> Signature \<Rightarrow> bool) \<Rightarrow> (bytes \<Rightarrow> hash32) \<Rightarrow> hash32 \<Rightarrow> Epoch \<Rightarrow> QuorumCertificate \<Rightarrow> bool" where
  "sync_verify_vote_qc verify blake3 chain_id_hash current_epoch qc \<longleftrightarrow>
     qc_epoch qc = ep_number current_epoch \<and>
     sync_verify_vote_aggregate verify blake3 chain_id_hash
       \<lparr> sv_validator_set = ep_validator_set current_epoch, sv_epoch = qc_epoch qc, sv_view = qc_view qc,
         sv_block_hash = qc_block_hash qc, sv_vote_type = Vote, sv_aggregate_signature = qc_aggregate_signature qc \<rparr>"

section \<open>State\<close>

record 'w SyncWal =
  sw_intent :: "Height \<Rightarrow> 'w \<Rightarrow> 'w option"
  sw_done :: "Height \<Rightarrow> 'w \<Rightarrow> 'w option"

record ('a, 'w) SyncEnv =
  sy_app :: "'a Application"
  sy_verify :: "PublicKey \<Rightarrow> bytes \<Rightarrow> Signature \<Rightarrow> bool"
  sy_blake3 :: "bytes \<Rightarrow> hash32"
  sy_wal :: "'w SyncWal"

record ('a, 'w) SyncState =
  ss_store :: VsdbBlockStore
  ss_app :: 'a
  ss_current_epoch :: Epoch
  ss_last_committed_height :: Height
  ss_last_app_hash :: BlockHash
  ss_chain_id_hash :: hash32
  ss_pending_epoch :: "Epoch option"
  ss_previous_epoch :: "Epoch option"
  ss_persistence :: "PersistentConsensusState option"
  ss_wal :: "'w option"

section \<open>Replay\<close>

definition activates :: "Epoch option \<Rightarrow> Block \<Rightarrow> bool" where
  "activates pending block = (case pending of Some epoch \<Rightarrow> b_view block \<ge> ep_start_view epoch | None \<Rightarrow> False)"

definition replay_epoch :: "Epoch option \<Rightarrow> Epoch \<Rightarrow> Block \<Rightarrow> Epoch" where
  "replay_epoch pending current block = (if activates pending block then the pending else current)"

text \<open>The checks of one block before anything is written, in the order of the code.\<close>

definition expected_parent :: "('a, 'w) SyncState \<Rightarrow> sync_error + BlockHash" where
  "expected_parent st =
     (if ss_last_committed_height st = 0 then Inr GENESIS_HASH
      else case get_block_by_height (ss_store st) (ss_last_committed_height st) of
             None \<Rightarrow> Inl (MissingLastCommitted (ss_last_committed_height st))
           | Some b \<Rightarrow> Inr (b_hash b))"

definition check_replay ::
    "('a, 'w) SyncEnv \<Rightarrow> ('a, 'w) SyncState \<Rightarrow> Epoch \<Rightarrow> Block \<Rightarrow> QuorumCertificate option \<Rightarrow> sync_error + unit" where
  "check_replay env st epoch block qc =
     rbind (ok_or (checked_add (ss_last_committed_height st) 1) (CommittedHeightOverflow (b_height block))) (\<lambda>expected_height.
     if b_height block \<noteq> expected_height then Inl (SyncHeightDiscontinuity expected_height (b_height block))
     else rbind (expected_parent st) (\<lambda>parent.
     if b_parent_hash block \<noteq> parent then Inl (ChainDiscontinuity (b_height block) parent (b_parent_hash block))
     else rbind
       (case qc of
          Some cert \<Rightarrow>
            if qc_block_hash cert \<noteq> b_hash block then Inl (SyncQcHashMismatch (b_height block))
            else if \<not> sync_verify_vote_qc (sy_verify env) (sy_blake3 env) (ss_chain_id_hash st) epoch cert
            then Inl (SyncQcInvalid (b_height block))
            else Inr ()
        | None \<Rightarrow> if b_height block > 0 then Inl (MissingCommitQc (b_height block)) else Inr ()) (\<lambda>_.
     case (case leader_for_view (ep_validator_set epoch) (b_view block) of
             Some leader \<Rightarrow> if b_proposer block \<noteq> vi_id leader then Some (vi_id leader) else None
           | None \<Rightarrow> None) of
       Some leader \<Rightarrow> Inl (WrongProposer (b_height block) leader (b_proposer block))
     | None \<Rightarrow>
     if b_hash block \<noteq> compute_hash (sy_blake3 env) block
     then Inl (SyncHashMismatch (b_height block) (b_hash block) (compute_hash (sy_blake3 env) block))
     else if app_tracks_app_hash (sy_app env) \<and> b_app_hash block \<noteq> ss_last_app_hash st
     then Inl (SyncAppHashMismatch (b_height block) (b_app_hash block) (ss_last_app_hash st))
     else case validate_block_evidence (sy_verify env) (sy_blake3 env) (ss_chain_id_hash st) block epoch (ss_previous_epoch st) of
            Inl e \<Rightarrow> Inl (SyncEvidence e)
          | Inr _ \<Rightarrow> Inr ())))"

definition persist_sync_checkpoint :: "Epoch option \<Rightarrow> ('a, 'w) SyncState \<Rightarrow> ('a, 'w) SyncState" where
  "persist_sync_checkpoint pending st =
     st\<lparr>ss_persistence := map_option (\<lambda>p.
        save_pending_epoch pending
          (save_last_app_hash (ss_last_app_hash st)
             (save_previous_epoch (ss_previous_epoch st)
                (save_current_epoch (ss_current_epoch st)
                   (save_last_committed_height (ss_last_committed_height st) p))))) (ss_persistence st)\<rparr>"

text \<open>Storing the block with its certificate and logging the intent.\<close>

definition store_synced :: "Block \<Rightarrow> QuorumCertificate option \<Rightarrow> VsdbBlockStore \<Rightarrow> VsdbBlockStore" where
  "store_synced block qc store =
     (let s = put_block block store
      in case qc of Some commit_qc \<Rightarrow> put_commit_qc (b_height block) commit_qc s | None \<Rightarrow> s)"

definition wal_step :: "(Height \<Rightarrow> 'w \<Rightarrow> 'w option) \<Rightarrow> Height \<Rightarrow> 'w option \<Rightarrow> 'w option option" where
  "wal_step f h wal = (case wal of None \<Rightarrow> Some None | Some w \<Rightarrow> map_option Some (f h w))"

text \<open>
  The application's part: validation, the activation of a pending epoch, execution, and the epoch that
  validator updates lead to. \<open>pending\<close> is the loop's own copy of the pending epoch.
\<close>

definition execute_synced ::
    "('a, 'w) SyncEnv \<Rightarrow> Block \<Rightarrow> Epoch \<Rightarrow> Epoch option \<Rightarrow> ('a, 'w) SyncState \<Rightarrow>
     ('a, 'w) SyncState \<times> (sync_error + (EndBlockResponse \<times> Epoch option))" where
  "execute_synced env block epoch pending st =
     (let ctx = block_context block epoch
      in if \<not> app_validate_block (sy_app env) block ctx (ss_app st) then (st, Inl (AppRejected (b_height block)))
         else
           let st1 = (if activates pending block then st\<lparr>ss_previous_epoch := Some (ss_current_epoch st)\<rparr> else st);
               pending1 = (if activates pending block then None else pending);
               st2 = st1\<lparr>ss_current_epoch := epoch\<rparr>
           in case execute_committed_block (sy_app env) block ctx (ss_app st2) of
                Inl e \<Rightarrow> (st2, Inl (SyncPanic e))
              | Inr (response, a) \<Rightarrow>
                  let st3 = st2\<lparr>ss_app := a, ss_last_app_hash :=
                        (if app_tracks_app_hash (sy_app env) then ebr_app_hash response else b_app_hash block)\<rparr>
                  in if ebr_validator_updates response = [] then (st3, Inr (response, pending1))
                     else case chained_pending_epoch (b_height block) (ss_current_epoch st3) pending1 (b_view block)
                                 (ebr_validator_updates response) of
                            Inl e \<Rightarrow> (st3, Inl (SyncUpdates e))
                          | Inr ep \<Rightarrow> (st3, Inr (response, Some ep)))"

text \<open>The indexes, results and checkpoint of an executed block, and the end of its intent.\<close>

definition finish_synced ::
    "('a, 'w) SyncEnv \<Rightarrow> Block \<Rightarrow> EndBlockResponse \<Rightarrow> Epoch option \<Rightarrow> ('a, 'w) SyncState \<Rightarrow>
     ('a, 'w) SyncState \<times> (sync_error + Epoch option)" where
  "finish_synced env block response pending st =
     (let store1 = index_txs (sy_blake3 env) block (ss_store st);
          store2 = (if get_block_results store1 (b_height block) = None
                    then put_block_results (b_height block) response store1 else store1);
          st1 = persist_sync_checkpoint pending
                  (st\<lparr>ss_store := store2, ss_last_committed_height := b_height block, ss_pending_epoch := pending\<rparr>)
      in case wal_step (sw_done (sy_wal env)) (b_height block) (ss_wal st1) of
           None \<Rightarrow> (st1, Inl (WalDoneFailed (b_height block)))
         | Some wal \<Rightarrow> (st1\<lparr>ss_wal := wal\<rparr>, Inr pending))"

text \<open>One iteration.\<close>

definition replay_one ::
    "('a, 'w) SyncEnv \<Rightarrow> Block \<Rightarrow> QuorumCertificate option \<Rightarrow> Epoch option \<Rightarrow> ('a, 'w) SyncState \<Rightarrow>
     ('a, 'w) SyncState \<times> (sync_error + Epoch option)" where
  "replay_one env block qc pending st =
     (let epoch = replay_epoch pending (ss_current_epoch st) block
      in case check_replay env st epoch block qc of
           Inl e \<Rightarrow> (st, Inl e)
         | Inr _ \<Rightarrow>
             let st1 = st\<lparr>ss_store := store_synced block qc (ss_store st)\<rparr>
             in case wal_step (sw_intent (sy_wal env)) (b_height block) (ss_wal st1) of
                  None \<Rightarrow> (st1, Inl (WalIntentFailed (b_height block)))
                | Some wal \<Rightarrow>
                    (case execute_synced env block epoch pending (st1\<lparr>ss_wal := wal\<rparr>) of
                       (st2, Inl e) \<Rightarrow> (st2, Inl e)
                     | (st2, Inr (response, pending')) \<Rightarrow> finish_synced env block response pending' st2))"

fun replay_loop ::
    "('a, 'w) SyncEnv \<Rightarrow> (Block \<times> QuorumCertificate option) list \<Rightarrow> Epoch option \<Rightarrow> ('a, 'w) SyncState \<Rightarrow>
     ('a, 'w) SyncState \<times> (sync_error + Epoch option)" where
  "replay_loop env [] pending st = (st\<lparr>ss_pending_epoch := pending\<rparr>, Inr pending)"
| "replay_loop env ((block, qc) # rest) pending st =
     (case replay_one env block qc pending st of
        (st', Inl e) \<Rightarrow> (st', Inl e)
      | (st', Inr pending') \<Rightarrow> replay_loop env rest pending' st')"

definition replay_blocks ::
    "('a, 'w) SyncEnv \<Rightarrow> (Block \<times> QuorumCertificate option) list \<Rightarrow> ('a, 'w) SyncState \<Rightarrow>
     ('a, 'w) SyncState \<times> (sync_error + Epoch option)" where
  "replay_blocks env blocks st = replay_loop env blocks (ss_pending_epoch st) st"

section \<open>The sync session\<close>

text \<open>
  \<open>sync_via_snapshot\<close> takes one answer and never applies a snapshot: for an empty list, for a latest
  snapshot that is not ahead, and for one that is, it answers \<open>false\<close> and leaves the state alone. So
  each of its outcomes goes on with block sync, and the second test whether the node has caught up
  cannot succeed after the first has failed. The sums of heights wrap as in a release build.
\<close>

definition sync_via_snapshot :: "sync_event list \<Rightarrow> sync_event list \<times> (sync_error + bool)" where
  "sync_via_snapshot evs =
     (case evs of
        [] \<Rightarrow> ([], Inl SyncChannelClosed)
      | SyncTimeout # rest \<Rightarrow> (rest, Inr False)
      | Received (SnapshotsResponse list) # rest \<Rightarrow> (rest, Inr False)
      | Received (ErrorResponse e) # rest \<Rightarrow> (rest, Inl (PeerError e))
      | Received _ # rest \<Rightarrow> (rest, Inl UnexpectedResponse))"

definition batch_to :: "u64 \<Rightarrow> Height \<Rightarrow> Height" where
  "batch_to from peer_status = min (from + MAX_SYNC_BATCH - 1) peer_status"

fun sync_loop ::
    "('a, 'w) SyncEnv \<Rightarrow> Height \<Rightarrow> sync_event list \<Rightarrow> ('a, 'w) SyncState \<Rightarrow> SyncRequest list \<Rightarrow>
     ('a, 'w) SyncState \<times> SyncRequest list \<times> (sync_error + unit)" where
  "sync_loop env peer_status [] st sent = (st, sent, Inl SyncChannelClosed)"
| "sync_loop env peer_status (SyncTimeout # evs) st sent = (st, sent, Inl SyncTimedOut)"
| "sync_loop env peer_status (Received response # evs) st sent =
     (case response of
        BlocksResponse blocks \<Rightarrow>
          if blocks = [] then (st, sent, Inr ())
          else
            let synced_through = ss_last_committed_height st + of_nat (length blocks);
                needs_more = synced_through < peer_status;
                next_from = b_height (fst (last blocks)) + 1;
                sent' = (if needs_more then sent @ [GetBlocks next_from (batch_to next_from peer_status)] else sent)
            in (case replay_blocks env blocks st of
                  (st', Inl e) \<Rightarrow> (st', sent', Inl e)
                | (st', Inr pending) \<Rightarrow>
                    let st'' = (case pending of Some epoch \<Rightarrow> st'\<lparr>ss_pending_epoch := Some epoch\<rparr> | None \<Rightarrow> st')
                    in if ss_last_committed_height st'' \<ge> peer_status \<or> \<not> needs_more then (st'', sent', Inr ())
                       else sync_loop env peer_status evs st'' sent')
      | ErrorResponse e \<Rightarrow> (st, sent, Inl (PeerError e))
      | _ \<Rightarrow> (st, sent, Inl UnexpectedResponse))"

definition sync_to_tip ::
    "('a, 'w) SyncEnv \<Rightarrow> sync_event list \<Rightarrow> ('a, 'w) SyncState \<Rightarrow>
     ('a, 'w) SyncState \<times> SyncRequest list \<times> (sync_error + unit)" where
  "sync_to_tip env evs st =
     (case evs of
        [] \<Rightarrow> (st, [GetStatus], Inl SyncChannelClosed)
      | SyncTimeout # _ \<Rightarrow> (st, [GetStatus], Inr ())
      | Received (StatusResponse peer_status _ _) # rest \<Rightarrow>
          if peer_status \<le> ss_last_committed_height st then (st, [GetStatus], Inr ())
          else
            let gap = saturating_sub peer_status (ss_last_committed_height st);
                (rest', sent) = (if gap > MAX_SYNC_BATCH then (fst (sync_via_snapshot rest), [GetStatus, GetSnapshots])
                                 else (rest, [GetStatus]));
                first_from = ss_last_committed_height st + 1
            in sync_loop env peer_status rest' st (sent @ [GetBlocks first_from (batch_to first_from peer_status)])
      | Received (ErrorResponse e) # _ \<Rightarrow> (st, [GetStatus], Inl (PeerError e))
      | Received _ # _ \<Rightarrow> (st, [GetStatus], Inl UnexpectedResponse))"

definition query_peer_status :: "sync_event list \<Rightarrow> Height option" where
  "query_peer_status evs =
     (case evs of Received (StatusResponse last_committed_height _ _) # _ \<Rightarrow> Some last_committed_height | _ \<Rightarrow> None)"

section \<open>Certificates in sync and in the engine\<close>

lemma sync_verify_vote_aggregate_eq:
  "sync_verify_vote_aggregate verify blake3 chain_id_hash a =
     verify_vote_aggregate verify blake3 chain_id_hash
       \<lparr> va_validator_set = sv_validator_set a, va_epoch = sv_epoch a, va_view = sv_view a, va_block_hash = sv_block_hash a,
         va_vote_type = sv_vote_type a, va_aggregate_signature = sv_aggregate_signature a, va_extensions = [] \<rparr>"
  by (simp add: sync_verify_vote_aggregate_def verify_vote_aggregate_def Let_def)

section \<open>One block\<close>

lemma persist_sync_checkpoint_simps [simp]:
  "ss_store (persist_sync_checkpoint p st) = ss_store st" "ss_app (persist_sync_checkpoint p st) = ss_app st"
  "ss_current_epoch (persist_sync_checkpoint p st) = ss_current_epoch st"
  "ss_last_committed_height (persist_sync_checkpoint p st) = ss_last_committed_height st"
  "ss_last_app_hash (persist_sync_checkpoint p st) = ss_last_app_hash st"
  "ss_chain_id_hash (persist_sync_checkpoint p st) = ss_chain_id_hash st"
  "ss_pending_epoch (persist_sync_checkpoint p st) = ss_pending_epoch st"
  "ss_previous_epoch (persist_sync_checkpoint p st) = ss_previous_epoch st"
  "ss_wal (persist_sync_checkpoint p st) = ss_wal st"
  by (simp_all add: persist_sync_checkpoint_def)

text \<open>The errors of the checks, which come before anything is written.\<close>

definition refusal :: "sync_error \<Rightarrow> bool" where
  "refusal e =
     (case e of
        WalIntentFailed _ \<Rightarrow> False | AppRejected _ \<Rightarrow> False | SyncUpdates _ \<Rightarrow> False | WalDoneFailed _ \<Rightarrow> False
      | SyncPanic _ \<Rightarrow> False | _ \<Rightarrow> True)"

lemma execute_synced_refusal: "execute_synced env b epoch pending st = (st', Inl e) \<Longrightarrow> \<not> refusal e"
  by (auto simp: execute_synced_def Let_def refusal_def split: sum.splits prod.splits if_splits)

lemma finish_synced_refusal: "finish_synced env b response pending st = (st', Inl e) \<Longrightarrow> \<not> refusal e"
  by (auto simp: finish_synced_def Let_def refusal_def split: option.splits)

lemma replay_one_refused:
  "\<lbrakk> replay_one env b qc pending st = (st', Inl e); refusal e \<rbrakk> \<Longrightarrow> st' = st"
  by (auto simp: replay_one_def Let_def dest: execute_synced_refusal finish_synced_refusal split: sum.splits option.splits prod.splits)
     (simp add: refusal_def)

definition pending_of :: "Epoch option \<Rightarrow> Block \<Rightarrow> Epoch option" where
  "pending_of pending b = (if activates pending b then None else pending)"

lemma execute_synced_Inr:
  assumes "execute_synced env b epoch pending st = (st', Inr (response, pending'))"
  shows "execute_committed_block (sy_app env) b (block_context b epoch) (ss_app st) = Inr (response, ss_app st')"
    "pending_after b response epoch (pending_of pending b) = Inr pending'"
    "st' = st\<lparr>ss_app := ss_app st', ss_current_epoch := epoch,
       ss_previous_epoch := (if activates pending b then Some (ss_current_epoch st) else ss_previous_epoch st),
       ss_last_app_hash := (if app_tracks_app_hash (sy_app env) then ebr_app_hash response else b_app_hash b)\<rparr>"
  using assms
  by (auto simp: execute_synced_def Let_def pending_after_def pending_of_def split: sum.splits prod.splits if_splits)

lemma index_txs_blocks [simp]:
  "vb_by_hash (index_txs f b s) = vb_by_hash s" "vb_by_height (index_txs f b s) = vb_by_height s"
proof -
  have "vb_by_hash (fold (\<lambda>(i, tx). put_tx_index (f tx) h (of_nat i)) xs s) = vb_by_hash s \<and>
      vb_by_height (fold (\<lambda>(i, tx). put_tx_index (f tx) h (of_nat i)) xs s) = vb_by_height s" for h and xs :: "(nat \<times> bytes) list"
    by (induction xs arbitrary: s) (auto simp: put_tx_index_def)
  then show "vb_by_hash (index_txs f b s) = vb_by_hash s" "vb_by_height (index_txs f b s) = vb_by_height s"
    by (simp_all add: index_txs_def)
qed

lemma finish_synced_Inr:
  assumes "finish_synced env b response pending st = (st', Inr pending')"
  shows "pending' = pending" "ss_app st' = ss_app st" "ss_current_epoch st' = ss_current_epoch st"
    "ss_previous_epoch st' = ss_previous_epoch st" "ss_last_app_hash st' = ss_last_app_hash st"
    "ss_last_committed_height st' = b_height b" "ss_pending_epoch st' = pending" "ss_chain_id_hash st' = ss_chain_id_hash st"
    "vb_by_hash (ss_store st') = vb_by_hash (ss_store st)" "vb_by_height (ss_store st') = vb_by_height (ss_store st)"
  using assms by (auto simp: finish_synced_def Let_def put_block_results_def split: option.splits)

lemma replay_one_Inr:
  assumes "replay_one env b qc pending st = (st', Inr pending')" and "epoch = replay_epoch pending (ss_current_epoch st) b"
  shows "check_replay env st epoch b qc = Inr ()"
    "\<exists>response. execute_committed_block (sy_app env) b (block_context b epoch) (ss_app st) = Inr (response, ss_app st') \<and>
       pending_after b response epoch (pending_of pending b) = Inr pending' \<and>
       ss_last_app_hash st' = (if app_tracks_app_hash (sy_app env) then ebr_app_hash response else b_app_hash b)"
    "ss_current_epoch st' = epoch" "ss_previous_epoch st' = (if activates pending b then Some (ss_current_epoch st) else ss_previous_epoch st)"
    "ss_last_committed_height st' = b_height b" "ss_pending_epoch st' = pending'" "ss_chain_id_hash st' = ss_chain_id_hash st"
    "vb_by_hash (ss_store st') = vb_by_hash (store_synced b qc (ss_store st))"
    "vb_by_height (ss_store st') = vb_by_height (store_synced b qc (ss_store st))"
proof -
  obtain wal st2 response p where x: "check_replay env st epoch b qc = Inr ()"
    "execute_synced env b epoch pending (st\<lparr>ss_store := store_synced b qc (ss_store st), ss_wal := wal\<rparr>) = (st2, Inr (response, p))"
    "finish_synced env b response p st2 = (st', Inr pending')"
    using assms(1) by (auto simp: replay_one_def assms(2) Let_def split: sum.splits option.splits prod.splits)
  note e = execute_synced_Inr [OF x(2)] and f = finish_synced_Inr [OF x(3)]
  have s2: "ss_current_epoch st2 = epoch" "ss_previous_epoch st2 = (if activates pending b then Some (ss_current_epoch st) else ss_previous_epoch st)"
    "ss_last_app_hash st2 = (if app_tracks_app_hash (sy_app env) then ebr_app_hash response else b_app_hash b)"
    "ss_chain_id_hash st2 = ss_chain_id_hash st" "ss_store st2 = store_synced b qc (ss_store st)"
    by (subst e(3), simp)+
  show "check_replay env st epoch b qc = Inr ()" by (rule x(1))
  show "\<exists>response. execute_committed_block (sy_app env) b (block_context b epoch) (ss_app st) = Inr (response, ss_app st') \<and>
       pending_after b response epoch (pending_of pending b) = Inr pending' \<and>
       ss_last_app_hash st' = (if app_tracks_app_hash (sy_app env) then ebr_app_hash response else b_app_hash b)"
    using e(1,2) by (intro exI [of _ response]) (simp add: f s2)
  show "ss_current_epoch st' = epoch" "ss_previous_epoch st' = (if activates pending b then Some (ss_current_epoch st) else ss_previous_epoch st)"
    "ss_last_committed_height st' = b_height b" "ss_pending_epoch st' = pending'" "ss_chain_id_hash st' = ss_chain_id_hash st"
    "vb_by_hash (ss_store st') = vb_by_hash (store_synced b qc (ss_store st))"
    "vb_by_height (ss_store st') = vb_by_height (store_synced b qc (ss_store st))"
    by (simp_all add: f s2)
qed

lemma store_synced_height:
  assumes "qc_block_hash qc = b_hash b"
  shows "get_block_by_height (store_synced b (Some qc) s) (b_height b) = Some b"
proof -
  have "vb_by_hash (put_block b s) (b_hash b) = Some b" by (simp add: put_block_def Let_def split: option.split)
  with assms show ?thesis by (simp add: store_synced_def put_commit_qc_def get_block_by_height_def Let_def)
qed

text \<open>What the checks of a block guarantee.\<close>

definition linked :: "('a, 'w) SyncState \<Rightarrow> Block \<Rightarrow> bool" where
  "linked st b \<longleftrightarrow>
     unat (b_height b) = Suc (unat (ss_last_committed_height st)) \<and> expected_parent st = Inr (b_parent_hash b)"

definition certified_by :: "('a, 'w) SyncEnv \<Rightarrow> hash32 \<Rightarrow> Epoch \<Rightarrow> Block \<Rightarrow> QuorumCertificate option \<Rightarrow> bool" where
  "certified_by env chain_id_hash epoch b qc \<longleftrightarrow>
     b_hash b = compute_hash (sy_blake3 env) b \<and>
     (\<exists>cert. qc = Some cert \<and> qc_block_hash cert = b_hash b \<and> qc_epoch cert = ep_number epoch \<and>
        verify_vote_aggregate (sy_verify env) (sy_blake3 env) chain_id_hash
          \<lparr> va_validator_set = ep_validator_set epoch, va_epoch = qc_epoch cert, va_view = qc_view cert, va_block_hash = b_hash b,
            va_vote_type = Vote, va_aggregate_signature = qc_aggregate_signature cert, va_extensions = [] \<rparr>)"

lemma check_replay_Inr:
  assumes "check_replay env st epoch b qc = Inr ()"
  shows "linked st b" "certified_by env (ss_chain_id_hash st) epoch b qc"
proof -
  have h: "checked_add (ss_last_committed_height st) 1 = Some (b_height b)" "expected_parent st = Inr (b_parent_hash b)"
    using assms by (auto simp: check_replay_def rbind_Inr ok_or_Inr split: if_splits)
  then have hh: "unat (b_height b) = Suc (unat (ss_last_committed_height st))" using checked_add_unat by fastforce
  with h(2) show "linked st b" by (simp add: linked_def)
  have pos: "0 < b_height b" using hh by (simp add: word_less_nat_alt)
  show "certified_by env (ss_chain_id_hash st) epoch b qc"
    using assms pos
    by (auto simp: check_replay_def rbind_Inr ok_or_Inr certified_by_def sync_verify_vote_qc_def sync_verify_vote_aggregate_eq
        split: if_splits option.splits sum.splits)
qed

section \<open>Replay and commit\<close>

text \<open>The state of a replay and the loop variables of \<open>try_commit\<close>.\<close>

definition in_step :: "Epoch option \<Rightarrow> ('a, 'w) SyncState \<Rightarrow> 'a commit_acc \<Rightarrow> bool" where
  "in_step pending st acc \<longleftrightarrow>
     ca_pending acc = pending \<and> ca_active acc = ss_current_epoch st \<and> ca_previous acc = ss_previous_epoch st \<and>
     ca_height acc = ss_last_committed_height st \<and> ca_app acc = ss_app st"

lemma replay_one_commit:
  assumes "replay_one env b qc pending st = (st', Inr pending')" "in_step pending st acc"
    and "ep_start_view (ss_current_epoch st) \<le> b_view b"
  shows "\<exists>acc'. commit_one (sy_app env) b acc = Inr acc' \<and> in_step pending' st' acc' \<and> ca_last_app_hash acc' = ss_last_app_hash st'"
    "ep_start_view (ss_current_epoch st') \<le> b_view b"
proof -
  let ?e = "replay_epoch pending (ss_current_epoch st) b"
  note r = replay_one_Inr [OF assms(1)]
  have v: "ep_start_view ?e \<le> b_view b"
    using assms(3) by (auto simp: replay_epoch_def activates_def split: option.splits)
  then show "ep_start_view (ss_current_epoch st') \<le> b_view b" by (simp add: r(3))
  define acc1 where "acc1 = activate_pending b acc"
  have a: "ca_active acc1 = ?e" "ca_pending acc1 = pending_of pending b" "ca_app acc1 = ss_app st"
      "ca_previous acc1 = (if activates pending b then Some (ss_current_epoch st) else ss_previous_epoch st)"
    using assms(2) by (auto simp: acc1_def in_step_def activate_pending_def replay_epoch_def activates_def pending_of_def split: option.splits)
  have c: "context_epoch b acc1 = ?e" using a(1) v by (simp add: context_epoch_def not_less)
  from r(2) obtain response where x: "execute_committed_block (sy_app env) b (block_context b ?e) (ss_app st) = Inr (response, ss_app st')"
    "pending_after b response ?e (pending_of pending b) = Inr pending'"
    "ss_last_app_hash st' = (if app_tracks_app_hash (sy_app env) then ebr_app_hash response else b_app_hash b)" by blast
  show "\<exists>acc'. commit_one (sy_app env) b acc = Inr acc' \<and> in_step pending' st' acc' \<and> ca_last_app_hash acc' = ss_last_app_hash st'"
    by (simp add: commit_one_def Let_def acc1_def [symmetric] c a x in_step_def r)
qed

fun hash_chain :: "BlockHash \<Rightarrow> Height \<Rightarrow> Block list \<Rightarrow> bool" where
  "hash_chain parent h [] \<longleftrightarrow> True"
| "hash_chain parent h (b # bs) \<longleftrightarrow>
     b_parent_hash b = parent \<and> unat (b_height b) = Suc (unat h) \<and> hash_chain (b_hash b) (b_height b) bs"

lemma replay_one_parent:
  assumes "replay_one env b qc pending st = (st', Inr pending')"
  shows "expected_parent st = Inr (b_parent_hash b)" "unat (b_height b) = Suc (unat (ss_last_committed_height st))"
    "expected_parent st' = Inr (b_hash b)" "ss_last_committed_height st' = b_height b"
    "certified_by env (ss_chain_id_hash st) (ss_current_epoch st') b qc" "ss_chain_id_hash st' = ss_chain_id_hash st"
proof -
  note r = replay_one_Inr [OF assms refl]
  note c = check_replay_Inr [OF r(1)]
  show "expected_parent st = Inr (b_parent_hash b)" and h: "unat (b_height b) = Suc (unat (ss_last_committed_height st))"
    using c(1) by (simp_all add: linked_def)
  show "ss_last_committed_height st' = b_height b" "ss_chain_id_hash st' = ss_chain_id_hash st" by (rule r)+
  show cert: "certified_by env (ss_chain_id_hash st) (ss_current_epoch st') b qc" using c(2) r(3) by simp
  from cert obtain q where q: "qc = Some q" "qc_block_hash q = b_hash b" by (auto simp: certified_by_def)
  have "get_block_by_height (ss_store st') (b_height b) = Some b"
    using store_synced_height [OF q(2), of "ss_store st"] by (simp add: get_block_by_height_def r(8,9) q(1))
  moreover have "b_height b \<noteq> 0" using h by auto
  ultimately show "expected_parent st' = Inr (b_hash b)" by (simp add: expected_parent_def r(5))
qed

definition replayed ::
    "('a, 'w) SyncEnv \<Rightarrow> hash32 \<Rightarrow> (Block \<times> QuorumCertificate option) list \<Rightarrow> 'a commit_acc \<Rightarrow> nat \<Rightarrow> ('a, 'w) SyncState \<Rightarrow> bool" where
  "replayed env chain_id_hash blocks acc n st' \<longleftrightarrow>
     n \<le> length blocks \<and>
     (\<exists>acc'. commit_blocks (sy_app env) (map fst (take n blocks)) acc = Inr acc' \<and> in_step (ss_pending_epoch st') st' acc' \<and>
        (0 < n \<longrightarrow> ca_last_app_hash acc' = ss_last_app_hash st')) \<and>
     (\<forall>k < n. \<exists>acc'. commit_blocks (sy_app env) (map fst (take (Suc k) blocks)) acc = Inr acc' \<and>
        certified_by env chain_id_hash (ca_active acc') (fst (blocks ! k)) (snd (blocks ! k)))"

lemma replayed_Cons:
  assumes "commit_one (sy_app env) b acc = Inr acc1" "certified_by env chain_id_hash (ca_active acc1) b qc"
    and "in_step pending1 st1 acc1" "ca_last_app_hash acc1 = ss_last_app_hash st1"
    and "replayed env chain_id_hash blocks acc1 n st'" "n = 0 \<Longrightarrow> ss_last_app_hash st' = ss_last_app_hash st1"
  shows "replayed env chain_id_hash ((b, qc) # blocks) acc (Suc n) st'"
proof -
  have all: "\<exists>acc'. commit_blocks (sy_app env) (map fst (take (Suc k) ((b, qc) # blocks))) acc = Inr acc' \<and>
        certified_by env chain_id_hash (ca_active acc') (fst (((b, qc) # blocks) ! k)) (snd (((b, qc) # blocks) ! k))" if "k < Suc n" for k
  proof (cases k)
    case 0
    with assms(1,2) show ?thesis by simp
  next
    case (Suc j)
    with that assms(1,5) show ?thesis by (auto simp: replayed_def)
  qed
  moreover have "\<exists>acc'. commit_blocks (sy_app env) (map fst (take (Suc n) ((b, qc) # blocks))) acc = Inr acc' \<and>
      in_step (ss_pending_epoch st') st' acc' \<and> ca_last_app_hash acc' = ss_last_app_hash st'"
    using assms(1,4-6) by (cases n) (auto simp: replayed_def)
  ultimately show ?thesis using assms(5) unfolding replayed_def by auto
qed

lemma pending_epoch_same: "ss_pending_epoch st = p \<Longrightarrow> st\<lparr>ss_pending_epoch := p\<rparr> = st"
  by (cases st) simp

lemma replay_loop_commit:
  "\<lbrakk> replay_loop env blocks pending st = (st', res); in_step pending st acc; ss_pending_epoch st = pending;
     sorted (map (b_view \<circ> fst) blocks); \<forall>x \<in> set blocks. ep_start_view (ss_current_epoch st) \<le> b_view (fst x);
     \<And>e. res = Inl e \<Longrightarrow> refusal e; expected_parent st = Inr parent \<rbrakk> \<Longrightarrow>
   \<exists>n. (\<forall>p. res = Inr p \<longrightarrow> n = length blocks \<and> p = ss_pending_epoch st') \<and>
     replayed env (ss_chain_id_hash st) blocks acc n st' \<and> hash_chain parent (ss_last_committed_height st) (map fst (take n blocks)) \<and>
     (n = 0 \<longrightarrow> ss_last_app_hash st' = ss_last_app_hash st) \<and>
     replay_loop env (take n blocks) pending st = (st', Inr (ss_pending_epoch st'))"
proof (induction blocks arbitrary: pending st acc parent)
  case Nil
  then show ?case by (auto simp: replayed_def in_step_def)
next
  case (Cons x blocks)
  obtain b qc where x: "x = (b, qc)" by fastforce
  show ?case
  proof (cases "replay_one env b qc pending st")
    case (Pair st1 r1)
    show ?thesis
    proof (cases r1)
      case (Inl e)
      with Pair Cons.prems(1) x have "res = Inl e" "st' = st1" by auto
      moreover have "refusal e" using Cons.prems(6) \<open>res = Inl e\<close> .
      ultimately have "st' = st" using replay_one_refused [of env b qc pending st] Pair Inl by simp
      with Cons.prems(2,3) \<open>res = Inl e\<close> show ?thesis
        by (intro exI [of _ 0]) (auto simp: replayed_def pending_epoch_same)
    next
      case (Inr pending1)
      note one = Pair [unfolded Inr]
      note p = replay_one_parent [OF one]
      have v: "ep_start_view (ss_current_epoch st) \<le> b_view b" using Cons.prems(5) x by simp
      from replay_one_commit(1) [OF one Cons.prems(2) v] obtain acc1 where
        a: "commit_one (sy_app env) b acc = Inr acc1" "in_step pending1 st1 acc1" "ca_last_app_hash acc1 = ss_last_app_hash st1" by blast
      have loop: "replay_loop env blocks pending1 st1 = (st', res)" using Cons.prems(1) one x by simp
      have pe: "ss_pending_epoch st1 = pending1" using replay_one_Inr(6) [OF one refl] .
      have srt: "sorted (map (b_view \<circ> fst) blocks)" and "\<forall>y \<in> set blocks. b_view b \<le> b_view (fst y)" using Cons.prems(4) x by (auto simp: comp_def)
      then have vs: "\<forall>y \<in> set blocks. ep_start_view (ss_current_epoch st1) \<le> b_view (fst y)"
        using replay_one_commit(2) [OF one Cons.prems(2) v] by force
      from Cons.IH [OF loop a(2) pe srt vs Cons.prems(6) p(3)] obtain n where
        n: "\<forall>q. res = Inr q \<longrightarrow> n = length blocks \<and> q = ss_pending_epoch st'"
          "replayed env (ss_chain_id_hash st1) blocks acc1 n st'" "hash_chain (b_hash b) (ss_last_committed_height st1) (map fst (take n blocks))"
          "n = 0 \<longrightarrow> ss_last_app_hash st' = ss_last_app_hash st1"
          "replay_loop env (take n blocks) pending1 st1 = (st', Inr (ss_pending_epoch st'))" by blast
      have "certified_by env (ss_chain_id_hash st) (ca_active acc1) b qc" using p(5) a(2) by (simp add: in_step_def)
      from replayed_Cons [OF a(1) this a(2,3)] n have "replayed env (ss_chain_id_hash st) ((b, qc) # blocks) acc (Suc n) st'"
        by (simp add: p(6))
      with n p Cons.prems(7) x one show ?thesis by (intro exI [of _ "Suc n"]) simp
    qed
  qed
qed

section \<open>A concrete replay\<close>

definition sync_block :: Block where
  "sync_block = genesis_block\<lparr>b_height := 1, b_view := 1, b_proposer := 2, b_hash := hash_rep 7\<rparr>"

definition sync_cert :: QuorumCertificate where
  "sync_cert = \<lparr> qc_block_hash = hash_rep 7, qc_view = 1,
     qc_aggregate_signature = \<lparr> ag_signers = [True, True, False, True], ag_signatures = [[1], [2], [4]] \<rparr>, qc_epoch = 0 \<rparr>"

definition sync_env :: "(nat, unit) SyncEnv" where
  "sync_env = \<lparr> sy_app = sample_app, sy_verify = (\<lambda>pk m sg. sg = [hd pk]), sy_blake3 = (\<lambda>m. hash_rep 7),
     sy_wal = \<lparr> sw_intent = (\<lambda>h w. Some w), sw_done = (\<lambda>h w. Some w) \<rparr> \<rparr>"

definition sync_start :: "(nat, unit) SyncState" where
  "sync_start = \<lparr> ss_store = vb_new, ss_app = 0, ss_current_epoch = epoch_genesis sample_set, ss_last_committed_height = 0,
     ss_last_app_hash = GENESIS_HASH, ss_chain_id_hash = hash_rep 9, ss_pending_epoch = None, ss_previous_epoch = None,
     ss_persistence = None, ss_wal = None \<rparr>"

lemma sync_cert_valid: "sync_verify_vote_qc (sy_verify sync_env) (sy_blake3 sync_env) (hash_rep 9) (epoch_genesis sample_set) sync_cert"
proof -
  have "has_quorum sample_set (qc_aggregate_signature sync_cert)"
    by (simp add: has_quorum_iff [OF sample_set_wf] signer_infos_def sync_cert_def) (simp add: sample_set_def sample_infos_def)
  then show ?thesis
    by (simp add: sync_verify_vote_qc_def sync_verify_vote_aggregate_def sync_cert_def epoch_genesis_def epoch_new_def validator_count_def sync_env_def Let_def)
       (simp add: sample_set_def sample_infos_def)
qed

lemma sync_replays:
  "\<exists>st'. replay_blocks sync_env [(sync_block, Some sync_cert), (sync_block, None)] sync_start = (st', Inl (SyncHeightDiscontinuity 2 1)) \<and>
     ss_last_committed_height st' = 1 \<and> ss_app st' = 1"
proof -
  have "check_replay sync_env sync_start (epoch_genesis sample_set) sync_block (Some sync_cert) = Inr ()"
    using sync_cert_valid
    by (simp add: check_replay_def sync_start_def expected_parent_def sync_block_def genesis_block_def checked_add_def validate_block_evidence_def)
       (simp add: sync_cert_def sync_env_def sample_app_def compute_hash_def epoch_genesis_def epoch_new_def leader_for_view_def validator_count_def
          sample_set_def sample_infos_def validate_block_evidence_def Let_def)
  then have "\<exists>st1. replay_one sync_env sync_block (Some sync_cert) None sync_start = (st1, Inr None) \<and>
      ss_last_committed_height st1 = 1 \<and> ss_app st1 = 1"
    by (simp add: replay_one_def replay_epoch_def activates_def sync_start_def wal_step_def execute_synced_def finish_synced_def Let_def)
       (simp add: sync_env_def sample_app_def execute_committed_block_def sync_block_def genesis_block_def default_EndBlockResponse_def)
  then obtain st1 where one: "replay_one sync_env sync_block (Some sync_cert) None sync_start = (st1, Inr None)"
    "ss_last_committed_height st1 = 1" "ss_app st1 = 1" by blast
  have two: "replay_one sync_env sync_block None None st1 = (st1, Inl (SyncHeightDiscontinuity 2 1))"
    by (simp add: replay_one_def check_replay_def one(2) checked_add_def Let_def) (simp add: sync_block_def)
  have "ss_pending_epoch sync_start = None" by (simp add: sync_start_def)
  with one two show ?thesis by (simp add: replay_blocks_def)
qed

section \<open>Properties\<close>

text \<open>
  C22. Sync derives what live commits derive. Let a peer answer with a list of blocks whose views do not
  decrease and do not precede the start of the current epoch, and let the node hold its last committed
  block. If the replay succeeds, or stops because one of the checks made before anything is written
  refuses a block, then it has executed a prefix of the list, the whole of it on success: a chain
  from the last committed block by heights and hashes, each block under its correct hash and a
  certificate of a quorum of the epoch in force at it. The application, the last committed height, the
  application hash and all three epochs are then those of the loop of \<open>try_commit\<close> on that prefix. The
  whole state, with the store, the write-ahead log and the persisted fields, is the one that replaying
  the prefix alone leaves, so a refused block changes nothing and the node can retry with another peer.
\<close>

theorem sync_replay_matches_commit:
  assumes "replay_blocks env blocks st = (st', res)" "\<And>e. res = Inl e \<Longrightarrow> refusal e"
    and "sorted (map (b_view \<circ> fst) blocks)" "\<forall>x \<in> set blocks. ep_start_view (ss_current_epoch st) \<le> b_view (fst x)"
    and "expected_parent st = Inr parent"
  shows "\<exists>n acc. n \<le> length blocks \<and> (\<forall>p. res = Inr p \<longrightarrow> n = length blocks \<and> p = ss_pending_epoch st') \<and>
    hash_chain parent (ss_last_committed_height st) (map fst (take n blocks)) \<and>
    (\<forall>k < n. \<exists>acc_k. commit_blocks (sy_app env) (map fst (take (Suc k) blocks))
        (initial_acc (ss_current_epoch st) (ss_previous_epoch st) (ss_pending_epoch st) (ss_last_committed_height st) (ss_app st)) = Inr acc_k \<and>
        certified_by env (ss_chain_id_hash st) (ca_active acc_k) (fst (blocks ! k)) (snd (blocks ! k))) \<and>
    commit_blocks (sy_app env) (map fst (take n blocks))
      (initial_acc (ss_current_epoch st) (ss_previous_epoch st) (ss_pending_epoch st) (ss_last_committed_height st) (ss_app st)) = Inr acc \<and>
    ss_app st' = ca_app acc \<and> ss_last_committed_height st' = ca_height acc \<and> ss_current_epoch st' = ca_active acc \<and>
    ss_pending_epoch st' = ca_pending acc \<and> ss_previous_epoch st' = ca_previous acc \<and>
    ss_last_app_hash st' = (if n = 0 then ss_last_app_hash st else ca_last_app_hash acc) \<and>
    replay_blocks env (take n blocks) st = (st', Inr (ss_pending_epoch st'))"
proof -
  let ?i = "initial_acc (ss_current_epoch st) (ss_previous_epoch st) (ss_pending_epoch st) (ss_last_committed_height st) (ss_app st)"
  have "in_step (ss_pending_epoch st) st ?i" by (simp add: in_step_def initial_acc_def)
  from replay_loop_commit [OF assms(1) [unfolded replay_blocks_def] this refl assms(3,4,2,5)] obtain n where
    n: "\<forall>p. res = Inr p \<longrightarrow> n = length blocks \<and> p = ss_pending_epoch st'" "replayed env (ss_chain_id_hash st) blocks ?i n st'"
      "hash_chain parent (ss_last_committed_height st) (map fst (take n blocks))" "n = 0 \<longrightarrow> ss_last_app_hash st' = ss_last_app_hash st"
      "replay_blocks env (take n blocks) st = (st', Inr (ss_pending_epoch st'))" unfolding replay_blocks_def by blast
  from n(2) obtain acc where "commit_blocks (sy_app env) (map fst (take n blocks)) ?i = Inr acc"
    "in_step (ss_pending_epoch st') st' acc" "0 < n \<longrightarrow> ca_last_app_hash acc = ss_last_app_hash st'" unfolding replayed_def by blast
  with n show ?thesis by (intro exI [of _ n] exI [of _ acc]) (auto simp: replayed_def in_step_def)
qed

theorem sync_replay_matches_commit_witness:
  "\<exists>st' acc. replay_blocks sync_env [(sync_block, Some sync_cert), (sync_block, None)] sync_start = (st', Inl (SyncHeightDiscontinuity 2 1)) \<and>
     commit_blocks sample_app [sync_block] (initial_acc (epoch_genesis sample_set) None None 0 0) = Inr acc \<and>
     ss_app st' = ca_app acc \<and> ca_app acc = 1 \<and>
     replay_blocks sync_env [(sync_block, Some sync_cert)] sync_start = (st', Inr (ss_pending_epoch st'))"
proof -
  obtain st' where r: "replay_blocks sync_env [(sync_block, Some sync_cert), (sync_block, None)] sync_start = (st', Inl (SyncHeightDiscontinuity 2 1))"
    "ss_last_committed_height st' = 1" "ss_app st' = 1" using sync_replays by blast
  have s: "ss_current_epoch sync_start = epoch_genesis sample_set" "ss_previous_epoch sync_start = None" "ss_pending_epoch sync_start = None"
    "ss_last_committed_height sync_start = 0" "ss_app sync_start = 0" "sy_app sync_env = sample_app"
    by (simp_all add: sync_start_def sync_env_def)
  let ?bs = "[(sync_block, Some sync_cert), (sync_block, None)]"
  have par: "expected_parent sync_start = Inr GENESIS_HASH" by (simp add: expected_parent_def s)
  have "b_view sync_block = 1" "ep_start_view (epoch_genesis sample_set) = 1" by (simp_all add: sync_block_def epoch_genesis_def epoch_new_def)
  then have v: "sorted (map (b_view \<circ> fst) ?bs)" "\<forall>x \<in> set ?bs. ep_start_view (ss_current_epoch sync_start) \<le> b_view (fst x)"
    by (simp_all add: s)
  have e: "refusal e" if "(Inl (SyncHeightDiscontinuity 2 1) :: sync_error + Epoch option) = Inl e" for e using that by (auto simp: refusal_def)
  obtain n acc where n: "n \<le> length ?bs" "hash_chain GENESIS_HASH 0 (map fst (take n ?bs))"
    "commit_blocks sample_app (map fst (take n ?bs)) (initial_acc (epoch_genesis sample_set) None None 0 0) = Inr acc"
    "ss_app st' = ca_app acc" "ss_last_committed_height st' = ca_height acc"
    "replay_blocks sync_env (take n ?bs) sync_start = (st', Inr (ss_pending_epoch st'))"
    using sync_replay_matches_commit [OF r(1) e v par, unfolded s] by blast
  have "n \<noteq> 0"
  proof
    assume "n = 0"
    with n(3,5) r(2) show False by (auto simp: initial_acc_def)
  qed
  moreover have "n \<noteq> 2" using n(2) by (auto simp: sync_block_def genesis_block_def)
  ultimately have "n = 1" using n(1) by auto
  then have t: "take n ?bs = [(sync_block, Some sync_cert)]" by simp
  from n(3,6) have "commit_blocks sample_app [sync_block] (initial_acc (epoch_genesis sample_set) None None 0 0) = Inr acc"
    "replay_blocks sync_env [(sync_block, Some sync_cert)] sync_start = (st', Inr (ss_pending_epoch st'))"
    unfolding t by simp_all
  with n(4) r show ?thesis by (intro exI [of _ st'] exI [of _ acc]) simp
qed

end
