(* ===== verification/Light.thy ===== *)
theory Light
  imports Sync
begin

text \<open>
  The light client (\<open>hotmint-light/src/lib.rs\<close>): headers are checked against a trusted validator set and a
  trusted checkpoint. The mutex around the checkpoint is never poisoned here, since nothing panics while
  it is held. The proofs of application state are checked by vsdb, which is a parameter.
\<close>

section \<open>State and operations\<close>

record BlockHeader =
  bh_height :: Height
  bh_parent_hash :: BlockHash
  bh_view :: ViewNumber
  bh_proposer :: ValidatorId
  bh_timestamp :: u64
  bh_app_hash :: BlockHash
  bh_hash :: BlockHash

definition header_of_block :: "Block \<Rightarrow> BlockHeader" where
  "header_of_block block = \<lparr> bh_height = b_height block, bh_parent_hash = b_parent_hash block, bh_view = b_view block,
     bh_proposer = b_proposer block, bh_timestamp = b_timestamp block, bh_app_hash = b_app_hash block, bh_hash = b_hash block \<rparr>"

record TrustedState =
  ts_height :: Height
  ts_hash :: "BlockHash option"

record LightClient =
  lc_validator_set :: ValidatorSet
  lc_state :: TrustedState
  lc_chain_id_hash :: hash32

datatype light_error =
    HeightNotAbove Height Height
  | TrustedHashUnavailable Height
  | TrustedHeightOverflow
  | NonAdjacent Height Height
  | ParentHashMismatch BlockHash BlockHash
  | LightQcHashMismatch BlockHash BlockHash
  | LightNoQuorum
  | BitfieldLength
  | SignerOutOfBounds
  | TooFewSignatures
  | LightSignatureInvalid
  | RegressingCheckpoint Height Height
  | ProofCheckFailed string

definition light_new :: "ValidatorSet \<Rightarrow> Height \<Rightarrow> hash32 \<Rightarrow> LightClient" where
  "light_new trusted_validator_set trusted_height chain_id_hash =
     \<lparr> lc_validator_set = trusted_validator_set,
       lc_state = \<lparr> ts_height = trusted_height, ts_hash = (if trusted_height = 0 then Some GENESIS_HASH else None) \<rparr>,
       lc_chain_id_hash = chain_id_hash \<rparr>"

definition new_with_trusted_hash :: "ValidatorSet \<Rightarrow> Height \<Rightarrow> BlockHash \<Rightarrow> hash32 \<Rightarrow> LightClient" where
  "new_with_trusted_hash trusted_validator_set trusted_height trusted_hash chain_id_hash =
     \<lparr> lc_validator_set = trusted_validator_set, lc_state = \<lparr> ts_height = trusted_height, ts_hash = Some trusted_hash \<rparr>,
       lc_chain_id_hash = chain_id_hash \<rparr>"

text \<open>The loop over the signer bits, with its three ways to fail.\<close>

fun light_walk ::
    "(ValidatorInfo \<Rightarrow> Signature \<Rightarrow> bool) \<Rightarrow> ValidatorInfo list \<Rightarrow> Signature list \<Rightarrow> nat \<Rightarrow> nat \<Rightarrow> bool list \<Rightarrow> light_error + nat" where
  "light_walk ok validators sigs idx sig_idx [] = Inr sig_idx"
| "light_walk ok validators sigs idx sig_idx (signs # rest) =
     (if \<not> signs then light_walk ok validators sigs (Suc idx) sig_idx rest
      else case nth_opt validators idx of
             None \<Rightarrow> Inl SignerOutOfBounds
           | Some validator \<Rightarrow>
               (case nth_opt sigs sig_idx of
                  None \<Rightarrow> Inl TooFewSignatures
                | Some signature \<Rightarrow>
                    if \<not> ok validator signature then Inl LightSignatureInvalid
                    else light_walk ok validators sigs (Suc idx) (Suc sig_idx) rest))"

definition verify_header ::
    "(PublicKey \<Rightarrow> bytes \<Rightarrow> Signature \<Rightarrow> bool) \<Rightarrow> (bytes \<Rightarrow> hash32) \<Rightarrow> BlockHeader \<Rightarrow> QuorumCertificate \<Rightarrow> LightClient \<Rightarrow>
     light_error + LightClient" where
  "verify_header verify blake3 header qc c =
     (let trusted = lc_state c; vs = lc_validator_set c; agg = qc_aggregate_signature qc
      in if bh_height header \<le> ts_height trusted then Inl (HeightNotAbove (bh_height header) (ts_height trusted))
         else rbind (ok_or (ts_hash trusted) (TrustedHashUnavailable (ts_height trusted))) (\<lambda>trusted_hash.
         rbind (ok_or (checked_add (ts_height trusted) 1) TrustedHeightOverflow) (\<lambda>expected_height.
         if bh_height header \<noteq> expected_height then Inl (NonAdjacent (bh_height header) (ts_height trusted))
         else if bh_parent_hash header \<noteq> trusted_hash then Inl (ParentHashMismatch trusted_hash (bh_parent_hash header))
         else if qc_block_hash qc \<noteq> bh_hash header then Inl (LightQcHashMismatch (bh_hash header) (qc_block_hash qc))
         else if \<not> has_quorum vs agg then Inl LightNoQuorum
         else if length (ag_signers agg) \<noteq> validator_count vs then Inl BitfieldLength
         else rbind (light_walk
                (\<lambda>v s. verify (vi_public_key v)
                   (vote_signing_bytes blake3 (lc_chain_id_hash c) (qc_epoch qc) (qc_view qc) (vi_id v) (qc_block_hash qc) Vote None) s)
                (vs_validators vs) (ag_signatures agg) 0 0 (ag_signers agg)) (\<lambda>sig_idx.
         if sig_idx \<noteq> length (ag_signatures agg) then Inl LightSignatureInvalid
         else Inr (c\<lparr>lc_state := \<lparr> ts_height = bh_height header, ts_hash = Some (bh_hash header) \<rparr>\<rparr>)))))"

definition update_validator_set :: "ValidatorSet \<Rightarrow> Height \<Rightarrow> BlockHash \<Rightarrow> LightClient \<Rightarrow> light_error + LightClient" where
  "update_validator_set new_vs new_height new_hash c =
     (if new_height < ts_height (lc_state c) then Inl (RegressingCheckpoint (ts_height (lc_state c)) new_height)
      else Inr (c\<lparr>lc_validator_set := new_vs, lc_state := \<lparr> ts_height = new_height, ts_hash = Some new_hash \<rparr>\<rparr>))"

definition trusted_height :: "LightClient \<Rightarrow> Height" where
  "trusted_height c = ts_height (lc_state c)"

definition trusted_hash :: "LightClient \<Rightarrow> BlockHash option" where
  "trusted_hash c = ts_hash (lc_state c)"

text \<open>Both proof checks hand their arguments to the library and rename its error.\<close>

definition verify_state_proof :: "(hash32 \<Rightarrow> bytes \<Rightarrow> 'p \<Rightarrow> string + bool) \<Rightarrow> hash32 \<Rightarrow> bytes \<Rightarrow> 'p \<Rightarrow> light_error + bool" where
  "verify_state_proof verify_proof app_hash expected_key proof =
     (case verify_proof app_hash expected_key proof of Inl e \<Rightarrow> Inl (ProofCheckFailed e) | Inr ok \<Rightarrow> Inr ok)"

text \<open>A caller that verifies a list of headers one after the other and stops at the first refusal.\<close>

fun verify_headers ::
    "(PublicKey \<Rightarrow> bytes \<Rightarrow> Signature \<Rightarrow> bool) \<Rightarrow> (bytes \<Rightarrow> hash32) \<Rightarrow> (BlockHeader \<times> QuorumCertificate) list \<Rightarrow> LightClient \<Rightarrow>
     light_error + LightClient" where
  "verify_headers verify blake3 [] c = Inr c"
| "verify_headers verify blake3 ((header, qc) # rest) c =
     rbind (verify_header verify blake3 header qc c) (verify_headers verify blake3 rest)"

section \<open>What one header needs\<close>

lemma light_walk_eq:
  "(light_walk ok vs sigs i j bits = Inr n) = (signer_walk (\<lambda>_. ok) vs sigs i j bits = Some n)"
  by (induction bits arbitrary: i j) (auto split: option.splits)

text \<open>The certificate of a header: the vote aggregate that the engine's check takes.\<close>

definition header_aggregate :: "LightClient \<Rightarrow> BlockHeader \<Rightarrow> QuorumCertificate \<Rightarrow> VoteAggregateRef" where
  "header_aggregate c header qc =
     \<lparr> va_validator_set = lc_validator_set c, va_epoch = qc_epoch qc, va_view = qc_view qc, va_block_hash = bh_hash header,
       va_vote_type = Vote, va_aggregate_signature = qc_aggregate_signature qc, va_extensions = [] \<rparr>"

definition extends_trusted ::
    "(PublicKey \<Rightarrow> bytes \<Rightarrow> Signature \<Rightarrow> bool) \<Rightarrow> (bytes \<Rightarrow> hash32) \<Rightarrow> LightClient \<Rightarrow> BlockHeader \<Rightarrow> QuorumCertificate \<Rightarrow> bool" where
  "extends_trusted verify blake3 c header qc \<longleftrightarrow>
     unat (bh_height header) = Suc (unat (trusted_height c)) \<and> trusted_hash c = Some (bh_parent_hash header) \<and>
     qc_block_hash qc = bh_hash header \<and> verify_vote_aggregate verify blake3 (lc_chain_id_hash c) (header_aggregate c header qc)"

definition trust_header :: "BlockHeader \<Rightarrow> LightClient \<Rightarrow> LightClient" where
  "trust_header header c = c\<lparr>lc_state := \<lparr> ts_height = bh_height header, ts_hash = Some (bh_hash header) \<rparr>\<rparr>"

lemma checked_add_one: "checked_add h (1 :: u64) = Some k \<longleftrightarrow> unat k = Suc (unat h)"
proof
  assume "checked_add h (1 :: u64) = Some k"
  then show "unat k = Suc (unat h)" using checked_add_unat by fastforce
next
  assume a: "unat k = Suc (unat h)"
  then have "unat h + unat (1 :: u64) < 18446744073709551616" using unat_u64_less [of k] by simp
  moreover from this have "unat (h + 1) = Suc (unat h)" using unat_add_no_overflow [of h 1] by simp
  with a have "k = h + 1" by (simp add: word_unat_eq_iff)
  ultimately show "checked_add h (1 :: u64) = Some k" by (simp add: checked_add_def)
qed

lemma verify_header_iff:
  "verify_header verify blake3 header qc c = Inr c' \<longleftrightarrow> extends_trusted verify blake3 c header qc \<and> c' = trust_header header c"
proof -
  have "\<not> bh_height header \<le> ts_height (lc_state c)" if "unat (bh_height header) = Suc (unat (ts_height (lc_state c)))"
    using that by (simp add: word_le_nat_alt)
  then show ?thesis
    by (auto simp: verify_header_def Let_def rbind_Inr ok_or_Inr light_walk_eq extends_trusted_def trust_header_def checked_add_one
        verify_vote_aggregate_def header_aggregate_def trusted_height_def trusted_hash_def split: option.splits)
qed

lemma trust_header_simps [simp]:
  "lc_validator_set (trust_header h c) = lc_validator_set c" "lc_chain_id_hash (trust_header h c) = lc_chain_id_hash c"
  "trusted_height (trust_header h c) = bh_height h" "trusted_hash (trust_header h c) = Some (bh_hash h)"
  by (simp_all add: trust_header_def trusted_height_def trusted_hash_def)

section \<open>Sequences of headers\<close>

text \<open>
  What the \<open>i\<close>-th header of a sequence needs: its height is the \<open>i\<close>-th above the checkpoint, its parent is the
  block before it, and its certificate passes the engine's check for the trusted set.
\<close>

definition header_ok ::
    "(PublicKey \<Rightarrow> bytes \<Rightarrow> Signature \<Rightarrow> bool) \<Rightarrow> (bytes \<Rightarrow> hash32) \<Rightarrow> LightClient \<Rightarrow> (BlockHeader \<times> QuorumCertificate) list \<Rightarrow> nat \<Rightarrow> bool" where
  "header_ok verify blake3 c hs i \<longleftrightarrow>
     (let (header, qc) = hs ! i; parent = (if i = 0 then trusted_hash c else Some (bh_hash (fst (hs ! (i - 1)))))
      in unat (bh_height header) = unat (trusted_height c) + Suc i \<and> parent = Some (bh_parent_hash header) \<and>
         qc_block_hash qc = bh_hash header \<and> verify_vote_aggregate verify blake3 (lc_chain_id_hash c) (header_aggregate c header qc))"

lemma header_ok_Cons:
  "header_ok verify blake3 c ((h, qc) # hs) 0 = extends_trusted verify blake3 c h qc"
  "unat (bh_height h) = Suc (unat (trusted_height c)) \<Longrightarrow>
   header_ok verify blake3 c ((h, qc) # hs) (Suc i) = header_ok verify blake3 (trust_header h c) hs i"
  by (auto simp: header_ok_def extends_trusted_def header_aggregate_def Let_def split: prod.split nat.split)

lemma all_less_Suc_shift: "(\<forall>i < Suc n. P i) \<longleftrightarrow> P 0 \<and> (\<forall>i < n. P (Suc i))"
  by (auto simp: less_Suc_eq_0_disj)

lemma verify_headers_iff:
  "verify_headers verify blake3 hs c = Inr c' \<longleftrightarrow>
     (\<forall>i < length hs. header_ok verify blake3 c hs i) \<and> c' = (if hs = [] then c else trust_header (fst (last hs)) c)"
proof (induction hs arbitrary: c)
  case (Cons x hs)
  obtain h qc where x: "x = (h, qc)" by fastforce
  show ?case
  proof (cases "extends_trusted verify blake3 c h qc")
    case True
    then have "unat (bh_height h) = Suc (unat (trusted_height c))" by (simp add: extends_trusted_def)
    moreover have "trust_header h' (trust_header h c) = trust_header h' c" for h' by (simp add: trust_header_def)
    ultimately show ?thesis
      using True by (simp add: x rbind_Inr verify_header_iff Cons.IH all_less_Suc_shift header_ok_Cons)
  next
    case False
    then show ?thesis by (simp add: x rbind_Inr verify_header_iff all_less_Suc_shift header_ok_Cons)
  qed
qed auto

text \<open>A light client with the set of the epoch accepts the headers of blocks that a replay has accepted.\<close>

lemma verify_headers_synced:
  "\<lbrakk> hash_chain parent h (map fst blocks); trusted_height c = h; trusted_hash c = Some parent;
     lc_validator_set c = ep_validator_set epoch; lc_chain_id_hash c = chain_id_hash;
     \<And>b qc. (b, qc) \<in> set blocks \<Longrightarrow> certified_by env chain_id_hash epoch b qc \<rbrakk> \<Longrightarrow>
   \<exists>c'. verify_headers (sy_verify env) (sy_blake3 env) (map (\<lambda>(b, qc). (header_of_block b, the qc)) blocks) c = Inr c'"
proof (induction blocks arbitrary: parent h c)
  case (Cons x blocks)
  obtain b qc where x: "x = (b, qc)" by fastforce
  have cert: "certified_by env chain_id_hash epoch b qc" using Cons.prems(6) x by simp
  have ext: "extends_trusted (sy_verify env) (sy_blake3 env) c (header_of_block b) (the qc)"
    using Cons.prems(1-5) cert x by (auto simp: extends_trusted_def header_of_block_def header_aggregate_def certified_by_def)
  have "\<exists>c'. verify_headers (sy_verify env) (sy_blake3 env) (map (\<lambda>(b, qc). (header_of_block b, the qc)) blocks)
      (trust_header (header_of_block b) c) = Inr c'"
    using Cons.prems x by (intro Cons.IH [of "b_hash b" "b_height b"]) (auto simp: header_of_block_def)
  moreover have "verify_header (sy_verify env) (sy_blake3 env) (header_of_block b) (the qc) c = Inr (trust_header (header_of_block b) c)"
    using ext by (simp add: verify_header_iff)
  ultimately show ?case using x by (simp add: rbind_Inr)
qed simp

text \<open>
  The hash of a header is not recomputed: whatever block a certificate of the trusted set stands for, a
  header with its hash and the expected height and parent is accepted.
\<close>

lemma verify_header_accepts_any_certified:
  assumes "verify_vote_aggregate verify blake3 (lc_chain_id_hash c)
      \<lparr> va_validator_set = lc_validator_set c, va_epoch = qc_epoch qc, va_view = qc_view qc, va_block_hash = qc_block_hash qc,
        va_vote_type = Vote, va_aggregate_signature = qc_aggregate_signature qc, va_extensions = [] \<rparr>"
    and "unat h = Suc (unat (trusted_height c))" "trusted_hash c = Some parent"
  shows "\<exists>c'. verify_header verify blake3
      (header\<lparr>bh_height := h, bh_parent_hash := parent, bh_hash := qc_block_hash qc\<rparr>) qc c = Inr c'"
  using assms by (simp add: verify_header_iff extends_trusted_def header_aggregate_def)

section \<open>Properties\<close>

text \<open>
  C23. A light client accepts a sequence of headers exactly if it is a chain on its checkpoint: heights
  without a gap, each header naming the hash before it, and each with a certificate for its hash that
  passes the check of the engine for the trusted set (a valid signature of every marked validator and
  quorum power). The checkpoint then is the last header, and the trusted set is unchanged.
\<close>

theorem light_client_follows_chain:
  "verify_headers verify blake3 hs c = Inr c' \<longleftrightarrow>
     (\<forall>i < length hs. header_ok verify blake3 c hs i) \<and> c' = (if hs = [] then c else trust_header (fst (last hs)) c)"
  by (rule verify_headers_iff)

theorem light_client_follows_chain_witness:
  "verify_headers (sy_verify sync_env) (sy_blake3 sync_env) [(header_of_block sync_block, sync_cert)]
     (light_new sample_set 0 (hash_rep 9)) =
   Inr \<lparr> lc_validator_set = sample_set, lc_state = \<lparr> ts_height = 1, ts_hash = Some (hash_rep 7) \<rparr>, lc_chain_id_hash = hash_rep 9 \<rparr>"
proof -
  have "verify_vote_aggregate (sy_verify sync_env) (sy_blake3 sync_env) (hash_rep 9)
      (header_aggregate (light_new sample_set 0 (hash_rep 9)) (header_of_block sync_block) sync_cert)"
    using sync_cert_valid
    by (simp add: sync_verify_vote_qc_def sync_verify_vote_aggregate_eq epoch_genesis_def epoch_new_def header_aggregate_def
        light_new_def header_of_block_def sync_block_def) (simp add: sync_cert_def)
  then have "header_ok (sy_verify sync_env) (sy_blake3 sync_env) (light_new sample_set 0 (hash_rep 9)) [(header_of_block sync_block, sync_cert)] 0"
    by (simp add: header_ok_def light_new_def header_of_block_def sync_block_def genesis_block_def sync_cert_def trusted_height_def trusted_hash_def)
  moreover have "trust_header (header_of_block sync_block) (light_new sample_set 0 (hash_rep 9)) =
      \<lparr> lc_validator_set = sample_set, lc_state = \<lparr> ts_height = 1, ts_hash = Some (hash_rep 7) \<rparr>, lc_chain_id_hash = hash_rep 9 \<rparr>"
    by (simp add: trust_header_def light_new_def header_of_block_def sync_block_def)
  ultimately show ?thesis unfolding light_client_follows_chain by simp
qed

end
