(* ===== verification/Peers.thy ===== *)
theory Peers
  imports Types "HOL-Library.AList" "HOL-Library.Multiset"
begin

text \<open>
  The parts of \<open>hotmint-network\<close> below the service: the wire codec (\<open>codec.rs\<close>), the routing table between
  validators and peers (\<open>PeerMap\<close> of \<open>service.rs\<close>), the address book (\<open>peer.rs\<close>) and the messages of the
  peer exchange (\<open>pex.rs\<close>). The identities of peers are those of litep2p and a type parameter here;
  postcard, zstd and the JSON library are parameters.
\<close>

section \<open>Wire codec\<close>

record 'a PostcardCodec =
  pc_to_allocvec :: "'a \<Rightarrow> string + bytes"
  pc_from_bytes :: "bytes \<Rightarrow> string + 'a"

text \<open>\<open>zs_read\<close> decompresses and reads at most the given number of bytes, as \<open>Decoder::new\<close>, \<open>take\<close> and \<open>read_to_end\<close>.\<close>

record Zstd =
  zs_encode_all :: "bytes \<Rightarrow> string + bytes"
  zs_read :: "nat \<Rightarrow> bytes \<Rightarrow> string + bytes"

definition COMPRESS_THRESHOLD :: nat where
  "COMPRESS_THRESHOLD = 256"

definition MAX_DECOMPRESSED_SIZE :: nat where
  "MAX_DECOMPRESSED_SIZE = 16 * 1024 * 1024"

definition TAG_RAW :: u8 where
  "TAG_RAW = 0"

definition TAG_ZSTD :: u8 where
  "TAG_ZSTD = 1"

datatype EncodeError = EncodePostcard string | EncodeZstd string

datatype DecodeError = EmptyFrame | UnknownTag u8 | DecodePostcard string | DecodeZstd string | DecompressedTooLarge

definition map_err :: "('e \<Rightarrow> 'f) \<Rightarrow> 'e + 'a \<Rightarrow> 'f + 'a" where
  "map_err f m = (case m of Inl e \<Rightarrow> Inl (f e) | Inr a \<Rightarrow> Inr a)"

definition encode :: "Zstd \<Rightarrow> 'a PostcardCodec \<Rightarrow> 'a \<Rightarrow> EncodeError + bytes" where
  "encode zs pc value =
     rbind (map_err EncodePostcard (pc_to_allocvec pc value)) (\<lambda>raw.
     if length raw > COMPRESS_THRESHOLD
     then rbind (map_err EncodeZstd (zs_encode_all zs raw)) (\<lambda>compressed. Inr (TAG_ZSTD # compressed))
     else Inr (TAG_RAW # raw))"

definition decode :: "Zstd \<Rightarrow> 'a PostcardCodec \<Rightarrow> bytes \<Rightarrow> DecodeError + 'a" where
  "decode zs pc data =
     (case data of
        [] \<Rightarrow> Inl EmptyFrame
      | tag # rest \<Rightarrow>
          if tag = TAG_RAW then map_err DecodePostcard (pc_from_bytes pc rest)
          else if tag = TAG_ZSTD then
            rbind (map_err DecodeZstd (zs_read zs (MAX_DECOMPRESSED_SIZE + 1) rest)) (\<lambda>decompressed.
            if length decompressed > MAX_DECOMPRESSED_SIZE then Inl DecompressedTooLarge
            else map_err DecodePostcard (pc_from_bytes pc decompressed))
          else Inl (UnknownTag tag))"

definition hex_byte :: "u8 \<Rightarrow> string" where
  "hex_byte b = [''0123456789abcdef'' ! (unat b div 16), ''0123456789abcdef'' ! (unat b mod 16)]"

fun display_DecodeError :: "DecodeError \<Rightarrow> string" where
  "display_DecodeError EmptyFrame = ''empty frame''"
| "display_DecodeError (UnknownTag tag) = ''unknown codec tag: 0x'' @ hex_byte tag"
| "display_DecodeError (DecodePostcard e) = ''postcard: '' @ e"
| "display_DecodeError (DecodeZstd e) = ''zstd: '' @ e"
| "display_DecodeError DecompressedTooLarge = ''decompressed payload exceeds 16777216 bytes''"

text \<open>What is documented of the libraries: decoding inverts encoding, and decompression, read in part, compression.\<close>

definition codec_ok :: "'a PostcardCodec \<Rightarrow> bool" where
  "codec_ok pc \<longleftrightarrow> (\<forall>v bs. pc_to_allocvec pc v = Inr bs \<longrightarrow> pc_from_bytes pc bs = Inr v)"

definition zstd_ok :: "Zstd \<Rightarrow> bool" where
  "zstd_ok zs \<longleftrightarrow> (\<forall>raw bs n. zs_encode_all zs raw = Inr bs \<longrightarrow> zs_read zs n bs = Inr (take n raw))"

lemma map_err_Inr [simp]: "map_err f m = Inr a \<longleftrightarrow> m = Inr a"
  by (auto simp: map_err_def split: sum.splits)

lemma decode_encode:
  assumes "codec_ok pc" "zstd_ok zs" "encode zs pc v = Inr bs" "pc_to_allocvec pc v = Inr raw"
  shows "decode zs pc bs = (if length raw \<le> MAX_DECOMPRESSED_SIZE then Inr v else Inl DecompressedTooLarge)"
proof -
  have p: "pc_from_bytes pc raw = Inr v" using assms(1,4) by (auto simp: codec_ok_def)
  show ?thesis
  proof (cases "length raw > COMPRESS_THRESHOLD")
    case True
    then obtain c where c: "zs_encode_all zs raw = Inr c" "bs = TAG_ZSTD # c"
      using assms(3,4) by (auto simp: encode_def rbind_Inr)
    then have "zs_read zs (MAX_DECOMPRESSED_SIZE + 1) c = Inr (take (MAX_DECOMPRESSED_SIZE + 1) raw)"
      using assms(2) by (auto simp: zstd_ok_def)
    then show ?thesis using p c(2) by (simp add: decode_def TAG_RAW_def TAG_ZSTD_def map_err_def rbind_def min_def)
  next
    case False
    then have "bs = TAG_RAW # raw" "length raw \<le> MAX_DECOMPRESSED_SIZE"
      using assms(3,4) by (auto simp: encode_def rbind_Inr COMPRESS_THRESHOLD_def MAX_DECOMPRESSED_SIZE_def)
    with p show ?thesis by (simp add: decode_def map_err_def)
  qed
qed

section \<open>Routing table\<close>

record 'p PeerMap =
  rt_v2p :: "ValidatorId \<rightharpoonup> 'p"
  rt_p2v :: "'p \<rightharpoonup> ValidatorId"

definition rt_new :: "'p PeerMap" where
  "rt_new = \<lparr> rt_v2p = Map.empty, rt_p2v = Map.empty \<rparr>"

definition rt_insert :: "ValidatorId \<Rightarrow> 'p \<Rightarrow> 'p PeerMap \<Rightarrow> 'p PeerMap" where
  "rt_insert vid pid m =
     (let p2v = (case rt_v2p m vid of Some old_pid \<Rightarrow> (rt_p2v m)(old_pid := None) | None \<Rightarrow> rt_p2v m);
          v2p = (rt_v2p m)(vid \<mapsto> pid)
      in \<lparr> rt_v2p = (case p2v pid of Some old_vid \<Rightarrow> if old_vid \<noteq> vid then v2p(old_vid := None) else v2p | None \<Rightarrow> v2p),
           rt_p2v = p2v(pid \<mapsto> vid) \<rparr>)"

definition rt_remove :: "ValidatorId \<Rightarrow> 'p PeerMap \<Rightarrow> 'p PeerMap \<times> 'p option" where
  "rt_remove vid m =
     (case rt_v2p m vid of
        Some pid \<Rightarrow> (\<lparr> rt_v2p = (rt_v2p m)(vid := None), rt_p2v = (rt_p2v m)(pid := None) \<rparr>, Some pid)
      | None \<Rightarrow> (m, None))"

text \<open>The two directions are inverse to each other.\<close>

definition rt_wf :: "'p PeerMap \<Rightarrow> bool" where
  "rt_wf m \<longleftrightarrow> (\<forall>v p. rt_v2p m v = Some p \<longleftrightarrow> rt_p2v m p = Some v)"

lemma rt_wf_new [simp]: "rt_wf rt_new"
  by (simp add: rt_wf_def rt_new_def)

lemma rt_wf_unique: "\<lbrakk> rt_wf m; rt_p2v m p = Some v; rt_p2v m q = Some v \<rbrakk> \<Longrightarrow> p = q"
  unfolding rt_wf_def by (metis option.inject)

lemma rt_insert_v2p:
  "rt_wf m \<Longrightarrow> rt_v2p (rt_insert v p m) = (\<lambda>w. if w = v then Some p else if rt_v2p m w = Some p then None else rt_v2p m w)"
  by (rule ext) (auto simp: rt_insert_def Let_def rt_wf_def split: option.splits)

lemma rt_wf_insert:
  assumes "rt_wf m"
  shows "rt_wf (rt_insert v p m)"
proof -
  have "rt_p2v (rt_insert v p m) = (\<lambda>q. if q = p then Some v else if rt_p2v m q = Some v then None else rt_p2v m q)"
  proof
    fix q
    have "rt_p2v m q = Some v \<longleftrightarrow> rt_v2p m v = Some q" using assms by (simp add: rt_wf_def)
    then show "rt_p2v (rt_insert v p m) q = (if q = p then Some v else if rt_p2v m q = Some v then None else rt_p2v m q)"
      by (auto simp: rt_insert_def Let_def split: option.splits)
  qed
  with assms rt_wf_unique [OF assms] show ?thesis unfolding rt_wf_def by (auto simp: rt_insert_v2p [OF assms])
qed

lemma rt_remove_v2p [simp]: "rt_v2p (fst (rt_remove v m)) = (rt_v2p m)(v := None)"
  by (auto simp: rt_remove_def fun_eq_iff split: option.splits)

lemma rt_wf_remove:
  assumes "rt_wf m"
  shows "rt_wf (fst (rt_remove v m))"
proof (cases "rt_v2p m v")
  case (Some p)
  then have pv: "rt_p2v m p = Some v" using assms by (simp add: rt_wf_def)
  have e: "fst (rt_remove v m) = \<lparr> rt_v2p = (rt_v2p m)(v := None), rt_p2v = (rt_p2v m)(p := None) \<rparr>"
    by (simp add: rt_remove_def Some)
  have "(rt_v2p m w = Some q \<and> w \<noteq> v) \<longleftrightarrow> (rt_p2v m q = Some w \<and> q \<noteq> p)" for w q
    using assms pv rt_wf_unique [OF assms, of q v p] unfolding rt_wf_def by auto
  then show ?thesis unfolding rt_wf_def e by auto
qed (use assms in \<open>simp add: rt_remove_def\<close>)

section \<open>Address book\<close>

datatype PeerRole = ValidatorRole | Fullnode

record PeerInfo =
  pi_peer_id :: string
  pi_role :: PeerRole
  pi_validator_id :: "u64 option"
  pi_addresses :: "string list"
  pi_last_seen :: u64
  pi_score :: int

definition BAN_THRESHOLD :: int where
  "BAN_THRESHOLD = - 100"

text \<open>\<open>now\<close> is the reading of \<open>now_secs\<close>; the strings are those of the peer and of the addresses.\<close>

definition peer_info_new :: "u64 \<Rightarrow> string \<Rightarrow> PeerRole \<Rightarrow> string list \<Rightarrow> PeerInfo" where
  "peer_info_new now peer_id role addresses =
     \<lparr> pi_peer_id = peer_id, pi_role = role, pi_validator_id = None, pi_addresses = addresses, pi_last_seen = now, pi_score = 0 \<rparr>"

definition with_validator :: "ValidatorId \<Rightarrow> PeerInfo \<Rightarrow> PeerInfo" where
  "with_validator vid p = p\<lparr>pi_validator_id := Some vid\<rparr>"

definition is_banned :: "PeerInfo \<Rightarrow> bool" where
  "is_banned p = (pi_score p \<le> BAN_THRESHOLD)"

definition touch :: "u64 \<Rightarrow> PeerInfo \<Rightarrow> PeerInfo" where
  "touch now p = p\<lparr>pi_last_seen := now\<rparr>"

type_synonym PeerBook = "(string \<times> PeerInfo) list"

definition pb_new :: PeerBook where
  "pb_new = []"

text \<open>The file is missing, unreadable, or has a content.\<close>

definition pb_load :: "(string \<Rightarrow> string + PeerBook) \<Rightarrow> (string + string) option \<Rightarrow> string + PeerBook" where
  "pb_load from_json contents =
     (case contents of None \<Rightarrow> Inr pb_new | Some c \<Rightarrow> rbind c from_json)"

definition add_peer :: "PeerInfo \<Rightarrow> PeerBook \<Rightarrow> PeerBook" where
  "add_peer info book = AList.update (pi_peer_id info) info book"

definition remove_peer :: "string \<Rightarrow> PeerBook \<Rightarrow> PeerBook" where
  "remove_peer peer_id book = AList.delete peer_id book"

definition pb_get :: "string \<Rightarrow> PeerBook \<Rightarrow> PeerInfo option" where
  "pb_get peer_id book = map_of book peer_id"

definition pb_modify :: "string \<Rightarrow> (PeerInfo \<Rightarrow> PeerInfo) \<Rightarrow> PeerBook \<Rightarrow> PeerBook" where
  "pb_modify peer_id f book = (case map_of book peer_id of Some p \<Rightarrow> AList.update peer_id (f p) book | None \<Rightarrow> book)"

definition get_peers_by_role :: "PeerRole \<Rightarrow> PeerBook \<Rightarrow> PeerInfo list" where
  "get_peers_by_role role book = filter (\<lambda>p. pi_role p = role \<and> \<not> is_banned p) (map snd book)"

text \<open>\<open>shuffle\<close> is the random permutation.\<close>

definition get_random_peers :: "(PeerInfo list \<Rightarrow> PeerInfo list) \<Rightarrow> nat \<Rightarrow> PeerBook \<Rightarrow> PeerInfo list" where
  "get_random_peers shuffle n book = take n (shuffle (filter (\<lambda>p. \<not> is_banned p) (map snd book)))"

definition i32_saturating_add :: "int \<Rightarrow> int \<Rightarrow> int" where
  "i32_saturating_add a b = max (- 2147483648) (min 2147483647 (a + b))"

definition adjust_score :: "string \<Rightarrow> int \<Rightarrow> PeerBook \<Rightarrow> PeerBook" where
  "adjust_score peer_id delta = pb_modify peer_id (\<lambda>p. p\<lparr>pi_score := min (i32_saturating_add (pi_score p) delta) 100\<rparr>)"

definition prune_stale :: "u64 \<Rightarrow> u64 \<Rightarrow> PeerBook \<Rightarrow> PeerBook" where
  "prune_stale now max_age_secs book =
     (let cutoff = saturating_sub now max_age_secs
      in filter (\<lambda>(k, p). pi_last_seen p \<ge> cutoff \<or> pi_role p = ValidatorRole) book)"

section \<open>Peer exchange\<close>

datatype PexRequest = GetPeers | Advertise PeerRole "u64 option" "string list"

datatype PexResponse = Peers "PeerInfo list" | Ack

record PexConfig =
  px_enabled :: bool
  px_max_peers :: nat
  px_request_interval_secs :: u64
  px_max_peers_per_response :: nat
  px_private_peer_ids :: "string list"

definition default_PexConfig :: PexConfig where
  "default_PexConfig = \<lparr> px_enabled = True, px_max_peers = 50, px_request_interval_secs = 30,
     px_max_peers_per_response = 32, px_private_peer_ids = [] \<rparr>"

text \<open>
  The book is keyed by the identity stored in the entry. An entry of any score is replaced, with the
  score it comes with, by an entry added under its identity.
\<close>

definition pb_wf :: "PeerBook \<Rightarrow> bool" where
  "pb_wf book \<longleftrightarrow> distinct (map fst book) \<and> (\<forall>(k, p) \<in> set book. pi_peer_id p = k)"

lemma pb_wf_new [simp]: "pb_wf pb_new"
  by (simp add: pb_wf_def pb_new_def)

lemma set_update_subset: "set (AList.update k v xs) \<subseteq> insert (k, v) (set xs)"
  by (induction xs) auto

lemma pb_wf_add_peer: "pb_wf book \<Longrightarrow> pb_wf (add_peer info book)"
  using set_update_subset [of "pi_peer_id info" info book] by (auto simp: pb_wf_def add_peer_def distinct_update)

lemma pb_wf_modify:
  assumes "pb_wf book" "\<And>p. pi_peer_id (f p) = pi_peer_id p"
  shows "pb_wf (pb_modify k f book)"
proof (cases "map_of book k")
  case (Some p)
  have "(k, p) \<in> set book" using Some by (rule map_of_SomeD)
  then have "pi_peer_id (f p) = k" using assms by (auto simp: pb_wf_def)
  then show ?thesis
    using assms(1) Some set_update_subset [of k "f p" book] by (auto simp: pb_wf_def pb_modify_def distinct_update)
qed (use assms in \<open>simp add: pb_modify_def\<close>)

lemma pb_wf_prune: "pb_wf book \<Longrightarrow> pb_wf (prune_stale now age book)"
  unfolding pb_wf_def prune_stale_def Let_def by (auto intro: distinct_map_filter)

lemma get_random_peers_sound:
  assumes "\<And>xs. mset (shuffle xs) = mset xs" "p \<in> set (get_random_peers shuffle n book)"
  shows "p \<in> snd ` set book" "\<not> is_banned p"
proof -
  have "p \<in> set (shuffle (filter (\<lambda>p. \<not> is_banned p) (map snd book)))"
    using assms(2) by (auto simp: get_random_peers_def dest: in_set_takeD)
  then have "p \<in> set (filter (\<lambda>p. \<not> is_banned p) (map snd book))" using assms(1) by (metis mset_eq_setD)
  then show "p \<in> snd ` set book" "\<not> is_banned p" by auto
qed

lemma add_peer_lifts_ban:
  "pb_get (pi_peer_id info) (add_peer info book) = Some info"
  by (simp add: pb_get_def add_peer_def update_conv')

end
