(* ===== verification/Network.thy ===== *)
theory Network
  imports Peers Sync
begin

text \<open>
  The network service (\<open>hotmint-network/src/service.rs\<close>): its state, the handler of every kind of event and
  the sink of the consensus engine. A handler takes the state and returns the new state with what it
  asks litep2p and the channels to do. What an event does not determine (the clock, room in a bounded
  queue, the iteration order of a hash set, random choices) is a record \<open>Tick\<close> given with it.
\<close>

section \<open>Environment and state\<close>

text \<open>The codecs, hashes and keys; the texts of peers and addresses; the peer that belongs to a key.\<close>

record ('p, 'm) NetEnv =
  ne_ed :: Ed25519
  ne_blake3 :: "bytes \<Rightarrow> hash32"
  ne_zstd :: Zstd
  ne_msg :: "ConsensusMessage PostcardCodec"
  ne_sync_request :: "SyncRequest PostcardCodec"
  ne_sync_response :: "SyncResponse PostcardCodec"
  ne_pex_request :: "PexRequest PostcardCodec"
  ne_pex_response :: "PexResponse PostcardCodec"
  ne_peer_string :: "'p \<Rightarrow> string"
  ne_parse_peer :: "string \<Rightarrow> 'p option"
  ne_addr_string :: "'m \<Rightarrow> string"
  ne_parse_addr :: "string \<Rightarrow> 'm option"
  ne_with_p2p :: "'m \<Rightarrow> 'p \<Rightarrow> 'm"
  ne_peer_of_key :: "PublicKey \<Rightarrow> 'p option"

text \<open>Instants are nanoseconds; \<open>tk_secs\<close> is the wall clock.\<close>

record 'p Tick =
  tk_now :: int
  tk_secs :: u64
  tk_room :: bool
  tk_peers :: "'p set \<Rightarrow> 'p list"
  tk_ids :: "ValidatorId set \<Rightarrow> ValidatorId list"
  tk_shuffle :: "PeerInfo list \<Rightarrow> PeerInfo list"
  tk_index :: "nat \<Rightarrow> nat"

record 'p NetworkService =
  ns_peer_map :: "'p PeerMap"
  ns_peer_book :: PeerBook
  ns_pex_config :: PexConfig
  ns_persistent_peers :: "ValidatorId \<rightharpoonup> 'p"
  ns_relay_consensus :: bool
  ns_validator_keys :: "ValidatorId \<rightharpoonup> PublicKey"
  ns_validator_ids_ordered :: "ValidatorId list"
  ns_current_validator_set :: ValidatorSet
  ns_chain_id_hash :: hash32
  ns_current_epoch :: EpochNumber
  ns_notif_connected_peers :: "'p set"
  ns_connected_peers :: "'p set"
  ns_seen_active :: "hash32 set"
  ns_seen_backup :: "hash32 set"
  ns_consensus_peer_rate :: "'p \<rightharpoonup> int \<times> nat"
  ns_pex_rate_limit :: "'p \<rightharpoonup> int"
  ns_mempool_seen_active :: "hash32 set"
  ns_mempool_seen_backup :: "hash32 set"
  ns_mempool_notif_connected_peers :: "'p set"
  ns_mempool_peer_rate :: "'p \<rightharpoonup> int \<times> nat"

record ('p, 'm) NetworkConfig =
  nc_peer_map :: "'p PeerMap"
  nc_known_addresses :: "('p \<times> 'm list) list"
  nc_peer_book :: PeerBook
  nc_pex_config :: PexConfig
  nc_relay_consensus :: bool
  nc_initial_validator_set :: ValidatorSet
  nc_chain_id_hash :: hash32

datatype 'p NetCommand =
    Broadcast bytes
  | SendTo ValidatorId bytes
  | SyncRequestTo 'p bytes
  | SyncRespond nat bytes
  | BroadcastTx bytes

datatype 'p NotificationEvent =
    ValidateSubstream 'p bytes
  | NotificationStreamOpened 'p
  | NotificationStreamClosed 'p
  | NotificationReceived 'p bytes
  | NotificationStreamOpenFailure 'p

text \<open>The last argument of a failure is its debug text.\<close>

datatype 'p RequestResponseEvent =
    RequestReceived 'p nat bytes
  | ResponseReceived 'p nat bytes
  | RequestFailed 'p nat string

datatype 'p Litep2pEvent = ConnectionEstablished 'p | ConnectionClosed 'p | OtherLitep2pEvent

datatype ('p, 'm) net_effect =
    Dial 'm
  | AddKnownAddress 'p "'m list"
  | NotifValidation 'p bool
  | SendNotification 'p bytes
  | MempoolValidation 'p bool
  | SendMempoolNotification 'p bytes
  | OpenSubstream 'p
  | OpenMempoolSubstream 'p
  | DeliverMessage ValidatorId ConsensusMessage
  | RejectRequest nat
  | SendResponse nat bytes
  | SendRequest 'p bytes
  | RejectSync nat
  | SendSyncResponse nat bytes
  | SendSyncRequest 'p bytes
  | DeliverSyncRequest nat 'p SyncRequest
  | DeliverSyncResponse SyncResponse
  | RejectPex nat
  | SendPexResponse nat bytes
  | SendPexRequest 'p bytes
  | DeliverTx bytes
  | ConnectedCount nat
  | NotifConnectedCount nat
  | PeerStatusUpdate "(ValidatorId \<times> string) list"
  | SavePeerBook PeerBook

type_synonym ('p, 'm) net_result = "'p NetworkService \<times> ('p, 'm) net_effect list"

definition MAX_CONSENSUS_INGRESS_BYTES_PER_SEC :: nat where
  "MAX_CONSENSUS_INGRESS_BYTES_PER_SEC = 32 * 1024 * 1024"

definition MAX_TX_BYTES_PER_SEC :: nat where
  "MAX_TX_BYTES_PER_SEC = 4 * 1024 * 1024"

text \<open>
  The maximum frame sizes \<open>create\<close> builds the protocols with (\<open>with_max_size\<close>). litep2p sends no frame
  above the maximum of its protocol: an effect that sends is made for a frame within it only.
\<close>

definition MAX_NOTIFICATION_SIZE :: nat where
  "MAX_NOTIFICATION_SIZE = 16 * 1024 * 1024"

definition MAX_MEMPOOL_NOTIF_SIZE :: nat where
  "MAX_MEMPOOL_NOTIF_SIZE = 512 * 1024"

definition PEX_MAX_SIZE :: nat where
  "PEX_MAX_SIZE = 1024 * 1024"

definition sized :: "nat \<Rightarrow> bytes \<Rightarrow> ('p, 'm) net_effect list \<Rightarrow> ('p, 'm) net_effect list" where
  "sized max_size frame effects = (if length frame \<le> max_size then effects else [])"

lemma set_sized [simp]: "eff \<in> set (sized n bs effs) \<longleftrightarrow> length bs \<le> n \<and> eff \<in> set effs"
  by (simp add: sized_def)

text \<open>A duration of that many seconds.\<close>

definition from_secs :: "int \<Rightarrow> int" where
  "from_secs n = n * 1000000000"

section \<open>Creation\<close>

definition keys_of :: "ValidatorSet \<Rightarrow> ValidatorId \<rightharpoonup> PublicKey" where
  "keys_of vs = map_of (rev (map (\<lambda>v. (vi_id v, vi_public_key v)) (vs_validators vs)))"

definition ids_of :: "ValidatorSet \<Rightarrow> ValidatorId list" where
  "ids_of vs = map vi_id (vs_validators vs)"

definition net_create :: "('p, 'm) NetworkConfig \<Rightarrow> 'p NetworkService" where
  "net_create config =
     \<lparr> ns_peer_map = nc_peer_map config, ns_peer_book = nc_peer_book config, ns_pex_config = nc_pex_config config,
       ns_persistent_peers = rt_v2p (nc_peer_map config), ns_relay_consensus = nc_relay_consensus config,
       ns_validator_keys = keys_of (nc_initial_validator_set config),
       ns_validator_ids_ordered = ids_of (nc_initial_validator_set config),
       ns_current_validator_set = nc_initial_validator_set config, ns_chain_id_hash = nc_chain_id_hash config,
       ns_current_epoch = 0, ns_notif_connected_peers = {}, ns_connected_peers = {}, ns_seen_active = {}, ns_seen_backup = {},
       ns_consensus_peer_rate = Map.empty, ns_pex_rate_limit = Map.empty, ns_mempool_seen_active = {}, ns_mempool_seen_backup = {},
       ns_mempool_notif_connected_peers = {}, ns_mempool_peer_rate = Map.empty \<rparr>"

text \<open>What the loop dials before its first event.\<close>

definition initial_dial_addresses :: "('p, 'm) NetEnv \<Rightarrow> ('p, 'm) NetworkConfig \<Rightarrow> 'm list" where
  "initial_dial_addresses env config =
     concat (map (\<lambda>(pid, addrs). map (\<lambda>addr. ne_with_p2p env addr pid) addrs) (nc_known_addresses config))"

section \<open>Consensus messages\<close>

definition check_consensus_ingress_budget :: "int \<Rightarrow> 'p \<Rightarrow> nat \<Rightarrow> 'p NetworkService \<Rightarrow> 'p NetworkService \<times> bool" where
  "check_consensus_ingress_budget now peer n s =
     (let entry = (case ns_consensus_peer_rate s peer of Some e \<Rightarrow> e | None \<Rightarrow> (now, 0));
          (since, used) = (if now - fst entry \<ge> from_secs 1 then (now, 0) else entry)
      in if used + n \<le> MAX_CONSENSUS_INGRESS_BYTES_PER_SEC
         then (s\<lparr>ns_consensus_peer_rate := (ns_consensus_peer_rate s)(peer \<mapsto> (since, used + n))\<rparr>, True)
         else (s\<lparr>ns_consensus_peer_rate := (ns_consensus_peer_rate s)(peer \<mapsto> (since, used))\<rparr>, False))"

fun should_accept_consensus_from_peer :: "'p NetworkService \<Rightarrow> ValidatorId \<Rightarrow> ConsensusMessage \<Rightarrow> bool" where
  "should_accept_consensus_from_peer s sender (Propose block justify double_cert signature ancestors) =
     (ns_validator_keys s (b_proposer block) \<noteq> None)"
| "should_accept_consensus_from_peer s sender (VoteMsg vote) = (ns_validator_keys s (v_validator vote) \<noteq> None)"
| "should_accept_consensus_from_peer s sender (Vote2Msg vote) = (ns_validator_keys s (v_validator vote) \<noteq> None)"
| "should_accept_consensus_from_peer s sender (Wish target_view validator highest_qc signature) =
     (ns_validator_keys s validator \<noteq> None)"
| "should_accept_consensus_from_peer s sender (StatusCert locked_qc validator signature) =
     (validator = sender \<and> ns_validator_keys s validator \<noteq> None)"
| "should_accept_consensus_from_peer s sender _ = True"

definition should_relay_consensus_message :: "('p, 'm) NetEnv \<Rightarrow> 'p NetworkService \<Rightarrow> ValidatorId \<Rightarrow> ConsensusMessage \<Rightarrow> bool" where
  "should_relay_consensus_message env s sender msg =
     (case msg of
        StatusCert _ _ _ \<Rightarrow> False
      | _ \<Rightarrow>
          let leader_for = (case msg of
                Prepare certificate _ \<Rightarrow> map_option vi_id (leader_for_view (ns_current_validator_set s) (qc_view certificate))
              | _ \<Rightarrow> None)
          in verify_relay_sender (ne_ed env) (ne_blake3 env) sender msg (ns_validator_keys s) (ns_validator_ids_ordered s)
               leader_for (ns_chain_id_hash s) (ns_current_epoch s))"

text \<open>Recording the identity of a message, with the rotation of the two sets.\<close>

definition remember_message :: "hash32 \<Rightarrow> 'p NetworkService \<Rightarrow> 'p NetworkService" where
  "remember_message h s =
     (let active = insert h (ns_seen_active s)
      in if card active > 10000 then s\<lparr>ns_seen_backup := active, ns_seen_active := {}\<rparr> else s\<lparr>ns_seen_active := active\<rparr>)"

definition relay_consensus_message ::
    "('p, 'm) NetEnv \<Rightarrow> 'p Tick \<Rightarrow> 'p \<Rightarrow> ConsensusMessage \<Rightarrow> 'p NetworkService \<Rightarrow> ('p, 'm) net_result" where
  "relay_consensus_message env tk from_peer msg s =
     (case pc_to_allocvec (ne_msg env) msg of
        Inl _ \<Rightarrow> (s, [])
      | Inr canonical_identity \<Rightarrow>
          let msg_hash = ne_blake3 env canonical_identity
          in if msg_hash \<in> ns_seen_active s \<or> msg_hash \<in> ns_seen_backup s then (s, [])
             else case encode (ne_zstd env) (ne_msg env) msg of
                    Inl _ \<Rightarrow> (s, [])
                  | Inr raw \<Rightarrow>
                      (remember_message msg_hash s,
                       sized MAX_NOTIFICATION_SIZE raw
                         (map (\<lambda>other. SendNotification other raw)
                            (filter (\<lambda>other. other \<noteq> from_peer) (tk_peers tk (ns_notif_connected_peers s))))))"

text \<open>A notification whose sender, size and content have passed the checks before decoding.\<close>

definition receive_message ::
    "('p, 'm) NetEnv \<Rightarrow> 'p Tick \<Rightarrow> 'p \<Rightarrow> ValidatorId \<Rightarrow> ConsensusMessage \<Rightarrow> 'p NetworkService \<Rightarrow> ('p, 'm) net_result" where
  "receive_message env tk peer sender msg s =
     (if \<not> should_accept_consensus_from_peer s sender msg then (s, [])
      else
        let delivered = (if tk_room tk then [DeliverMessage sender msg] else [])
        in if ns_relay_consensus s \<and> should_relay_consensus_message env s sender msg
           then let (s1, sent) = relay_consensus_message env tk peer msg s
                in (s1\<lparr>ns_peer_book := adjust_score (ne_peer_string env peer) 1 (ns_peer_book s1)\<rparr>, delivered @ sent)
           else (s, delivered))"

definition handle_notification_event ::
    "('p, 'm) NetEnv \<Rightarrow> 'p Tick \<Rightarrow> 'p NotificationEvent \<Rightarrow> 'p NetworkService \<Rightarrow> ('p, 'm) net_result" where
  "handle_notification_event env tk event s =
     (case event of
        ValidateSubstream peer handshake \<Rightarrow> (s, [NotifValidation peer (handshake = bytes_of (ns_chain_id_hash s))])
      | NotificationStreamOpened peer \<Rightarrow>
          if rt_p2v (ns_peer_map s) peer = None \<and> peer \<notin> ns_connected_peers s then (s, [])
          else let peers = insert peer (ns_notif_connected_peers s)
               in (s\<lparr>ns_notif_connected_peers := peers\<rparr>, [NotifConnectedCount (card peers)])
      | NotificationStreamClosed peer \<Rightarrow>
          let peers = ns_notif_connected_peers s - {peer}
          in (s\<lparr>ns_notif_connected_peers := peers\<rparr>, [NotifConnectedCount (card peers)])
      | NotificationReceived peer notification \<Rightarrow>
          (case rt_p2v (ns_peer_map s) peer of
             None \<Rightarrow> (s, [])
           | Some sender \<Rightarrow>
               (case check_consensus_ingress_budget (tk_now tk) peer (length notification) s of
                  (s1, False) \<Rightarrow> (s1, [])
                | (s1, True) \<Rightarrow>
                    (case decode (ne_zstd env) (ne_msg env) notification of
                       Inr msg \<Rightarrow> receive_message env tk peer sender msg s1
                     | Inl e \<Rightarrow>
                         (s1\<lparr>ns_peer_book := adjust_score (ne_peer_string env peer) (- 10) (ns_peer_book s1)\<rparr>, []))))
      | NotificationStreamOpenFailure peer \<Rightarrow> (s, []))"

definition handle_reqresp_event ::
    "('p, 'm) NetEnv \<Rightarrow> 'p Tick \<Rightarrow> 'p RequestResponseEvent \<Rightarrow> 'p NetworkService \<Rightarrow> ('p, 'm) net_result" where
  "handle_reqresp_event env tk event s =
     (case event of
        RequestReceived peer request_id request \<Rightarrow>
          (case rt_p2v (ns_peer_map s) peer of
             None \<Rightarrow> (s, [RejectRequest request_id])
           | Some sender \<Rightarrow>
               (case check_consensus_ingress_budget (tk_now tk) peer (length request) s of
                  (s1, False) \<Rightarrow> (s1, [RejectRequest request_id])
                | (s1, True) \<Rightarrow>
                    (case decode (ne_zstd env) (ne_msg env) request of
                       Inr msg \<Rightarrow>
                         if \<not> should_accept_consensus_from_peer s1 sender msg then (s1, [RejectRequest request_id])
                         else if \<not> tk_room tk then (s1, [RejectRequest request_id])
                         else (s1, [DeliverMessage sender msg, SendResponse request_id []])
                     | Inl e \<Rightarrow> (s1, [RejectRequest request_id]))))
      | ResponseReceived _ _ _ \<Rightarrow> (s, [])
      | RequestFailed _ _ _ \<Rightarrow> (s, []))"

section \<open>Sync and peer exchange\<close>

definition handle_sync_event ::
    "('p, 'm) NetEnv \<Rightarrow> 'p Tick \<Rightarrow> 'p RequestResponseEvent \<Rightarrow> 'p NetworkService \<Rightarrow> ('p, 'm) net_result" where
  "handle_sync_event env tk event s =
     (case event of
        RequestReceived peer request_id request \<Rightarrow>
          if peer \<notin> ns_notif_connected_peers s then (s, [RejectSync request_id])
          else (case check_consensus_ingress_budget (tk_now tk) peer (length request) s of
                  (s1, False) \<Rightarrow> (s1, [RejectSync request_id])
                | (s1, True) \<Rightarrow>
                    (case decode (ne_zstd env) (ne_sync_request env) request of
                       Inr req \<Rightarrow>
                         (s1, if tk_room tk then [DeliverSyncRequest request_id peer req] else [RejectSync request_id])
                     | Inl e \<Rightarrow>
                         (s1\<lparr>ns_peer_book := adjust_score (ne_peer_string env peer) (- 5) (ns_peer_book s1)\<rparr>,
                          case encode (ne_zstd env) (ne_sync_response env) (ErrorResponse (''decode error: '' @ display_DecodeError e)) of
                            Inr bs \<Rightarrow> sized MAX_NOTIFICATION_SIZE bs [SendSyncResponse request_id bs]
                          | Inl _ \<Rightarrow> [RejectSync request_id])))
      | ResponseReceived _ _ response \<Rightarrow>
          (s, case decode (ne_zstd env) (ne_sync_response env) response of
                Inr resp \<Rightarrow> if tk_room tk then [DeliverSyncResponse resp] else []
              | Inl _ \<Rightarrow> [])
      | RequestFailed _ _ error \<Rightarrow>
          (s, if tk_room tk then [DeliverSyncResponse (ErrorResponse (''request failed: '' @ error))] else []))"

text \<open>The role an advertisement is entered with.\<close>

definition advertised_role :: "'p NetworkService \<Rightarrow> 'p \<Rightarrow> PeerRole \<Rightarrow> u64 option \<Rightarrow> PeerRole \<times> u64 option" where
  "advertised_role s peer role validator_id =
     (case (role, validator_id) of
        (ValidatorRole, Some vid) \<Rightarrow>
          if rt_v2p (ns_peer_map s) vid = Some peer then (ValidatorRole, Some vid) else (Fullnode, None)
      | _ \<Rightarrow> (Fullnode, None))"

definition advertise :: "('p, 'm) NetEnv \<Rightarrow> 'p Tick \<Rightarrow> 'p \<Rightarrow> PeerRole \<Rightarrow> u64 option \<Rightarrow> string list \<Rightarrow> 'p NetworkService \<Rightarrow> PeerInfo" where
  "advertise env tk peer role validator_id addresses s =
     (let (role', validator_id') = advertised_role s peer role validator_id;
          addrs = map (ne_addr_string env) (List.map_filter (ne_parse_addr env) (take 8 addresses));
          info = peer_info_new (tk_secs tk) (ne_peer_string env peer) role' addrs
      in case validator_id' of Some vid \<Rightarrow> with_validator vid info | None \<Rightarrow> info)"

definition handle_pex_event ::
    "('p, 'm) NetEnv \<Rightarrow> 'p Tick \<Rightarrow> 'p RequestResponseEvent \<Rightarrow> 'p NetworkService \<Rightarrow> ('p, 'm) net_result" where
  "handle_pex_event env tk event s =
     (case event of
        RequestReceived peer request_id request \<Rightarrow>
          if rt_p2v (ns_peer_map s) peer = None \<and> peer \<notin> ns_connected_peers s then (s, [RejectPex request_id])
          else if (case ns_pex_rate_limit s peer of Some since \<Rightarrow> tk_now tk - since < from_secs 10 | None \<Rightarrow> False)
          then (s, [RejectPex request_id])
          else
            let s1 = s\<lparr>ns_pex_rate_limit := (ns_pex_rate_limit s)(peer \<mapsto> tk_now tk)\<rparr>
            in (case pc_from_bytes (ne_pex_request env) request of
                  Inr GetPeers \<Rightarrow>
                    let peers = filter (\<lambda>p. pi_peer_id p \<notin> set (px_private_peer_ids (ns_pex_config s1)))
                          (filter (\<lambda>p. pi_peer_id p \<noteq> ne_peer_string env peer)
                             (get_random_peers (tk_shuffle tk) (px_max_peers_per_response (ns_pex_config s1)) (ns_peer_book s1)))
                    in (s1, case pc_to_allocvec (ne_pex_response env) (Peers peers) of
                              Inr bs \<Rightarrow> sized PEX_MAX_SIZE bs [SendPexResponse request_id bs] | Inl _ \<Rightarrow> [])
                | Inr (Advertise role validator_id addresses) \<Rightarrow>
                    if role = ValidatorRole \<and> validator_id = None then (s1, [RejectPex request_id])
                    else (s1\<lparr>ns_peer_book := add_peer (advertise env tk peer role validator_id addresses s1) (ns_peer_book s1)\<rparr>,
                          case pc_to_allocvec (ne_pex_response env) Ack of Inr bs \<Rightarrow> sized PEX_MAX_SIZE bs [SendPexResponse request_id bs] | Inl _ \<Rightarrow> [])
                | Inl _ \<Rightarrow> (s1, [RejectPex request_id]))
      | ResponseReceived _ _ response \<Rightarrow>
          (case pc_from_bytes (ne_pex_response env) response of
             Inr (Peers peers) \<Rightarrow>
               (s\<lparr>ns_peer_book := fold (\<lambda>p book. if is_banned p then book else add_peer p book) peers (ns_peer_book s)\<rparr>, [])
           | _ \<Rightarrow> (s, []))
      | RequestFailed _ _ _ \<Rightarrow> (s, []))"

definition run_pex_round :: "('p, 'm) NetEnv \<Rightarrow> 'p Tick \<Rightarrow> 'p NetworkService \<Rightarrow> ('p, 'm) net_result" where
  "run_pex_round env tk s =
     (if ns_connected_peers s = {} then (s, [])
      else let peers = tk_peers tk (ns_connected_peers s); target = peers ! tk_index tk (length peers)
           in (s, case pc_to_allocvec (ne_pex_request env) GetPeers of Inr bs \<Rightarrow> sized PEX_MAX_SIZE bs [SendPexRequest target bs] | Inl _ \<Rightarrow> []))"

section \<open>Connections\<close>

definition remove_mempool_peer :: "'p \<Rightarrow> 'p NetworkService \<Rightarrow> 'p NetworkService" where
  "remove_mempool_peer peer s =
     s\<lparr>ns_mempool_notif_connected_peers := ns_mempool_notif_connected_peers s - {peer},
       ns_mempool_peer_rate := (ns_mempool_peer_rate s)(peer := None)\<rparr>"

definition pick_non_validator_to_evict :: "'p Tick \<Rightarrow> 'p NetworkService \<Rightarrow> 'p option" where
  "pick_non_validator_to_evict tk s =
     List.find (\<lambda>p. rt_p2v (ns_peer_map s) p = None) (tk_peers tk (ns_connected_peers s))"

definition evict_peer :: "'p \<Rightarrow> 'p NetworkService \<Rightarrow> 'p NetworkService" where
  "evict_peer p s =
     remove_mempool_peer p
       (s\<lparr>ns_connected_peers := ns_connected_peers s - {p}, ns_notif_connected_peers := ns_notif_connected_peers s - {p},
          ns_consensus_peer_rate := (ns_consensus_peer_rate s)(p := None)\<rparr>)"

definition handle_litep2p_event ::
    "('p, 'm) NetEnv \<Rightarrow> 'p Tick \<Rightarrow> 'p Litep2pEvent \<Rightarrow> 'p NetworkService \<Rightarrow> ('p, 'm) net_result" where
  "handle_litep2p_event env tk event s =
     (case event of
        ConnectionEstablished peer \<Rightarrow>
          let is_validator = rt_p2v (ns_peer_map s) peer \<noteq> None;
              full = card (ns_connected_peers s) \<ge> px_max_peers (ns_pex_config s)
          in if \<not> is_validator \<and> full then (s, [])
             else
               let s1 = (if is_validator \<and> full
                         then case pick_non_validator_to_evict tk s of Some p \<Rightarrow> evict_peer p s | None \<Rightarrow> s
                         else s);
                   peers = insert peer (ns_connected_peers s1)
               in (s1\<lparr>ns_connected_peers := peers,
                      ns_peer_book := pb_modify (ne_peer_string env peer) (touch (tk_secs tk)) (ns_peer_book s1)\<rparr>,
                   [ConnectedCount (card peers), OpenSubstream peer, OpenMempoolSubstream peer])
      | ConnectionClosed peer \<Rightarrow>
          let peers = ns_connected_peers s - {peer}; notif = ns_notif_connected_peers s - {peer}
          in (remove_mempool_peer peer
                (s\<lparr>ns_connected_peers := peers, ns_consensus_peer_rate := (ns_consensus_peer_rate s)(peer := None),
                   ns_notif_connected_peers := notif\<rparr>),
              ConnectedCount (card peers) # (if peer \<in> ns_notif_connected_peers s then [NotifConnectedCount (card notif)] else []))
      | OtherLitep2pEvent \<Rightarrow> (s, []))"

text \<open>The first part of the maintenance: persistent peers that are not connected and have an address in the book.\<close>

definition redial :: "('p, 'm) NetEnv \<Rightarrow> 'p Tick \<Rightarrow> 'p NetworkService \<Rightarrow> ('p, 'm) net_effect list" where
  "redial env tk s =
     concat (map (\<lambda>(pid, addrs). case addrs of [] \<Rightarrow> [] | a # _ \<Rightarrow> [AddKnownAddress pid addrs, Dial (ne_with_p2p env a pid)])
       (List.map_filter (\<lambda>pid. map_option (\<lambda>info. (pid, List.map_filter (ne_parse_addr env) (pi_addresses info)))
            (pb_get (ne_peer_string env pid) (ns_peer_book s)))
          (filter (\<lambda>pid. pid \<notin> ns_connected_peers s)
             (List.map_filter (ns_persistent_peers s) (tk_ids tk (dom (ns_persistent_peers s)))))))"

definition connect_more :: "('p, 'm) NetEnv \<Rightarrow> 'p Tick \<Rightarrow> 'p NetworkService \<Rightarrow> ('p, 'm) net_effect list" where
  "connect_more env tk s =
     (if card (ns_connected_peers s) < px_max_peers (ns_pex_config s) * 4 div 5
      then concat (map (\<lambda>peer.
             case ne_parse_peer env (pi_peer_id peer) of
               Some pid \<Rightarrow>
                 if pid \<in> ns_connected_peers s then []
                 else let addrs = List.map_filter (ne_parse_addr env) (pi_addresses peer)
                      in if addrs = [] then [] else [AddKnownAddress pid addrs]
             | None \<Rightarrow> []) (get_random_peers (tk_shuffle tk) 5 (ns_peer_book s)))
      else [])"

definition run_maintenance :: "('p, 'm) NetEnv \<Rightarrow> 'p Tick \<Rightarrow> 'p NetworkService \<Rightarrow> ('p, 'm) net_result" where
  "run_maintenance env tk s =
     (let s1 = s\<lparr>ns_peer_book := prune_stale (tk_secs tk) 86400 (ns_peer_book s)\<rparr>;
          cutoff = tk_now tk - from_secs 60
      in (s1\<lparr>ns_pex_rate_limit := (\<lambda>p. case ns_pex_rate_limit s1 p of Some since \<Rightarrow> if since > cutoff then Some since else None | None \<Rightarrow> None)\<rparr>,
          redial env tk s @ connect_more env tk s @ [SavePeerBook (ns_peer_book s1)]))"

section \<open>Commands, gossip and epochs\<close>

definition handle_command ::
    "('p, 'm) NetEnv \<Rightarrow> 'p Tick \<Rightarrow> 'p NetCommand \<Rightarrow> 'p NetworkService \<Rightarrow> ('p, 'm) net_result" where
  "handle_command env tk cmd s =
     (case cmd of
        Broadcast bs \<Rightarrow>
          let send = sized MAX_NOTIFICATION_SIZE bs
                (map (\<lambda>peer. SendNotification peer bs) (tk_peers tk (ns_notif_connected_peers s)))
          in (case decode (ne_zstd env) (ne_msg env) bs of
                Inr msg \<Rightarrow>
                  (case pc_to_allocvec (ne_msg env) msg of
                     Inr identity \<Rightarrow> (remember_message (ne_blake3 env identity) s, send)
                   | Inl _ \<Rightarrow> (s, []))
              | Inl _ \<Rightarrow> (s, send))
      | SendTo target bs \<Rightarrow>
          (s, case rt_v2p (ns_peer_map s) target of
                Some peer_id \<Rightarrow> sized MAX_NOTIFICATION_SIZE bs [SendRequest peer_id bs] | None \<Rightarrow> [])
      | SyncRequestTo peer_id bs \<Rightarrow> (s, sized MAX_NOTIFICATION_SIZE bs [SendSyncRequest peer_id bs])
      | SyncRespond request_id bs \<Rightarrow> (s, sized MAX_NOTIFICATION_SIZE bs [SendSyncResponse request_id bs])
      | BroadcastTx bs \<Rightarrow>
          (s, sized MAX_MEMPOOL_NOTIF_SIZE bs
                (map (\<lambda>peer. SendMempoolNotification peer bs) (tk_peers tk (ns_mempool_notif_connected_peers s)))))"

definition handle_mempool_notification_event ::
    "('p, 'm) NetEnv \<Rightarrow> 'p Tick \<Rightarrow> 'p NotificationEvent \<Rightarrow> 'p NetworkService \<Rightarrow> ('p, 'm) net_result" where
  "handle_mempool_notification_event env tk event s =
     (case event of
        ValidateSubstream peer handshake \<Rightarrow> (s, [MempoolValidation peer (handshake = bytes_of (ns_chain_id_hash s))])
      | NotificationStreamOpened peer \<Rightarrow>
          if peer \<notin> ns_connected_peers s \<and> rt_p2v (ns_peer_map s) peer = None then (s, [])
          else (s\<lparr>ns_mempool_notif_connected_peers := insert peer (ns_mempool_notif_connected_peers s)\<rparr>, [])
      | NotificationStreamClosed peer \<Rightarrow> (remove_mempool_peer peer s, [])
      | NotificationReceived peer notification \<Rightarrow>
          if peer \<notin> ns_mempool_notif_connected_peers s then (s, [])
          else
            let now = tk_now tk; n = length notification;
                (since, used) = (case ns_mempool_peer_rate s peer of Some e \<Rightarrow> e | None \<Rightarrow> (now, 0));
                fresh = now - since \<ge> from_secs 1;
                entry = (if fresh then (now, n) else (since, used + n));
                s1 = s\<lparr>ns_mempool_peer_rate := (ns_mempool_peer_rate s)(peer \<mapsto> entry)\<rparr>
            in if \<not> fresh \<and> used + n > MAX_TX_BYTES_PER_SEC then (s1, [])
               else
                 let h = ne_blake3 env notification
                 in if h \<in> ns_mempool_seen_active s1 \<or> h \<in> ns_mempool_seen_backup s1 then (s1, [])
                    else if \<not> tk_room tk then (s1, [])
                    else
                      let active = insert h (ns_mempool_seen_active s1)
                      in (if card active > 100000 then s1\<lparr>ns_mempool_seen_backup := active, ns_mempool_seen_active := {}\<rparr>
                          else s1\<lparr>ns_mempool_seen_active := active\<rparr>,
                          [DeliverTx notification])
      | NotificationStreamOpenFailure peer \<Rightarrow> (s, []))"

text \<open>The first loop of an epoch change: new members and members with a new key are routed by their key.\<close>

definition route_validator ::
    "('p, 'm) NetEnv \<Rightarrow> (ValidatorId \<rightharpoonup> PublicKey) \<Rightarrow> ValidatorId \<times> PublicKey \<Rightarrow> 'p PeerMap \<Rightarrow> 'p PeerMap" where
  "route_validator env keys vk pm =
     (let (vid, pubkey) = vk
      in if rt_v2p pm vid \<noteq> None \<and> keys vid = Some pubkey then pm
         else case ne_peer_of_key env pubkey of Some peer_id \<Rightarrow> rt_insert vid peer_id pm | None \<Rightarrow> pm)"

definition update_peer_info :: "('p, 'm) NetEnv \<Rightarrow> 'p Tick \<Rightarrow> 'p NetworkService \<Rightarrow> ('p, 'm) net_effect list" where
  "update_peer_info env tk s =
     [PeerStatusUpdate (map (\<lambda>vid. (vid, ne_peer_string env (the (rt_v2p (ns_peer_map s) vid))))
        (tk_ids tk (dom (rt_v2p (ns_peer_map s)))))]"

definition handle_epoch_change ::
    "('p, 'm) NetEnv \<Rightarrow> 'p Tick \<Rightarrow> ValidatorSet \<Rightarrow> 'p NetworkService \<Rightarrow> ('p, 'm) net_result" where
  "handle_epoch_change env tk new_set s =
     (let validators = map (\<lambda>v. (vi_id v, vi_public_key v)) (vs_validators new_set);
          pm1 = fold (route_validator env (ns_validator_keys s)) validators (ns_peer_map s);
          to_remove = filter (\<lambda>vid. vid \<notin> fst ` set validators) (tk_ids tk (dom (rt_v2p pm1)));
          pm2 = fold (\<lambda>vid pm. fst (rt_remove vid pm)) to_remove pm1;
          s1 = s\<lparr>ns_peer_map := pm2, ns_validator_ids_ordered := map fst validators, ns_validator_keys := map_of (rev validators),
                 ns_current_validator_set := new_set, ns_persistent_peers := rt_v2p pm2\<rparr>
      in (s1, update_peer_info env tk s1))"

section \<open>The loop\<close>

datatype 'p net_event =
    Notif "'p NotificationEvent"
  | MempoolNotif "'p NotificationEvent"
  | ReqResp "'p RequestResponseEvent"
  | SyncReqResp "'p RequestResponseEvent"
  | PexReqResp "'p RequestResponseEvent"
  | FromLitep2p "'p Litep2pEvent"
  | Command "'p NetCommand"
  | EpochChanged EpochNumber ValidatorSet
  | MaintenanceTick
  | PexTick

fun net_step :: "('p, 'm) NetEnv \<Rightarrow> 'p Tick \<Rightarrow> 'p net_event \<Rightarrow> 'p NetworkService \<Rightarrow> ('p, 'm) net_result" where
  "net_step env tk (Notif event) s = handle_notification_event env tk event s"
| "net_step env tk (MempoolNotif event) s = handle_mempool_notification_event env tk event s"
| "net_step env tk (ReqResp event) s = handle_reqresp_event env tk event s"
| "net_step env tk (SyncReqResp event) s = handle_sync_event env tk event s"
| "net_step env tk (PexReqResp event) s = handle_pex_event env tk event s"
| "net_step env tk (FromLitep2p event) s = handle_litep2p_event env tk event s"
| "net_step env tk (Command cmd) s = handle_command env tk cmd s"
| "net_step env tk (EpochChanged epoch_number validators) s =
     handle_epoch_change env tk validators (s\<lparr>ns_current_epoch := epoch_number\<rparr>)"
| "net_step env tk MaintenanceTick s = run_maintenance env tk s"
| "net_step env tk PexTick s = (if px_enabled (ns_pex_config s) then run_pex_round env tk s else (s, []))"

fun net_run :: "('p, 'm) NetEnv \<Rightarrow> ('p Tick \<times> 'p net_event) list \<Rightarrow> 'p NetworkService \<Rightarrow> 'p NetworkService" where
  "net_run env [] s = s"
| "net_run env ((tk, ev) # evs) s = net_run env evs (fst (net_step env tk ev s))"

section \<open>The sink of the engine\<close>

text \<open>What each call queues; \<open>room\<close> says whether the command queue has room.\<close>

definition queue_command :: "bool \<Rightarrow> (bytes \<Rightarrow> 'p NetCommand) \<Rightarrow> EncodeError + bytes \<Rightarrow> 'p NetCommand list" where
  "queue_command room cmd encoded = (case encoded of Inr bs \<Rightarrow> if room then [cmd bs] else [] | Inl _ \<Rightarrow> [])"

definition sink_broadcast :: "('p, 'm) NetEnv \<Rightarrow> bool \<Rightarrow> ConsensusMessage \<Rightarrow> 'p NetCommand list" where
  "sink_broadcast env room msg = queue_command room Broadcast (encode (ne_zstd env) (ne_msg env) msg)"

definition sink_send_to :: "('p, 'm) NetEnv \<Rightarrow> bool \<Rightarrow> ValidatorId \<Rightarrow> ConsensusMessage \<Rightarrow> 'p NetCommand list" where
  "sink_send_to env room target msg = queue_command room (SendTo target) (encode (ne_zstd env) (ne_msg env) msg)"

definition sink_broadcast_evidence :: "('p, 'm) NetEnv \<Rightarrow> bool \<Rightarrow> EquivocationProof \<Rightarrow> 'p NetCommand list" where
  "sink_broadcast_evidence env room proof = queue_command room Broadcast (encode (ne_zstd env) (ne_msg env) (Evidence proof))"

definition sink_broadcast_tx :: "bool \<Rightarrow> bytes \<Rightarrow> 'p NetCommand list" where
  "sink_broadcast_tx room tx = (if room then [BroadcastTx tx] else [])"

definition send_sync_request :: "('p, 'm) NetEnv \<Rightarrow> bool \<Rightarrow> 'p \<Rightarrow> SyncRequest \<Rightarrow> 'p NetCommand list" where
  "send_sync_request env room peer_id request =
     queue_command room (SyncRequestTo peer_id) (encode (ne_zstd env) (ne_sync_request env) request)"

definition send_sync_response :: "('p, 'm) NetEnv \<Rightarrow> bool \<Rightarrow> nat \<Rightarrow> SyncResponse \<Rightarrow> 'p NetCommand list" where
  "send_sync_response env room request_id response =
     queue_command room (SyncRespond request_id) (encode (ne_zstd env) (ne_sync_response env) response)"

end
