(* ===== verification/Network_Inv.thy ===== *)
theory Network_Inv
  imports Network
begin

text \<open>
  What the network service keeps over any sequence of events: a one-to-one routing table, bounded
  connections and memory, the routes messages are attributed by, and the delivery of broadcasts.
\<close>

section \<open>Environment\<close>

text \<open>Iterating over a finite set visits its elements, a shuffle permutes.\<close>

definition tick_ok :: "'p Tick \<Rightarrow> bool" where
  "tick_ok tk \<longleftrightarrow>
     (\<forall>S. finite S \<longrightarrow> set (tk_peers tk S) = S) \<and> (\<forall>S. finite S \<longrightarrow> set (tk_ids tk S) = S) \<and>
     (\<forall>xs. mset (tk_shuffle tk xs) = mset xs)"

section \<open>Invariant\<close>

definition routes_wf :: "nat \<Rightarrow> 'p NetworkService \<Rightarrow> bool" where
  "routes_wf N s \<longleftrightarrow>
     rt_wf (ns_peer_map s) \<and> finite (dom (rt_v2p (ns_peer_map s))) \<and> card (dom (rt_v2p (ns_peer_map s))) \<le> N \<and>
     ns_persistent_peers s = rt_v2p (ns_peer_map s) \<and> ns_validator_keys s = keys_of (ns_current_validator_set s) \<and>
     ns_validator_ids_ordered s = ids_of (ns_current_validator_set s)"

definition conns_wf :: "nat \<Rightarrow> 'p NetworkService \<Rightarrow> bool" where
  "conns_wf N s \<longleftrightarrow>
     finite (ns_connected_peers s) \<and> card (ns_connected_peers s) \<le> max (px_max_peers (ns_pex_config s)) N \<and>
     finite (ns_notif_connected_peers s) \<and> finite (ns_mempool_notif_connected_peers s) \<and>
     dom (ns_mempool_peer_rate s) \<subseteq> ns_mempool_notif_connected_peers s"

definition seen_wf :: "'p NetworkService \<Rightarrow> bool" where
  "seen_wf s \<longleftrightarrow>
     finite (ns_seen_active s) \<and> card (ns_seen_active s) \<le> 10000 \<and> finite (ns_seen_backup s) \<and> card (ns_seen_backup s) \<le> 10001 \<and>
     finite (ns_mempool_seen_active s) \<and> card (ns_mempool_seen_active s) \<le> 100000 \<and>
     finite (ns_mempool_seen_backup s) \<and> card (ns_mempool_seen_backup s) \<le> 100001"

definition net_wf :: "nat \<Rightarrow> 'p NetworkService \<Rightarrow> bool" where
  "net_wf N s \<longleftrightarrow> routes_wf N s \<and> conns_wf N s \<and> seen_wf s \<and> pb_wf (ns_peer_book s)"

lemmas wf_defs = net_wf_def routes_wf_def conns_wf_def seen_wf_def

text \<open>Changes of a single field.\<close>

lemma net_wf_book: "\<lbrakk> net_wf N s; pb_wf book \<rbrakk> \<Longrightarrow> net_wf N (s\<lparr>ns_peer_book := book\<rparr>)"
  by (simp add: wf_defs)

lemma net_wf_score: "net_wf N s \<Longrightarrow> net_wf N (s\<lparr>ns_peer_book := adjust_score k d (ns_peer_book s)\<rparr>)"
  by (rule net_wf_book) (auto simp: net_wf_def adjust_score_def intro: pb_wf_modify)

lemma net_wf_rate [simp]: "net_wf N (s\<lparr>ns_consensus_peer_rate := r\<rparr>) = net_wf N s"
  by (simp add: wf_defs)

lemma net_wf_pex_rate [simp]: "net_wf N (s\<lparr>ns_pex_rate_limit := r\<rparr>) = net_wf N s"
  by (simp add: wf_defs)

lemma net_wf_budget: "net_wf N s \<Longrightarrow> net_wf N (fst (check_consensus_ingress_budget now peer n s))"
  by (simp add: check_consensus_ingress_budget_def Let_def split: prod.split)

lemma net_wf_notif:
  "\<lbrakk> net_wf N s; finite P \<rbrakk> \<Longrightarrow> net_wf N (s\<lparr>ns_notif_connected_peers := P\<rparr>)"
  by (simp add: wf_defs)

lemma net_wf_remember:
  assumes "net_wf N s"
  shows "net_wf N (remember_message h s)"
proof -
  have "card (insert h (ns_seen_active s)) \<le> 10001" "finite (ns_seen_active s)"
    using assms card_insert_le_m1 [of 10001 "ns_seen_active s" h] by (auto simp: wf_defs)
  with assms show ?thesis by (auto simp: wf_defs remember_message_def Let_def)
qed

section \<open>Every handler keeps it\<close>

lemma net_wf_relay: "net_wf N s \<Longrightarrow> net_wf N (fst (relay_consensus_message env tk peer msg s))"
  by (auto simp: relay_consensus_message_def Let_def net_wf_remember split: sum.split)

lemma net_wf_receive: "net_wf N s \<Longrightarrow> net_wf N (fst (receive_message env tk peer sender msg s))"
  using net_wf_relay [of N s env tk peer msg] by (auto simp: receive_message_def Let_def net_wf_score split: prod.split)

lemma net_wf_notification:
  assumes "net_wf N s"
  shows "net_wf N (fst (handle_notification_event env tk event s))"
proof (cases event)
  case (NotificationReceived peer bs)
  show ?thesis
  proof (cases "check_consensus_ingress_budget (tk_now tk) peer (length bs) s")
    case (Pair s1 ok)
    then have "net_wf N s1" using net_wf_budget [OF assms, of "tk_now tk" peer "length bs"] by simp
    with assms show ?thesis
      by (cases ok) (auto simp: handle_notification_event_def NotificationReceived Pair net_wf_receive net_wf_score split: option.split sum.split)
  qed
qed (use assms in \<open>auto simp: handle_notification_event_def Let_def wf_defs\<close>)

lemma net_wf_reqresp:
  assumes "net_wf N s"
  shows "net_wf N (fst (handle_reqresp_event env tk event s))"
proof (cases event)
  case (RequestReceived peer i bs)
  show ?thesis
  proof (cases "check_consensus_ingress_budget (tk_now tk) peer (length bs) s")
    case (Pair s1 ok)
    then have "net_wf N s1" using net_wf_budget [OF assms, of "tk_now tk" peer "length bs"] by simp
    with assms show ?thesis
      by (cases ok) (auto simp: handle_reqresp_event_def RequestReceived Pair split: option.split sum.split)
  qed
qed (use assms in \<open>auto simp: handle_reqresp_event_def\<close>)

lemma net_wf_sync:
  assumes "net_wf N s"
  shows "net_wf N (fst (handle_sync_event env tk event s))"
proof (cases event)
  case (RequestReceived peer i bs)
  show ?thesis
  proof (cases "check_consensus_ingress_budget (tk_now tk) peer (length bs) s")
    case (Pair s1 ok)
    then have "net_wf N s1" using net_wf_budget [OF assms, of "tk_now tk" peer "length bs"] by simp
    with assms show ?thesis
      by (cases ok) (auto simp: handle_sync_event_def RequestReceived Pair net_wf_score split: sum.split)
  qed
qed (use assms in \<open>auto simp: handle_sync_event_def\<close>)

lemma pb_wf_fold_add: "pb_wf book \<Longrightarrow> pb_wf (fold (\<lambda>p book. if is_banned p then book else add_peer p book) peers book)"
  by (induction peers arbitrary: book) (auto simp: pb_wf_add_peer)

lemma net_wf_pex:
  assumes "net_wf N s"
  shows "net_wf N (fst (handle_pex_event env tk event s))"
proof -
  have b: "pb_wf (ns_peer_book s)" using assms by (simp add: net_wf_def)
  show ?thesis
    using assms b
    by (auto simp: handle_pex_event_def Let_def net_wf_book pb_wf_add_peer pb_wf_fold_add
        split: RequestResponseEvent.split sum.split PexRequest.split PexResponse.split)
qed

lemma net_wf_maintenance:
  assumes "net_wf N s"
  shows "net_wf N (fst (run_maintenance env tk s))"
  using assms by (simp add: run_maintenance_def Let_def net_wf_book pb_wf_prune net_wf_def [of N s])

lemma net_wf_pex_round: "net_wf N s \<Longrightarrow> net_wf N (fst (run_pex_round env tk s))"
  by (simp add: run_pex_round_def Let_def)

lemma net_wf_command: "net_wf N s \<Longrightarrow> net_wf N (fst (handle_command env tk cmd s))"
  by (auto simp: handle_command_def Let_def net_wf_remember split: NetCommand.split sum.split)

lemma net_wf_evict: "net_wf N s \<Longrightarrow> net_wf N (evict_peer p s)"
  by (auto simp: wf_defs evict_peer_def remove_mempool_peer_def intro: order_trans [OF card_Diff1_le])

lemma net_wf_connect:
  assumes "net_wf N s" "finite P" "card P \<le> max (px_max_peers (ns_pex_config s)) N" "pb_wf book"
  shows "net_wf N (s\<lparr>ns_connected_peers := P, ns_peer_book := book\<rparr>)"
  using assms by (simp add: wf_defs)

lemma card_dom_p2v:
  assumes "rt_wf m" "finite (dom (rt_v2p m))"
  shows "finite (dom (rt_p2v m))" "card (dom (rt_p2v m)) \<le> card (dom (rt_v2p m))"
proof -
  have "dom (rt_p2v m) \<subseteq> (\<lambda>v. the (rt_v2p m v)) ` dom (rt_v2p m)"
  proof
    fix p assume "p \<in> dom (rt_p2v m)"
    then obtain v where "rt_v2p m v = Some p" using assms(1) by (auto simp: rt_wf_def)
    then show "p \<in> (\<lambda>v. the (rt_v2p m v)) ` dom (rt_v2p m)" by (force simp: image_iff dom_def)
  qed
  with assms(2) show "finite (dom (rt_p2v m))" "card (dom (rt_p2v m)) \<le> card (dom (rt_v2p m))"
    using finite_subset surj_card_le by (blast, blast)
qed

lemma find_validator_set:
  assumes "finite (ns_connected_peers s)" "tick_ok tk"
  shows "pick_non_validator_to_evict tk s = None \<Longrightarrow> ns_connected_peers s \<subseteq> dom (rt_p2v (ns_peer_map s))"
    "pick_non_validator_to_evict tk s = Some p \<Longrightarrow> p \<in> ns_connected_peers s \<and> rt_p2v (ns_peer_map s) p = None"
  using assms by (auto simp: pick_non_validator_to_evict_def tick_ok_def find_None_iff find_Some_iff dest: nth_mem)

lemma net_wf_litep2p:
  assumes wf: "net_wf N s" and tk: "tick_ok tk"
  shows "net_wf N (fst (handle_litep2p_event env tk event s))"
proof (cases event)
  case (ConnectionEstablished peer)
  let ?v = "rt_p2v (ns_peer_map s) peer \<noteq> None" and ?full = "card (ns_connected_peers s) \<ge> px_max_peers (ns_pex_config s)"
  define s1 where "s1 = (if ?v \<and> ?full then case pick_non_validator_to_evict tk s of Some p \<Rightarrow> evict_peer p s | None \<Rightarrow> s else s)"
  have fin: "finite (ns_connected_peers s)" using wf by (simp add: wf_defs)
  have wf1: "net_wf N s1" using wf by (auto simp: s1_def net_wf_evict split: option.split)
  have cfg: "ns_pex_config s1 = ns_pex_config s"
    by (auto simp: s1_def evict_peer_def remove_mempool_peer_def split: option.split)
  have "card (insert peer (ns_connected_peers s1)) \<le> max (px_max_peers (ns_pex_config s)) N" if "?v \<or> \<not> ?full"
  proof (cases "?v \<and> ?full")
    case False
    with that have "\<not> ?full" by blast
    with False fin show ?thesis by (auto simp: s1_def card_insert_if)
  next
    case True
    show ?thesis
    proof (cases "pick_non_validator_to_evict tk s")
      case None
      then have "insert peer (ns_connected_peers s) \<subseteq> dom (rt_p2v (ns_peer_map s))"
        using True find_validator_set(1) [OF fin tk] by auto
      moreover have "finite (dom (rt_p2v (ns_peer_map s)))" "card (dom (rt_p2v (ns_peer_map s))) \<le> N"
        using wf card_dom_p2v [of "ns_peer_map s"] by (auto simp: wf_defs)
      ultimately have "card (insert peer (ns_connected_peers s)) \<le> N" by (meson card_mono order_trans)
      then show ?thesis by (simp add: s1_def True None)
    next
      case (Some p)
      then have p: "p \<in> ns_connected_peers s" using find_validator_set(2) [OF fin tk] by blast
      have "card (insert peer (ns_connected_peers s - {p})) \<le> Suc (card (ns_connected_peers s - {p}))" by (rule card_insert_le_m1) simp_all
      also have "\<dots> = card (ns_connected_peers s)" by (rule card_Suc_Diff1 [OF fin p])
      finally show ?thesis using wf True Some by (simp add: s1_def evict_peer_def remove_mempool_peer_def wf_defs)
    qed
  qed
  moreover have "pb_wf (pb_modify (ne_peer_string env peer) (touch (tk_secs tk)) (ns_peer_book s1))"
    using wf1 by (intro pb_wf_modify) (auto simp: net_wf_def touch_def)
  moreover have "finite (insert peer (ns_connected_peers s1))" using wf1 by (simp add: wf_defs)
  ultimately have "net_wf N (s1\<lparr>ns_connected_peers := insert peer (ns_connected_peers s1),
      ns_peer_book := pb_modify (ne_peer_string env peer) (touch (tk_secs tk)) (ns_peer_book s1)\<rparr>)" if "?v \<or> \<not> ?full"
    using wf1 cfg that by (intro net_wf_connect) auto
  moreover have "fst (handle_litep2p_event env tk event s) = (if \<not> ?v \<and> ?full then s
      else s1\<lparr>ns_connected_peers := insert peer (ns_connected_peers s1),
        ns_peer_book := pb_modify (ne_peer_string env peer) (touch (tk_secs tk)) (ns_peer_book s1)\<rparr>)"
    by (simp add: handle_litep2p_event_def ConnectionEstablished Let_def s1_def)
  ultimately show ?thesis using wf by auto
next
  case (ConnectionClosed peer)
  then show ?thesis
    using wf by (auto simp: handle_litep2p_event_def Let_def wf_defs remove_mempool_peer_def intro: order_trans [OF card_Diff1_le])
qed (use wf in \<open>simp add: handle_litep2p_event_def\<close>)

lemma net_wf_mempool:
  assumes wf: "net_wf N s"
  shows "net_wf N (fst (handle_mempool_notification_event env tk event s))"
proof (cases event)
  case (NotificationReceived peer bs)
  have c: "card (insert h (ns_mempool_seen_active s)) \<le> 100001" for h
    using wf card_insert_le_m1 [of 100001 "ns_mempool_seen_active s" h] by (auto simp: wf_defs)
  show ?thesis
    using wf c by (auto simp: handle_mempool_notification_event_def NotificationReceived Let_def wf_defs split: prod.split)
qed (use wf in \<open>auto simp: handle_mempool_notification_event_def remove_mempool_peer_def wf_defs\<close>)

section \<open>Epoch changes\<close>

lemma route_validator_wf:
  assumes "rt_wf pm"
  shows "rt_wf (route_validator env keys vk pm)" "dom (rt_v2p (route_validator env keys vk pm)) \<subseteq> insert (fst vk) (dom (rt_v2p pm))"
  using assms by (auto simp: route_validator_def Let_def rt_wf_insert rt_insert_v2p dom_def split: prod.split option.split if_splits)

lemma fold_route_wf:
  "\<lbrakk> rt_wf pm; finite (dom (rt_v2p pm)) \<rbrakk> \<Longrightarrow>
     rt_wf (fold (route_validator env keys) xs pm) \<and> finite (dom (rt_v2p (fold (route_validator env keys) xs pm)))"
proof (induction xs arbitrary: pm)
  case (Cons x xs)
  have "finite (dom (rt_v2p (route_validator env keys x pm)))"
    using route_validator_wf(2) [OF Cons.prems(1)] Cons.prems(2) by (meson finite_insert finite_subset)
  with Cons.IH [of "route_validator env keys x pm"] route_validator_wf(1) [OF Cons.prems(1), of env keys x] show ?case by simp
qed simp

lemma fold_remove_v2p: "rt_v2p (fold (\<lambda>v pm. fst (rt_remove v pm)) vs pm) = (\<lambda>w. if w \<in> set vs then None else rt_v2p pm w)"
  by (induction vs arbitrary: pm) (auto simp: fun_eq_iff)

lemma fold_remove_wf: "rt_wf pm \<Longrightarrow> rt_wf (fold (\<lambda>v pm. fst (rt_remove v pm)) vs pm)"
  by (induction vs arbitrary: pm) (auto simp: rt_wf_remove)

lemma fold_route_other:
  "\<lbrakk> rt_v2p (fold (route_validator env keys) ys pm) u = Some q; rt_wf pm; u \<notin> fst ` set ys \<rbrakk> \<Longrightarrow> rt_v2p pm u = Some q"
proof (induction ys arbitrary: pm)
  case (Cons y ys)
  then have "rt_v2p (route_validator env keys y pm) u = Some q"
    using Cons.IH [of "route_validator env keys y pm"] route_validator_wf(1) [OF Cons.prems(2), of env keys y] by simp
  with Cons.prems show ?case
    by (auto simp: route_validator_def rt_insert_v2p split: option.splits if_splits prod.splits)
qed simp

text \<open>
  Where a route comes from after the first loop of an epoch change: it is the peer of the validator's
  key, or the route from before, kept because the key is the same or because the key has no peer.
\<close>

lemma fold_route_cases:
  "\<lbrakk> rt_wf pm; distinct (map fst xs); (v, k) \<in> set xs; rt_v2p (fold (route_validator env keys) xs pm) v = Some p \<rbrakk> \<Longrightarrow>
     ne_peer_of_key env k = Some p \<or> rt_v2p pm v = Some p \<and> (keys v = Some k \<or> ne_peer_of_key env k = None)"
proof (induction xs arbitrary: pm)
  case (Cons x xs)
  obtain w l where x: "x = (w, l)" by fastforce
  define pm1 where "pm1 = route_validator env keys x pm"
  have wf1: "rt_wf pm1" using route_validator_wf(1) [OF Cons.prems(1)] by (simp add: pm1_def)
  have run: "rt_v2p (fold (route_validator env keys) xs pm1) v = Some p" using Cons.prems(4) by (simp add: pm1_def)
  show ?case
  proof (cases "(v, k) = x")
    case True
    have "v \<notin> fst ` set xs" using Cons.prems(2) by (simp flip: True)
    then have "rt_v2p pm1 v = Some p" by (rule fold_route_other [OF run wf1])
    then show ?thesis
      by (auto simp: pm1_def True [symmetric] route_validator_def rt_insert_v2p [OF Cons.prems(1)] split: option.splits if_splits)
  next
    case False
    then have vk: "(v, k) \<in> set xs" using Cons.prems(3) by simp
    then have "v \<noteq> w" using Cons.prems(2) x by (auto simp: rev_image_eqI)
    then have "rt_v2p pm v = Some q" if "rt_v2p pm1 v = Some q" for q
      using that by (auto simp: pm1_def x route_validator_def rt_insert_v2p [OF Cons.prems(1)] split: option.splits if_splits)
    with Cons.IH [OF wf1 _ vk run] Cons.prems(2) show ?thesis by auto
  qed
qed simp

text \<open>What an epoch change is given: a set of at most \<open>N\<close> distinct members.\<close>

definition set_wf :: "nat \<Rightarrow> ValidatorSet \<Rightarrow> bool" where
  "set_wf N vs \<longleftrightarrow> distinct (map vi_id (vs_validators vs)) \<and> length (vs_validators vs) \<le> N"

lemma keys_of_Some:
  "distinct (map vi_id (vs_validators vs)) \<Longrightarrow>
     keys_of vs v = Some k \<longleftrightarrow> (v, k) \<in> set (map (\<lambda>v. (vi_id v, vi_public_key v)) (vs_validators vs))"
proof -
  let ?xs = "map (\<lambda>v. (vi_id v, vi_public_key v)) (vs_validators vs)"
  assume "distinct (map vi_id (vs_validators vs))"
  then have "distinct (map fst (rev ?xs))" by (simp add: comp_def flip: rev_map)
  from map_of_eq_Some_iff [OF this, of v k] show ?thesis unfolding keys_of_def set_rev .
qed

lemma epoch_change:
  fixes env :: "('p, 'm) NetEnv"
  assumes wf: "net_wf N s" and tk: "tick_ok tk" and vs: "set_wf N vs"
  shows "net_wf N (fst (handle_epoch_change env tk vs s))"
    "ns_current_validator_set (fst (handle_epoch_change env tk vs s)) = vs"
    "rt_v2p (ns_peer_map (fst (handle_epoch_change env tk vs s))) v = Some p \<Longrightarrow>
       \<exists>k. v \<in> vi_id ` set (vs_validators vs) \<and> keys_of vs v = Some k \<and>
         (ne_peer_of_key env k = Some p \<or>
          rt_v2p (ns_peer_map s) v = Some p \<and> (ns_validator_keys s v = Some k \<or> ne_peer_of_key env k = None))"
proof -
  let ?xs = "map (\<lambda>v. (vi_id v, vi_public_key v)) (vs_validators vs)"
  define pm1 where "pm1 = fold (route_validator env (ns_validator_keys s)) ?xs (ns_peer_map s)"
  define to_remove where "to_remove = filter (\<lambda>vid. vid \<notin> fst ` set ?xs) (tk_ids tk (dom (rt_v2p pm1)))"
  define pm2 where "pm2 = fold (\<lambda>vid pm. fst (rt_remove vid pm)) to_remove pm1"
  let ?s = "s\<lparr>ns_peer_map := pm2, ns_validator_ids_ordered := map fst ?xs, ns_validator_keys := map_of (rev ?xs),
                 ns_current_validator_set := vs, ns_persistent_peers := rt_v2p pm2\<rparr>"
  have e: "fst (handle_epoch_change env tk vs s) = ?s"
    by (simp add: handle_epoch_change_def Let_def pm1_def pm2_def to_remove_def)
  have r: "rt_wf (ns_peer_map s)" "finite (dom (rt_v2p (ns_peer_map s)))" using wf by (simp_all add: wf_defs)
  have p1: "rt_wf pm1" "finite (dom (rt_v2p pm1))" using fold_route_wf [OF r] by (simp_all add: pm1_def)
  have rm: "set to_remove = dom (rt_v2p pm1) - vi_id ` set (vs_validators vs)"
    using tk p1(2) by (auto simp: to_remove_def tick_ok_def image_image)
  have v2: "rt_v2p pm2 w = Some p \<longleftrightarrow> rt_v2p pm1 w = Some p \<and> w \<in> vi_id ` set (vs_validators vs)" for w p
    using rm by (auto simp: pm2_def fold_remove_v2p)
  have "dom (rt_v2p pm2) \<subseteq> set (map vi_id (vs_validators vs))" by (auto simp: v2)
  then have d: "finite (dom (rt_v2p pm2))" "card (dom (rt_v2p pm2)) \<le> N"
    using finite_subset card_mono [of "set (map vi_id (vs_validators vs))" "dom (rt_v2p pm2)"]
      card_length [of "map vi_id (vs_validators vs)"] vs by (auto simp: set_wf_def)
  have "rt_wf pm2" unfolding pm2_def by (rule fold_remove_wf [OF p1(1)])
  with d wf show "net_wf N (fst (handle_epoch_change env tk vs s))"
    unfolding e by (simp add: wf_defs keys_of_def ids_of_def comp_def)
  show "ns_current_validator_set (fst (handle_epoch_change env tk vs s)) = vs" unfolding e by simp
  assume "rt_v2p (ns_peer_map (fst (handle_epoch_change env tk vs s))) v = Some p"
  then have m: "rt_v2p pm1 v = Some p" "v \<in> vi_id ` set (vs_validators vs)" unfolding e by (simp_all add: v2)
  then obtain k where k: "(v, k) \<in> set ?xs" by auto
  have ds: "distinct (map fst ?xs)" "distinct (map vi_id (vs_validators vs))" using vs by (simp_all add: set_wf_def comp_def)
  from fold_route_cases [OF r(1) ds(1) k m(1) [unfolded pm1_def]] m(2) k keys_of_Some [OF ds(2), of v k]
  show "\<exists>k. v \<in> vi_id ` set (vs_validators vs) \<and> keys_of vs v = Some k \<and>
      (ne_peer_of_key env k = Some p \<or>
       rt_v2p (ns_peer_map s) v = Some p \<and> (ns_validator_keys s v = Some k \<or> ne_peer_of_key env k = None))"
    by blast
qed

section \<open>Steps and runs\<close>

definition same_routes :: "'p NetworkService \<Rightarrow> 'p NetworkService \<Rightarrow> bool" where
  "same_routes s s' \<longleftrightarrow>
     ns_peer_map s' = ns_peer_map s \<and> ns_validator_keys s' = ns_validator_keys s \<and> ns_current_validator_set s' = ns_current_validator_set s \<and>
     ns_pex_config s' = ns_pex_config s \<and> ns_relay_consensus s' = ns_relay_consensus s \<and> ns_chain_id_hash s' = ns_chain_id_hash s"

lemma same_routes_refl [simp]: "same_routes s s"
  by (simp add: same_routes_def)

lemma same_routes_budget: "check_consensus_ingress_budget now peer n s = (s', ok) \<Longrightarrow> same_routes s s'"
  by (auto simp: check_consensus_ingress_budget_def Let_def same_routes_def split: prod.splits if_splits)

lemma same_routes_relay: "same_routes s (fst (relay_consensus_message env tk peer msg s))"
  by (auto simp: relay_consensus_message_def Let_def same_routes_def remember_message_def split: sum.split)

lemma same_routes_receive: "same_routes s (fst (receive_message env tk peer sender msg s))"
  using same_routes_relay [of s env tk peer msg] by (auto simp: receive_message_def Let_def same_routes_def split: prod.split)

lemma same_routes_trans: "\<lbrakk> same_routes s s1; same_routes s1 s2 \<rbrakk> \<Longrightarrow> same_routes s s2"
  by (simp add: same_routes_def)

lemma same_routes_book [simp]: "same_routes s (s1\<lparr>ns_peer_book := b\<rparr>) = same_routes s s1"
  by (simp add: same_routes_def)

lemma same_routes_notification: "same_routes s (fst (handle_notification_event env tk event s))"
proof (cases event)
  case (NotificationReceived peer bs)
  show ?thesis
  proof (cases "check_consensus_ingress_budget (tk_now tk) peer (length bs) s")
    case (Pair s1 ok)
    then show ?thesis
      using same_routes_budget [OF Pair] same_routes_trans [OF _ same_routes_receive]
      by (cases ok) (auto simp: handle_notification_event_def NotificationReceived split: option.split sum.split)
  qed
qed (auto simp: handle_notification_event_def Let_def same_routes_def)

lemma same_routes_step:
  assumes "\<And>n vs. ev \<noteq> EpochChanged n vs"
  shows "same_routes s (fst (net_step env tk ev s))"
proof (cases ev)
  case (Notif e)
  then show ?thesis by (simp add: same_routes_notification)
next
  case (ReqResp e)
  then show ?thesis
    by (cases e) (auto simp: handle_reqresp_event_def dest: same_routes_budget split: option.split sum.split prod.split bool.split)
next
  case (SyncReqResp e)
  then show ?thesis
    by (cases e) (auto simp: handle_sync_event_def dest: same_routes_budget split: option.split sum.split prod.split bool.split)
next
  case (FromLitep2p e)
  then show ?thesis
    by (cases e) (auto simp: handle_litep2p_event_def Let_def same_routes_def evict_peer_def remove_mempool_peer_def split: option.split)
next
  case (MempoolNotif e)
  then show ?thesis
    by (cases e) (auto simp: handle_mempool_notification_event_def Let_def same_routes_def remove_mempool_peer_def split: prod.split)
next
  case (PexReqResp e)
  then show ?thesis
    by (cases e) (auto simp: handle_pex_event_def Let_def same_routes_def split: sum.split PexRequest.split PexResponse.split)
next
  case (Command c)
  then show ?thesis
    by (cases c) (auto simp: handle_command_def Let_def same_routes_def remember_message_def split: sum.split)
qed (use assms in \<open>auto simp: run_maintenance_def run_pex_round_def Let_def same_routes_def\<close>)

definition event_wf :: "nat \<Rightarrow> 'p Tick \<times> 'p net_event \<Rightarrow> bool" where
  "event_wf N te \<longleftrightarrow> tick_ok (fst te) \<and> (case snd te of EpochChanged n vs \<Rightarrow> set_wf N vs | _ \<Rightarrow> True)"

lemma net_wf_epoch_number [simp]: "net_wf N (s\<lparr>ns_current_epoch := n\<rparr>) = net_wf N s"
  by (simp add: wf_defs)

lemma net_step_wf:
  assumes "net_wf N s" "event_wf N (tk, ev)"
  shows "net_wf N (fst (net_step env tk ev s))"
  using assms
  by (cases ev) (auto simp: event_wf_def net_wf_notification net_wf_mempool net_wf_reqresp net_wf_sync net_wf_pex net_wf_litep2p
      net_wf_command net_wf_maintenance net_wf_pex_round intro: epoch_change(1))

lemma net_run_wf:
  "\<lbrakk> net_wf N s; \<forall>te \<in> set evs. event_wf N te \<rbrakk> \<Longrightarrow> net_wf N (net_run env evs s)"
  by (induction env evs s rule: net_run.induct) (auto simp: net_step_wf)

section \<open>The history of a route\<close>

text \<open>The validator sets the engine announces in a run.\<close>

fun epoch_sets :: "('p Tick \<times> 'p net_event) list \<Rightarrow> ValidatorSet list" where
  "epoch_sets [] = []"
| "epoch_sets ((tk, EpochChanged n vs) # evs) = vs # epoch_sets evs"
| "epoch_sets (_ # evs) = epoch_sets evs"

text \<open>The peer of the key a validator has in a set, and a validator whose key there belongs to no peer.\<close>

definition key_peer :: "('p, 'm) NetEnv \<Rightarrow> ValidatorSet \<Rightarrow> ValidatorId \<Rightarrow> 'p \<Rightarrow> bool" where
  "key_peer env vs v p \<longleftrightarrow> (\<exists>k. keys_of vs v = Some k \<and> ne_peer_of_key env k = Some p)"

definition unroutable :: "('p, 'm) NetEnv \<Rightarrow> ValidatorSet \<Rightarrow> ValidatorId \<Rightarrow> bool" where
  "unroutable env vs v \<longleftrightarrow> (\<exists>k. keys_of vs v = Some k \<and> ne_peer_of_key env k = None)"

text \<open>
  Where the route of a validator comes from after the sets \<open>sets\<close> were announced: from the configuration
  or from a key it had, and from the key it has unless the configured route stands because its key
  never changed or a key of it belonged to no peer.
\<close>

definition route_from :: "('p, 'm) NetEnv \<Rightarrow> ('p, 'm) NetworkConfig \<Rightarrow> ValidatorSet list \<Rightarrow> ValidatorId \<Rightarrow> 'p \<Rightarrow> bool" where
  "route_from env config sets v p \<longleftrightarrow>
     (rt_v2p (nc_peer_map config) v = Some p \<or> (\<exists>vs \<in> set sets. key_peer env vs v p)) \<and>
     (key_peer env (last (nc_initial_validator_set config # sets)) v p \<or>
      rt_v2p (nc_peer_map config) v = Some p \<and> (\<forall>vs \<in> set sets. keys_of vs v = keys_of (nc_initial_validator_set config) v) \<or>
      (\<exists>vs \<in> set sets. unroutable env vs v))"

definition routes_from :: "('p, 'm) NetEnv \<Rightarrow> ('p, 'm) NetworkConfig \<Rightarrow> ValidatorSet list \<Rightarrow> 'p NetworkService \<Rightarrow> bool" where
  "routes_from env config sets s \<longleftrightarrow>
     ns_current_validator_set s = last (nc_initial_validator_set config # sets) \<and>
     (\<forall>v p. rt_v2p (ns_peer_map s) v = Some p \<longrightarrow>
        (sets = [] \<or> v \<in> vi_id ` set (vs_validators (ns_current_validator_set s))) \<and> route_from env config sets v p)"

lemma routes_from_cong:
  "\<lbrakk> routes_from env config sets s; ns_current_validator_set s' = ns_current_validator_set s; ns_peer_map s' = ns_peer_map s \<rbrakk> \<Longrightarrow>
     routes_from env config sets s'"
  unfolding routes_from_def by (elim ssubst)

lemma route_from_kept:
  assumes "route_from env config sets v p" "keys_of vs v = keys_of (last (nc_initial_validator_set config # sets)) v"
  shows "route_from env config (sets @ [vs]) v p"
proof -
  have "keys_of vs v = keys_of (nc_initial_validator_set config) v"
    if "\<forall>ws \<in> set sets. keys_of ws v = keys_of (nc_initial_validator_set config) v"
    using that assms(2) by (auto split: if_splits)
  with assms show ?thesis by (auto simp: route_from_def key_peer_def)
qed

lemma routes_from_epoch:
  fixes env :: "('p, 'm) NetEnv"
  assumes "net_wf N s" "tick_ok tk" "set_wf N vs" "routes_from env config sets s"
  shows "routes_from env config (sets @ [vs]) (fst (handle_epoch_change env tk vs s))"
proof -
  note e = epoch_change [OF assms(1-3), of env]
  have keys: "ns_validator_keys s = keys_of (last (nc_initial_validator_set config # sets))"
    using assms(1,4) by (simp add: wf_defs routes_from_def)
  have "v \<in> vi_id ` set (vs_validators vs) \<and> route_from env config (sets @ [vs]) v p"
    if route: "rt_v2p (ns_peer_map (fst (handle_epoch_change env tk vs s))) v = Some p" for v p
  proof -
    from e(3) [OF route] obtain k where k: "v \<in> vi_id ` set (vs_validators vs)" "keys_of vs v = Some k"
      "ne_peer_of_key env k = Some p \<or>
       rt_v2p (ns_peer_map s) v = Some p \<and> (ns_validator_keys s v = Some k \<or> ne_peer_of_key env k = None)" by blast
    have old: "route_from env config sets v p" if "rt_v2p (ns_peer_map s) v = Some p"
      using assms(4) that by (simp add: routes_from_def)
    consider "ne_peer_of_key env k = Some p" | "rt_v2p (ns_peer_map s) v = Some p" "ns_validator_keys s v = Some k" |
      "rt_v2p (ns_peer_map s) v = Some p" "ne_peer_of_key env k = None"
      using k(3) by (elim disjE conjE)
    then have "route_from env config (sets @ [vs]) v p"
    proof cases
      case 1
      with k(2) show ?thesis by (auto simp: route_from_def key_peer_def)
    next
      case 2
      with k(2) keys have "keys_of vs v = keys_of (last (nc_initial_validator_set config # sets)) v" by simp
      with route_from_kept [OF old [OF 2(1)]] show ?thesis by simp
    next
      case 3
      then have "unroutable env vs v" using k(2) by (simp add: unroutable_def)
      with old [OF 3(1)] show ?thesis by (auto simp: route_from_def)
    qed
    with k(1) show ?thesis by simp
  qed
  with e(2) show ?thesis by (simp add: routes_from_def)
qed

lemma net_run_routes_from:
  "\<lbrakk> net_wf N s; \<forall>te \<in> set evs. event_wf N te; routes_from env config sets s \<rbrakk> \<Longrightarrow>
     routes_from env config (sets @ epoch_sets evs) (net_run env evs s)"
proof (induction evs arbitrary: s sets)
  case (Cons te evs)
  obtain tk ev where te: "te = (tk, ev)" by fastforce
  let ?s = "fst (net_step env tk ev s)"
  have wf: "net_wf N ?s" using Cons.prems net_step_wf te by auto
  have rest: "\<forall>te \<in> set evs. event_wf N te" using Cons.prems(2) by simp
  show ?case
  proof (cases "\<exists>n vs. ev = EpochChanged n vs")
    case True
    then obtain n vs where ev: "ev = EpochChanged n vs" by blast
    have "routes_from env config sets (s\<lparr>ns_current_epoch := n\<rparr>)"
      by (rule routes_from_cong [OF Cons.prems(3)]) simp_all
    moreover have "net_wf N (s\<lparr>ns_current_epoch := n\<rparr>)" "tick_ok tk" "set_wf N vs"
      using Cons.prems(1,2) by (simp_all add: event_wf_def te ev)
    ultimately have "routes_from env config sets (s\<lparr>ns_current_epoch := n\<rparr>)" "net_wf N (s\<lparr>ns_current_epoch := n\<rparr>)"
      "tick_ok tk" "set_wf N vs" by blast+
    from routes_from_epoch [OF this(2-4,1)] have "routes_from env config (sets @ [vs]) ?s" by (simp add: ev)
    from Cons.IH [OF wf rest this] show ?thesis by (simp add: te ev)
  next
    case False
    then have "routes_from env config sets ?s"
      using same_routes_step [of ev s env tk] Cons.prems(3) by (auto simp: same_routes_def routes_from_def)
    moreover have "epoch_sets (te # evs) = epoch_sets evs" using False by (cases ev) (auto simp: te)
    ultimately show ?thesis using Cons.IH [OF wf rest] by (simp add: te)
  qed
qed simp

section \<open>Messages handed to the engine\<close>

text \<open>The validator whose signature a message carries, where the service looks at it.\<close>

fun message_author :: "ConsensusMessage \<Rightarrow> ValidatorId option" where
  "message_author (Propose block justify double_cert signature ancestors) = Some (b_proposer block)"
| "message_author (VoteMsg vote) = Some (v_validator vote)"
| "message_author (Vote2Msg vote) = Some (v_validator vote)"
| "message_author (Wish target_view validator highest_qc signature) = Some validator"
| "message_author (StatusCert locked_qc validator signature) = Some validator"
| "message_author _ = None"

lemma should_accept_author:
  "should_accept_consensus_from_peer s sender msg \<Longrightarrow> message_author msg = Some a \<Longrightarrow> ns_validator_keys s a \<noteq> None"
  by (cases msg) auto

lemma should_accept_same_routes:
  "same_routes s s' \<Longrightarrow> should_accept_consensus_from_peer s' sender msg = should_accept_consensus_from_peer s sender msg"
  by (cases msg) (auto simp: same_routes_def)

lemma budget_length:
  "check_consensus_ingress_budget now peer n s = (s', True) \<Longrightarrow> n \<le> MAX_CONSENSUS_INGRESS_BYTES_PER_SEC"
  by (auto simp: check_consensus_ingress_budget_def Let_def split: prod.splits if_splits)

lemma relay_delivers_nothing: "DeliverMessage sender msg \<notin> set (snd (relay_consensus_message env tk peer m s))"
  by (auto simp: relay_consensus_message_def Let_def split: sum.split)

lemma receive_delivers:
  "DeliverMessage sender msg \<in> set (snd (receive_message env tk peer v m s)) \<longleftrightarrow>
     v = sender \<and> m = msg \<and> tk_room tk \<and> should_accept_consensus_from_peer s sender msg"
  using relay_delivers_nothing [of sender msg env tk peer m s] by (auto simp: receive_message_def Let_def split: prod.split)

text \<open>The two ways a consensus message comes in.\<close>

definition carries :: "'p net_event \<Rightarrow> 'p \<Rightarrow> bytes \<Rightarrow> bool" where
  "carries ev peer bs \<longleftrightarrow> ev = Notif (NotificationReceived peer bs) \<or> (\<exists>i. ev = ReqResp (RequestReceived peer i bs))"

lemma notification_delivers:
  assumes "DeliverMessage sender msg \<in> set (snd (handle_notification_event env tk event s))"
  shows "\<exists>peer bs. event = NotificationReceived peer bs \<and> rt_p2v (ns_peer_map s) peer = Some sender \<and>
    decode (ne_zstd env) (ne_msg env) bs = Inr msg \<and> should_accept_consensus_from_peer s sender msg \<and>
    length bs \<le> MAX_CONSENSUS_INGRESS_BYTES_PER_SEC"
proof (cases event)
  case (NotificationReceived peer bs)
  obtain s1 ok where b: "check_consensus_ingress_budget (tk_now tk) peer (length bs) s = (s1, ok)" by fastforce
  with assms NotificationReceived show ?thesis
    using budget_length [of "tk_now tk" peer "length bs" s s1] should_accept_same_routes [OF same_routes_budget [OF b]]
    by (cases ok) (auto simp: handle_notification_event_def receive_delivers split: option.splits sum.splits)
qed (use assms in \<open>auto simp: handle_notification_event_def Let_def split: if_splits\<close>)

lemma reqresp_delivers:
  assumes "DeliverMessage sender msg \<in> set (snd (handle_reqresp_event env tk event s))"
  shows "\<exists>peer i bs. event = RequestReceived peer i bs \<and> rt_p2v (ns_peer_map s) peer = Some sender \<and>
    decode (ne_zstd env) (ne_msg env) bs = Inr msg \<and> should_accept_consensus_from_peer s sender msg \<and>
    length bs \<le> MAX_CONSENSUS_INGRESS_BYTES_PER_SEC"
proof (cases event)
  case (RequestReceived peer i bs)
  obtain s1 ok where b: "check_consensus_ingress_budget (tk_now tk) peer (length bs) s = (s1, ok)" by fastforce
  with assms RequestReceived show ?thesis
    using budget_length [of "tk_now tk" peer "length bs" s s1] should_accept_same_routes [OF same_routes_budget [OF b]]
    by (cases ok) (auto simp: handle_reqresp_event_def split: option.splits sum.splits if_splits)
qed (use assms in \<open>auto simp: handle_reqresp_event_def\<close>)

lemma step_delivers:
  assumes "DeliverMessage sender msg \<in> set (snd (net_step env tk ev s))"
  shows "\<exists>peer bs. carries ev peer bs \<and> rt_p2v (ns_peer_map s) peer = Some sender \<and>
    decode (ne_zstd env) (ne_msg env) bs = Inr msg \<and> should_accept_consensus_from_peer s sender msg \<and>
    length bs \<le> MAX_CONSENSUS_INGRESS_BYTES_PER_SEC"
proof (cases ev)
  case (Notif e)
  with assms notification_delivers [of sender msg env tk e s] show ?thesis by (fastforce simp: carries_def)
next
  case (ReqResp e)
  with assms reqresp_delivers [of sender msg env tk e s] show ?thesis by (fastforce simp: carries_def)
next
  case (MempoolNotif e)
  with assms show ?thesis
    by (cases e) (auto simp: handle_mempool_notification_event_def Let_def split: prod.splits if_splits)
next
  case (SyncReqResp e)
  with assms show ?thesis
    by (cases e) (auto simp: handle_sync_event_def split: prod.splits if_splits sum.splits bool.splits)
next
  case (PexReqResp e)
  with assms show ?thesis
    by (cases e) (auto simp: handle_pex_event_def Let_def split: if_splits sum.splits PexRequest.splits PexResponse.splits)
next
  case (FromLitep2p e)
  with assms show ?thesis by (cases e) (auto simp: handle_litep2p_event_def Let_def split: if_splits)
next
  case (Command c)
  with assms show ?thesis by (cases c) (auto simp: handle_command_def Let_def split: sum.splits option.splits)
qed (use assms in \<open>auto simp: handle_epoch_change_def update_peer_info_def run_maintenance_def redial_def connect_more_def run_pex_round_def
   Let_def split: if_splits sum.splits list.splits option.splits\<close>)

section \<open>Relayed messages\<close>

text \<open>How many further messages a remembered one survives.\<close>

definition relay_slack :: "hash32 \<Rightarrow> 'p NetworkService \<Rightarrow> nat" where
  "relay_slack h s =
     (if h \<in> ns_seen_active s then 20002 - card (ns_seen_active s)
      else if h \<in> ns_seen_backup s then 10001 - card (ns_seen_active s) else 0)"

lemma remember_slack:
  assumes "seen_wf s"
  shows "relay_slack h s \<le> Suc (relay_slack h (remember_message h' s))" "10001 \<le> relay_slack h (remember_message h s)"
proof -
  have "finite (ns_seen_active s)" "card (ns_seen_active s) \<le> 10000" using assms by (simp_all add: seen_wf_def)
  then show "relay_slack h s \<le> Suc (relay_slack h (remember_message h' s))" "10001 \<le> relay_slack h (remember_message h s)"
    by (auto simp: relay_slack_def remember_message_def Let_def card_insert_if)
qed

definition seen_of :: "'p NetworkService \<Rightarrow> hash32 set \<times> hash32 set" where
  "seen_of s = (ns_seen_active s, ns_seen_backup s)"

lemma slack_cong: "seen_of s' = seen_of s \<Longrightarrow> relay_slack h s' = relay_slack h s"
  by (simp add: seen_of_def relay_slack_def)

lemma seen_of_budget: "check_consensus_ingress_budget now peer n s = (s', ok) \<Longrightarrow> seen_of s' = seen_of s"
  by (auto simp: check_consensus_ingress_budget_def Let_def seen_of_def split: prod.splits if_splits)

text \<open>A step that takes a consensus message from a peer or from the engine.\<close>

fun takes_message :: "'p net_event \<Rightarrow> bool" where
  "takes_message (Notif (NotificationReceived peer bs)) = True"
| "takes_message (Command (Broadcast bs)) = True"
| "takes_message _ = False"

lemma step_seen:
  assumes "\<not> takes_message ev"
  shows "seen_of (fst (net_step env tk ev s)) = seen_of s"
proof (cases ev)
  case (Notif e)
  then show ?thesis using assms by (cases e) (auto simp: handle_notification_event_def Let_def seen_of_def)
next
  case (ReqResp e)
  then show ?thesis
    by (cases e) (auto simp: handle_reqresp_event_def dest: seen_of_budget split: option.split sum.split prod.split bool.split)
next
  case (SyncReqResp e)
  have book: "seen_of (s1\<lparr>ns_peer_book := b\<rparr>) = seen_of s1" for s1 :: "'a NetworkService" and b by (simp add: seen_of_def)
  show ?thesis
    using SyncReqResp
    by (cases e) (auto simp: handle_sync_event_def book dest: seen_of_budget split: option.split sum.split prod.split bool.split)
next
  case (FromLitep2p e)
  then show ?thesis
    by (cases e) (auto simp: handle_litep2p_event_def Let_def seen_of_def evict_peer_def remove_mempool_peer_def split: option.split)
next
  case (MempoolNotif e)
  then show ?thesis
    by (cases e) (auto simp: handle_mempool_notification_event_def Let_def seen_of_def remove_mempool_peer_def split: prod.split)
next
  case (PexReqResp e)
  then show ?thesis
    by (cases e) (auto simp: handle_pex_event_def Let_def seen_of_def split: sum.split PexRequest.split PexResponse.split)
next
  case (Command c)
  then show ?thesis using assms by (cases c) (auto simp: handle_command_def Let_def seen_of_def)
qed (auto simp: run_maintenance_def run_pex_round_def handle_epoch_change_def Let_def seen_of_def)

text \<open>A step that takes one changes the two sets by remembering at most one identity.\<close>

lemma step_remembers:
  "seen_of (fst (net_step env tk ev s)) = seen_of s \<or> (\<exists>h. seen_of (fst (net_step env tk ev s)) = seen_of (remember_message h s))"
proof (cases "takes_message ev")
  case True
  have cong: "seen_of (remember_message h s1) = seen_of (remember_message h s)" if "seen_of s1 = seen_of s" for h s1
    using that by (simp add: seen_of_def remember_message_def Let_def)
  have book: "seen_of (s1\<lparr>ns_peer_book := b\<rparr>) = seen_of s1" for s1 :: "'a NetworkService" and b by (simp add: seen_of_def)
  have relay: "seen_of (fst (relay_consensus_message env tk p m s1)) = seen_of s1 \<or>
      (\<exists>h. seen_of (fst (relay_consensus_message env tk p m s1)) = seen_of (remember_message h s1))" for p m s1
    by (auto simp: relay_consensus_message_def Let_def split: sum.split)
  have receive: "seen_of (fst (receive_message env tk p v m s1)) = seen_of s1 \<or>
      (\<exists>h. seen_of (fst (receive_message env tk p v m s1)) = seen_of (remember_message h s1))" for p v m s1
    using relay [of p m s1] by (auto simp: receive_message_def Let_def book split: prod.split)
  show ?thesis
  proof (cases ev)
    case (Notif e)
    with True obtain peer bs where e: "e = NotificationReceived peer bs" by (cases e) auto
    obtain s1 ok where b: "check_consensus_ingress_budget (tk_now tk) peer (length bs) s = (s1, ok)" by fastforce
    note s1 = seen_of_budget [OF b]
    show ?thesis
      using receive [of peer _ _ s1] cong [OF s1] s1
      by (cases ok) (auto simp: Notif e handle_notification_event_def b book split: option.split sum.split)
  next
    case (Command c)
    then show ?thesis by (cases c) (auto simp: handle_command_def Let_def split: sum.split)
  qed (use True in auto)
qed (simp add: step_seen)

lemma run_slack:
  "\<lbrakk> net_wf N s; \<forall>te \<in> set evs. event_wf N te \<rbrakk> \<Longrightarrow>
     relay_slack h s \<le> relay_slack h (net_run env evs s) + length (filter (\<lambda>te. takes_message (snd te)) evs)"
proof (induction evs arbitrary: s)
  case (Cons te evs)
  obtain tk ev where te: "te = (tk, ev)" by fastforce
  let ?s = "fst (net_step env tk ev s)"
  have "relay_slack h s \<le> relay_slack h ?s + (if takes_message ev then 1 else 0)"
  proof (cases "takes_message ev")
    case True
    have sw: "seen_wf s" using Cons.prems(1) by (simp add: net_wf_def)
    from step_remembers [of env tk ev s] show ?thesis
      using True remember_slack(1) [OF sw, of h] slack_cong [of ?s _ h] by fastforce
  next
    case False
    then show ?thesis using slack_cong [OF step_seen [OF False, of env tk s], of h] by simp
  qed
  moreover have "net_wf N ?s" using Cons.prems te by (auto intro: net_step_wf)
  then have "relay_slack h ?s \<le> relay_slack h (net_run env evs ?s) + length (filter (\<lambda>te. takes_message (snd te)) evs)"
    using Cons.IH [of ?s] Cons.prems(2) by simp
  ultimately show ?case using te by (cases "takes_message ev") simp_all
qed simp

lemma slack_seen: "0 < relay_slack h s \<Longrightarrow> h \<in> ns_seen_active s \<or> h \<in> ns_seen_backup s"
  by (auto simp: relay_slack_def split: if_splits)

text \<open>Sending a message on records its identity, and a recorded one is not sent on.\<close>

definition message_step :: "'p net_event \<Rightarrow> bytes \<Rightarrow> bool" where
  "message_step ev raw \<longleftrightarrow> (\<exists>p. ev = Notif (NotificationReceived p raw)) \<or> ev = Command (Broadcast raw)"

lemma relay_remembers:
  assumes "SendNotification q bs \<in> set (snd (relay_consensus_message env tk p msg s))"
  shows "\<exists>identity. pc_to_allocvec (ne_msg env) msg = Inr identity \<and>
    ne_blake3 env identity \<notin> ns_seen_active s \<union> ns_seen_backup s \<and>
    fst (relay_consensus_message env tk p msg s) = remember_message (ne_blake3 env identity) s"
  using assms by (auto simp: relay_consensus_message_def Let_def split: sum.splits if_splits)

lemma receive_sends:
  assumes "SendNotification q bs \<in> set (snd (receive_message env tk p sender msg s))"
  shows "SendNotification q bs \<in> set (snd (relay_consensus_message env tk p msg s))"
    "seen_of (fst (receive_message env tk p sender msg s)) = seen_of (fst (relay_consensus_message env tk p msg s))"
  using assms by (auto simp: receive_message_def Let_def seen_of_def split: prod.splits if_splits)

lemma received_sends:
  assumes "SendNotification q bs \<in> set (snd (net_step env tk (Notif (NotificationReceived p raw)) s))"
    and "decode (ne_zstd env) (ne_msg env) raw = Inr msg"
  shows "\<exists>identity. pc_to_allocvec (ne_msg env) msg = Inr identity \<and>
    ne_blake3 env identity \<notin> ns_seen_active s \<union> ns_seen_backup s \<and>
    seen_of (fst (net_step env tk (Notif (NotificationReceived p raw)) s)) = seen_of (remember_message (ne_blake3 env identity) s)"
proof -
  obtain s1 ok where b: "check_consensus_ingress_budget (tk_now tk) p (length raw) s = (s1, ok)" by fastforce
  note sn = seen_of_budget [OF b]
  from assms b obtain sender where r: "net_step env tk (Notif (NotificationReceived p raw)) s = receive_message env tk p sender msg s1"
    by (cases ok) (auto simp: handle_notification_event_def split: option.splits)
  note x = receive_sends [OF assms(1) [unfolded r]]
  from relay_remembers [OF x(1)] x(2) sn show ?thesis
    unfolding r by (auto simp: seen_of_def remember_message_def Let_def)
qed

lemma sends_remember:
  assumes wf: "net_wf N s" and ev: "message_step ev raw" and d: "decode (ne_zstd env) (ne_msg env) raw = Inr msg"
    and snd: "SendNotification q bs \<in> set (snd (net_step env tk ev s))"
  shows "\<exists>identity. pc_to_allocvec (ne_msg env) msg = Inr identity \<and> 10001 \<le> relay_slack (ne_blake3 env identity) (fst (net_step env tk ev s))"
proof -
  have "\<exists>identity. pc_to_allocvec (ne_msg env) msg = Inr identity \<and>
      seen_of (fst (net_step env tk ev s)) = seen_of (remember_message (ne_blake3 env identity) s)"
  proof (cases "\<exists>p. ev = Notif (NotificationReceived p raw)")
    case True
    then show ?thesis using received_sends [OF _ d] snd by blast
  next
    case False
    then have "ev = Command (Broadcast raw)" using ev by (simp add: message_step_def)
    with snd d show ?thesis by (auto simp: handle_command_def Let_def split: sum.splits)
  qed
  then obtain identity where "pc_to_allocvec (ne_msg env) msg = Inr identity"
    "seen_of (fst (net_step env tk ev s)) = seen_of (remember_message (ne_blake3 env identity) s)" by blast
  with remember_slack(2) [of s "ne_blake3 env identity"] wf show ?thesis
    by (auto simp: net_wf_def dest: slack_cong [where h = "ne_blake3 env identity"])
qed

section \<open>Peer exchange\<close>

text \<open>The peers of an answer, and what an advertisement enters.\<close>

lemma pex_answer:
  assumes "tick_ok tk" "pc_from_bytes (ne_pex_request env) request = Inr GetPeers"
    and "SendPexResponse i bs \<in> set (snd (handle_pex_event env tk (RequestReceived peer i request) s))"
  shows "\<exists>peers. pc_to_allocvec (ne_pex_response env) (Peers peers) = Inr bs \<and>
    length peers \<le> px_max_peers_per_response (ns_pex_config s) \<and>
    (\<forall>p \<in> set peers. p \<in> snd ` set (ns_peer_book s) \<and> \<not> is_banned p \<and> pi_peer_id p \<noteq> ne_peer_string env peer \<and>
       pi_peer_id p \<notin> set (px_private_peer_ids (ns_pex_config s)))"
proof -
  let ?r = "get_random_peers (tk_shuffle tk) (px_max_peers_per_response (ns_pex_config s)) (ns_peer_book s)"
  let ?peers = "filter (\<lambda>p. pi_peer_id p \<notin> set (px_private_peer_ids (ns_pex_config s))) (filter (\<lambda>p. pi_peer_id p \<noteq> ne_peer_string env peer) ?r)"
  have "pc_to_allocvec (ne_pex_response env) (Peers ?peers) = Inr bs"
    using assms(2,3) by (auto simp: handle_pex_event_def Let_def split: if_splits sum.splits)
  moreover have "length ?peers \<le> length ?r" by (meson length_filter_le order_trans)
  then have "length ?peers \<le> px_max_peers_per_response (ns_pex_config s)" by (simp add: get_random_peers_def)
  moreover have "p \<in> snd ` set (ns_peer_book s) \<and> \<not> is_banned p" if "p \<in> set ?r" for p
    using get_random_peers_sound [OF _ that] assms(1) by (auto simp: tick_ok_def)
  ultimately show ?thesis by (intro exI [of _ ?peers]) auto
qed

lemma advertise_validator:
  assumes "pi_role (advertise env tk peer role validator_id addresses s) = ValidatorRole"
  shows "\<exists>vid. validator_id = Some vid \<and> rt_v2p (ns_peer_map s) vid = Some peer"
  using assms
  by (auto simp: advertise_def advertised_role_def Let_def peer_info_new_def with_validator_def
      split: option.splits PeerRole.splits if_splits prod.splits)

text \<open>An advertisement replaces the entry of its peer, its score included: a banned peer is not banned afterwards.\<close>

lemma advertise_lifts_ban:
  "\<not> is_banned (advertise env tk peer role validator_id addresses s)"
  by (auto simp: advertise_def Let_def peer_info_new_def with_validator_def is_banned_def BAN_THRESHOLD_def split: prod.split option.split)

section \<open>A start\<close>

text \<open>What \<open>create\<close> is given: at most \<open>N\<close> routes, one to one, and a well-formed book; and routes by the keys of the first set.\<close>

definition config_wf :: "nat \<Rightarrow> ('p, 'm) NetworkConfig \<Rightarrow> bool" where
  "config_wf N config \<longleftrightarrow>
     rt_wf (nc_peer_map config) \<and> finite (dom (rt_v2p (nc_peer_map config))) \<and> card (dom (rt_v2p (nc_peer_map config))) \<le> N \<and>
     pb_wf (nc_peer_book config)"

definition config_keyed :: "('p, 'm) NetEnv \<Rightarrow> ('p, 'm) NetworkConfig \<Rightarrow> bool" where
  "config_keyed env config \<longleftrightarrow>
     (\<forall>v p. rt_v2p (nc_peer_map config) v = Some p \<longrightarrow> key_peer env (nc_initial_validator_set config) v p)"

lemma net_create_ok:
  assumes "config_wf N config"
  shows "net_wf N (net_create config)" "routes_from env config [] (net_create config)"
  using assms by (simp_all add: config_wf_def wf_defs routes_from_def route_from_def net_create_def)

lemma net_run_append: "net_run env (xs @ ys) s = net_run env ys (net_run env xs s)"
  by (induction env xs s rule: net_run.induct) auto

text \<open>A service of the four sample validators, with peer \<open>i\<close> for the key of validator \<open>i\<close>.\<close>

definition net_message :: ConsensusMessage where
  "net_message = Evidence (sample_proof 1)"

definition net_env :: "(nat, string) NetEnv" where
  "net_env = \<lparr> ne_ed = accepting_ed, ne_blake3 = (\<lambda>_. hash_rep 5),
     ne_zstd = \<lparr> zs_encode_all = (\<lambda>_. Inl ''off''), zs_read = (\<lambda>_ _. Inl ''off'') \<rparr>,
     ne_msg = \<lparr> pc_to_allocvec = (\<lambda>m. if m = net_message then Inr [7] else Inl ''unknown''),
                pc_from_bytes = (\<lambda>bs. if bs = [7] then Inr net_message else Inl ''unknown'') \<rparr>,
     ne_sync_request = \<lparr> pc_to_allocvec = (\<lambda>_. Inl ''off''), pc_from_bytes = (\<lambda>_. Inl ''off'') \<rparr>,
     ne_sync_response = \<lparr> pc_to_allocvec = (\<lambda>_. Inl ''off''), pc_from_bytes = (\<lambda>_. Inl ''off'') \<rparr>,
     ne_pex_request = \<lparr> pc_to_allocvec = (\<lambda>_. Inl ''off''), pc_from_bytes = (\<lambda>_. Inl ''off'') \<rparr>,
     ne_pex_response = \<lparr> pc_to_allocvec = (\<lambda>_. Inl ''off''), pc_from_bytes = (\<lambda>_. Inl ''off'') \<rparr>,
     ne_peer_string = (\<lambda>_. ''peer''), ne_parse_peer = (\<lambda>_. None), ne_addr_string = (\<lambda>a. a), ne_parse_addr = Some,
     ne_with_p2p = (\<lambda>a p. a), ne_peer_of_key = (\<lambda>k. Some (unat (hd k))) \<rparr>"

definition net_config :: "(nat, string) NetworkConfig" where
  "net_config = \<lparr> nc_peer_map = rt_insert 1 1 (rt_insert 2 2 rt_new), nc_known_addresses = [], nc_peer_book = pb_new,
     nc_pex_config = default_PexConfig, nc_relay_consensus = True, nc_initial_validator_set = sample_set, nc_chain_id_hash = hash_rep 9 \<rparr>"

definition net_tick :: "nat Tick" where
  "net_tick = \<lparr> tk_now = 0, tk_secs = 0, tk_room = True, tk_peers = sorted_list_of_set, tk_ids = sorted_list_of_set,
     tk_shuffle = (\<lambda>xs. xs), tk_index = (\<lambda>_. 0) \<rparr>"

lemma net_tick_ok: "tick_ok net_tick"
  by (simp add: tick_ok_def net_tick_def)

lemma net_config_routes: "rt_v2p (nc_peer_map net_config) = [1 \<mapsto> 1, 2 \<mapsto> 2]" "rt_p2v (nc_peer_map net_config) = [1 \<mapsto> 1, 2 \<mapsto> 2]"
  by (auto simp: net_config_def rt_insert_def rt_new_def fun_eq_iff)

lemma net_config_ok: "config_wf 4 net_config"
proof -
  have "rt_wf (nc_peer_map net_config)" by (simp add: net_config_def rt_wf_insert)
  moreover have "nc_peer_book net_config = pb_new" by (simp add: net_config_def)
  ultimately show ?thesis by (auto simp: config_wf_def net_config_routes card_insert_if)
qed

text \<open>The sample set with another key of validator 1.\<close>

definition rotated_set :: ValidatorSet where
  "rotated_set = sample_set\<lparr>vs_validators := map (\<lambda>v. if vi_id v = 1 then v\<lparr>vi_public_key := replicate 32 9\<rparr> else v) sample_infos\<rparr>"

lemma rotated_routes:
  defines "s \<equiv> net_run net_env [(net_tick, EpochChanged 1 rotated_set)] (net_create net_config)"
  shows "rt_p2v (ns_peer_map s) 9 = Some 1" "ns_consensus_peer_rate s 9 = None" "ns_current_validator_set s = rotated_set"
    "event_wf 4 (net_tick, EpochChanged 1 rotated_set :: nat net_event)"
proof -
  let ?s = "(net_create net_config)\<lparr>ns_current_epoch := 1\<rparr>"
  let ?xs = "map (\<lambda>v. (vi_id v, vi_public_key v)) (vs_validators rotated_set)"
  have xs: "?xs = [(1, replicate 32 9), (2, replicate 32 2), (3, replicate 32 3), (4, replicate 32 4)]"
    by (simp add: rotated_set_def sample_infos_def)
  have keys: "ns_validator_keys ?s = keys_of sample_set" by (simp add: net_create_def net_config_def)
  have k: "keys_of sample_set 1 = Some (replicate 32 1)" "keys_of sample_set 2 = Some (replicate 32 2)"
    by (simp_all add: keys_of_def sample_set_def sample_infos_def)
  have pm: "rt_v2p (fold (route_validator net_env (ns_validator_keys ?s)) ?xs (ns_peer_map ?s)) 1 = Some 9"
  proof -
    have p: "ne_peer_of_key net_env (replicate 32 c) = Some (unat c)" for c by (simp add: net_env_def)
    have n: "replicate 32 9 \<noteq> replicate 32 (1 :: u8)" by (simp add: replicate_eq_replicate)
    have m: "ns_peer_map ?s = nc_peer_map net_config" by (simp add: net_create_def)
    show ?thesis unfolding xs keys m
      by (simp add: route_validator_def k p n net_config_routes rt_insert_def)
  qed
  show w: "event_wf 4 (net_tick, EpochChanged 1 rotated_set :: nat net_event)"
    by (simp add: event_wf_def net_tick_ok set_wf_def rotated_set_def sample_infos_def)
  have "net_wf 4 s" unfolding s_def by (rule net_run_wf [OF net_create_ok(1) [OF net_config_ok]]) (simp add: w)
  then have rt: "rt_wf (ns_peer_map s)" by (simp add: wf_defs)
  have "rt_v2p (ns_peer_map s) 1 = Some 9"
    using pm by (simp add: s_def handle_epoch_change_def Let_def fold_remove_v2p xs del: fold_simps)
  with rt show "rt_p2v (ns_peer_map s) 9 = Some 1" by (simp add: rt_wf_def)
  show "ns_consensus_peer_rate s 9 = None" "ns_current_validator_set s = rotated_set"
    by (simp_all add: s_def handle_epoch_change_def Let_def) (simp add: net_create_def)
qed

section \<open>Properties\<close>

text \<open>
  C25. The network service stays well-formed. Let it be created with a one-to-one routing table of at most
  \<open>N\<close> validators and an address book keyed by its entries. Whatever events it handles, over any number of
  epochs with at most \<open>N\<close> distinct validators, the two directions of its routing table are inverse to each other and equal to
  the persistent peers, the keys and identifiers it checks relays with are those of the current set, it
  holds at most \<open>max_peers\<close> (or \<open>N\<close>) connections, the two pairs of sets of seen messages keep their size, every
  gossip budget belongs to an open stream, and the address book is keyed by its entries.
\<close>

theorem network_invariant:
  assumes "config_wf N config" "\<forall>te \<in> set evs. event_wf N te"
  shows "net_wf N (net_run env evs (net_create config))"
  using net_run_wf [OF net_create_ok(1)] assms by blast

theorem network_invariant_witness:
  "net_wf 4 (net_run net_env [(net_tick, FromLitep2p (ConnectionEstablished 1)), (net_tick, EpochChanged 1 sample_set)] (net_create net_config))"
proof (rule network_invariant [OF net_config_ok])
  show "\<forall>te \<in> set [(net_tick, FromLitep2p (ConnectionEstablished 1)), (net_tick, EpochChanged 1 sample_set)]. event_wf 4 te"
    by (simp add: event_wf_def net_tick_ok set_wf_def) (simp add: sample_set_def sample_infos_def)
qed

text \<open>
  C24. Messages are attributed to the peers the validators are routed to, and where those routes come from.
  In any run of a service created with a one-to-one routing table, over announced sets with distinct
  members, a consensus message reaches the engine only in a notification or request that decodes to it
  and is within the byte budget; the validator whose signature it names is a member of the current set,
  and so is the validator it is attributed to once an epoch was announced. The peer it comes from is the
  one configured for that validator or belongs to a key the validator had in an announced set. It belongs
  to the key the validator has now, with two exceptions: a configured route stands as long as the
  validator's key never changed, whatever peer it names, and a key that belongs to no peer leaves the
  route from before it in force. If the configured routes are by the keys of the first set and every
  announced key belongs to a peer, it is always the peer of the current key, across all key changes.
\<close>

theorem network_attribution:
  assumes cfg: "config_wf N config" and evs: "\<forall>te \<in> set evs. event_wf N te"
    and s: "s = net_run env evs (net_create config)"
    and d: "DeliverMessage sender msg \<in> set (snd (net_step env tk ev s))"
  defines "members \<equiv> vi_id ` set (vs_validators (ns_current_validator_set s))"
  shows "\<exists>peer bs. carries ev peer bs \<and> decode (ne_zstd env) (ne_msg env) bs = Inr msg \<and>
    length bs \<le> MAX_CONSENSUS_INGRESS_BYTES_PER_SEC \<and>
    (\<forall>a. message_author msg = Some a \<longrightarrow> a \<in> members) \<and> (epoch_sets evs \<noteq> [] \<longrightarrow> sender \<in> members) \<and>
    (rt_v2p (nc_peer_map config) sender = Some peer \<or> (\<exists>vs \<in> set (epoch_sets evs). key_peer env vs sender peer)) \<and>
    (key_peer env (ns_current_validator_set s) sender peer \<or>
     rt_v2p (nc_peer_map config) sender = Some peer \<and>
       (\<forall>vs \<in> set (epoch_sets evs). keys_of vs sender = keys_of (nc_initial_validator_set config) sender) \<or>
     (\<exists>vs \<in> set (epoch_sets evs). unroutable env vs sender)) \<and>
    (config_keyed env config \<and> (\<forall>vs \<in> set (epoch_sets evs). \<forall>v. \<not> unroutable env vs v) \<longrightarrow>
       key_peer env (ns_current_validator_set s) sender peer)"
proof -
  let ?sets = "epoch_sets evs"
  have wf: "net_wf N s" and rd: "routes_from env config ?sets s"
    using net_run_wf [OF net_create_ok(1) [OF cfg] evs]
      net_run_routes_from [OF net_create_ok(1) [OF cfg] evs net_create_ok(2) [OF cfg]] s by simp_all
  have keys: "ns_validator_keys s = keys_of (ns_current_validator_set s)" and rt: "rt_wf (ns_peer_map s)" using wf by (simp_all add: wf_defs)
  have cur: "ns_current_validator_set s = last (nc_initial_validator_set config # ?sets)" using rd by (simp add: routes_from_def)
  obtain peer bs where p: "carries ev peer bs" "rt_p2v (ns_peer_map s) peer = Some sender"
    "decode (ne_zstd env) (ne_msg env) bs = Inr msg" "should_accept_consensus_from_peer s sender msg"
    "length bs \<le> MAX_CONSENSUS_INGRESS_BYTES_PER_SEC" using step_delivers [OF d] by blast
  have "rt_v2p (ns_peer_map s) sender = Some peer" using rt p(2) by (simp add: rt_wf_def)
  with rd have src: "route_from env config ?sets sender peer" and mem: "?sets \<noteq> [] \<longrightarrow> sender \<in> members"
    by (auto simp: routes_from_def members_def)
  have "a \<in> members" if "message_author msg = Some a" for a
  proof -
    from should_accept_author [OF p(4) that] obtain k where "map_of (rev (map (\<lambda>v. (vi_id v, vi_public_key v))
        (vs_validators (ns_current_validator_set s)))) a = Some k" by (auto simp: keys keys_of_def)
    from map_of_SomeD [OF this] show ?thesis by (auto simp: members_def)
  qed
  moreover have "key_peer env (ns_current_validator_set s) sender peer"
    if c: "config_keyed env config" "\<forall>vs \<in> set ?sets. \<forall>v. \<not> unroutable env vs v"
  proof -
    have "keys_of (ns_current_validator_set s) sender = keys_of (nc_initial_validator_set config) sender"
      if "\<forall>vs \<in> set ?sets. keys_of vs sender = keys_of (nc_initial_validator_set config) sender"
      using that cur by (auto split: if_splits)
    with src c cur show ?thesis by (auto simp: route_from_def config_keyed_def key_peer_def)
  qed
  ultimately show ?thesis
    using p mem src cur unfolding route_from_def by (intro exI [of _ peer] exI [of _ bs]) simp
qed

text \<open>A frame of two bytes from a routed peer, the first of its connection.\<close>

lemma net_receives:
  assumes "rt_p2v (ns_peer_map s) p = Some v" "ns_consensus_peer_rate s p = None"
  shows "net_step net_env net_tick (Notif (NotificationReceived p [0, 7])) s =
    receive_message net_env net_tick p v net_message (s\<lparr>ns_consensus_peer_rate := (ns_consensus_peer_rate s)(p \<mapsto> (0, 2))\<rparr>)"
proof -
  have "decode (ne_zstd net_env) (ne_msg net_env) [0, 7] = Inr net_message"
    by (simp add: decode_def net_env_def TAG_RAW_def map_err_def)
  moreover have "check_consensus_ingress_budget (tk_now net_tick) p 2 s = (s\<lparr>ns_consensus_peer_rate := (ns_consensus_peer_rate s)(p \<mapsto> (0, 2))\<rparr>, True)"
    using assms(2) by (simp add: check_consensus_ingress_budget_def net_tick_def from_secs_def MAX_CONSENSUS_INGRESS_BYTES_PER_SEC_def numeral_2_eq_2)
  ultimately show ?thesis using assms(1) by (simp add: handle_notification_event_def numeral_2_eq_2)
qed

lemma net_delivers:
  assumes "rt_p2v (ns_peer_map s) p = Some v" "ns_consensus_peer_rate s p = None"
  shows "DeliverMessage v net_message \<in> set (snd (net_step net_env net_tick (Notif (NotificationReceived p [0, 7])) s))"
  unfolding net_receives [OF assms] receive_delivers by (simp add: net_tick_def net_message_def)

theorem network_attribution_witness:
  "\<exists>s. s = net_run net_env [(net_tick, EpochChanged 1 rotated_set)] (net_create net_config) \<and>
     DeliverMessage 1 net_message \<in> set (snd (net_step net_env net_tick (Notif (NotificationReceived 9 [0, 7])) s)) \<and>
     key_peer net_env rotated_set 1 9"
proof -
  let ?evs = "[(net_tick, EpochChanged 1 rotated_set)]"
  let ?s = "net_run net_env ?evs (net_create net_config)"
  note r = rotated_routes
  have d: "DeliverMessage 1 net_message \<in> set (snd (net_step net_env net_tick (Notif (NotificationReceived 9 [0, 7])) ?s))"
    by (rule net_delivers [OF r(1,2)])
  have keyed: "config_keyed net_env net_config"
  proof -
    have "keys_of sample_set 1 = Some (replicate 32 1)" "keys_of sample_set 2 = Some (replicate 32 2)"
      by (simp_all add: keys_of_def sample_set_def sample_infos_def)
    moreover have "nc_initial_validator_set net_config = sample_set" by (simp add: net_config_def)
    ultimately show ?thesis by (auto simp: config_keyed_def key_peer_def net_config_routes net_env_def split: if_splits)
  qed
  have parse: "\<forall>vs \<in> set (epoch_sets ?evs). \<forall>v. \<not> unroutable net_env vs v" by (simp add: unroutable_def net_env_def)
  from network_attribution [OF net_config_ok _ refl d] r(4)
  obtain peer bs where "carries (Notif (NotificationReceived 9 [0, 7])) peer bs" "key_peer net_env rotated_set 1 peer"
    using keyed parse unfolding r(3) by auto
  then have "key_peer net_env rotated_set 1 9" by (auto simp: carries_def)
  with d show ?thesis by blast
qed

text \<open>
  C26. A relayed or broadcast message is not relayed again while fewer than 10001 further messages have come
  in. Take a service created with a one-to-one routing table and a keyed address book, and announced sets of
  bounded size with distinct members: if a step sends the message on to some peer, then after any events with at most 10000 received or
  broadcast messages among them, a frame that decodes to the same message, from whatever peer, is not sent
  to anyone. The rotation of the two sets never opens a gap.
\<close>

theorem relay_not_repeated:
  assumes cfg: "config_wf N config" and evs: "\<forall>te \<in> set (evs @ (tk, ev) # evs'). event_wf N te"
    and s: "s = net_run env evs (net_create config)"
    and ev: "message_step ev raw" "decode (ne_zstd env) (ne_msg env) raw = Inr msg"
    and snt: "SendNotification q bs \<in> set (snd (net_step env tk ev s))"
    and n: "length (filter (\<lambda>te. takes_message (snd te)) evs') \<le> 10000"
    and raw': "decode (ne_zstd env) (ne_msg env) raw' = Inr msg"
  shows "SendNotification q' bs' \<notin>
    set (snd (net_step env tk' (Notif (NotificationReceived p' raw')) (net_run env evs' (fst (net_step env tk ev s)))))"
proof
  let ?s1 = "fst (net_step env tk ev s)"
  let ?s2 = "net_run env evs' ?s1"
  assume again: "SendNotification q' bs' \<in> set (snd (net_step env tk' (Notif (NotificationReceived p' raw')) ?s2))"
  have wf: "net_wf N s" using net_run_wf [OF net_create_ok(1) [OF cfg], of evs env] evs s by simp
  obtain identity where i: "pc_to_allocvec (ne_msg env) msg = Inr identity" "10001 \<le> relay_slack (ne_blake3 env identity) ?s1"
    using sends_remember [OF wf ev snt] by blast
  have "net_wf N ?s1" using net_step_wf [OF wf, of tk ev env] evs by simp
  from run_slack [OF this, of evs' "ne_blake3 env identity" env] evs n i(2) have "0 < relay_slack (ne_blake3 env identity) ?s2" by simp
  with received_sends [OF again raw'] i(1) slack_seen [of _ ?s2] show False by auto
qed

theorem relay_not_repeated_witness:
  "\<exists>s. SendNotification 2 [0, 7] \<in> set (snd (net_step net_env net_tick (Notif (NotificationReceived 1 [0, 7])) s)) \<and>
     SendNotification 2 [0, 7] \<notin> set (snd (net_step net_env net_tick (Notif (NotificationReceived 2 [0, 7]))
       (fst (net_step net_env net_tick (Notif (NotificationReceived 1 [0, 7])) s))))"
proof -
  let ?open = "(net_tick, Notif (NotificationStreamOpened 2)) :: nat Tick \<times> nat net_event"
  let ?rcv = "Notif (NotificationReceived 1 [0, 7]) :: nat net_event"
  define s where "s = net_run net_env [?open] (net_create net_config)"
  have s': "s = (net_create net_config)\<lparr>ns_notif_connected_peers := {2}\<rparr>"
    by (simp add: s_def handle_notification_event_def Let_def) (simp add: net_create_def net_config_routes)
  have d: "decode (ne_zstd net_env) (ne_msg net_env) [0, 7] = Inr net_message"
    by (simp add: decode_def net_env_def TAG_RAW_def map_err_def)
  have keys: "keys_of sample_set 1 = Some (replicate 32 1)" by (simp add: keys_of_def sample_set_def sample_infos_def)
  have r: "net_step net_env net_tick ?rcv s = receive_message net_env net_tick 1 1 net_message (s\<lparr>ns_consensus_peer_rate := (ns_consensus_peer_rate s)(1 \<mapsto> (0, 2))\<rparr>)"
    by (rule net_receives) (simp_all add: s' net_create_def net_config_routes)
  have snt: "SendNotification 2 [0, 7] \<in> set (snd (net_step net_env net_tick ?rcv s))"
    unfolding r
    by (simp add: receive_message_def net_message_def should_relay_consensus_message_def)
       (simp add: s' net_create_def net_config_def keys relay_consensus_message_def net_env_def net_message_def encode_def
          COMPRESS_THRESHOLD_def TAG_RAW_def map_err_def rbind_def net_tick_def Let_def MAX_NOTIFICATION_SIZE_def)
  have "\<forall>te \<in> set ([?open] @ (net_tick, ?rcv) # []). event_wf 4 te" by (simp add: event_wf_def net_tick_ok)
  from relay_not_repeated [OF net_config_ok this s_def _ d snt _ d, of 2 "[0, 7]" net_tick 2] snt
  show ?thesis by (intro exI [of _ s]) (simp add: message_step_def)
qed

text \<open>
  C27. A broadcast reaches the engine of every connected peer. Let serialization and compression be undone by
  their inverses, and let a message have an encoding of at most 16 MiB
  that fits, compressed or not and with its tag, into a frame of at most 16 MiB, the maximum of the
  notification protocol, and let the command queue have room when the engine hands the message to the
  sink. Then the sink queues one command, for which a well-formed service sends the frame to every peer with an open
  stream. A peer that routes the sender to this node, has budget for the frame and room in the queue of
  its engine, and has the validator that the message names in its set hands its engine exactly this
  message under exactly this sender. A larger frame is sent to no one.
\<close>

theorem broadcast_reaches_engine:
  assumes codec: "codec_ok (ne_msg env)" "zstd_ok (ne_zstd env)"
    and raw: "pc_to_allocvec (ne_msg env) msg = Inr raw" "length raw \<le> MAX_DECOMPRESSED_SIZE"
    and frame: "encode (ne_zstd env) (ne_msg env) msg = Inr bs" "length bs \<le> MAX_NOTIFICATION_SIZE"
    and s: "net_wf N s" "tick_ok tk" "peer \<in> ns_notif_connected_peers s"
    and r: "rt_p2v (ns_peer_map r) self = Some sender" "should_accept_consensus_from_peer r sender msg" "tk_room tk'"
    and budget: "snd (check_consensus_ingress_budget (tk_now tk') self (length bs) r)"
  shows "sink_broadcast env True msg = [Broadcast bs] \<and>
    SendNotification peer bs \<in> set (snd (net_step env tk (Command (Broadcast bs)) s)) \<and>
    DeliverMessage sender msg \<in> set (snd (net_step env tk' (Notif (NotificationReceived self bs)) r)) \<and>
    (\<forall>bs' q. MAX_NOTIFICATION_SIZE < length bs' \<longrightarrow>
       SendNotification q bs' \<notin> set (snd (net_step env tk (Command (Broadcast bs')) s)))"
proof -
  have d: "decode (ne_zstd env) (ne_msg env) bs = Inr msg" using decode_encode [OF codec frame(1) raw(1)] raw(2) by simp
  have "set (tk_peers tk (ns_notif_connected_peers s)) = ns_notif_connected_peers s" using s by (simp add: tick_ok_def wf_defs)
  then have "SendNotification peer bs \<in> set (snd (net_step env tk (Command (Broadcast bs)) s))"
    using s(3) frame(2) by (simp add: handle_command_def Let_def d raw(1))
  moreover obtain r1 where r1: "check_consensus_ingress_budget (tk_now tk') self (length bs) r = (r1, True)"
    using budget by (metis prod.collapse)
  have "DeliverMessage sender msg \<in> set (snd (receive_message env tk' self sender msg r1))"
    unfolding receive_delivers using r should_accept_same_routes [OF same_routes_budget [OF r1]] by simp
  then have "DeliverMessage sender msg \<in> set (snd (net_step env tk' (Notif (NotificationReceived self bs)) r))"
    by (simp add: handle_notification_event_def r(1) r1 d)
  moreover have "SendNotification q bs' \<notin> set (snd (net_step env tk (Command (Broadcast bs')) s))"
    if "MAX_NOTIFICATION_SIZE < length bs'" for q bs'
    using that by (auto simp: handle_command_def Let_def split: sum.split)
  ultimately show ?thesis using frame(1) by (simp add: sink_broadcast_def queue_command_def)
qed

text \<open>A compression that packs runs of one byte, and a message whose encoding is such a run.\<close>

definition run_zstd :: Zstd where
  "run_zstd =
     \<lparr> zs_encode_all = (\<lambda>raw. if raw \<noteq> [] \<and> length raw < 65536 \<and> raw = replicate (length raw) (hd raw)
           then Inr [1, hd raw, of_nat (length raw mod 256), of_nat (length raw div 256)] else Inr (0 # raw)),
       zs_read = (\<lambda>n bs. case bs of
           [] \<Rightarrow> Inl ''empty''
         | b # rest \<Rightarrow>
             if b = 0 then Inr (take n rest)
             else case rest of
                    [c, lo, hi] \<Rightarrow> Inr (take n (replicate (unat lo + 256 * unat hi) c))
                  | _ \<Rightarrow> Inl ''bad frame'') \<rparr>"

lemma run_zstd_ok: "zstd_ok run_zstd"
proof -
  have "unat (of_nat (n mod 256) :: u8) + 256 * unat (of_nat (n div 256) :: u8) = n" if "n < 65536" for n
    using that by (simp add: unat_of_nat take_bit_nat_eq_self_iff less_mult_imp_div_less)
  note len = this
  have "zs_read run_zstd n bs = Inr (take n raw)" if e: "zs_encode_all run_zstd raw = Inr bs" for raw bs n
  proof (cases "raw \<noteq> [] \<and> length raw < 65536 \<and> raw = replicate (length raw) (hd raw)")
    case True
    then have "bs = [1, hd raw, of_nat (length raw mod 256), of_nat (length raw div 256)]"
      using e unfolding run_zstd_def Zstd.select_convs by (simp only: if_True sum.inject simp_thms)
    moreover have "replicate (length raw) (hd raw) = raw" using True by (metis (no_types))
    moreover from this have "take n (replicate (length raw) (hd raw)) = take n raw" by (rule arg_cong)
    ultimately show ?thesis using len [of "length raw"] True by (simp add: run_zstd_def del: take_replicate)
  next
    case False
    then have "bs = 0 # raw" using e unfolding run_zstd_def Zstd.select_convs by (simp only: if_False sum.inject)
    then show ?thesis by (simp add: run_zstd_def)
  qed
  then show ?thesis unfolding zstd_ok_def by blast
qed

definition run_env :: "(nat, string) NetEnv" where
  "run_env = net_env\<lparr>ne_zstd := run_zstd,
     ne_msg := \<lparr> pc_to_allocvec = (\<lambda>m. if m = net_message then Inr (replicate 300 7) else Inl ''unknown''),
                 pc_from_bytes = (\<lambda>bs. if bs = replicate 300 7 then Inr net_message else Inl ''unknown'') \<rparr>\<rparr>"

theorem broadcast_reaches_engine_witness:
  "sink_broadcast run_env True net_message = [Broadcast [1, 1, 7, 44, 1] :: nat NetCommand] \<and>
   SendNotification 2 [1, 1, 7, 44, 1] \<in> set (snd (net_step run_env net_tick (Command (Broadcast [1, 1, 7, 44, 1]))
     ((net_create net_config)\<lparr>ns_notif_connected_peers := {2}\<rparr>))) \<and>
   DeliverMessage 1 net_message \<in>
     set (snd (net_step run_env net_tick (Notif (NotificationReceived 1 [1, 1, 7, 44, 1])) (net_create net_config)))"
proof -
  let ?bs = "[1, 1, 7, 44, 1] :: bytes"
  have "codec_ok (ne_msg run_env)" "zstd_ok (ne_zstd run_env)"
    by (auto simp: codec_ok_def run_zstd_ok run_env_def)
  moreover have "pc_to_allocvec (ne_msg run_env) net_message = Inr (replicate 300 7)"
    "length (replicate 300 (7 :: u8)) \<le> MAX_DECOMPRESSED_SIZE" by (simp_all add: run_env_def MAX_DECOMPRESSED_SIZE_def)
  moreover have "encode (ne_zstd run_env) (ne_msg run_env) net_message = Inr ?bs"
    by (simp add: encode_def run_env_def run_zstd_def map_err_def rbind_def COMPRESS_THRESHOLD_def TAG_ZSTD_def)
  moreover have "length ?bs \<le> MAX_NOTIFICATION_SIZE" by (simp add: MAX_NOTIFICATION_SIZE_def)
  moreover have "net_wf 4 ((net_create net_config)\<lparr>ns_notif_connected_peers := {2}\<rparr>)"
    by (rule net_wf_notif [OF net_create_ok(1) [OF net_config_ok]]) simp
  moreover have "rt_p2v (ns_peer_map (net_create net_config)) 1 = Some 1" by (simp add: net_create_def net_config_routes)
  moreover have "snd (check_consensus_ingress_budget (tk_now net_tick) 1 (length ?bs) (net_create net_config))"
    by (simp add: check_consensus_ingress_budget_def net_create_def net_tick_def from_secs_def MAX_CONSENSUS_INGRESS_BYTES_PER_SEC_def)
  ultimately show ?thesis
    using broadcast_reaches_engine [of run_env net_message "replicate 300 7" ?bs 4
        "(net_create net_config)\<lparr>ns_notif_connected_peers := {2}\<rparr>" net_tick 2 "net_create net_config" 1 1 net_tick]
    by (simp add: net_tick_ok net_message_def) (simp add: net_tick_def)
qed

end
