(* ===== verification/Utxo.thy ===== *)
theory Utxo
  imports Commit Aggregate "HOL-Library.Sublist"
begin

text \<open>
  The UTXO chain (\<open>examples/utxo-chain\<close>), an application on top of the consensus library: outputs, their
  spending under signatures, the total supply and the index by address. It implements the interface
  \<open>Application\<close> of the commit loop. blake3, Ed25519, postcard and the versioned map and slot index of
  vsdb are parameters.
\<close>

section \<open>Transactions\<close>

record OutPoint =
  op_txid :: hash32
  op_vout :: u32

record TxOutput =
  to_value :: u64
  to_pubkey_hash :: hash32

record TxInput =
  ti_prev_out :: OutPoint
  ti_signature :: bytes
  ti_pubkey :: hash32

record UtxoTx =
  tx_inputs :: "TxInput list"
  tx_outputs :: "TxOutput list"

definition to_key :: "OutPoint \<Rightarrow> bytes" where
  "to_key o' = bytes_of (op_txid o') @ rev (to_le_bytes_u32 (op_vout o'))"

definition from_key :: "bytes \<Rightarrow> OutPoint" where
  "from_key key = \<lparr> op_txid = Hash32 (take 32 key), op_vout = from_le_bytes_u32 (rev (take 4 (drop 32 key))) \<rparr>"

record UtxoLib =
  ul_blake3 :: "bytes \<Rightarrow> hash32"
  ul_ed :: Ed25519
  ul_enc_tx :: "UtxoTx \<Rightarrow> bytes"
  ul_dec_tx :: "bytes \<Rightarrow> UtxoTx option"
  ul_enc_output :: "TxOutput \<Rightarrow> bytes"

text \<open>The transaction that is signed and hashed: all signatures are zeroed.\<close>

definition unsigned_tx :: "UtxoTx \<Rightarrow> UtxoTx" where
  "unsigned_tx tx = tx\<lparr>tx_inputs := map (\<lambda>i. i\<lparr>ti_signature := replicate 64 0\<rparr>) (tx_inputs tx)\<rparr>"

definition signing_hash :: "UtxoLib \<Rightarrow> UtxoTx \<Rightarrow> hash32" where
  "signing_hash lib tx = ul_blake3 lib (ul_enc_tx lib (unsigned_tx tx))"

definition txid :: "UtxoLib \<Rightarrow> UtxoTx \<Rightarrow> hash32" where
  "txid lib tx = signing_hash lib tx"

definition hash_pubkey :: "UtxoLib \<Rightarrow> hash32 \<Rightarrow> hash32" where
  "hash_pubkey lib pubkey = ul_blake3 lib (bytes_of pubkey)"

definition utxo_encode_payload :: "UtxoLib \<Rightarrow> UtxoTx list \<Rightarrow> bytes" where
  "utxo_encode_payload lib txs =
     concat (map (\<lambda>tx. to_le_bytes_u32 (of_nat (length (ul_enc_tx lib tx))) @ ul_enc_tx lib tx) txs)"

section \<open>State\<close>

text \<open>
  The library's versioned map at the main branch and its slot index. A failed lookup counts as absent and
  a failed write is ignored; \<open>None\<close> is an error of a commit and the panic of a removal from the index.
\<close>

record ('m, 'd) UtxoDb =
  vm_new :: 'm
  vm_get :: "'m \<Rightarrow> bytes \<Rightarrow> TxOutput option"
  vm_insert :: "bytes \<Rightarrow> TxOutput \<Rightarrow> 'm \<Rightarrow> 'm"
  vm_remove :: "bytes \<Rightarrow> 'm \<Rightarrow> 'm"
  vm_commit :: "'m \<Rightarrow> 'm option"
  vm_merkle_root :: "'m \<Rightarrow> 'm \<times> bytes option"
  vm_prove :: "bytes \<Rightarrow> 'm \<Rightarrow> 'm \<times> bytes option"
  sd_new :: 'd
  sd_insert :: "u128 \<Rightarrow> bytes \<Rightarrow> 'd \<Rightarrow> 'd"
  sd_remove :: "u128 \<Rightarrow> bytes \<Rightarrow> 'd \<Rightarrow> 'd option"
  sd_iter :: "'d \<Rightarrow> u128 \<Rightarrow> bytes list"
  sd_page :: "'d \<Rightarrow> u128 \<Rightarrow> nat \<Rightarrow> nat \<Rightarrow> bytes list"

record ('m, 'd) UtxoState =
  us_utxos :: 'm
  us_addr_index :: 'd
  us_total_supply :: u64

definition addr_slot :: "hash32 \<Rightarrow> u128" where
  "addr_slot pubkey_hash = of_nat (le_bytes_nat (rev (take 16 (bytes_of pubkey_hash))))"

definition utxo_state_new :: "('m, 'd) UtxoDb \<Rightarrow> ('m, 'd) UtxoState" where
  "utxo_state_new db = \<lparr> us_utxos = vm_new db, us_addr_index = sd_new db, us_total_supply = 0 \<rparr>"

definition get_utxo :: "('m, 'd) UtxoDb \<Rightarrow> OutPoint \<Rightarrow> ('m, 'd) UtxoState \<Rightarrow> TxOutput option" where
  "get_utxo db outpoint s = vm_get db (us_utxos s) (to_key outpoint)"

definition spend_input :: "('m, 'd) UtxoDb \<Rightarrow> TxInput \<Rightarrow> ('m, 'd) UtxoState \<Rightarrow> ('m, 'd) UtxoState option" where
  "spend_input db input s =
     (let key = to_key (ti_prev_out input)
      in case vm_get db (us_utxos s) key of
           None \<Rightarrow> Some s
         | Some spent_output \<Rightarrow>
             (case sd_remove db (addr_slot (to_pubkey_hash spent_output)) key (us_addr_index s) of
                None \<Rightarrow> None
              | Some index \<Rightarrow>
                  Some \<lparr> us_utxos = vm_remove db key (us_utxos s), us_addr_index = index,
                         us_total_supply = saturating_sub (us_total_supply s) (to_value spent_output) \<rparr>))"

definition create_output :: "('m, 'd) UtxoDb \<Rightarrow> hash32 \<Rightarrow> u32 \<Rightarrow> TxOutput \<Rightarrow> ('m, 'd) UtxoState \<Rightarrow> ('m, 'd) UtxoState" where
  "create_output db tid vout output s =
     (let key = to_key \<lparr> op_txid = tid, op_vout = vout \<rparr>
      in \<lparr> us_utxos = vm_insert db key output (us_utxos s),
           us_addr_index = sd_insert db (addr_slot (to_pubkey_hash output)) key (us_addr_index s),
           us_total_supply = saturating_add (us_total_supply s) (to_value output) \<rparr>)"

fun spend_inputs :: "('m, 'd) UtxoDb \<Rightarrow> TxInput list \<Rightarrow> ('m, 'd) UtxoState \<Rightarrow> ('m, 'd) UtxoState option" where
  "spend_inputs db [] s = Some s"
| "spend_inputs db (i # is) s = Option.bind (spend_input db i s) (spend_inputs db is)"

fun create_outputs :: "('m, 'd) UtxoDb \<Rightarrow> hash32 \<Rightarrow> nat \<Rightarrow> TxOutput list \<Rightarrow> ('m, 'd) UtxoState \<Rightarrow> ('m, 'd) UtxoState" where
  "create_outputs db tid vout [] s = s"
| "create_outputs db tid vout (output # outs) s =
     create_outputs db tid (Suc vout) outs (create_output db tid (of_nat vout) output s)"

text \<open>The running supply is written back at the end; it is threaded through the state here.\<close>

definition apply_tx :: "('m, 'd) UtxoDb \<Rightarrow> UtxoTx \<Rightarrow> hash32 \<Rightarrow> ('m, 'd) UtxoState \<Rightarrow> ('m, 'd) UtxoState option" where
  "apply_tx db tx tid s = map_option (create_outputs db tid 0 (tx_outputs tx)) (spend_inputs db (tx_inputs tx) s)"

definition utxo_commit :: "('m, 'd) UtxoDb \<Rightarrow> ('m, 'd) UtxoState \<Rightarrow> ('m, 'd) UtxoState option" where
  "utxo_commit db s = map_option (\<lambda>m. s\<lparr>us_utxos := m\<rparr>) (vm_commit db (us_utxos s))"

definition utxo_root :: "('m, 'd) UtxoDb \<Rightarrow> ('m, 'd) UtxoState \<Rightarrow> ('m, 'd) UtxoState \<times> bytes option" where
  "utxo_root db s = (let (m, root) = vm_merkle_root db (us_utxos s) in (s\<lparr>us_utxos := m\<rparr>, root))"

definition prove_utxo :: "('m, 'd) UtxoDb \<Rightarrow> OutPoint \<Rightarrow> ('m, 'd) UtxoState \<Rightarrow> ('m, 'd) UtxoState \<times> bytes option" where
  "prove_utxo db outpoint s = (let (m, proof') = vm_prove db (to_key outpoint) (us_utxos s) in (s\<lparr>us_utxos := m\<rparr>, proof'))"

definition insert_genesis_utxo :: "('m, 'd) UtxoDb \<Rightarrow> hash32 \<Rightarrow> u32 \<Rightarrow> TxOutput \<Rightarrow> ('m, 'd) UtxoState \<Rightarrow> ('m, 'd) UtxoState" where
  "insert_genesis_utxo db tid vout output s = create_output db tid vout output s"

definition get_utxos_by_address :: "('m, 'd) UtxoDb \<Rightarrow> hash32 \<Rightarrow> nat \<Rightarrow> nat \<Rightarrow> ('m, 'd) UtxoState \<Rightarrow> OutPoint list" where
  "get_utxos_by_address db pubkey_hash page_index page_size s =
     map from_key (sd_page db (us_addr_index s) (addr_slot pubkey_hash) page_size page_index)"

definition get_balance :: "('m, 'd) UtxoDb \<Rightarrow> hash32 \<Rightarrow> ('m, 'd) UtxoState \<Rightarrow> u64" where
  "get_balance db pubkey_hash s =
     sum_list (map to_value (List.map_filter (vm_get db (us_utxos s)) (sd_iter db (us_addr_index s) (addr_slot pubkey_hash))))"

section \<open>The application\<close>

record GenesisUtxo =
  gu_value :: u64
  gu_pubkey_hash :: hash32

record UtxoConfig =
  uc_genesis_utxos :: "GenesisUtxo list"
  uc_max_tx_inputs :: nat
  uc_max_tx_outputs :: nat
  uc_max_tx_size :: nat
  uc_log_on_commit :: bool

definition default_UtxoConfig :: UtxoConfig where
  "default_UtxoConfig = \<lparr> uc_genesis_utxos = [], uc_max_tx_inputs = 256, uc_max_tx_outputs = 256, uc_max_tx_size = 102400,
     uc_log_on_commit = False \<rparr>"

fun insert_genesis :: "UtxoLib \<Rightarrow> ('m, 'd) UtxoDb \<Rightarrow> nat \<Rightarrow> GenesisUtxo list \<Rightarrow> ('m, 'd) UtxoState \<Rightarrow> ('m, 'd) UtxoState" where
  "insert_genesis lib db i [] s = s"
| "insert_genesis lib db i (alloc # allocs) s =
     insert_genesis lib db (Suc i) allocs
       (insert_genesis_utxo db (ul_blake3 lib (to_le_bytes (of_nat i))) 0
          \<lparr> to_value = gu_value alloc, to_pubkey_hash = gu_pubkey_hash alloc \<rparr> s)"

text \<open>A failed commit of the genesis state is ignored.\<close>

definition utxo_app_new :: "UtxoLib \<Rightarrow> ('m, 'd) UtxoDb \<Rightarrow> UtxoConfig \<Rightarrow> ('m, 'd) UtxoState" where
  "utxo_app_new lib db config =
     (let s = insert_genesis lib db 0 (uc_genesis_utxos config) (utxo_state_new db)
      in case utxo_commit db s of Some s' \<Rightarrow> s' | None \<Rightarrow> s)"

text \<open>Verification of the inputs one by one with the sum of their values.\<close>

fun check_inputs :: "UtxoLib \<Rightarrow> ('m, 'd) UtxoDb \<Rightarrow> hash32 \<Rightarrow> ('m, 'd) UtxoState \<Rightarrow> TxInput list \<Rightarrow> u64 \<Rightarrow> u64 option" where
  "check_inputs lib db sighash s [] input_sum = Some input_sum"
| "check_inputs lib db sighash s (input # rest) input_sum =
     (case get_utxo db (ti_prev_out input) s of
        None \<Rightarrow> None
      | Some utxo \<Rightarrow>
          if hash_pubkey lib (ti_pubkey input) \<noteq> to_pubkey_hash utxo then None
          else if \<not> vk_from_bytes (ul_ed lib) (bytes_of (ti_pubkey input)) then None
          else if length (ti_signature input) \<noteq> 64 then None
          else if \<not> verify_strict (ul_ed lib) (bytes_of (ti_pubkey input)) (bytes_of sighash) (ti_signature input) then None
          else (case checked_add input_sum (to_value utxo) of
                  None \<Rightarrow> None
                | Some v \<Rightarrow> check_inputs lib db sighash s rest v))"

fun sum_outputs :: "TxOutput list \<Rightarrow> u64 \<Rightarrow> u64 option" where
  "sum_outputs [] output_sum = Some output_sum"
| "sum_outputs (output # rest) output_sum =
     (case checked_add output_sum (to_value output) of None \<Rightarrow> None | Some v \<Rightarrow> sum_outputs rest v)"

definition validate_decoded_tx ::
    "UtxoLib \<Rightarrow> ('m, 'd) UtxoDb \<Rightarrow> UtxoConfig \<Rightarrow> UtxoTx \<Rightarrow> nat \<Rightarrow> ('m, 'd) UtxoState \<Rightarrow> bool" where
  "validate_decoded_tx lib db config tx tx_bytes_len s =
     (if tx_bytes_len > uc_max_tx_size config then False
      else if tx_inputs tx = [] \<or> tx_outputs tx = [] then False
      else if length (tx_inputs tx) > uc_max_tx_inputs config then False
      else if length (tx_outputs tx) > uc_max_tx_outputs config then False
      else if \<exists>o' \<in> set (tx_outputs tx). to_value o' = 0 then False
      else if \<not> distinct (map (\<lambda>i. to_key (ti_prev_out i)) (tx_inputs tx)) then False
      else case check_inputs lib db (signing_hash lib tx) s (tx_inputs tx) 0 of
             None \<Rightarrow> False
           | Some input_sum \<Rightarrow>
               (case sum_outputs (tx_outputs tx) 0 of None \<Rightarrow> False | Some output_sum \<Rightarrow> output_sum \<le> input_sum))"

definition utxo_validate_tx :: "UtxoLib \<Rightarrow> ('m, 'd) UtxoDb \<Rightarrow> UtxoConfig \<Rightarrow> bytes \<Rightarrow> ('m, 'd) UtxoState \<Rightarrow> bool" where
  "utxo_validate_tx lib db config tx_bytes s =
     (case ul_dec_tx lib tx_bytes of None \<Rightarrow> False | Some tx \<Rightarrow> validate_decoded_tx lib db config tx (length tx_bytes) s)"

text \<open>The loop of \<open>execute_block\<close>, with the transactions it applies.\<close>

fun execute_txs ::
    "UtxoLib \<Rightarrow> ('m, 'd) UtxoDb \<Rightarrow> UtxoConfig \<Rightarrow> bytes list \<Rightarrow> ('m, 'd) UtxoState \<Rightarrow> (UtxoTx list \<times> ('m, 'd) UtxoState) option" where
  "execute_txs lib db config [] s = Some ([], s)"
| "execute_txs lib db config (tx_bytes # rest) s =
     (case ul_dec_tx lib tx_bytes of
        None \<Rightarrow> execute_txs lib db config rest s
      | Some tx \<Rightarrow>
          if \<not> validate_decoded_tx lib db config tx (length tx_bytes) s then execute_txs lib db config rest s
          else Option.bind (apply_tx db tx (txid lib tx) s) (\<lambda>s'.
               map_option (\<lambda>(txs, s''). (tx # txs, s'')) (execute_txs lib db config rest s')))"

definition utxo_execute_block ::
    "UtxoLib \<Rightarrow> ('m, 'd) UtxoDb \<Rightarrow> UtxoConfig \<Rightarrow> bytes list \<Rightarrow> BlockContext \<Rightarrow> ('m, 'd) UtxoState \<Rightarrow>
     (EndBlockResponse \<times> ('m, 'd) UtxoState) option" where
  "utxo_execute_block lib db config txs ctx s =
     Option.bind (execute_txs lib db config txs s) (\<lambda>(_, s1).
     Option.bind (utxo_commit db s1) (\<lambda>s2.
     Some (default_EndBlockResponse, fst (utxo_root db s2))))"

definition utxo_query ::
    "UtxoLib \<Rightarrow> ('m, 'd) UtxoDb \<Rightarrow> string \<Rightarrow> bytes \<Rightarrow> ('m, 'd) UtxoState \<Rightarrow> ('m, 'd) UtxoState \<times> bytes option" where
  "utxo_query lib db path data s =
     (if path = ''balance'' \<and> length data = 32 then (s, Some (to_le_bytes (get_balance db (Hash32 data) s)))
      else if path = ''utxo'' \<and> length data = 36 then
        (s, case get_utxo db (from_key data) s of Some output \<Rightarrow> Some (ul_enc_output lib output) | None \<Rightarrow> Some [])
      else if path = ''utxo_root'' then
        (let (s1, root) = utxo_root db s in (s1, Some (case root of Some r \<Rightarrow> r | None \<Rightarrow> [])))
      else if path = ''total_supply'' then (s, Some (to_le_bytes (us_total_supply s)))
      else if path = ''prove'' \<and> length data = 36 then prove_utxo db (from_key data) s
      else (s, Some []))"

text \<open>The callbacks of the commit loop; those the application does not define are the defaults of the trait.\<close>

definition utxo_application :: "UtxoLib \<Rightarrow> ('m, 'd) UtxoDb \<Rightarrow> UtxoConfig \<Rightarrow> ('m, 'd) UtxoState Application" where
  "utxo_application lib db config =
     \<lparr> app_create_payload = (\<lambda>ctx s. ([], s)), app_validate_block = (\<lambda>b ctx s. True),
       app_execute_block = utxo_execute_block lib db config, app_on_commit = (\<lambda>b ctx s. Some s),
       app_on_evidence = (\<lambda>p s. Some s), app_on_offline_validators = (\<lambda>os s. s), app_extend_vote = (\<lambda>b ctx s. None),
       app_verify_vote_extension = (\<lambda>e h v s. True), app_tracks_app_hash = True \<rparr>"

section \<open>Laws of the libraries\<close>

definition utxo_db_ok :: "('m, 'd) UtxoDb \<Rightarrow> bool" where
  "utxo_db_ok db \<longleftrightarrow>
     vm_get db (vm_new db) = Map.empty \<and>
     (\<forall>k v m. vm_get db (vm_insert db k v m) = (vm_get db m)(k \<mapsto> v)) \<and>
     (\<forall>k m. vm_get db (vm_remove db k m) = (vm_get db m)(k := None)) \<and>
     (\<forall>m m'. vm_commit db m = Some m' \<longrightarrow> vm_get db m' = vm_get db m) \<and>
     (\<forall>m. vm_get db (fst (vm_merkle_root db m)) = vm_get db m) \<and>
     (\<forall>s. sd_iter db (sd_new db) s = []) \<and> (\<forall>d s. distinct (sd_iter db d s)) \<and>
     (\<forall>s k d s'. set (sd_iter db (sd_insert db s k d) s') = (if s' = s then insert k (set (sd_iter db d s')) else set (sd_iter db d s'))) \<and>
     (\<forall>s k d. \<exists>d'. sd_remove db s k d = Some d' \<and>
        (\<forall>s'. set (sd_iter db d' s') = (if s' = s then set (sd_iter db d s') - {k} else set (sd_iter db d s'))))"

lemma to_key_inject [simp]: "to_key a = to_key b \<longleftrightarrow> a = b"
proof
  assume "to_key a = to_key b"
  then have "op_txid a = op_txid b" "to_le_bytes_u32 (op_vout a) = to_le_bytes_u32 (op_vout b)" by (simp_all add: to_key_def)
  then show "a = b" using from_le_bytes_u32_to_le_bytes by (metis OutPoint.equality old.unit.exhaust)
qed simp

lemma from_key_to_key [simp]: "from_key (to_key o') = o'"
proof -
  have "take 32 (to_key o') = bytes_of (op_txid o')" "drop 32 (to_key o') = rev (to_le_bytes_u32 (op_vout o'))" by (simp_all add: to_key_def)
  then show ?thesis by (simp add: from_key_def bytes_of_inverse)
qed

section \<open>The books\<close>

definition utxo_view :: "('m, 'd) UtxoDb \<Rightarrow> ('m, 'd) UtxoState \<Rightarrow> bytes \<rightharpoonup> TxOutput" where
  "utxo_view db s = vm_get db (us_utxos s)"

definition worth :: "(bytes \<rightharpoonup> TxOutput) \<Rightarrow> nat" where
  "worth U = (\<Sum>k \<in> dom U. unat (to_value (the (U k))))"

text \<open>The recorded supply is the value of the outputs, and the index lists them by address.\<close>

definition books :: "('m, 'd) UtxoDb \<Rightarrow> ('m, 'd) UtxoState \<Rightarrow> bool" where
  "books db s \<longleftrightarrow>
     finite (dom (utxo_view db s)) \<and> unat (us_total_supply s) = worth (utxo_view db s) \<and>
     (\<forall>slot. set (sd_iter db (us_addr_index s) slot) = {k. \<exists>out. utxo_view db s k = Some out \<and> addr_slot (to_pubkey_hash out) = slot})"

lemma worth_remove:
  assumes "finite (dom U)" "U k = Some out"
  shows "worth U = unat (to_value out) + worth (U(k := None))"
proof -
  have "worth U = unat (to_value out) + (\<Sum>j \<in> dom U - {k}. unat (to_value (the (U j))))"
    using assms sum.remove [of "dom U" k "\<lambda>j. unat (to_value (the (U j)))"] by (simp add: worth_def domI)
  also have "(\<Sum>j \<in> dom U - {k}. unat (to_value (the (U j)))) = worth (U(k := None))" by (simp add: worth_def)
  finally show ?thesis .
qed

lemma worth_insert:
  assumes "finite (dom U)" "k \<notin> dom U"
  shows "worth (U(k \<mapsto> out)) = worth U + unat (to_value out)"
  using worth_remove [of "U(k \<mapsto> out)" k out] assms by (simp add: fun_upd_idem domIff)

lemma utxo_db_remove:
  "utxo_db_ok db \<Longrightarrow> \<exists>d'. sd_remove db s k d = Some d' \<and>
     (\<forall>s'. set (sd_iter db d' s') = (if s' = s then set (sd_iter db d s') - {k} else set (sd_iter db d s')))"
  unfolding utxo_db_ok_def by (elim conjE) metis

lemma spend_input_books:
  assumes db: "utxo_db_ok db" and b: "books db s" and k: "utxo_view db s (to_key (ti_prev_out i)) = Some out"
  shows "\<exists>s'. spend_input db i s = Some s' \<and> books db s' \<and> utxo_view db s' = (utxo_view db s)(to_key (ti_prev_out i) := None) \<and>
    worth (utxo_view db s) = worth (utxo_view db s') + unat (to_value out)"
proof -
  let ?k = "to_key (ti_prev_out i)" and ?slot = "addr_slot (to_pubkey_hash out)"
  obtain d' where d: "sd_remove db ?slot ?k (us_addr_index s) = Some d'"
    "\<And>s'. set (sd_iter db d' s') = (if s' = ?slot then set (sd_iter db (us_addr_index s) s') - {?k} else set (sd_iter db (us_addr_index s) s'))"
    using utxo_db_remove [OF db] by blast
  define s' where "s' = \<lparr> us_utxos = vm_remove db ?k (us_utxos s), us_addr_index = d',
    us_total_supply = saturating_sub (us_total_supply s) (to_value out) \<rparr>"
  have e: "spend_input db i s = Some s'" using k d(1) by (simp add: spend_input_def Let_def utxo_view_def s'_def)
  have v: "utxo_view db s' = (utxo_view db s)(?k := None)" using db by (simp add: utxo_view_def s'_def utxo_db_ok_def)
  have fin: "finite (dom (utxo_view db s))" using b by (simp add: books_def)
  have w: "worth (utxo_view db s) = worth (utxo_view db s') + unat (to_value out)" using worth_remove [of "utxo_view db s" ?k out] fin k by (simp add: v)
  moreover have "unat (us_total_supply s') = worth (utxo_view db s')" using b w by (simp add: s'_def unat_saturating_sub books_def)
  moreover have "set (sd_iter db d' slot) = {j. \<exists>out. utxo_view db s' j = Some out \<and> addr_slot (to_pubkey_hash out) = slot}" for slot
    using b k unfolding d(2) v books_def by auto
  ultimately show ?thesis using e v fin by (intro exI [of _ s']) (simp add: books_def s'_def)
qed

lemma create_output_books:
  assumes db: "utxo_db_ok db" and b: "books db s" and k: "to_key \<lparr> op_txid = tid, op_vout = vout \<rparr> \<notin> dom (utxo_view db s)"
    and bound: "worth (utxo_view db s) + unat (to_value out) < 2 ^ 64"
  shows "books db (create_output db tid vout out s)"
    "utxo_view db (create_output db tid vout out s) = (utxo_view db s)(to_key \<lparr> op_txid = tid, op_vout = vout \<rparr> \<mapsto> out)"
    "worth (utxo_view db (create_output db tid vout out s)) = worth (utxo_view db s) + unat (to_value out)"
proof -
  let ?k = "to_key \<lparr> op_txid = tid, op_vout = vout \<rparr>" and ?s = "create_output db tid vout out s"
  show v: "utxo_view db ?s = (utxo_view db s)(?k \<mapsto> out)"
    using db by (simp add: utxo_view_def create_output_def utxo_db_ok_def Let_def)
  have fin: "finite (dom (utxo_view db s))" using b by (simp add: books_def)
  show w: "worth (utxo_view db ?s) = worth (utxo_view db s) + unat (to_value out)" unfolding v by (rule worth_insert [OF fin k])
  have "unat (us_total_supply ?s) = worth (utxo_view db ?s)"
    using b bound unfolding w by (simp add: create_output_def Let_def books_def unat_saturating_add)
  moreover have "set (sd_iter db (us_addr_index ?s) slot) = {j. \<exists>out. utxo_view db ?s j = Some out \<and> addr_slot (to_pubkey_hash out) = slot}" for slot
    using b k db unfolding v by (auto simp: create_output_def Let_def books_def utxo_db_ok_def domIff)
  moreover have "finite (dom (utxo_view db ?s))" using fin by (simp add: v)
  ultimately show "books db ?s" unfolding books_def by blast
qed

lemma spend_inputs_books:
  "\<lbrakk> utxo_db_ok db; books db s; distinct (map (\<lambda>i. to_key (ti_prev_out i)) is);
     \<forall>i \<in> set is. to_key (ti_prev_out i) \<in> dom (utxo_view db s) \<rbrakk> \<Longrightarrow>
   \<exists>s'. spend_inputs db is s = Some s' \<and> books db s' \<and>
     utxo_view db s' = (utxo_view db s) |` (- (\<lambda>i. to_key (ti_prev_out i)) ` set is) \<and>
     worth (utxo_view db s) = worth (utxo_view db s') + (\<Sum>i \<leftarrow> is. unat (to_value (the (utxo_view db s (to_key (ti_prev_out i))))))"
proof (induction "is" arbitrary: s)
  case Nil
  then show ?case by simp
next
  case (Cons i "is")
  obtain out where out: "utxo_view db s (to_key (ti_prev_out i)) = Some out" using Cons.prems(4) by auto
  from spend_input_books [OF Cons.prems(1,2) out] obtain s1 where
    s1: "spend_input db i s = Some s1" "books db s1" "utxo_view db s1 = (utxo_view db s)(to_key (ti_prev_out i) := None)"
      "worth (utxo_view db s) = worth (utxo_view db s1) + unat (to_value out)" by blast
  have "to_key (ti_prev_out i) \<notin> (\<lambda>i. to_key (ti_prev_out i)) ` set is" using Cons.prems(3) by simp
  then have ne: "to_key (ti_prev_out j) \<noteq> to_key (ti_prev_out i)" if "j \<in> set is" for j using that by (metis rev_image_eqI)
  then have vals: "utxo_view db s1 (to_key (ti_prev_out j)) = utxo_view db s (to_key (ti_prev_out j))" if "j \<in> set is" for j
    using that by (simp add: s1(3) del: to_key_inject)
  have "\<forall>j \<in> set is. to_key (ti_prev_out j) \<in> dom (utxo_view db s1)" using Cons.prems(4) vals by (auto simp: dom_def)
  from Cons.IH [OF Cons.prems(1) s1(2) _ this] Cons.prems(3) obtain s' where
    s': "spend_inputs db is s1 = Some s'" "books db s'" "utxo_view db s' = (utxo_view db s1) |` (- (\<lambda>i. to_key (ti_prev_out i)) ` set is)"
      "worth (utxo_view db s1) = worth (utxo_view db s') + (\<Sum>i \<leftarrow> is. unat (to_value (the (utxo_view db s1 (to_key (ti_prev_out i))))))" by auto
  have "(\<Sum>j \<leftarrow> is. unat (to_value (the (utxo_view db s1 (to_key (ti_prev_out j)))))) =
      (\<Sum>j \<leftarrow> is. unat (to_value (the (utxo_view db s (to_key (ti_prev_out j))))))"
    by (rule arg_cong [of _ _ sum_list], rule map_cong) (simp_all add: vals)
  moreover have "utxo_view db s' = (utxo_view db s) |` (- (\<lambda>i. to_key (ti_prev_out i)) ` set (i # is))"
    unfolding s'(3) s1(3) by (rule ext) (auto simp: restrict_map_def)
  ultimately show ?case using s1 s' out by (intro exI [of _ s']) simp
qed

text \<open>The keys of the outputs of a transaction from index \<open>n\<close> on.\<close>

definition out_keys :: "hash32 \<Rightarrow> nat \<Rightarrow> nat \<Rightarrow> bytes set" where
  "out_keys tid n m = (\<lambda>j. to_key \<lparr> op_txid = tid, op_vout = of_nat j \<rparr>) ` {n..<m}"

lemma out_keys_Suc:
  assumes "n < m"
  shows "out_keys tid n m = insert (to_key \<lparr> op_txid = tid, op_vout = of_nat n \<rparr>) (out_keys tid (Suc n) m)"
proof -
  have "{n..<m} = insert n {Suc n..<m}" using assms by auto
  then show ?thesis by (simp only: out_keys_def image_insert)
qed

text \<open>The outputs of a transaction under their keys.\<close>

fun out_entries :: "hash32 \<Rightarrow> nat \<Rightarrow> TxOutput list \<Rightarrow> (bytes \<times> TxOutput) list" where
  "out_entries tid n [] = []"
| "out_entries tid n (out # outs) = (to_key \<lparr> op_txid = tid, op_vout = of_nat n \<rparr>, out) # out_entries tid (Suc n) outs"

lemma dom_out_entries: "dom (map_of (out_entries tid n outs)) = out_keys tid n (n + length outs)"
proof (induction outs arbitrary: n)
  case Nil
  then show ?case by (simp add: out_keys_def)
next
  case (Cons out outs)
  have "out_keys tid n (n + length (out # outs)) = insert (to_key \<lparr> op_txid = tid, op_vout = of_nat n \<rparr>) (out_keys tid (Suc n) (Suc n + length outs))"
    using out_keys_Suc [of n "n + length (out # outs)" tid] by simp
  then show ?case using Cons.IH [of "Suc n"] by (simp only: out_entries.simps map_of.simps dom_fun_upd fst_conv option.distinct if_False)
qed

lemma out_key_fresh:
  assumes "Suc n + l \<le> 2 ^ 32"
  shows "to_key \<lparr> op_txid = tid, op_vout = of_nat n \<rparr> \<notin> out_keys tid (Suc n) (Suc n + l)"
proof
  assume "to_key \<lparr> op_txid = tid, op_vout = of_nat n \<rparr> \<in> out_keys tid (Suc n) (Suc n + l)"
  then obtain j where j: "Suc n \<le> j" "j < Suc n + l" "(of_nat n :: u32) = of_nat j" by (auto simp: out_keys_def)
  have "n < 2 ^ 32" "j < 2 ^ 32" using assms j(2) by simp_all
  then have "unat (of_nat n :: u32) = n" "unat (of_nat j :: u32) = j" by (simp_all add: unat_of_nat)
  with j(3) have "n = j" by metis
  with j(1) show False by simp
qed

lemma create_outputs_books:
  "\<lbrakk> utxo_db_ok db; books db s; out_keys tid n (n + length outs) \<inter> dom (utxo_view db s) = {}; n + length outs \<le> 2 ^ 32;
     worth (utxo_view db s) + (\<Sum>out \<leftarrow> outs. unat (to_value out)) < 2 ^ 64 \<rbrakk> \<Longrightarrow>
   books db (create_outputs db tid n outs s) \<and>
   utxo_view db (create_outputs db tid n outs s) = utxo_view db s ++ map_of (out_entries tid n outs) \<and>
   worth (utxo_view db (create_outputs db tid n outs s)) = worth (utxo_view db s) + (\<Sum>out \<leftarrow> outs. unat (to_value out))"
proof (induction outs arbitrary: n s)
  case (Cons out outs)
  let ?k = "to_key \<lparr> op_txid = tid, op_vout = of_nat n \<rparr>" and ?s = "create_output db tid (of_nat n) out s"
  have ks: "out_keys tid n (n + length (out # outs)) = insert ?k (out_keys tid (Suc n) (Suc n + length outs))"
    using out_keys_Suc [of n "n + length (out # outs)" tid] by simp
  have k: "?k \<notin> dom (utxo_view db s)" using Cons.prems(3) unfolding ks by blast
  have bd: "worth (utxo_view db s) + unat (to_value out) < 2 ^ 64" using Cons.prems(5) by simp
  note c = create_output_books [OF Cons.prems(1,2) k bd]
  have l: "Suc n + length outs \<le> 2 ^ 32" using Cons.prems(4) by simp
  note f = out_key_fresh [OF l, of tid]
  then have "out_keys tid (Suc n) (Suc n + length outs) \<inter> dom (utxo_view db ?s) = {}"
    using Cons.prems(3) unfolding ks c(2) by auto
  moreover have "worth (utxo_view db ?s) + (\<Sum>out \<leftarrow> outs. unat (to_value out)) < 2 ^ 64" using Cons.prems(5) by (simp add: c(3))
  ultimately have IH: "books db (create_outputs db tid (Suc n) outs ?s)"
    "utxo_view db (create_outputs db tid (Suc n) outs ?s) = utxo_view db ?s ++ map_of (out_entries tid (Suc n) outs)"
    "worth (utxo_view db (create_outputs db tid (Suc n) outs ?s)) = worth (utxo_view db ?s) + (\<Sum>out \<leftarrow> outs. unat (to_value out))"
    using Cons.IH [OF Cons.prems(1) c(1) _ l] by blast+
  have "map_of (out_entries tid (Suc n) outs) ?k = None" using f unfolding dom_out_entries [symmetric] by blast
  then have "utxo_view db ?s ++ map_of (out_entries tid (Suc n) outs) = utxo_view db s ++ map_of (out_entries tid n (out # outs))"
    unfolding c(2) by (intro ext) (auto simp: map_add_def split: option.split)
  with IH c(3) show ?case unfolding create_outputs.simps by (simp del: out_entries.simps)
qed simp

section \<open>What validation guarantees\<close>

lemma check_inputs_Some:
  "check_inputs lib db h s is a = Some v \<Longrightarrow>
     unat v = unat a + (\<Sum>i \<leftarrow> is. unat (to_value (the (utxo_view db s (to_key (ti_prev_out i)))))) \<and>
     (\<forall>i \<in> set is. to_key (ti_prev_out i) \<in> dom (utxo_view db s) \<and>
        hash_pubkey lib (ti_pubkey i) = to_pubkey_hash (the (utxo_view db s (to_key (ti_prev_out i)))) \<and>
        verify_strict (ul_ed lib) (bytes_of (ti_pubkey i)) (bytes_of h) (ti_signature i))"
proof (induction "is" arbitrary: a)
  case (Cons i "is")
  then obtain out a' where o: "utxo_view db s (to_key (ti_prev_out i)) = Some out" "hash_pubkey lib (ti_pubkey i) = to_pubkey_hash out"
    "verify_strict (ul_ed lib) (bytes_of (ti_pubkey i)) (bytes_of h) (ti_signature i)"
    "checked_add a (to_value out) = Some a'" "check_inputs lib db h s is a' = Some v"
    by (auto simp: get_utxo_def utxo_view_def split: option.splits if_splits)
  from checked_add_unat [OF o(4)] Cons.IH [OF o(5)] o(1-3) show ?case by auto
qed simp

lemma sum_outputs_Some: "sum_outputs outs a = Some v \<Longrightarrow> unat v = unat a + (\<Sum>out \<leftarrow> outs. unat (to_value out))"
proof (induction outs arbitrary: a)
  case (Cons out outs)
  then obtain a' where "checked_add a (to_value out) = Some a'" "sum_outputs outs a' = Some v" by (auto split: option.splits)
  with checked_add_unat [OF this(1)] Cons.IH [OF this(2)] show ?case by simp
qed simp

definition input_keys :: "UtxoTx \<Rightarrow> bytes list" where
  "input_keys tx = map (\<lambda>i. to_key (ti_prev_out i)) (tx_inputs tx)"

lemma validate_facts:
  assumes "validate_decoded_tx lib db config tx n s"
  shows "tx_inputs tx \<noteq> []" "distinct (input_keys tx)" "set (input_keys tx) \<subseteq> dom (utxo_view db s)" "length (tx_outputs tx) \<le> uc_max_tx_outputs config"
    "(\<Sum>out \<leftarrow> tx_outputs tx. unat (to_value out)) \<le> (\<Sum>i \<leftarrow> tx_inputs tx. unat (to_value (the (utxo_view db s (to_key (ti_prev_out i))))))"
    "\<forall>i \<in> set (tx_inputs tx). hash_pubkey lib (ti_pubkey i) = to_pubkey_hash (the (utxo_view db s (to_key (ti_prev_out i)))) \<and>
        verify_strict (ul_ed lib) (bytes_of (ti_pubkey i)) (bytes_of (signing_hash lib tx)) (ti_signature i)"
proof -
  from assms obtain v w where vw: "check_inputs lib db (signing_hash lib tx) s (tx_inputs tx) 0 = Some v" "sum_outputs (tx_outputs tx) 0 = Some w" "w \<le> v"
    by (auto simp: validate_decoded_tx_def split: if_splits option.splits)
  from assms show "tx_inputs tx \<noteq> []" "distinct (input_keys tx)" "length (tx_outputs tx) \<le> uc_max_tx_outputs config"
    by (auto simp: validate_decoded_tx_def input_keys_def split: if_splits)
  note c = check_inputs_Some [OF vw(1)]
  show "set (input_keys tx) \<subseteq> dom (utxo_view db s)" using c by (auto simp: input_keys_def)
  show "(\<Sum>out \<leftarrow> tx_outputs tx. unat (to_value out)) \<le> (\<Sum>i \<leftarrow> tx_inputs tx. unat (to_value (the (utxo_view db s (to_key (ti_prev_out i))))))"
    using c sum_outputs_Some [OF vw(2)] vw(3) by (simp add: word_le_nat_alt)
  show "\<forall>i \<in> set (tx_inputs tx). hash_pubkey lib (ti_pubkey i) = to_pubkey_hash (the (utxo_view db s (to_key (ti_prev_out i)))) \<and>
        verify_strict (ul_ed lib) (bytes_of (ti_pubkey i)) (bytes_of (signing_hash lib tx)) (ti_signature i)"
    using c by blast
qed

section \<open>The ledger\<close>

text \<open>The outputs created at genesis and by transactions, and the keys of those spent.\<close>

definition genesis_output :: "GenesisUtxo \<Rightarrow> TxOutput" where
  "genesis_output g = \<lparr> to_value = gu_value g, to_pubkey_hash = gu_pubkey_hash g \<rparr>"

fun genesis_entries :: "UtxoLib \<Rightarrow> nat \<Rightarrow> GenesisUtxo list \<Rightarrow> (bytes \<times> TxOutput) list" where
  "genesis_entries lib i [] = []"
| "genesis_entries lib i (g # gs) =
     (to_key \<lparr> op_txid = ul_blake3 lib (to_le_bytes (of_nat i)), op_vout = 0 \<rparr>, genesis_output g) # genesis_entries lib (Suc i) gs"

definition created :: "UtxoLib \<Rightarrow> GenesisUtxo list \<Rightarrow> UtxoTx list \<Rightarrow> bytes \<rightharpoonup> TxOutput" where
  "created lib gs ts = map_of (genesis_entries lib 0 gs @ concat (map (\<lambda>t. out_entries (txid lib t) 0 (tx_outputs t)) ts))"

definition spent_keys :: "UtxoTx list \<Rightarrow> bytes list" where
  "spent_keys ts = concat (map input_keys ts)"

definition signed_input :: "UtxoLib \<Rightarrow> (bytes \<rightharpoonup> TxOutput) \<Rightarrow> UtxoTx \<Rightarrow> TxInput \<Rightarrow> bool" where
  "signed_input lib U t i \<longleftrightarrow>
     (\<exists>out. U (to_key (ti_prev_out i)) = Some out \<and> hash_pubkey lib (ti_pubkey i) = to_pubkey_hash out \<and>
       verify_strict (ul_ed lib) (bytes_of (ti_pubkey i)) (bytes_of (signing_hash lib t)) (ti_signature i))"

text \<open>
  The unspent outputs are those created and not spent; nothing is spent twice or before it exists, and
  each spending is signed by the owner.
\<close>

definition ledger :: "UtxoLib \<Rightarrow> ('m, 'd) UtxoDb \<Rightarrow> GenesisUtxo list \<Rightarrow> UtxoTx list \<Rightarrow> ('m, 'd) UtxoState \<Rightarrow> bool" where
  "ledger lib db gs ts s \<longleftrightarrow>
     utxo_view db s = created lib gs ts |` (- set (spent_keys ts)) \<and> distinct (spent_keys ts) \<and>
     (\<forall>t \<in> set ts. \<forall>i \<in> set (tx_inputs t). signed_input lib (created lib gs ts) t i)"

text \<open>
  The encodings of the transactions that occur differ and are longer than eight bytes, and blake3 has no
  collision among them and the numbers of the genesis outputs.
\<close>

definition no_collision :: "UtxoLib \<Rightarrow> nat \<Rightarrow> UtxoTx set \<Rightarrow> bool" where
  "no_collision lib n TX \<longleftrightarrow>
     inj_on (ul_enc_tx lib) (unsigned_tx ` TX) \<and> (\<forall>t \<in> TX. 8 < length (ul_enc_tx lib (unsigned_tx t))) \<and>
     inj_on (ul_blake3 lib) ((\<lambda>t. ul_enc_tx lib (unsigned_tx t)) ` TX \<union> (\<lambda>i. to_le_bytes (of_nat i)) ` {..<n})"

lemma no_collision_txid:
  assumes "no_collision lib n TX" "t \<in> TX" "t' \<in> TX" "txid lib t = txid lib t'"
  shows "input_keys t = input_keys t'"
proof -
  have "ul_enc_tx lib (unsigned_tx t) = ul_enc_tx lib (unsigned_tx t')"
    using assms unfolding no_collision_def txid_def signing_hash_def by (auto dest: inj_onD)
  then have "unsigned_tx t = unsigned_tx t'" using assms(1-3) unfolding no_collision_def by (auto dest: inj_onD)
  then have "map (\<lambda>i. to_key (ti_prev_out i)) (tx_inputs (unsigned_tx t)) = map (\<lambda>i. to_key (ti_prev_out i)) (tx_inputs (unsigned_tx t'))" by simp
  then show ?thesis by (simp add: unsigned_tx_def input_keys_def comp_def)
qed

lemma no_collision_genesis:
  assumes "no_collision lib n TX" "t \<in> TX" "i < n"
  shows "txid lib t \<noteq> ul_blake3 lib (to_le_bytes (of_nat i))"
proof
  assume "txid lib t = ul_blake3 lib (to_le_bytes (of_nat i))"
  then have "ul_enc_tx lib (unsigned_tx t) = to_le_bytes (of_nat i)"
    using assms unfolding no_collision_def txid_def signing_hash_def by (auto dest: inj_onD)
  moreover have "8 < length (ul_enc_tx lib (unsigned_tx t))" using assms by (simp add: no_collision_def)
  ultimately show False by simp
qed

lemma genesis_entries_keys:
  "fst ` set (genesis_entries lib i gs) =
     (\<lambda>j. to_key \<lparr> op_txid = ul_blake3 lib (to_le_bytes (of_nat j)), op_vout = 0 \<rparr>) ` {i..<i + length gs}"
proof (induction gs arbitrary: i)
  case (Cons g gs)
  have "{i..<i + length (g # gs)} = insert i {Suc i..<Suc i + length gs}" by auto
  then show ?case using Cons.IH [of "Suc i"] by simp
qed simp

lemma created_snoc:
  "out_keys (txid lib t) 0 (length (tx_outputs t)) \<inter> dom (created lib gs ts) = {} \<Longrightarrow>
     created lib gs (ts @ [t]) = created lib gs ts ++ map_of (out_entries (txid lib t) 0 (tx_outputs t))"
proof -
  let ?E = "map_of (out_entries (txid lib t) 0 (tx_outputs t))"
  assume "out_keys (txid lib t) 0 (length (tx_outputs t)) \<inter> dom (created lib gs ts) = {}"
  then have "dom ?E \<inter> dom (created lib gs ts) = {}" by (simp add: dom_out_entries)
  then have "?E ++ created lib gs ts = created lib gs ts ++ ?E" by (rule map_add_comm)
  then show ?thesis by (simp add: created_def)
qed

lemma dom_created:
  "dom (created lib gs ts) = fst ` set (genesis_entries lib 0 gs) \<union> (\<Union>t \<in> set ts. out_keys (txid lib t) 0 (length (tx_outputs t)))"
proof -
  have "fst ` set (out_entries (txid lib t) 0 (tx_outputs t)) = out_keys (txid lib t) 0 (length (tx_outputs t))" for t
    using dom_out_entries [of "txid lib t" 0 "tx_outputs t"] by (simp add: dom_map_of_conv_image_fst)
  then show ?thesis by (simp add: created_def dom_map_of_conv_image_fst image_Un image_UN del: map_of_append)
qed

lemma fresh_txid:
  assumes c: "no_collision lib (length gs) TX" and l: "ledger lib db gs ts s" "set ts \<subseteq> TX" "t \<in> TX"
    and t: "tx_inputs t \<noteq> []" "set (input_keys t) \<subseteq> dom (utxo_view db s)"
  shows "out_keys (txid lib t) 0 m \<inter> dom (created lib gs ts) = {}"
proof -
  have "txid lib t \<noteq> txid lib t'" if "t' \<in> set ts" for t'
  proof
    assume "txid lib t = txid lib t'"
    then have "input_keys t = input_keys t'" using no_collision_txid [OF c] l(2,3) that by blast
    then have "set (input_keys t) \<subseteq> set (spent_keys ts)" using that by (auto simp: spent_keys_def)
    with t(2) have "set (input_keys t) \<subseteq> dom (utxo_view db s) \<inter> set (spent_keys ts)" by (rule Int_greatest)
    moreover have "dom (utxo_view db s) \<inter> set (spent_keys ts) = {}" using l(1) by (auto simp: ledger_def)
    ultimately have "set (input_keys t) \<subseteq> {}" by (simp only:)
    with t(1) show False by (simp add: input_keys_def)
  qed
  then have "txid lib t \<notin> txid lib ` set ts" by blast
  moreover have "txid lib t \<notin> (\<lambda>i. ul_blake3 lib (to_le_bytes (of_nat i))) ` {..<length gs}"
    using no_collision_genesis [OF c l(3)] by blast
  ultimately show ?thesis by (auto simp: out_keys_def dom_created genesis_entries_keys)
qed

lemma disjoint_mono: "\<lbrakk> A \<inter> C = {}; B \<subseteq> C \<rbrakk> \<Longrightarrow> A \<inter> B = {}"
  by blast

lemma map_of_SomeD_dom: "\<lbrakk> m = n |` (- S); m k = Some v \<rbrakk> \<Longrightarrow> n k = Some v \<and> k \<notin> S"
  by (auto simp: restrict_map_def split: if_splits)

lemma apply_tx_ledger:
  assumes db: "utxo_db_ok db" and c: "no_collision lib (length gs) TX" and b: "books db s"
    and l: "ledger lib db gs ts s" "set ts \<subseteq> TX" "t \<in> TX"
    and v: "validate_decoded_tx lib db config t len s" and m: "uc_max_tx_outputs config \<le> 2 ^ 32"
  shows "\<exists>s'. apply_tx db t (txid lib t) s = Some s' \<and> books db s' \<and> ledger lib db gs (ts @ [t]) s' \<and>
    worth (utxo_view db s') \<le> worth (utxo_view db s)"
proof -
  note f = validate_facts [OF v]
  let ?outs = "tx_outputs t" and ?ks = "out_keys (txid lib t) 0 (length (tx_outputs t))" and ?E = "map_of (out_entries (txid lib t) 0 (tx_outputs t))"
  let ?U = "utxo_view db s" and ?C = "created lib gs ts"
  have U: "?U = ?C |` (- set (spent_keys ts))" using l(1) by (simp add: ledger_def)
  have "\<forall>i \<in> set (tx_inputs t). to_key (ti_prev_out i) \<in> dom ?U" using f(3) by (auto simp: input_keys_def)
  from spend_inputs_books [OF db b _ this] f(2) obtain s1 where
    s1: "spend_inputs db (tx_inputs t) s = Some s1" "books db s1" "utxo_view db s1 = ?U |` (- set (input_keys t))"
      "worth ?U = worth (utxo_view db s1) + (\<Sum>i \<leftarrow> tx_inputs t. unat (to_value (the (?U (to_key (ti_prev_out i))))))"
    by (auto simp: input_keys_def)
  have fresh: "?ks \<inter> dom ?C = {}" by (rule fresh_txid [OF c l f(1,3)])
  have cr: "created lib gs (ts @ [t]) = ?C ++ ?E" by (rule created_snoc [OF fresh])
  have d: "dom ?U \<subseteq> dom ?C" "dom (utxo_view db s1) \<subseteq> dom ?C" unfolding s1(3) U by (auto simp: restrict_map_def split: if_splits)
  have w: "worth (utxo_view db s1) + (\<Sum>out \<leftarrow> ?outs. unat (to_value out)) \<le> worth ?U" using s1(4) f(5) by linarith
  moreover have "worth ?U < 2 ^ 64" using b unat_u64_less [of "us_total_supply s"] by (simp add: books_def del: unat_u64_less)
  ultimately have bound: "worth (utxo_view db s1) + (\<Sum>out \<leftarrow> ?outs. unat (to_value out)) < 2 ^ 64" by (rule le_less_trans)
  let ?s = "create_outputs db (txid lib t) 0 ?outs s1"
  have "out_keys (txid lib t) 0 (0 + length ?outs) \<inter> dom (utxo_view db s1) = {}" using disjoint_mono [OF fresh d(2)] by simp
  from create_outputs_books [OF db s1(2) this _ bound] f(4) m have
    o: "books db ?s" "utxo_view db ?s = utxo_view db s1 ++ ?E" "worth (utxo_view db ?s) = worth (utxo_view db s1) + (\<Sum>out \<leftarrow> ?outs. unat (to_value out))"
    by auto
  have sp: "spent_keys (ts @ [t]) = spent_keys ts @ input_keys t" by (simp add: spent_keys_def)
  have "set (spent_keys ts) \<subseteq> dom ?C"
    using l(1) by (auto simp: ledger_def signed_input_def spent_keys_def input_keys_def)
  moreover have "set (input_keys t) \<subseteq> dom ?C" using f(3) d(1) by (rule subset_trans)
  ultimately have "set (spent_keys (ts @ [t])) \<subseteq> dom ?C" by (simp add: sp)
  from disjoint_mono [OF fresh this] have dis: "dom ?E \<inter> set (spent_keys (ts @ [t])) = {}" by (simp add: dom_out_entries)
  have "utxo_view db ?s = created lib gs (ts @ [t]) |` (- set (spent_keys (ts @ [t])))"
    unfolding o(2) s1(3) U cr using dis by (intro ext) (auto simp: restrict_map_def map_add_def sp split: option.split)
  moreover have "distinct (spent_keys (ts @ [t]))" using l(1) f(2,3) unfolding sp U by (auto simp: ledger_def)
  moreover have "signed_input lib (created lib gs (ts @ [t])) t' i" if "t' \<in> set (ts @ [t])" "i \<in> set (tx_inputs t')" for t' i
  proof -
    have "\<exists>out. ?C (to_key (ti_prev_out i)) = Some out \<and> hash_pubkey lib (ti_pubkey i) = to_pubkey_hash out \<and>
        verify_strict (ul_ed lib) (bytes_of (ti_pubkey i)) (bytes_of (signing_hash lib t')) (ti_signature i)"
    proof (cases "t' \<in> set ts")
      case True
      then show ?thesis using l(1) that(2) by (auto simp: ledger_def signed_input_def)
    next
      case False
      then have i: "i \<in> set (tx_inputs t)" "t' = t" using that by auto
      then obtain out where "?U (to_key (ti_prev_out i)) = Some out" using f(3) by (auto simp: input_keys_def)
      moreover from this have "?C (to_key (ti_prev_out i)) = Some out" using map_of_SomeD_dom [OF U] by blast
      ultimately show ?thesis using f(6) i by auto
    qed
    then obtain out where out: "?C (to_key (ti_prev_out i)) = Some out" "hash_pubkey lib (ti_pubkey i) = to_pubkey_hash out"
        "verify_strict (ul_ed lib) (bytes_of (ti_pubkey i)) (bytes_of (signing_hash lib t')) (ti_signature i)" by blast
    then have "?E (to_key (ti_prev_out i)) = None" using fresh unfolding dom_out_entries [symmetric, of _ 0, simplified] by blast
    with out show ?thesis by (simp add: signed_input_def cr map_add_def)
  qed
  ultimately have "ledger lib db gs (ts @ [t]) ?s" by (auto simp: ledger_def)
  with s1(1) o w show ?thesis by (simp add: apply_tx_def)
qed

lemma execute_txs_ledger:
  assumes db: "utxo_db_ok db" and c: "no_collision lib (length gs) TX" and m: "uc_max_tx_outputs config \<le> 2 ^ 32"
  shows "\<lbrakk> books db s; ledger lib db gs ts s; set ts \<subseteq> TX; set (List.map_filter (ul_dec_tx lib) raws) \<subseteq> TX \<rbrakk> \<Longrightarrow>
    \<exists>ts' s'. execute_txs lib db config raws s = Some (ts', s') \<and> books db s' \<and> ledger lib db gs (ts @ ts') s' \<and>
      subseq ts' (List.map_filter (ul_dec_tx lib) raws) \<and> worth (utxo_view db s') \<le> worth (utxo_view db s)"
proof (induction raws arbitrary: ts s)
  case (Cons raw raws)
  show ?case
  proof (cases "\<exists>t. ul_dec_tx lib raw = Some t \<and> validate_decoded_tx lib db config t (length raw) s")
    case False
    then have e: "execute_txs lib db config (raw # raws) s = execute_txs lib db config raws s" by (auto split: option.split)
    have "set (List.map_filter (ul_dec_tx lib) raws) \<subseteq> TX" using Cons.prems(4) by (auto simp: map_filter_simps split: option.splits)
    from Cons.IH [OF Cons.prems(1-3) this] show ?thesis unfolding e
      by (fastforce simp: map_filter_simps intro: list_emb_Cons split: option.split)
  next
    case True
    then obtain t where t: "ul_dec_tx lib raw = Some t" "validate_decoded_tx lib db config t (length raw) s" by blast
    then have tx: "t \<in> TX" "set (List.map_filter (ul_dec_tx lib) raws) \<subseteq> TX" using Cons.prems(4) by (simp_all add: map_filter_simps)
    from apply_tx_ledger [OF db c Cons.prems(1-3) tx(1) t(2) m] obtain s1 where
      s1: "apply_tx db t (txid lib t) s = Some s1" "books db s1" "ledger lib db gs (ts @ [t]) s1" "worth (utxo_view db s1) \<le> worth (utxo_view db s)" by blast
    have "set (ts @ [t]) \<subseteq> TX" using Cons.prems(3) tx(1) by simp
    from Cons.IH [OF s1(2,3) this tx(2)] obtain ts' s' where
      r: "execute_txs lib db config raws s1 = Some (ts', s')" "books db s'" "ledger lib db gs ((ts @ [t]) @ ts') s'"
        "subseq ts' (List.map_filter (ul_dec_tx lib) raws)" "worth (utxo_view db s') \<le> worth (utxo_view db s1)" by blast
    have "execute_txs lib db config (raw # raws) s = Some (t # ts', s')" using t s1(1) r(1) by simp
    with r s1(4) t(1) show ?thesis by (intro exI [of _ "t # ts'"] exI [of _ s']) (simp add: map_filter_simps)
  qed
qed (simp add: map_filter_simps)

section \<open>Genesis\<close>

lemma genesis_books:
  assumes db: "utxo_db_ok db"
  shows "\<lbrakk> books db s; dom (utxo_view db s) \<inter> fst ` set (genesis_entries lib i gs) = {}; i + length gs \<le> n;
     inj_on (\<lambda>i. ul_blake3 lib (to_le_bytes (of_nat i))) {..<n};
     worth (utxo_view db s) + (\<Sum>g \<leftarrow> gs. unat (gu_value g)) < 2 ^ 64 \<rbrakk> \<Longrightarrow>
   books db (insert_genesis lib db i gs s) \<and> utxo_view db (insert_genesis lib db i gs s) = utxo_view db s ++ map_of (genesis_entries lib i gs) \<and>
   worth (utxo_view db (insert_genesis lib db i gs s)) = worth (utxo_view db s) + (\<Sum>g \<leftarrow> gs. unat (gu_value g))"
proof (induction gs arbitrary: i s)
  case (Cons g gs)
  let ?t = "ul_blake3 lib (to_le_bytes (of_nat i))" and ?s = "insert_genesis_utxo db (ul_blake3 lib (to_le_bytes (of_nat i))) 0 (genesis_output g) s"
  let ?k = "to_key \<lparr> op_txid = ul_blake3 lib (to_le_bytes (of_nat i)), op_vout = 0 \<rparr>"
  have k: "?k \<notin> dom (utxo_view db s)" using Cons.prems(2) by simp
  have bd: "worth (utxo_view db s) + unat (to_value (genesis_output g)) < 2 ^ 64" using Cons.prems(5) by (simp add: genesis_output_def)
  note c = create_output_books [OF db Cons.prems(1) k bd, folded insert_genesis_utxo_def]
  have f: "?k \<notin> fst ` set (genesis_entries lib (Suc i) gs)"
  proof
    assume "?k \<in> fst ` set (genesis_entries lib (Suc i) gs)"
    then obtain j where "j \<in> {Suc i..<Suc i + length gs}" "ul_blake3 lib (to_le_bytes (of_nat i)) = ul_blake3 lib (to_le_bytes (of_nat j))"
      by (auto simp: genesis_entries_keys)
    then show False using Cons.prems(3) inj_onD [OF Cons.prems(4), of i j] by simp
  qed
  have d: "dom (utxo_view db ?s) \<inter> fst ` set (genesis_entries lib (Suc i) gs) = {}" using Cons.prems(2) f by (auto simp: c(2))
  have w: "worth (utxo_view db ?s) + (\<Sum>g \<leftarrow> gs. unat (gu_value g)) < 2 ^ 64"
    using Cons.prems(5) unfolding c(3) by (simp add: genesis_output_def)
  have "Suc i + length gs \<le> n" using Cons.prems(3) by simp
  from Cons.IH [OF c(1) d this Cons.prems(4) w] have IH: "books db (insert_genesis lib db (Suc i) gs ?s)"
    "utxo_view db (insert_genesis lib db (Suc i) gs ?s) = utxo_view db ?s ++ map_of (genesis_entries lib (Suc i) gs)"
    "worth (utxo_view db (insert_genesis lib db (Suc i) gs ?s)) = worth (utxo_view db ?s) + (\<Sum>g \<leftarrow> gs. unat (gu_value g))"
    by blast+
  have "map_of (genesis_entries lib (Suc i) gs) ?k = None" using f by (simp add: map_of_eq_None_iff)
  then have "utxo_view db ?s ++ map_of (genesis_entries lib (Suc i) gs) = utxo_view db s ++ map_of (genesis_entries lib i (g # gs))"
    unfolding c(2) by (intro ext) (auto simp: map_add_def split: option.split)
  moreover have "insert_genesis lib db i (g # gs) s = insert_genesis lib db (Suc i) gs ?s" by (simp add: genesis_output_def)
  ultimately show ?case using IH c(3) by (simp del: genesis_entries.simps insert_genesis.simps add: genesis_output_def)
qed simp

lemma utxo_commit_view:
  assumes "utxo_db_ok db" "utxo_commit db s = Some s'"
  shows "utxo_view db s' = utxo_view db s" "us_addr_index s' = us_addr_index s" "us_total_supply s' = us_total_supply s"
  using assms by (auto simp: utxo_commit_def utxo_view_def utxo_db_ok_def)

lemma utxo_root_view:
  assumes "utxo_db_ok db"
  shows "utxo_view db (fst (utxo_root db s)) = utxo_view db s" "us_addr_index (fst (utxo_root db s)) = us_addr_index s"
    "us_total_supply (fst (utxo_root db s)) = us_total_supply s"
proof -
  have "fst (utxo_root db s) = s\<lparr>us_utxos := fst (vm_merkle_root db (us_utxos s))\<rparr>" by (simp add: utxo_root_def split: prod.split)
  then show "utxo_view db (fst (utxo_root db s)) = utxo_view db s" "us_addr_index (fst (utxo_root db s)) = us_addr_index s"
    "us_total_supply (fst (utxo_root db s)) = us_total_supply s" using assms by (simp_all add: utxo_view_def utxo_db_ok_def)
qed

lemma new_ledger:
  assumes db: "utxo_db_ok db" and c: "no_collision lib (length (uc_genesis_utxos config)) TX"
    and n: "length (uc_genesis_utxos config) \<le> 2 ^ 64" and g: "(\<Sum>g \<leftarrow> uc_genesis_utxos config. unat (gu_value g)) < 2 ^ 64"
  shows "books db (utxo_app_new lib db config)" "ledger lib db (uc_genesis_utxos config) [] (utxo_app_new lib db config)"
    "worth (utxo_view db (utxo_app_new lib db config)) = (\<Sum>g \<leftarrow> uc_genesis_utxos config. unat (gu_value g))"
proof -
  let ?gs = "uc_genesis_utxos config" and ?new = "utxo_state_new db"
  let ?s = "insert_genesis lib db 0 ?gs ?new"
  have v0: "utxo_view db ?new = Map.empty" using db by (simp add: utxo_view_def utxo_state_new_def utxo_db_ok_def)
  have b0: "books db ?new" using db by (simp add: books_def v0 worth_def) (simp add: utxo_state_new_def utxo_db_ok_def)
  have "inj_on (\<lambda>i. ul_blake3 lib (to_le_bytes (of_nat i))) {..<length ?gs}"
  proof (rule inj_onI)
    fix i j assume ij: "i \<in> {..<length ?gs}" "j \<in> {..<length ?gs}" "ul_blake3 lib (to_le_bytes (of_nat i)) = ul_blake3 lib (to_le_bytes (of_nat j))"
    then have "to_le_bytes (of_nat i) = to_le_bytes (of_nat j)" using c unfolding no_collision_def by (auto dest: inj_onD)
    then have "unat (of_nat i :: u64) = unat (of_nat j :: u64)" by (metis le_bytes_nat_to_le_bytes)
    moreover have "i < 2 ^ 64" "j < 2 ^ 64" using ij n by auto
    then have "unat (of_nat i :: u64) = i" "unat (of_nat j :: u64) = j" by (simp_all add: unat_of_nat)
    ultimately show "i = j" by metis
  qed
  note inj = this
  have w: "worth Map.empty = 0" and cr: "created lib ?gs [] = map_of (genesis_entries lib 0 ?gs)" by (simp_all add: worth_def created_def)
  have "dom (utxo_view db ?new) \<inter> fst ` set (genesis_entries lib 0 ?gs) = {}" "0 + length ?gs \<le> length ?gs"
    "worth (utxo_view db ?new) + (\<Sum>g \<leftarrow> ?gs. unat (gu_value g)) < 2 ^ 64" using g unfolding v0 w by simp_all
  from genesis_books [OF db b0 this(1,2) inj this(3)] have
    s: "books db ?s" "utxo_view db ?s = created lib ?gs []" "worth (utxo_view db ?s) = (\<Sum>g \<leftarrow> ?gs. unat (gu_value g))"
    unfolding v0 w cr empty_map_add add_0 by blast+
  have v: "utxo_view db (utxo_app_new lib db config) = utxo_view db ?s"
    "us_addr_index (utxo_app_new lib db config) = us_addr_index ?s" "us_total_supply (utxo_app_new lib db config) = us_total_supply ?s"
    using utxo_commit_view [OF db, of ?s] by (simp_all add: utxo_app_new_def Let_def split: option.split)
  show "books db (utxo_app_new lib db config)" using s(1) unfolding books_def v .
  show "ledger lib db ?gs [] (utxo_app_new lib db config)" unfolding ledger_def v s(2) by (simp add: spent_keys_def restrict_map_def)
  show "worth (utxo_view db (utxo_app_new lib db config)) = (\<Sum>g \<leftarrow> ?gs. unat (gu_value g))" unfolding v by (rule s(3))
qed

section \<open>Committed chains\<close>

text \<open>The transactions a block decodes to.\<close>

definition block_txs :: "UtxoLib \<Rightarrow> Block \<Rightarrow> UtxoTx list" where
  "block_txs lib b = List.map_filter (ul_dec_tx lib) (decode_payload (b_payload b))"

definition chain_txs :: "UtxoLib \<Rightarrow> Block list \<Rightarrow> UtxoTx list" where
  "chain_txs lib bs = concat (map (block_txs lib) bs)"

lemma utxo_evidence: "apply_evidence (utxo_application lib db config) ps s = Some s"
  by (induction ps) (simp_all add: utxo_application_def)

lemma commit_one_utxo:
  "commit_one (utxo_application lib db config) b acc =
     (case utxo_execute_block lib db config (decode_payload (b_payload b)) (block_context b (context_epoch b (activate_pending b acc))) (ca_app acc) of
        None \<Rightarrow> Inl (ExecutePanic (b_height b), activate_pending b acc)
      | Some (response, s) \<Rightarrow>
          (let acc1 = (activate_pending b acc)\<lparr>ca_app := s, ca_last_app_hash := ebr_app_hash response\<rparr>
           in Inr (acc1\<lparr>ca_responses := ca_responses acc1 @ [response], ca_height := b_height b\<rparr>)))"
proof -
  have a: "ca_app (activate_pending b acc) = ca_app acc" by (simp add: activate_pending_def split: option.split)
  have f: "app_execute_block (utxo_application lib db config) = utxo_execute_block lib db config"
    "app_on_commit (utxo_application lib db config) b ctx s = Some s" "app_tracks_app_hash (utxo_application lib db config)" for ctx s
    by (simp_all add: utxo_application_def)
  have r: "utxo_execute_block lib db config raws ctx s = Some (resp, s') \<Longrightarrow> ebr_validator_updates resp = []" for raws ctx s resp s'
    by (auto simp: utxo_execute_block_def bind_eq_Some_conv default_EndBlockResponse_def)
  show ?thesis
    by (cases "utxo_execute_block lib db config (decode_payload (b_payload b)) (block_context b (context_epoch b (activate_pending b acc))) (ca_app acc)")
      (auto simp: commit_one_def Let_def execute_committed_block_def utxo_evidence a f pending_after_def ok_or_def dest: r)
qed

lemma commit_one_ledger:
  assumes db: "utxo_db_ok db" and ok: "\<forall>m. vm_commit db m \<noteq> None" and c: "no_collision lib (length gs) TX" and m: "uc_max_tx_outputs config \<le> 2 ^ 32"
    and l: "books db (ca_app acc)" "ledger lib db gs ts (ca_app acc)" "set ts \<subseteq> TX" "set (block_txs lib b) \<subseteq> TX"
  shows "\<exists>acc' ts'. commit_one (utxo_application lib db config) b acc = Inr acc' \<and> books db (ca_app acc') \<and>
    ledger lib db gs (ts @ ts') (ca_app acc') \<and> subseq ts' (block_txs lib b) \<and> worth (utxo_view db (ca_app acc')) \<le> worth (utxo_view db (ca_app acc))"
proof -
  from execute_txs_ledger [OF db c m l(1-3)] l(4) obtain ts' s1 where
    s1: "execute_txs lib db config (decode_payload (b_payload b)) (ca_app acc) = Some (ts', s1)" "books db s1" "ledger lib db gs (ts @ ts') s1"
      "subseq ts' (block_txs lib b)" "worth (utxo_view db s1) \<le> worth (utxo_view db (ca_app acc))" unfolding block_txs_def by blast
  from ok obtain m2 where "vm_commit db (us_utxos s1) = Some m2" by blast
  then obtain s2 where s2: "utxo_commit db s1 = Some s2" by (simp add: utxo_commit_def)
  let ?s = "fst (utxo_root db s2)"
  have "utxo_execute_block lib db config (decode_payload (b_payload b)) ctx (ca_app acc) = Some (default_EndBlockResponse, ?s)" for ctx
    using s1(1) s2 by (simp add: utxo_execute_block_def)
  then obtain acc' where acc': "commit_one (utxo_application lib db config) b acc = Inr acc'" "ca_app acc' = ?s"
    by (simp add: commit_one_utxo Let_def)
  note e = utxo_commit_view [OF db s2] utxo_root_view [OF db, of s2]
  note e = e(4-6) [unfolded e(1-3)]
  have "books db ?s" using s1(2) unfolding books_def e .
  moreover have "ledger lib db gs (ts @ ts') ?s" using s1(3) unfolding ledger_def e .
  ultimately show ?thesis using s1(4,5) acc' e(1) by auto
qed

lemma commit_blocks_ledger:
  assumes db: "utxo_db_ok db" and ok: "\<forall>m. vm_commit db m \<noteq> None" and c: "no_collision lib (length gs) TX" and m: "uc_max_tx_outputs config \<le> 2 ^ 32"
  shows "\<lbrakk> books db (ca_app acc); ledger lib db gs ts (ca_app acc); set ts \<subseteq> TX; set (chain_txs lib bs) \<subseteq> TX \<rbrakk> \<Longrightarrow>
    \<exists>acc' ts'. commit_blocks (utxo_application lib db config) bs acc = Inr acc' \<and> books db (ca_app acc') \<and>
      ledger lib db gs (ts @ ts') (ca_app acc') \<and> subseq ts' (chain_txs lib bs) \<and> worth (utxo_view db (ca_app acc')) \<le> worth (utxo_view db (ca_app acc))"
proof (induction bs arbitrary: ts acc)
  case Nil
  then show ?case by (intro exI [of _ acc] exI [of _ "[]"]) (simp add: chain_txs_def)
next
  case (Cons b bs)
  have tx: "set (block_txs lib b) \<subseteq> TX" "set (chain_txs lib bs) \<subseteq> TX" using Cons.prems(4) by (simp_all add: chain_txs_def)
  from commit_one_ledger [OF db ok c m Cons.prems(1-3) tx(1)] obtain acc1 ts1 where
    s1: "commit_one (utxo_application lib db config) b acc = Inr acc1" "books db (ca_app acc1)" "ledger lib db gs (ts @ ts1) (ca_app acc1)"
      "subseq ts1 (block_txs lib b)" "worth (utxo_view db (ca_app acc1)) \<le> worth (utxo_view db (ca_app acc))" by blast
  have "set (ts @ ts1) \<subseteq> TX" using Cons.prems(3) s1(4) tx(1) set_nths_subset [of "block_txs lib b"] by (auto simp: subseq_conv_nths)
  from Cons.IH [OF s1(2,3) this tx(2)] obtain acc' ts2 where
    s2: "commit_blocks (utxo_application lib db config) bs acc1 = Inr acc'" "books db (ca_app acc')" "ledger lib db gs ((ts @ ts1) @ ts2) (ca_app acc')"
      "subseq ts2 (chain_txs lib bs)" "worth (utxo_view db (ca_app acc')) \<le> worth (utxo_view db (ca_app acc1))" by blast
  have "subseq (ts1 @ ts2) (chain_txs lib (b # bs))" using list_emb_append_mono [OF s1(4) s2(4)] by (simp add: chain_txs_def)
  with s1 s2 show ?case by (intro exI [of _ acc'] exI [of _ "ts1 @ ts2"]) simp
qed

section \<open>Balances\<close>

lemma balance_sum:
  assumes "distinct ks" "\<forall>k \<in> set ks. U k \<noteq> None"
  shows "(\<Sum>v \<leftarrow> map to_value (List.map_filter U ks). unat v) = (\<Sum>k \<in> set ks. unat (to_value (the (U k))))"
  using assms by (induction ks) (auto simp: map_filter_simps)

lemma sum_list_u64: "(\<Sum>v \<leftarrow> vs. unat (v :: u64)) < 2 ^ 64 \<Longrightarrow> unat (sum_list vs) = (\<Sum>v \<leftarrow> vs. unat v)"
  by (induction vs) (auto simp: unat_word_ariths)

lemma get_balance_sum:
  assumes db: "utxo_db_ok db" and b: "books db s"
  shows "unat (get_balance db pkh s) =
    (\<Sum>k | \<exists>out. utxo_view db s k = Some out \<and> addr_slot (to_pubkey_hash out) = addr_slot pkh. unat (to_value (the (utxo_view db s k))))"
proof -
  let ?K = "{k. \<exists>out. utxo_view db s k = Some out \<and> addr_slot (to_pubkey_hash out) = addr_slot pkh}"
  let ?ks = "sd_iter db (us_addr_index s) (addr_slot pkh)"
  have K: "set ?ks = ?K" using b by (simp add: books_def)
  have "distinct ?ks" using db by (simp add: utxo_db_ok_def)
  moreover have "\<forall>k \<in> set ?ks. utxo_view db s k \<noteq> None" unfolding K by auto
  ultimately have e: "(\<Sum>v \<leftarrow> map to_value (List.map_filter (utxo_view db s) ?ks). unat v) = (\<Sum>k \<in> ?K. unat (to_value (the (utxo_view db s k))))"
    unfolding K [symmetric] by (rule balance_sum)
  have "?K \<subseteq> dom (utxo_view db s)" by auto
  then have "(\<Sum>k \<in> ?K. unat (to_value (the (utxo_view db s k)))) \<le> worth (utxo_view db s)"
    using b unfolding worth_def books_def by (intro sum_mono2) auto
  also have "\<dots> < 2 ^ 64" using b unat_u64_less [of "us_total_supply s"] by (simp add: books_def del: unat_u64_less)
  finally have "unat (sum_list (map to_value (List.map_filter (utxo_view db s) ?ks))) = (\<Sum>k \<in> ?K. unat (to_value (the (utxo_view db s k))))"
    unfolding e [symmetric] by (rule sum_list_u64)
  then show ?thesis by (simp add: get_balance_def utxo_view_def)
qed

section \<open>The demonstration application\<close>

definition COIN :: u64 where
  "COIN = 100000000"

record DemoUtxoApp =
  da_alice_pk :: hash32
  da_alice_sign :: "bytes \<Rightarrow> bytes"
  da_bob_pkh :: hash32

definition demo_config :: "UtxoLib \<Rightarrow> hash32 \<Rightarrow> hash32 \<Rightarrow> UtxoConfig" where
  "demo_config lib alice_pk bob_pk = default_UtxoConfig\<lparr>
     uc_genesis_utxos := [\<lparr> gu_value = 100 * COIN, gu_pubkey_hash = hash_pubkey lib alice_pk \<rparr>, \<lparr> gu_value = 100 * COIN, gu_pubkey_hash = hash_pubkey lib bob_pk \<rparr>],
     uc_log_on_commit := True\<rparr>"

definition signed_transfer :: "UtxoLib \<Rightarrow> DemoUtxoApp \<Rightarrow> OutPoint \<Rightarrow> u64 \<Rightarrow> UtxoTx" where
  "signed_transfer lib da outpoint value =
     (let input = \<lparr> ti_prev_out = outpoint, ti_signature = replicate 64 0, ti_pubkey = da_alice_pk da \<rparr>;
          tx = \<lparr> tx_inputs = [input],
                 tx_outputs = filter (\<lambda>out. to_value out > 0)
                   [\<lparr> to_value = COIN, to_pubkey_hash = da_bob_pkh da \<rparr>,
                    \<lparr> to_value = value - COIN, to_pubkey_hash = hash_pubkey lib (da_alice_pk da) \<rparr>] \<rparr>
      in tx\<lparr>tx_inputs := [input\<lparr>ti_signature := da_alice_sign da (bytes_of (signing_hash lib tx))\<rparr>]\<rparr>)"

fun scan_genesis :: "UtxoLib \<Rightarrow> ('m, 'd) UtxoDb \<Rightarrow> DemoUtxoApp \<Rightarrow> nat list \<Rightarrow> ('m, 'd) UtxoState \<Rightarrow> UtxoTx option" where
  "scan_genesis lib db da [] s = None"
| "scan_genesis lib db da (i # is) s =
     (let outpoint = \<lparr> op_txid = ul_blake3 lib (to_le_bytes (of_nat i)), op_vout = 0 \<rparr>
      in case get_utxo db outpoint s of
           Some utxo \<Rightarrow>
             if to_pubkey_hash utxo = hash_pubkey lib (da_alice_pk da) \<and> to_value utxo \<ge> COIN
             then Some (signed_transfer lib da outpoint (to_value utxo))
             else scan_genesis lib db da is s
         | None \<Rightarrow> scan_genesis lib db da is s)"

definition build_transfer :: "UtxoLib \<Rightarrow> ('m, 'd) UtxoDb \<Rightarrow> DemoUtxoApp \<Rightarrow> ('m, 'd) UtxoState \<Rightarrow> UtxoTx option" where
  "build_transfer lib db da s =
     (case snd (utxo_query lib db ''balance'' (bytes_of (hash_pubkey lib (da_alice_pk da))) s) of
        None \<Rightarrow> None
      | Some utxo_list \<Rightarrow> if length utxo_list < 8 then None else scan_genesis lib db da [0..<1000] s)"

definition demo_create_payload :: "UtxoLib \<Rightarrow> ('m, 'd) UtxoDb \<Rightarrow> DemoUtxoApp \<Rightarrow> ('m, 'd) UtxoState \<Rightarrow> bytes" where
  "demo_create_payload lib db da s =
     (case build_transfer lib db da s of Some tx \<Rightarrow> utxo_encode_payload lib [tx] | None \<Rightarrow> [])"

definition demo_application :: "UtxoLib \<Rightarrow> ('m, 'd) UtxoDb \<Rightarrow> UtxoConfig \<Rightarrow> DemoUtxoApp \<Rightarrow> ('m, 'd) UtxoState Application" where
  "demo_application lib db config da =
     (utxo_application lib db config)\<lparr>app_create_payload := (\<lambda>ctx s. (demo_create_payload lib db da s, s))\<rparr>"

lemma scan_genesis_Some:
  "scan_genesis lib db da is s = Some tx \<Longrightarrow>
     \<exists>outpoint utxo. get_utxo db outpoint s = Some utxo \<and> to_pubkey_hash utxo = hash_pubkey lib (da_alice_pk da) \<and> COIN \<le> to_value utxo \<and>
       tx = signed_transfer lib da outpoint (to_value utxo)"
  by (induction "is") (auto simp: Let_def split: option.splits if_splits)

lemma u64_split_value: "COIN \<le> v \<Longrightarrow> checked_add COIN (v - COIN) = Some v"
  by (simp add: checked_add_def word_le_nat_alt unat_sub)

text \<open>A transfer the demonstration builds passes validation, the change output included or left out.\<close>

lemma signed_transfer_facts:
  assumes "COIN \<le> v" and tx_def: "tx = signed_transfer lib da op v"
  shows "\<exists>sg. tx_inputs tx = [\<lparr> ti_prev_out = op, ti_signature = sg, ti_pubkey = da_alice_pk da \<rparr>] \<and> sg = da_alice_sign da (bytes_of (signing_hash lib tx))"
    "sum_outputs (tx_outputs tx) 0 = Some v" "\<forall>out \<in> set (tx_outputs tx). to_value out \<noteq> 0" "tx_outputs tx \<noteq> []" "length (tx_outputs tx) \<le> 2"
proof -
  have c: "(0 :: u64) < COIN" "COIN \<noteq> 0" "checked_add 0 COIN = Some COIN" by (simp_all add: COIN_def checked_add_def)
  show "\<exists>sg. tx_inputs tx = [\<lparr> ti_prev_out = op, ti_signature = sg, ti_pubkey = da_alice_pk da \<rparr>] \<and> sg = da_alice_sign da (bytes_of (signing_hash lib tx))"
    by (simp add: tx_def signed_transfer_def Let_def signing_hash_def unsigned_tx_def)
  show "sum_outputs (tx_outputs tx) 0 = Some v"
    using c u64_split_value [OF assms(1)] by (cases "v = COIN") (simp_all add: tx_def signed_transfer_def Let_def word_gt_0)
  show "\<forall>out \<in> set (tx_outputs tx). to_value out \<noteq> 0" "tx_outputs tx \<noteq> []" "length (tx_outputs tx) \<le> 2"
    using c by (auto simp: tx_def signed_transfer_def Let_def)
qed

lemma demo_transfer_valid:
  assumes sign: "vk_from_bytes (ul_ed lib) (bytes_of (da_alice_pk da))"
      "\<forall>m. length (da_alice_sign da m) = 64 \<and> verify_strict (ul_ed lib) (bytes_of (da_alice_pk da)) m (da_alice_sign da m)"
    and limits: "1 \<le> uc_max_tx_inputs config" "2 \<le> uc_max_tx_outputs config" "len \<le> uc_max_tx_size config"
    and tx: "build_transfer lib db da s = Some tx"
  shows "validate_decoded_tx lib db config tx len s"
proof -
  from tx have "scan_genesis lib db da [0..<1000] s = Some tx" by (auto simp: build_transfer_def split: option.splits if_splits)
  from scan_genesis_Some [OF this] obtain op utxo where
    u: "get_utxo db op s = Some utxo" "to_pubkey_hash utxo = hash_pubkey lib (da_alice_pk da)" "COIN \<le> to_value utxo"
      "tx = signed_transfer lib da op (to_value utxo)" by blast
  note f = signed_transfer_facts [OF u(3,4)]
  have "check_inputs lib db (signing_hash lib tx) s (tx_inputs tx) 0 = Some (to_value utxo)"
    using f(1) sign u(1,2) by (auto simp: checked_add_def)
  then show ?thesis using f limits by (auto simp: validate_decoded_tx_def)
qed

section \<open>The property\<close>

text \<open>
  C37. Committing a chain of blocks from the genesis state of the UTXO chain succeeds, and the state then
  reflects a subsequence of the transactions in the blocks: the unspent outputs are exactly those created
  by genesis or by these transactions and not spent by them, no output is spent twice, every spending is
  of an existing output and carries a valid signature under the key its owner hash names, the recorded
  supply is the value of the unspent outputs and never exceeds the genesis allocation, and the balance of
  an address is the value of the unspent outputs in its index slot, without overflow.
\<close>

theorem utxo_value_conserved:
  assumes "utxo_db_ok db" "\<forall>m. vm_commit db m \<noteq> None" "uc_max_tx_outputs config \<le> 2 ^ 32"
    and "length (uc_genesis_utxos config) \<le> 2 ^ 64" "(\<Sum>g \<leftarrow> uc_genesis_utxos config. unat (gu_value g)) < 2 ^ 64"
    and "no_collision lib (length (uc_genesis_utxos config)) (set (chain_txs lib bs))"
    and "ca_app acc = utxo_app_new lib db config"
  shows "\<exists>acc' ts. commit_blocks (utxo_application lib db config) bs acc = Inr acc' \<and> subseq ts (chain_txs lib bs) \<and>
    utxo_view db (ca_app acc') = created lib (uc_genesis_utxos config) ts |` (- set (spent_keys ts)) \<and> distinct (spent_keys ts) \<and>
    (\<forall>t \<in> set ts. \<forall>i \<in> set (tx_inputs t). signed_input lib (created lib (uc_genesis_utxos config) ts) t i) \<and>
    unat (us_total_supply (ca_app acc')) = worth (utxo_view db (ca_app acc')) \<and>
    worth (utxo_view db (ca_app acc')) \<le> (\<Sum>g \<leftarrow> uc_genesis_utxos config. unat (gu_value g)) \<and>
    (\<forall>pkh. unat (get_balance db pkh (ca_app acc')) =
       (\<Sum>k | \<exists>out. utxo_view db (ca_app acc') k = Some out \<and> addr_slot (to_pubkey_hash out) = addr_slot pkh.
          unat (to_value (the (utxo_view db (ca_app acc') k)))))"
proof -
  note n = new_ledger [OF assms(1,6,4,5), folded assms(7)]
  from commit_blocks_ledger [OF assms(1,2,6,3) n(1,2), of bs] obtain acc' ts where
    r: "commit_blocks (utxo_application lib db config) bs acc = Inr acc'" "books db (ca_app acc')"
      "ledger lib db (uc_genesis_utxos config) ts (ca_app acc')" "subseq ts (chain_txs lib bs)"
      "worth (utxo_view db (ca_app acc')) \<le> worth (utxo_view db (ca_app acc))" by auto
  have "unat (us_total_supply (ca_app acc')) = worth (utxo_view db (ca_app acc'))" using r(2) by (simp add: books_def)
  moreover note get_balance_sum [OF assms(1) r(2)]
  ultimately show ?thesis
    using r(1,4,5) n(3) r(3) [unfolded ledger_def] by (intro exI [of _ acc'] exI [of _ ts]) simp
qed

text \<open>A chain of one block with the same transfer twice; the second copy is skipped.\<close>

definition map_db :: "(bytes \<rightharpoonup> TxOutput, u128 \<Rightarrow> bytes list) UtxoDb" where
  "map_db =
     \<lparr> vm_new = Map.empty, vm_get = (\<lambda>m. m), vm_insert = (\<lambda>k v m. m(k \<mapsto> v)), vm_remove = (\<lambda>k m. m(k := None)), vm_commit = Some,
       vm_merkle_root = (\<lambda>m. (m, Some [])), vm_prove = (\<lambda>k m. (m, Some [])),
       sd_new = (\<lambda>s. []), sd_insert = (\<lambda>s k d. d(s := k # d s)), sd_remove = (\<lambda>s k d. Some (d(s := removeAll k (d s)))),
       sd_iter = (\<lambda>d s. remdups (d s)), sd_page = (\<lambda>d s size i. take size (drop (i * size) (d s))) \<rparr>"

definition sample_tx :: UtxoTx where
  "sample_tx = \<lparr> tx_inputs = [\<lparr> ti_prev_out = \<lparr> op_txid = hash_rep 0, op_vout = 0 \<rparr>, ti_signature = replicate 64 50, ti_pubkey = hash_rep 50 \<rparr>],
     tx_outputs = [\<lparr> to_value = 70, to_pubkey_hash = hash_rep 51 \<rparr>, \<lparr> to_value = 20, to_pubkey_hash = hash_rep 50 \<rparr>] \<rparr>"

definition sample_lib :: UtxoLib where
  "sample_lib =
     \<lparr> ul_blake3 = (\<lambda>b. hash_rep (hd b)),
       ul_ed = \<lparr> vk_from_bytes = (\<lambda>pk. True), verify_strict = (\<lambda>pk m sg. sg = replicate 64 (hd pk)), verify_batch = (\<lambda>xs. True) \<rparr>,
       ul_enc_tx = (\<lambda>t. 200 # replicate 9 (of_nat (length (tx_outputs t)))), ul_dec_tx = (\<lambda>b. if b = 200 # replicate 9 2 then Some sample_tx else None),
       ul_enc_output = (\<lambda>out. to_le_bytes (to_value out)) \<rparr>"

definition sample_utxo_config :: UtxoConfig where
  "sample_utxo_config = default_UtxoConfig\<lparr>uc_genesis_utxos := [\<lparr> gu_value = 100, gu_pubkey_hash = hash_rep 50 \<rparr>, \<lparr> gu_value = 60, gu_pubkey_hash = hash_rep 51 \<rparr>]\<rparr>"

definition sample_chain :: "Block list" where
  "sample_chain = [genesis_block\<lparr>b_height := 1, b_payload := utxo_encode_payload sample_lib [sample_tx, sample_tx]\<rparr>]"

lemma map_db_ok: "utxo_db_ok map_db" "\<forall>m. vm_commit map_db m \<noteq> None"
  by (simp_all add: utxo_db_ok_def map_db_def)

lemma utxo_payload:
  "\<forall>t \<in> set txs. length (ul_enc_tx lib t) < 2 ^ 32 \<Longrightarrow> decode_payload (utxo_encode_payload lib txs) = map (ul_enc_tx lib) txs"
  using decode_encode_payload [of "map (ul_enc_tx lib) txs"] by (simp add: utxo_encode_payload_def encode_payload_def comp_def)

lemma sample_chain_txs: "chain_txs sample_lib sample_chain = [sample_tx, sample_tx]"
proof -
  have "decode_payload (utxo_encode_payload sample_lib [sample_tx, sample_tx]) = map (ul_enc_tx sample_lib) [sample_tx, sample_tx]"
    by (rule utxo_payload) (simp add: sample_lib_def)
  then show ?thesis by (simp add: chain_txs_def block_txs_def sample_chain_def map_filter_simps) (simp add: sample_lib_def sample_tx_def)
qed

lemma hd_to_le_bytes: "hd (to_le_bytes w) = of_nat (unat w mod 256)"
proof -
  have "to_le_bytes w = nat_le_bytes (Suc 7) (unat w)" by (simp add: to_le_bytes_def)
  then show ?thesis by (simp only: nat_le_bytes.simps list.sel)
qed

lemma sample_no_collision: "no_collision sample_lib 2 {sample_tx}"
  by (simp add: no_collision_def lessThan_nat_numeral lessThan_Suc sample_lib_def inj_on_def hd_to_le_bytes unsigned_tx_def sample_tx_def)

theorem utxo_value_conserved_witness:
  "\<exists>acc' ts. commit_blocks (utxo_application sample_lib map_db sample_utxo_config) sample_chain
       (initial_acc (epoch_genesis sample_set) None None 0 (utxo_app_new sample_lib map_db sample_utxo_config)) = Inr acc' \<and>
     subseq ts [sample_tx, sample_tx] \<and> distinct (spent_keys ts) \<and>
     unat (us_total_supply (ca_app acc')) = worth (utxo_view map_db (ca_app acc')) \<and> worth (utxo_view map_db (ca_app acc')) \<le> 160"
proof -
  let ?acc = "initial_acc (epoch_genesis sample_set) None None 0 (utxo_app_new sample_lib map_db sample_utxo_config)"
  have g: "(\<Sum>g \<leftarrow> uc_genesis_utxos sample_utxo_config. unat (gu_value g)) = 160" "length (uc_genesis_utxos sample_utxo_config) = 2"
    "uc_max_tx_outputs sample_utxo_config = 256" by (simp_all add: sample_utxo_config_def default_UtxoConfig_def)
  have n: "no_collision sample_lib (length (uc_genesis_utxos sample_utxo_config)) (set (chain_txs sample_lib sample_chain))"
    using sample_no_collision by (simp add: g sample_chain_txs)
  have "ca_app ?acc = utxo_app_new sample_lib map_db sample_utxo_config" by (simp add: initial_acc_def)
  from utxo_value_conserved [OF map_db_ok _ _ _ n this] show ?thesis by (simp add: g sample_chain_txs) blast
qed

end
