(* ===== verification/Spec2Isabelle.thy ===== *)
theory Spec2Isabelle
  imports Agreement Wal Mempool Staking Light Network_Inv Utxo
begin

text \<open>
  A verification library for the consensus core of hotmint, a HotStuff-2 style Byzantine fault
  tolerant replication engine (\<open>src/crates\<close>).

  \<^bold>\<open>The program.\<close> A replica runs \<open>ConsensusEngine\<close> (\<open>hotmint-consensus/src/engine.rs\<close>): it verifies each
  message, dispatches it to the functions of \<open>view_protocol.rs\<close>, counts votes in the
  \<open>VoteCollector\<close>, wishes for the next view in the \<open>Pacemaker\<close>, commits a chain of blocks when two
  certificates exist for one block (\<open>commit.rs\<close>), writes blocks and certificates to a block store and
  its vote records, lock and view to durable storage. The votes of a block in one view form a quorum
  certificate; a second round of votes for it forms a double certificate, which commits the block.

  \<^bold>\<open>Theories, in the order of the code.\<close>

  \<^item> \<open>Prelude\<close>: results (\<open>rbind\<close>, \<open>ok_or\<close>), fixed-width arithmetic, byte encodings, ordered maps.
  \<^item> \<open>Types\<close>: \<open>hotmint-types\<close>: identifiers as 64-bit words, 32-byte hashes, blocks, votes, certificates,
    messages.
  \<^item> \<open>Validator_Set\<close>: \<open>validator.rs\<close>, \<open>leader.rs\<close>. Invariant \<open>vs_wf\<close>; updates refine a map; leader rotation.
  \<^item> \<open>Signing\<close>: the byte strings that are signed and the block hash; they bind their content.
  \<^item> \<open>Aggregate\<close>: \<open>hotmint-crypto\<close> and the certificate check of the engine; quorum intersection.
  \<^item> \<open>Vote_Collector\<close>: \<open>vote_collector.rs\<close>; invariant \<open>vc_wf\<close>; certificates formed exactly at quorum and
    accepted by the check.
  \<^item> \<open>Consensus_State\<close>: \<open>state.rs\<close>; the double-sign guard.
  \<^item> \<open>Liveness\<close>: \<open>liveness.rs\<close>; who is reported offline.
  \<^item> \<open>Pacemaker\<close>: \<open>pacemaker.rs\<close>; timeout certificates exactly at quorum; timers.
  \<^item> \<open>Block_Store\<close>: both implementations of the block store refine one specification of blocks and commit
    certificates, and answer alike after any writes of the trait; the in-memory store keeps the trait's
    defaults for the transaction index and the block results.
  \<^item> \<open>Commit\<close>: \<open>commit.rs\<close>; what a commit executes, in which order, what it leaves alone on an error,
    that batching does not matter.
  \<^item> \<open>Evidence_Store\<close>: both stores of equivocation proofs refine one specification.
  \<^item> \<open>Wal\<close>: \<open>wal.rs\<close> over the bytes of the file, with crashes at any byte.
  \<^item> \<open>Persistence\<close>: \<open>consensus_state.rs\<close> of \<open>hotmint-storage\<close> and the restoring in \<open>node.rs\<close>.
  \<^item> \<open>Mempool\<close>: \<open>hotmint-mempool\<close>; what is admitted and displaced, and what a collected payload decodes to.
  \<^item> \<open>Staking\<close>: \<open>hotmint-staking\<close>; the books balance after any operations, a slash takes what it reports,
    and the computed updates turn the validator set into the formal list. The store's interface is the
    locale \<open>staking_store\<close>, interpreted for the in-memory store.
  \<^item> \<open>Utxo\<close>: \<open>examples/utxo-chain\<close>, an application of the commit loop: whatever blocks are committed, no output
    is spent twice or without its owner's signature, and the supply is what genesis allocated, less fees.
  \<^item> \<open>View_Protocol\<close>: \<open>view_protocol.rs\<close>; when a replica votes and what it saves first; a leader's proposal
    returns and compatible replicas vote for it.
  \<^item> \<open>Engine_Verify\<close>: the verification methods of \<open>engine.rs\<close>.
  \<^item> \<open>Engine\<close>: the handlers of \<open>engine.rs\<close> over a record of the engine's fields.
  \<^item> \<open>Sync\<close>: \<open>sync.rs\<close>; replaying the blocks of a peer derives what live commits derive, and a refused
    block changes nothing.
  \<^item> \<open>Light\<close>: \<open>hotmint-light\<close>; which sequences of headers a light client accepts.
  \<^item> \<open>Peers\<close>: \<open>codec.rs\<close>, \<open>peer.rs\<close>, \<open>pex.rs\<close> and the routing table of \<open>service.rs\<close>; decoding inverts encoding, the
    table stays one-to-one.
  \<^item> \<open>Network\<close>: \<open>service.rs\<close>; the state of the network service and its handlers. What it asks litep2p and the
    channels to do are effects; a frame above the maximum of its protocol (\<open>sized\<close>) is none. Clock, queue
    room, iteration orders and random choices come with each event.
  \<^item> \<open>Network_Inv\<close>: over any events, the service keeps its invariant, attributes messages to validators by
    routes whose origin is known (configured, or by an announced key), relays no message twice within
    10000, and a broadcast that fits a frame reaches the engines of its peers.
  \<^item> \<open>Engine_Rules\<close>: runs of the engine, and the locale \<open>engine_rules\<close>: a predicate that every kind of state
    change keeps is kept by every handler and every run.
  \<^item> \<open>Engine_Inv\<close>: its interpretation for vote records, monotone fields and bounded collectors; no vote
    is contradicted after a crash; view changes return.
  \<^item> \<open>Fork_Attempt\<close>: a concrete run of three engines against a leader that proposes two blocks in one view.
  \<^item> \<open>Replica_Safety\<close>: a second interpretation of \<open>engine_rules\<close>, for one replica of a network with a fixed
    validator set: which certificates it holds, what each vote it signed rests on, and that the blocks
    its application executed form one certified chain.
  \<^item> \<open>Agreement\<close>: any number of such replicas among arbitrary messages: their executed chains never
    fork. The runs start afresh, without a restart in between, and the application asks for no
    validator updates; both are hypotheses of the statement (\<open>honest_run\<close>, \<open>journaled\<close>).

  \<^bold>\<open>Conventions.\<close> A struct is a record with prefixed fields, an enum a datatype, a \<open>Result\<close> a sum whose
  left side is the error, \<open>u64\<close> a 64-bit word, \<open>usize\<close> a natural number. A \<open>HashMap\<close> that is only looked
  up is a map, one that is iterated an association list, a \<open>BTreeMap\<close> a sorted association list. What
  the engine sends and signs is a log of effects. A panic, a process exit and a call that never
  returns are values of \<open>engine_stop\<close>.

  \<^bold>\<open>Parameters.\<close> blake3, Ed25519, postcard, floating-point scaling, the clock, and the callbacks of the
  application are arguments of the definitions that use them. Statements that need something of them
  name it as a hypothesis.

  \<^bold>\<open>Fuel.\<close> A view may be entered from within the entering of a view: the leader of a view votes for its
  own block, and with a quorum of power in its own hands it certifies and commits the block and enters
  the next view, in one nested call. \<open>advance_view_to\<close> counts the nesting.

  \<^bold>\<open>Not modelled.\<close> How the loops of the engine and of the network service wait for their channels and
  timers (a run takes their events as a list), litep2p below the service, RPC, the ABCI bridge, cluster
  management, configuration files, metrics and the benchmark and
  cluster programs of the examples.
\<close>

end
